(* ===== verification/Prelude.thy ===== *)
theory Prelude
  imports Main "HOL-Library.While_Combinator"
begin

section \<open>Prelude: errors, sequencing and shared list lemmas\<close>

text \<open>
  What every component of the model shares. A Python function that may raise returns a value of
  \<open>py_error + 'a\<close>: \<open>Inl\<close> is the exception that leaves the call, \<open>Inr\<close> the value it returns.
  \<open>ebind\<close> is the sequencing of two such calls, \<open>emap\<close> a comprehension whose body may raise.
  The lemmas below are about lists and are used by several theories; \<open>err_simps\<close> collects the
  rules that run the error type.
\<close>

datatype py_error =
    ValueError
  | KeyError
  | TypeError
  | IndexError
  | AssertionError
  | OverflowError
  | PredicateError
  | ParseError
  | InputRefused string string
  | WorkerError string string
  | FieldDefinitionError
  | StopIteration
  | CanonicalRefusal string string
  | LookupError
  | OSError
  | RuntimeError
  | AuditWriteError
  | StatementWriteError
  | AnchorRefused
  | SwapRejected "string list"
  | SubsetError string
  | StructError
  | AttributeError
  | SyntaxError

type_synonym 'a result = "py_error + 'a"

named_theorems err_simps
named_theorems model_defs

definition ebind :: "'e + 'a \<Rightarrow> ('a \<Rightarrow> 'e + 'b) \<Rightarrow> 'e + 'b" where
  "ebind r f = (case r of Inl e \<Rightarrow> Inl e | Inr x \<Rightarrow> f x)"

lemma ebind_simps [simp, err_simps]:
  "ebind (Inl e) f = Inl e"
  "ebind (Inr x) f = f x"
  by (simp_all add: ebind_def)

lemma ebind_eq_Inr [err_simps]: "ebind r f = Inr y \<longleftrightarrow> (\<exists>x. r = Inr x \<and> f x = Inr y)"
  by (cases r) auto

lemma ebind_eq_Inl [err_simps]: "ebind r f = Inl e \<longleftrightarrow> r = Inl e \<or> (\<exists>x. r = Inr x \<and> f x = Inl e)"
  by (cases r) auto

lemma ebind_cong [fundef_cong]:
  "r = r' \<Longrightarrow> (\<And>x. r' = Inr x \<Longrightarrow> f x = g x) \<Longrightarrow> ebind r f = ebind r' g"
  by (cases r') auto

fun emap :: "('a \<Rightarrow> 'e + 'b) \<Rightarrow> 'a list \<Rightarrow> 'e + 'b list" where
  "emap f [] = Inr []"
| "emap f (x # xs) = ebind (f x) (\<lambda>y. ebind (emap f xs) (\<lambda>ys. Inr (y # ys)))"

lemma emap_cong [fundef_cong]:
  "xs = ys \<Longrightarrow> (\<And>x. x \<in> set ys \<Longrightarrow> f x = g x) \<Longrightarrow> emap f xs = emap g ys"
proof (induction ys arbitrary: xs)
  case Nil
  then show ?case by simp
next
  case (Cons y ys)
  have "emap f ys = emap g ys" by (rule Cons.IH) (use Cons.prems in auto)
  with Cons.prems show ?case by simp
qed

lemma emap_total: "(\<And>x. x \<in> set xs \<Longrightarrow> \<exists>y. f x = Inr y) \<Longrightarrow> \<exists>ys. emap f xs = Inr ys"
proof (induction xs)
  case Nil
  then show ?case by simp
next
  case (Cons x xs)
  obtain y where "f x = Inr y" using Cons.prems by force
  moreover obtain ys where "emap f xs = Inr ys" using Cons.IH Cons.prems by force
  ultimately show ?case by simp
qed

lemma emap_Inr_iff:
  "emap f xs = Inr ys \<longleftrightarrow> length ys = length xs \<and> (\<forall>i < length xs. f (xs ! i) = Inr (ys ! i))"
proof (induction xs arbitrary: ys)
  case Nil
  then show ?case by auto
next
  case (Cons x xs)
  show ?case
  proof (cases ys)
    case Nil
    then show ?thesis by (auto simp: ebind_eq_Inr)
  next
    case [simp]: (Cons y ys')
    have all: "(\<forall>i < length (x # xs). f ((x # xs) ! i) = Inr ((y # ys') ! i)) \<longleftrightarrow>
        f x = Inr y \<and> (\<forall>i < length xs. f (xs ! i) = Inr (ys' ! i))"
      by (simp add: All_less_Suc2)
    show ?thesis using Cons.IH [of ys'] all by (auto simp: ebind_eq_Inr)
  qed
qed

lemma emap_length: "emap f xs = Inr ys \<Longrightarrow> length ys = length xs"
  by (simp add: emap_Inr_iff)

lemma emap_Inr_map: "(\<And>x. x \<in> set xs \<Longrightarrow> f x = Inr (g x)) \<Longrightarrow> emap f xs = Inr (map g xs)"
  by (induction xs) auto

lemma emap_append:
  "emap f (xs @ ys) = ebind (emap f xs) (\<lambda>as. ebind (emap f ys) (\<lambda>bs. Inr (as @ bs)))"
proof (induction xs)
  case Nil
  then show ?case by (cases "emap f ys") auto
next
  case (Cons x xs)
  then show ?case by (cases "f x"; cases "emap f xs"; cases "emap f ys") auto
qed

text \<open>Python's dictionary: an association list in insertion order, an update in place.\<close>

type_synonym ('k, 'v) pydict = "('k \<times> 'v) list"

fun dict_set :: "('k, 'v) pydict \<Rightarrow> 'k \<Rightarrow> 'v \<Rightarrow> ('k, 'v) pydict" where
  "dict_set [] k v = [(k, v)]"
| "dict_set ((a, b) # d) k v = (if a = k then (a, v) # d else (a, b) # dict_set d k v)"

lemma map_of_dict_set [simp]: "map_of (dict_set d k v) = (map_of d)(k \<mapsto> v)"
  by (induction d k v rule: dict_set.induct) (auto simp: fun_eq_iff)

lemma fst_set_dict_set [simp]: "fst ` set (dict_set d k v) = insert k (fst ` set d)"
  by (induction d k v rule: dict_set.induct) auto

lemma distinct_dict_set [simp]:
  "distinct (map fst d) \<Longrightarrow> distinct (map fst (dict_set d k v))"
proof (induction d k v rule: dict_set.induct)
  case (2 a b d k v)
  have "fst ` set (dict_set d k v) = insert k (fst ` set d)" by simp
  with 2 show ?case by auto
qed simp

lemma map_fst_dict_set_mem: "k \<in> fst ` set d \<Longrightarrow> map fst (dict_set d k v) = map fst d"
  by (induction d k v rule: dict_set.induct) auto

lemma map_fst_dict_set_new: "k \<notin> fst ` set d \<Longrightarrow> dict_set d k v = d @ [(k, v)]"
  by (induction d k v rule: dict_set.induct) auto

lemma length_dict_set_new: "k \<notin> fst ` set d \<Longrightarrow> length (dict_set d k v) = Suc (length d)"
  by (simp add: map_fst_dict_set_new)

text \<open>The first element of a list that satisfies a test: \<open>next(x for x in xs if p(x))\<close>.\<close>

lemma find_Some_nth:
  "List.find p xs = Some x \<Longrightarrow> \<exists>i < length xs. xs ! i = x \<and> p x \<and> (\<forall>j < i. \<not> p (xs ! j))"
  by (auto simp: find_Some_iff)

lemma concat_length_le: "xs \<in> set xss \<Longrightarrow> length xs \<le> length (concat xss)"
  by (induction xss) auto

lemma nth_append_first: "i < length xs \<Longrightarrow> (xs @ ys) ! i = xs ! i"
  by (simp add: nth_append)

text \<open>\<open>d.setdefault(k, []).append(v)\<close>.\<close>

definition dict_append :: "('k, 'v list) pydict \<Rightarrow> 'k \<Rightarrow> 'v \<Rightarrow> ('k, 'v list) pydict" where
  "dict_append d k v = dict_set d k ((case map_of d k of None \<Rightarrow> [] | Some vs \<Rightarrow> vs) @ [v])"

lemma map_of_dict_append:
  "map_of (dict_append d k v) = (map_of d)(k \<mapsto> (case map_of d k of None \<Rightarrow> [] | Some vs \<Rightarrow> vs) @ [v])"
  by (simp add: dict_append_def)

lemma distinct_dict_append: "distinct (map fst d) \<Longrightarrow> distinct (map fst (dict_append d k v))"
  by (simp add: dict_append_def)

subsection \<open>Operations on a state\<close>

text \<open>
  An operation returns the new state and a value or an exception. The state is passed on to the next operation;
  an exception ends the call and keeps what was done.
\<close>

definition then_do :: "'s \<times> 'a result \<Rightarrow> ('a \<Rightarrow> 's \<Rightarrow> 's \<times> 'b result) \<Rightarrow> 's \<times> 'b result" where
  "then_do p f = (case p of (h, Inl e) \<Rightarrow> (h, Inl e) | (h, Inr x) \<Rightarrow> f x h)"

lemma then_do_simps [simp]:
  "then_do (h, Inl e) f = (h, Inl e)" "then_do (h, Inr x) f = f x h"
  by (simp_all add: then_do_def)

lemma then_do_cases:
  assumes "then_do p f = (h', r)"
  obtains (raised) e where "p = (h', Inl e)" "r = Inl e" | (went) h x where "p = (h, Inr x)" "f x h = (h', r)"
  using assms by (cases p; cases "snd p") auto

end
