(* ===== verification/PyStr.thy ===== *)
theory PyStr
  imports Prelude
begin

section \<open>Python strings\<close>

text \<open>
  A Python \<open>str\<close> is a list of characters; the model covers the code points 0 to 255, which is the
  type \<open>char\<close>. The operations of \<open>str\<close> the sources use are written out for that range: which
  characters are white space, the lower case of a letter, \<open>strip\<close>, \<open>split\<close> at the first occurrence
  of a separator, \<open>startswith\<close>, the substring test of \<open>in\<close>, \<open>replace\<close> of one character and
  \<open>splitlines\<close>.
\<close>

definition py_isspace :: "char \<Rightarrow> bool" where
  "py_isspace c = (let n = (of_char c :: nat) in
     (9 \<le> n \<and> n \<le> 13) \<or> (28 \<le> n \<and> n \<le> 32) \<or> n = 133 \<or> n = 160)"

definition py_lower_char :: "char \<Rightarrow> char" where
  "py_lower_char c = (let n = (of_char c :: nat) in
     if (65 \<le> n \<and> n \<le> 90) \<or> (192 \<le> n \<and> n \<le> 222 \<and> n \<noteq> 215) then char_of (n + 32) else c)"

definition py_lower :: "string \<Rightarrow> string" where
  "py_lower s = map py_lower_char s"

definition lstrip :: "string \<Rightarrow> string" where
  "lstrip s = dropWhile py_isspace s"

definition rstrip :: "string \<Rightarrow> string" where
  "rstrip s = rev (dropWhile py_isspace (rev s))"

definition strip :: "string \<Rightarrow> string" where
  "strip s = rstrip (lstrip s)"

definition startswith :: "string \<Rightarrow> string \<Rightarrow> bool" where
  "startswith s p = (take (length p) s = p)"

fun str_contains :: "string \<Rightarrow> string \<Rightarrow> bool" where
  "str_contains p [] = (p = [])"
| "str_contains p (c # s) = (take (length p) (c # s) = p \<or> str_contains p s)"

text \<open>\<open>s.split(sep, 1)\<close> for a one character separator that occurs in \<open>s\<close>: what is before it and after it.\<close>

definition split_once :: "char \<Rightarrow> string \<Rightarrow> string \<times> string" where
  "split_once c s = (takeWhile (\<lambda>x. x \<noteq> c) s, drop 1 (dropWhile (\<lambda>x. x \<noteq> c) s))"

text \<open>\<open>s.split(sep)\<close> for a one character separator.\<close>

fun split_char :: "char \<Rightarrow> string \<Rightarrow> string list" where
  "split_char c [] = [[]]"
| "split_char c (x # s) =
     (if x = c then [] # split_char c s
      else (case split_char c s of [] \<Rightarrow> [[x]] | p # ps \<Rightarrow> (x # p) # ps))"

definition replace_char :: "char \<Rightarrow> char \<Rightarrow> string \<Rightarrow> string" where
  "replace_char a b s = map (\<lambda>x. if x = a then b else x) s"

text \<open>\<open>\w\<close> of a regular expression: a letter, a number or an underscore; above 127 those of the Latin-1 block.\<close>

definition word_char :: "char \<Rightarrow> bool" where
  "word_char c = (let n = (of_char c :: nat) in
     (48 \<le> n \<and> n \<le> 57) \<or> (65 \<le> n \<and> n \<le> 90) \<or> (97 \<le> n \<and> n \<le> 122) \<or> n = 95 \<or>
     n \<in> {170, 178, 179, 181, 185, 186, 188, 189, 190} \<or> (192 \<le> n \<and> n \<noteq> 215 \<and> n \<noteq> 247))"

text \<open>The line boundaries of \<open>str.splitlines\<close> below code point 256; \<open>\<r>\<n>\<close> is one boundary.\<close>

definition is_linebreak :: "char \<Rightarrow> bool" where
  "is_linebreak c = (let n = (of_char c :: nat) in (10 \<le> n \<and> n \<le> 13) \<or> (28 \<le> n \<and> n \<le> 30) \<or> n = 133)"

fun lines_loop :: "string \<Rightarrow> string \<Rightarrow> string list" where
  "lines_loop cur [] = (if cur = [] then [] else [rev cur])"
| "lines_loop cur [c] = (if is_linebreak c then [rev cur] else [rev (c # cur)])"
| "lines_loop cur (c # d # s) =
     (if c = CHR 0x0D \<and> d = CHR 0x0A then rev cur # lines_loop [] s
      else if is_linebreak c then rev cur # lines_loop [] (d # s)
      else lines_loop (c # cur) (d # s))"

definition splitlines :: "string \<Rightarrow> string list" where
  "splitlines s = lines_loop [] s"

text \<open>Lexicographic order by code point, the order of \<open>sorted\<close> on strings.\<close>

fun str_less :: "string \<Rightarrow> string \<Rightarrow> bool" where
  "str_less _ [] = False"
| "str_less [] (_ # _) = True"
| "str_less (a # s) (b # t) =
     ((of_char a :: nat) < of_char b \<or> (a = b \<and> str_less s t))"

definition str_le :: "string \<Rightarrow> string \<Rightarrow> bool" where
  "str_le s t = (s = t \<or> str_less s t)"

lemma str_less_irrefl [simp]: "\<not> str_less s s"
  by (induction s) auto

lemma str_less_trans: "str_less s t \<Longrightarrow> str_less t u \<Longrightarrow> str_less s u"
proof (induction s t arbitrary: u rule: str_less.induct)
  case (2 a s)
  then show ?case by (cases u) auto
next
  case (3 a s b t)
  then show ?case by (cases u) auto
qed simp

lemma str_less_linear: "str_less s t \<or> s = t \<or> str_less t s"
proof (induction s t rule: str_less.induct)
  case (1 s)
  then show ?case by (cases s) auto
next
  case (3 a s b t)
  have "(of_char a :: nat) < of_char b \<or> a = b \<or> (of_char b :: nat) < of_char a"
    by (metis linorder_neqE_nat of_char_eq_iff)
  with 3 show ?case by auto
qed auto

lemma str_le_refl [simp]: "str_le s s"
  by (simp add: str_le_def)

lemma str_le_trans: "str_le s t \<Longrightarrow> str_le t u \<Longrightarrow> str_le s u"
  by (auto simp: str_le_def intro: str_less_trans)

lemma str_le_antisym: "str_le s t \<Longrightarrow> str_le t s \<Longrightarrow> s = t"
  by (auto simp: str_le_def dest: str_less_trans)

lemma str_le_linear: "str_le s t \<or> str_le t s"
  using str_less_linear [of s t] by (auto simp: str_le_def)

text \<open>\<open>sorted\<close> on distinct strings, by insertion: Python's sort is stable and by the same order.\<close>

fun str_insert :: "string \<Rightarrow> string list \<Rightarrow> string list" where
  "str_insert x [] = [x]"
| "str_insert x (y # ys) = (if str_le x y then x # y # ys else y # str_insert x ys)"

fun str_sort :: "string list \<Rightarrow> string list" where
  "str_sort [] = []"
| "str_sort (x # xs) = str_insert x (str_sort xs)"

lemma set_str_insert [simp]: "set (str_insert x ys) = insert x (set ys)"
  by (induction ys) auto

lemma set_str_sort [simp]: "set (str_sort xs) = set xs"
  by (induction xs) auto

lemma length_str_insert [simp]: "length (str_insert x ys) = Suc (length ys)"
  by (induction ys) auto

lemma length_str_sort [simp]: "length (str_sort xs) = length xs"
  by (induction xs) auto

lemma distinct_str_insert [simp]: "distinct (str_insert x ys) \<longleftrightarrow> x \<notin> set ys \<and> distinct ys"
  by (induction ys) auto

lemma distinct_str_sort [simp]: "distinct (str_sort xs) \<longleftrightarrow> distinct xs"
  by (induction xs) auto

lemma sorted_str_insert: "sorted_wrt str_le ys \<Longrightarrow> sorted_wrt str_le (str_insert x ys)"
proof (induction ys)
  case (Cons y ys)
  then show ?case
    using str_le_linear [of x y] by (auto intro: str_le_trans)
qed simp

lemma sorted_str_sort: "sorted_wrt str_le (str_sort xs)"
  by (induction xs) (auto intro: sorted_str_insert)

lemma sorted_wrt_str_le_unique:
  "sorted_wrt str_le xs \<Longrightarrow> sorted_wrt str_le ys \<Longrightarrow> distinct xs \<Longrightarrow> distinct ys \<Longrightarrow>
   set xs = set ys \<Longrightarrow> xs = ys"
proof (induction xs arbitrary: ys)
  case Nil
  then show ?case by simp
next
  case (Cons x xs)
  then obtain y ys' where ys: "ys = y # ys'" by (cases ys) auto
  have "x = y"
  proof (rule ccontr)
    assume "x \<noteq> y"
    with Cons.prems ys have "x \<in> set ys'" "y \<in> set xs" by auto
    with Cons.prems ys have "str_le x y" "str_le y x" by auto
    with \<open>x \<noteq> y\<close> show False by (auto dest: str_le_antisym)
  qed
  moreover have "set xs = set ys'"
    using Cons.prems ys \<open>x = y\<close> by (simp add: insert_ident)
  ultimately show ?case using Cons ys by auto
qed

lemma startswith_append [simp]: "startswith (p @ s) p"
  by (simp add: startswith_def)

lemma startswith_iff: "startswith s p \<longleftrightarrow> (\<exists>t. s = p @ t)"
proof
  assume "startswith s p"
  then have "s = p @ drop (length p) s" by (metis append_take_drop_id startswith_def)
  then show "\<exists>t. s = p @ t" by blast
qed auto

lemma str_contains_iff: "str_contains p s \<longleftrightarrow> (\<exists>a b. s = a @ p @ b)"
proof (induction p s rule: str_contains.induct)
  case (1 p)
  then show ?case by auto
next
  case (2 p c s)
  show ?case
  proof
    assume "str_contains p (c # s)"
    then consider "startswith (c # s) p" | "str_contains p s" by (auto simp: startswith_def)
    then show "\<exists>a b. c # s = a @ p @ b"
    proof cases
      case 1
      then obtain t where "c # s = [] @ p @ t" by (auto simp: startswith_iff)
      then show ?thesis by blast
    next
      case two: 2
      then obtain a b where "s = a @ p @ b" using 2 by blast
      then have "c # s = (c # a) @ p @ b" by simp
      then show ?thesis by blast
    qed
  next
    assume "\<exists>a b. c # s = a @ p @ b"
    then obtain a b where ab: "c # s = a @ p @ b" by blast
    show "str_contains p (c # s)"
    proof (cases a)
      case Nil
      with ab have "take (length p) (c # s) = p" by simp
      then show ?thesis by simp
    next
      case (Cons x a')
      with ab have "s = a' @ p @ b" by simp
      with 2 have "str_contains p s" by blast
      then show ?thesis by simp
    qed
  qed
qed

lemma strip_nonempty_last: "strip s \<noteq> [] \<Longrightarrow> \<not> py_isspace (last (strip s))"
proof -
  assume a: "strip s \<noteq> []"
  let ?d = "dropWhile py_isspace (rev (lstrip s))"
  have d: "?d \<noteq> []" using a by (simp add: strip_def rstrip_def)
  then have "last (strip s) = hd ?d" by (simp add: strip_def rstrip_def last_rev)
  then show ?thesis using hd_dropWhile [OF d] by simp
qed

lemma strip_nonempty_hd: "strip s \<noteq> [] \<Longrightarrow> \<not> py_isspace (hd (strip s))"
proof -
  assume a: "strip s \<noteq> []"
  have pre: "\<exists>t. lstrip s = strip s @ t"
    by (metis rstrip_def strip_def rev_append rev_rev_ident takeWhile_dropWhile_id)
  then have "hd (strip s) = hd (lstrip s)" "lstrip s \<noteq> []" using a by (metis hd_append2, auto)
  then show ?thesis using hd_dropWhile [of py_isspace s] by (simp add: lstrip_def)
qed

lemma strip_fixed: "s \<noteq> [] \<Longrightarrow> \<not> py_isspace (hd s) \<Longrightarrow> \<not> py_isspace (last s) \<Longrightarrow> strip s = s"
proof -
  assume s: "s \<noteq> []" "\<not> py_isspace (hd s)" "\<not> py_isspace (last s)"
  then have "lstrip s = s" by (cases s) (auto simp: lstrip_def)
  moreover have "dropWhile py_isspace (rev s) = rev s" using s by (cases "rev s") (auto simp: last_rev [symmetric] hd_rev)
  ultimately show ?thesis by (simp add: strip_def rstrip_def)
qed

lemma strip_Nil [simp]: "strip [] = []"
  by (simp add: strip_def lstrip_def rstrip_def)

lemma strip_strip [simp]: "strip (strip s) = strip s"
proof (cases "strip s = []")
  case False
  then show ?thesis by (intro strip_fixed strip_nonempty_hd strip_nonempty_last)
qed simp

end
