(* ===== verification/Zeckendorf.thy ===== *)
theory Zeckendorf
  imports PyStr
begin

section \<open>The Fibonacci code (\<open>prismpath/telemetry/zeckendorf.py\<close>)\<close>

text \<open>
  The wire of the telemetry layer is a Python string of the characters \<open>0\<close> and \<open>1\<close>. This theory
  models the codec of one positive integer (\<open>encode\<close>, \<open>decode\<close>), of a stream (\<open>encode_stream\<close>,
  \<open>decode_stream\<close>) and proves that a codeword is read back, that the decoder accepts no other
  string of bits, that a stream frames itself, and that a stream is decoded without an exception.
\<close>

abbreviation b0 :: char where "b0 \<equiv> CHR ''0''"
abbreviation b1 :: char where "b1 \<equiv> CHR ''1''"

definition fibs_upto :: "int \<Rightarrow> int list" where
  "fibs_upto limit =
     (let fibs = while (\<lambda>fibs. last fibs \<le> limit) (\<lambda>fibs. fibs @ [last fibs + fibs ! (length fibs - 2)]) [1, 2]
      in if last fibs > limit then butlast fibs else fibs)"

text \<open>The greedy loop of \<open>encode\<close>, from the largest Fibonacci number down; the bits it sets are consed.\<close>

fun greedy :: "int list \<Rightarrow> int \<Rightarrow> string \<Rightarrow> string \<times> int" where
  "greedy [] rem bits = (bits, rem)"
| "greedy (f # fs) rem bits =
     (if f \<le> rem then greedy fs (rem - f) (b1 # bits) else greedy fs rem (b0 # bits))"

definition zeck_encode :: "int \<Rightarrow> string result" where
  "zeck_encode value =
     (if value < 1 then Inl ValueError
      else (case greedy (rev (fibs_upto value)) value [] of
              (bits, rem) \<Rightarrow> if rem = 0 then Inr (bits @ [b1]) else Inl AssertionError))"

definition fibs_len :: "nat \<Rightarrow> int list" where
  "fibs_len n =
     while (\<lambda>fibs. length fibs < n) (\<lambda>fibs. fibs @ [last fibs + fibs ! (length fibs - 2)]) [1, 2]"

definition zeck_decode :: "string \<Rightarrow> int result" where
  "zeck_decode code =
     (if length code < 2 \<or> drop (length code - 2) code \<noteq> ''11'' then Inl ValueError
      else let zeck = butlast code in
        if str_contains ''11'' zeck then Inl ValueError
        else let fibs = fibs_len (length zeck) in
          Inr (\<Sum>i\<leftarrow>[0..<length zeck]. if zeck ! i = b1 then fibs ! i else 0))"

definition encode_stream :: "int list \<Rightarrow> string result" where
  "encode_stream values = ebind (emap zeck_encode values) (\<lambda>codes. Inr (concat codes))"

function ds_loop :: "string \<Rightarrow> nat \<Rightarrow> nat \<Rightarrow> int list \<Rightarrow> int list result" where
  "ds_loop bits start i out =
     (if i < length bits then
        if bits ! i = b1 \<and> i + 1 < length bits \<and> bits ! (i + 1) = b1
        then ebind (zeck_decode (take (i + 2 - start) (drop start bits)))
               (\<lambda>v. ds_loop bits (i + 2) (i + 2) (out @ [v]))
        else ds_loop bits start (i + 1) out
      else Inr out)"
  by pat_completeness auto
termination
  by (relation "measure (\<lambda>(bits, start, i, out). length bits - i)") auto

declare ds_loop.simps [simp del]

definition decode_stream :: "string \<Rightarrow> int list result" where
  "decode_stream bits = ds_loop bits 0 0 []"

subsection \<open>The Fibonacci basis\<close>

fun zfib :: "nat \<Rightarrow> int" where
  "zfib 0 = 1"
| "zfib (Suc 0) = 2"
| "zfib (Suc (Suc n)) = zfib n + zfib (Suc n)"

lemma zfib_pos [simp]: "0 < zfib n"
  by (induction n rule: zfib.induct) auto

lemma zfib_ge [simp]: "1 \<le> zfib n" "0 \<le> zfib n"
  using zfib_pos [of n] by linarith+

lemma zfib_less_Suc: "zfib n < zfib (Suc n)"
  by (cases n rule: zfib.cases) (auto simp: add_pos_pos)

lemma zfib_strict_mono: "m < n \<Longrightarrow> zfib m < zfib n"
  using lift_Suc_mono_less [of zfib m n] zfib_less_Suc by blast

lemma zfib_mono: "m \<le> n \<Longrightarrow> zfib m \<le> zfib n"
  using zfib_strict_mono [of m n] by (cases "m = n") auto

lemma zfib_growth: "2 ^ k \<le> zfib (2 * k)"
proof (induction k)
  case (Suc k)
  have "zfib (2 * Suc k) = zfib (2 * k) + zfib (Suc (2 * k))" by simp
  moreover have "zfib (2 * k) < zfib (Suc (2 * k))" by (rule zfib_less_Suc)
  ultimately show ?case using Suc by simp
qed simp

lemma map_zfib_step:
  assumes "2 \<le> k"
  shows "map zfib [0..<k] @ [last (map zfib [0..<k]) + map zfib [0..<k] ! (length (map zfib [0..<k]) - 2)]
    = map zfib [0..<Suc k]"
proof -
  obtain j where k: "k = Suc (Suc j)" using assms by (metis add_2_eq_Suc le_Suc_ex)
  have "map zfib [0..<k] ! (length (map zfib [0..<k]) - 2) = zfib j"
    using k by (simp add: nth_append)
  moreover have "last (map zfib [0..<k]) = zfib (Suc j)" using k by simp
  ultimately show ?thesis using k by simp
qed

lemma fibs_upto_eq:
  assumes "1 \<le> limit"
  shows "\<exists>m \<ge> 1. fibs_upto limit = map zfib [0..<m] \<and> zfib (m - 1) \<le> limit \<and> limit < zfib m"
proof -
  let ?b = "\<lambda>fibs. last fibs \<le> limit"
  let ?c = "\<lambda>fibs. fibs @ [last fibs + fibs ! (length fibs - 2)] :: int list"
  let ?P = "\<lambda>fibs. \<exists>k \<ge> 2. fibs = map zfib [0..<k] \<and> (2 < k \<longrightarrow> zfib (k - 2) \<le> limit)"
  let ?Q = "\<lambda>fibs. ?P fibs \<and> \<not> ?b fibs"
  have "?Q (while ?b ?c [1, 2])"
  proof (rule while_rule [where P = ?P and r = "measure (\<lambda>fibs. nat (limit + 1 - last fibs))"])
    show "?P [1, 2]" by (rule exI [of _ 2]) (simp add: upt_rec numeral_2_eq_2)
    fix s assume "?P s" and b: "?b s"
    then obtain k where k: "2 \<le> k" "s = map zfib [0..<k]" by blast
    have s': "?c s = map zfib [0..<Suc k]" using map_zfib_step [OF k(1)] k(2) by simp
    have last: "last s = zfib (k - 1)" using k by (simp add: last_map)
    show "?P (?c s)"
      by (rule exI [of _ "Suc k"]) (use k s' b last in \<open>auto simp: numeral_2_eq_2\<close>)
    have "zfib (k - 1) < zfib k" using k(1) zfib_strict_mono [of "k - 1" k] by simp
    moreover have "last (?c s) = zfib k" using s' by (simp del: upt_Suc add: last_map)
    ultimately show "(?c s, s) \<in> measure (\<lambda>fibs. nat (limit + 1 - last fibs))"
      using last b by simp
  qed auto
  then have P: "?P (while ?b ?c [1, 2])" and nb: "\<not> ?b (while ?b ?c [1, 2])" by blast+
  from P obtain k where k: "2 \<le> k" "while ?b ?c [1, 2] = map zfib [0..<k]"
    "2 < k \<longrightarrow> zfib (k - 2) \<le> limit" by blast
  with nb have nl: "\<not> last (map zfib [0..<k]) \<le> limit" by simp
  have last: "last (map zfib [0..<k]) = zfib (k - 1)" using k(1) by (simp add: last_map)
  have "fibs_upto limit = map zfib [0..<k - 1]"
    using k nl by (cases k) (simp_all add: fibs_upto_def Let_def)
  moreover have "zfib (k - 1 - 1) \<le> limit"
    using k(1,3) assms by (cases "k = 2") (auto simp: numeral_2_eq_2)
  ultimately show ?thesis using k nl last by (intro exI [of _ "k - 1"]) auto
qed

lemma fibs_len_eq: "fibs_len n = map zfib [0..<max 2 n]"
proof -
  let ?b = "\<lambda>fibs :: int list. length fibs < n"
  let ?c = "\<lambda>fibs. fibs @ [last fibs + fibs ! (length fibs - 2)] :: int list"
  let ?P = "\<lambda>fibs. \<exists>k \<ge> 2. k \<le> max 2 n \<and> fibs = map zfib [0..<k]"
  have "?P (while ?b ?c [1, 2]) \<and> \<not> ?b (while ?b ?c [1, 2])"
  proof (rule while_rule [where P = ?P and r = "measure (\<lambda>fibs. n - length fibs)"])
    show "?P [1, 2]" by (rule exI [of _ 2]) (simp add: upt_rec numeral_2_eq_2)
    fix s assume "?P s" and b: "?b s"
    then obtain k where k: "2 \<le> k" "s = map zfib [0..<k]" by blast
    have s': "?c s = map zfib [0..<Suc k]" using map_zfib_step [OF k(1)] k(2) by simp
    show "?P (?c s)" by (rule exI [of _ "Suc k"]) (use k s' b in auto)
    show "(?c s, s) \<in> measure (\<lambda>fibs. n - length fibs)" using b by simp
  qed auto
  then show ?thesis unfolding fibs_len_def by (auto simp: max_def split: if_splits)
qed

subsection \<open>Zeckendorf words\<close>

text \<open>The value of a word of bits, least significant first, and the shape the code relies on.\<close>

definition zval :: "string \<Rightarrow> int" where
  "zval w = (\<Sum>i\<leftarrow>[0..<length w]. if w ! i = b1 then zfib i else 0)"

definition bitstr :: "string \<Rightarrow> bool" where
  "bitstr w \<longleftrightarrow> set w \<subseteq> {b0, b1}"

definition zword :: "string \<Rightarrow> bool" where
  "zword w \<longleftrightarrow> w \<noteq> [] \<and> last w = b1 \<and> \<not> str_contains ''11'' w"

lemma zval_Nil [simp]: "zval [] = 0"
  by (simp add: zval_def)

lemma zval_snoc [simp]: "zval (w @ [c]) = zval w + (if c = b1 then zfib (length w) else 0)"
proof -
  have "(\<Sum>i\<leftarrow>[0..<length w]. if (w @ [c]) ! i = b1 then zfib i else 0)
      = (\<Sum>i\<leftarrow>[0..<length w]. if w ! i = b1 then zfib i else 0)"
    by (intro arg_cong [where f = sum_list] map_cong) (auto simp: nth_append)
  then show ?thesis by (simp add: zval_def)
qed

lemma zval_single [simp]: "zval [c] = (if c = b1 then 1 else 0)"
  using zval_snoc [of "[]" c] by simp

lemma zval_snoc2 [simp]:
  "zval (w @ [c, d]) = zval w + (if c = b1 then zfib (length w) else 0) + (if d = b1 then zfib (Suc (length w)) else 0)"
  using zval_snoc [of "w @ [c]" d] by simp

lemma bitstr_simps [simp]:
  "bitstr []"
  "bitstr (c # w) \<longleftrightarrow> (c = b0 \<or> c = b1) \<and> bitstr w"
  "bitstr (v @ w) \<longleftrightarrow> bitstr v \<and> bitstr w"
  by (auto simp: bitstr_def)

lemma bitstr_concat: "(\<And>w. w \<in> set ws \<Longrightarrow> bitstr w) \<Longrightarrow> bitstr (concat ws)"
  by (induction ws) auto

lemma contains11_snoc:
  "str_contains ''11'' (w @ [c]) \<longleftrightarrow> str_contains ''11'' w \<or> (w \<noteq> [] \<and> last w = b1 \<and> c = b1)"
proof
  assume "str_contains ''11'' (w @ [c])"
  then obtain a b where ab: "w @ [c] = a @ ''11'' @ b" by (auto simp: str_contains_iff)
  show "str_contains ''11'' w \<or> (w \<noteq> [] \<and> last w = b1 \<and> c = b1)"
  proof (cases b rule: rev_cases)
    case Nil
    then have "w @ [c] = (a @ [b1]) @ [b1]" using ab by simp
    then show ?thesis by (metis append1_eq_conv last_snoc snoc_eq_iff_butlast)
  next
    case (snoc b' d)
    then have "w @ [c] = (a @ ''11'' @ b') @ [d]" using ab by simp
    then have "w = a @ ''11'' @ b'" by (metis append1_eq_conv)
    then show ?thesis by (auto simp: str_contains_iff)
  qed
next
  assume "str_contains ''11'' w \<or> (w \<noteq> [] \<and> last w = b1 \<and> c = b1)"
  then show "str_contains ''11'' (w @ [c])"
  proof
    assume "str_contains ''11'' w"
    then obtain a b where "w = a @ ''11'' @ b" by (auto simp: str_contains_iff)
    then have "w @ [c] = a @ ''11'' @ (b @ [c])" by simp
    then show ?thesis unfolding str_contains_iff by blast
  next
    assume "w \<noteq> [] \<and> last w = b1 \<and> c = b1"
    then have "w = butlast w @ [b1]" "c = b1" by (metis append_butlast_last_id)+
    then have "w @ [c] = butlast w @ ''11'' @ []" by (metis append.assoc append_Cons append_Nil append_Nil2)
    then show ?thesis unfolding str_contains_iff by blast
  qed
qed

lemma contains11_nth: "str_contains ''11'' w \<longleftrightarrow> (\<exists>i. Suc i < length w \<and> w ! i = b1 \<and> w ! Suc i = b1)"
proof
  assume "str_contains ''11'' w"
  then obtain a b where w: "w = a @ ''11'' @ b" by (auto simp: str_contains_iff)
  show "\<exists>i. Suc i < length w \<and> w ! i = b1 \<and> w ! Suc i = b1"
    by (rule exI [of _ "length a"]) (simp add: w nth_append)
next
  assume "\<exists>i. Suc i < length w \<and> w ! i = b1 \<and> w ! Suc i = b1"
  then obtain i where i: "Suc i < length w" "w ! i = b1" "w ! Suc i = b1" by blast
  have "w = take i w @ [w ! i] @ [w ! Suc i] @ drop (Suc (Suc i)) w"
    using i(1) by (simp add: Cons_nth_drop_Suc)
  then have "w = take i w @ ''11'' @ drop (Suc (Suc i)) w" using i by simp
  then show "str_contains ''11'' w" unfolding str_contains_iff by blast
qed

lemma contains11_mono: "str_contains ''11'' v \<Longrightarrow> str_contains ''11'' (u @ v @ w)"
  by (auto simp: str_contains_iff) (metis append.assoc)

lemma zval_nonneg [simp]: "0 \<le> zval w"
  by (induction w rule: rev_induct) auto

lemma zval_bound: "\<not> str_contains ''11'' w \<Longrightarrow> zval w < zfib (length w)"
proof (induction "length w" arbitrary: w rule: less_induct)
  case less
  show ?case
  proof (cases w rule: rev_cases)
    case Nil
    then show ?thesis by simp
  next
    case (snoc v c)
    have v: "\<not> str_contains ''11'' v" "\<not> (v \<noteq> [] \<and> last v = b1 \<and> c = b1)"
      using less.prems snoc by (auto simp: contains11_snoc)
    have IHv: "zval v < zfib (length v)" using less.hyps [of v] v snoc by simp
    show ?thesis
    proof (cases "c = b1")
      case False
      then show ?thesis using IHv snoc zfib_less_Suc [of "length v"] by simp
    next
      case [simp]: True
      show ?thesis
      proof (cases v rule: rev_cases)
        case Nil
        then show ?thesis using snoc by simp
      next
        case v': (snoc u d)
        then have "d \<noteq> b1" "\<not> str_contains ''11'' u" using v by (auto simp: contains11_snoc)
        then have "zval u < zfib (length u)" using less.hyps [of u] v' snoc by simp
        then show ?thesis using v' snoc \<open>d \<noteq> b1\<close> by simp
      qed
    qed
  qed
qed

lemma zval_lower: "w \<noteq> [] \<Longrightarrow> last w = b1 \<Longrightarrow> zfib (length w - 1) \<le> zval w"
  by (cases w rule: rev_cases) auto

lemma zword_pos: "zword w \<Longrightarrow> 1 \<le> zval w"
  using zval_lower [of w] order_trans [OF zfib_ge(1)] by (auto simp: zword_def)

text \<open>Zeckendorf's theorem, uniqueness: first for words of one length, then for codewords.\<close>

lemma zval_inj_length:
  "length v = length w \<Longrightarrow> bitstr v \<Longrightarrow> bitstr w \<Longrightarrow> \<not> str_contains ''11'' v \<Longrightarrow>
   \<not> str_contains ''11'' w \<Longrightarrow> zval v = zval w \<Longrightarrow> v = w"
proof (induction v arbitrary: w rule: rev_induct)
  case (snoc c v)
  obtain u d where w: "w = u @ [d]" using snoc.prems(1) by (cases w rule: rev_cases) auto
  have no11: "\<not> str_contains ''11'' v" "\<not> str_contains ''11'' u"
    using snoc.prems(4,5) w by (simp_all add: contains11_snoc)
  have bounds: "zval v < zfib (length v)" "zval u < zfib (length u)"
    using no11 by (simp_all add: zval_bound)
  have len: "length u = length v" using snoc.prems(1) w by simp
  have cd: "c = d"
  proof (rule ccontr)
    assume "c \<noteq> d"
    then have "zval v + zfib (length v) = zval u \<or> zval u + zfib (length v) = zval v"
      using snoc.prems(2,3,6) w len by auto
    then show False using bounds zval_nonneg [of v] zval_nonneg [of u] unfolding len by linarith
  qed
  then have "v = u" using snoc w by (auto simp: contains11_snoc)
  with cd w show ?case by simp
qed simp

lemma zword_unique:
  assumes "zword v" "zword w" "bitstr v" "bitstr w" "zval v = zval w"
  shows "v = w"
proof -
  have "\<not> length v < length w" if "zword v" "zword w" "zval v = zval w" for v w
  proof
    assume "length v < length w"
    then have "zfib (length v) \<le> zfib (length w - 1)" by (intro zfib_mono) simp
    moreover have "zval v < zfib (length v)" using that by (intro zval_bound) (simp add: zword_def)
    moreover have "zfib (length w - 1) \<le> zval w" using that by (intro zval_lower) (auto simp: zword_def)
    ultimately show False using that by simp
  qed
  then have "length v = length w" using assms by (metis linorder_neqE_nat)
  then show ?thesis using assms by (auto simp: zword_def intro: zval_inj_length)
qed

subsection \<open>One codeword\<close>

lemma greedy_spec:
  "0 \<le> n \<Longrightarrow> n < zfib m \<Longrightarrow>
   \<exists>w. greedy (rev (map zfib [0..<m])) n acc = (w @ acc, 0) \<and> length w = m \<and> zval w = n \<and>
     \<not> str_contains ''11'' w \<and> bitstr w \<and> (0 < m \<longrightarrow> (last w = b1) = (zfib (m - 1) \<le> n))"
proof (induction m arbitrary: n acc)
  case 0
  then show ?case by simp
next
  case (Suc m)
  show ?case
  proof (cases "zfib m \<le> n")
    case True
    have step: "n - zfib m < (case m of 0 \<Rightarrow> 1 | Suc k \<Rightarrow> zfib k)"
      using Suc.prems by (cases m) auto
    then have lt: "n - zfib m < zfib m"
      using zfib_less_Suc [of "m - 1"] by (cases m) auto
    obtain w where w: "greedy (rev (map zfib [0..<m])) (n - zfib m) (b1 # acc) = (w @ b1 # acc, 0)"
      "length w = m" "zval w = n - zfib m" "\<not> str_contains ''11'' w" "bitstr w"
      "0 < m \<longrightarrow> (last w = b1) = (zfib (m - 1) \<le> n - zfib m)"
      using Suc.IH [of "n - zfib m" "b1 # acc"] True lt by auto
    have "w \<noteq> [] \<longrightarrow> last w \<noteq> b1" using w step by (cases m) auto
    then show ?thesis using True w by (intro exI [of _ "w @ [b1]"]) (auto simp: contains11_snoc)
  next
    case False
    obtain w where w: "greedy (rev (map zfib [0..<m])) n (b0 # acc) = (w @ b0 # acc, 0)"
      "length w = m" "zval w = n" "\<not> str_contains ''11'' w" "bitstr w"
      using Suc.IH [of n "b0 # acc"] Suc.prems False by auto
    then show ?thesis using False by (intro exI [of _ "w @ [b0]"]) (auto simp: contains11_snoc)
  qed
qed

lemma zeck_encode_spec:
  assumes "1 \<le> n"
  shows "\<exists>w. zeck_encode n = Inr (w @ [b1]) \<and> zword w \<and> bitstr w \<and> zval w = n"
proof -
  obtain m where m: "1 \<le> m" "fibs_upto n = map zfib [0..<m]" "zfib (m - 1) \<le> n" "n < zfib m"
    using fibs_upto_eq [OF assms] by blast
  obtain w where w: "greedy (rev (map zfib [0..<m])) n [] = (w @ [], 0)" "length w = m" "zval w = n"
    "\<not> str_contains ''11'' w" "bitstr w" "0 < m \<longrightarrow> (last w = b1) = (zfib (m - 1) \<le> n)"
    using greedy_spec [of n m "[]"] assms m(4) by auto
  have "zeck_encode n = Inr (w @ [b1])" using assms m(2) w(1) by (simp add: zeck_encode_def)
  moreover have "w \<noteq> []" using m(1) w(2) by auto
  ultimately show ?thesis using w m(1,3) by (intro exI [of _ w]) (simp add: zword_def)
qed

lemma zeck_encode_Inr_iff: "(\<exists>c. zeck_encode n = Inr c) \<longleftrightarrow> 1 \<le> n"
  using zeck_encode_spec [of n] by (auto simp: zeck_encode_def split: if_splits)

lemma zeck_encode_Inr_word:
  "zeck_encode n = Inr c \<Longrightarrow> \<exists>w. c = w @ [b1] \<and> zword w \<and> bitstr w \<and> zval w = n \<and> 1 \<le> n"
  using zeck_encode_spec [of n] zeck_encode_Inr_iff [of n] by auto

lemma zeck_decode_word: "zword w \<Longrightarrow> zeck_decode (w @ [b1]) = Inr (zval w)"
proof -
  assume w: "zword w"
  then obtain v where v: "w = v @ [b1]" by (metis append_butlast_last_id zword_def)
  have fib: "fibs_len (length w) ! i = zfib i" if "i < length w" for i
    using that by (simp add: fibs_len_eq)
  have "(\<Sum>i\<leftarrow>[0..<length w]. if w ! i = b1 then fibs_len (length w) ! i else 0) = zval w"
    unfolding zval_def by (intro arg_cong [where f = sum_list] map_cong) (auto simp: fib)
  moreover have "butlast (w @ [b1]) = w" by (rule butlast_snoc)
  moreover have "\<not> length (w @ [b1]) < 2" "drop (length (w @ [b1]) - 2) (w @ [b1]) = ''11''"
    using v by simp_all
  moreover have "\<not> str_contains ''11'' w" using w by (simp add: zword_def)
  ultimately show ?thesis unfolding zeck_decode_def Let_def by metis
qed

lemma zeck_decode_Inr:
  assumes "zeck_decode code = Inr n"
  shows "\<exists>w. code = w @ [b1] \<and> zword w \<and> zval w = n"
proof -
  let ?w = "butlast code"
  have c: "\<not> length code < 2" "drop (length code - 2) code = ''11''" "\<not> str_contains ''11'' ?w"
    using assms by (auto simp: zeck_decode_def Let_def split: if_splits)
  then have code: "code = take (length code - 2) code @ ''11''" by (metis append_take_drop_id)
  then have w: "?w = take (length code - 2) code @ [b1]" by (metis butlast_append butlast.simps(2) list.distinct(1))
  have "code = ?w @ [b1]" using code w by (metis append.assoc append_Cons append_Nil)
  moreover have "zword ?w" using w c(3) by (simp add: zword_def)
  ultimately show ?thesis using zeck_decode_word [of ?w] assms by (intro exI [of _ ?w]) auto
qed

lemma zeck_decode_encode: "zeck_encode n = Inr c \<Longrightarrow> zeck_decode c = Inr n"
  using zeck_encode_Inr_word [of n c] zeck_decode_word by auto

lemma zeck_encode_decode:
  assumes "bitstr c" "zeck_decode c = Inr n"
  shows "zeck_encode n = Inr c"
proof -
  obtain w where w: "c = w @ [b1]" "zword w" "zval w = n" using zeck_decode_Inr [OF assms(2)] by blast
  have "1 \<le> n" using zword_pos [OF w(2)] w(3) by simp
  then obtain v where v: "zeck_encode n = Inr (v @ [b1])" "zword v" "bitstr v" "zval v = n"
    using zeck_encode_spec by blast
  have "v = w" using zword_unique [of v w] v w assms(1) by simp
  then show ?thesis using v(1) w(1) by simp
qed

subsection \<open>A stream of codewords\<close>

text \<open>Within a codeword the scan finds nothing before the terminator.\<close>

lemma ds_loop_codeword:
  assumes w: "zword w" and bits: "drop start bits = w @ [b1] @ rest"
  shows "k < length w \<Longrightarrow>
    ds_loop bits start (start + (length w - 1 - k)) out
      = ds_loop bits (start + length w + 1) (start + length w + 1) (out @ [zval w])"
proof (induction k)
  have at: "bits ! (start + i) = (w @ [b1] @ rest) ! i" for i
    using bits by (metis linorder_linear nth_drop drop_all append_is_Nil_conv list.distinct(1))
  have len: "length bits = start + length w + 1 + length rest"
    using arg_cong [OF bits, of length] by simp
  case 0
  obtain v where v: "w = v @ [b1]" using w by (metis append_butlast_last_id zword_def)
  have "bits ! (start + length v) = b1" "bits ! (start + Suc (length v)) = b1"
    using at [of "length v"] at [of "Suc (length v)"] v by (auto simp: nth_append)
  moreover have "take (start + length v + 2 - start) (drop start bits) = w @ [b1]"
    unfolding bits using v by simp
  ultimately show ?case
    using v len zeck_decode_word [OF w] by (subst ds_loop.simps) (simp add: add.assoc)
next
  have at: "bits ! (start + i) = (w @ [b1] @ rest) ! i" for i
    using bits by (metis linorder_linear nth_drop drop_all append_is_Nil_conv list.distinct(1))
  have len: "length bits = start + length w + 1 + length rest"
    using arg_cong [OF bits, of length] by simp
  case (Suc k)
  let ?j = "length w - 1 - Suc k"
  have j: "Suc ?j < length w" "Suc ?j = length w - 1 - k" using Suc.prems by auto
  have "\<not> (w ! ?j = b1 \<and> w ! Suc ?j = b1)"
    using w j(1) contains11_nth [of w] by (auto simp: zword_def)
  then have no: "\<not> (bits ! (start + ?j) = b1 \<and> bits ! (start + ?j + 1) = b1)"
    using at [of ?j] at [of "Suc ?j"] j(1) by (simp add: nth_append)
  have "ds_loop bits start (start + ?j) out = ds_loop bits start (start + ?j + 1) out"
    using no j len by (subst ds_loop.simps) auto
  also have "\<dots> = ds_loop bits (start + length w + 1) (start + length w + 1) (out @ [zval w])"
    using Suc.IH Suc.prems j by (metis Suc_lessD add.assoc add_Suc_right add.right_neutral One_nat_def)
  finally show ?case .
qed

lemma ds_loop_word:
  assumes "zword w" "drop start bits = w @ [b1] @ rest"
  shows "ds_loop bits start start out
    = ds_loop bits (start + length w + 1) (start + length w + 1) (out @ [zval w])"
  using ds_loop_codeword [OF assms, of "length w - 1" out] assms(1) by (auto simp: zword_def)

lemma ds_loop_tail:
  "\<not> str_contains ''11'' (drop i bits) \<Longrightarrow> ds_loop bits start i out = Inr out"
proof (induction "length bits - i" arbitrary: i)
  case 0
  then show ?case by (subst ds_loop.simps) simp
next
  case (Suc n)
  have i: "i < length bits" using Suc.hyps(2) by simp
  have no: "\<not> (bits ! i = b1 \<and> i + 1 < length bits \<and> bits ! (i + 1) = b1)"
  proof
    assume a: "bits ! i = b1 \<and> i + 1 < length bits \<and> bits ! (i + 1) = b1"
    then have "str_contains ''11'' (drop i bits)"
      unfolding contains11_nth by (intro exI [of _ 0]) (auto simp: less_diff_conv)
    then show False using Suc.prems by simp
  qed
  have "\<not> str_contains ''11'' (drop (i + 1) bits)"
    using Suc.prems i contains11_mono [of "drop (i + 1) bits" "[bits ! i]" "[]"]
    by (auto simp: Cons_nth_drop_Suc)
  then have "ds_loop bits start (i + 1) out = Inr out" using Suc.hyps by simp
  then show ?case using no by (subst ds_loop.simps) auto
qed

text \<open>Every string of characters is a sequence of codewords and a tail with no terminator.\<close>

lemma split_codeword:
  "str_contains ''11'' s \<Longrightarrow> \<exists>w rest. s = w @ [b1] @ rest \<and> zword w"
proof -
  assume "str_contains ''11'' s"
  define i where "i = (LEAST i. Suc i < length s \<and> s ! i = b1 \<and> s ! Suc i = b1)"
  have i: "Suc i < length s" "s ! i = b1" "s ! Suc i = b1"
    using LeastI_ex [of "\<lambda>i. Suc i < length s \<and> s ! i = b1 \<and> s ! Suc i = b1"]
      \<open>str_contains ''11'' s\<close> by (auto simp: i_def contains11_nth)
  have first: "\<not> (s ! j = b1 \<and> s ! Suc j = b1)" if "j < i" for j
    using not_less_Least [of j "\<lambda>i. Suc i < length s \<and> s ! i = b1 \<and> s ! Suc i = b1"] that i(1)
    by (auto simp: i_def)
  have "\<not> str_contains ''11'' (take (Suc i) s)"
    unfolding contains11_nth using first i(1) by auto
  moreover have "last (take (Suc i) s) = b1" using i by (simp add: take_Suc_conv_app_nth)
  moreover have "s = take (Suc i) s @ [b1] @ drop (Suc (Suc i)) s"
    using i by (metis append_Cons append_Nil append_take_drop_id Cons_nth_drop_Suc)
  ultimately show ?thesis using i(1) by (intro exI [of _ "take (Suc i) s"] exI) (auto simp: zword_def)
qed

lemma split_stream:
  "\<exists>ws rest. s = concat (map (\<lambda>w. w @ [b1]) ws) @ rest \<and> list_all zword ws \<and> \<not> str_contains ''11'' rest"
proof (induction "length s" arbitrary: s rule: less_induct)
  case less
  show ?case
  proof (cases "str_contains ''11'' s")
    case False
    then show ?thesis by (intro exI [of _ "[]"] exI [of _ s]) simp
  next
    case True
    then obtain w rest where w: "s = w @ [b1] @ rest" "zword w" using split_codeword by blast
    then obtain ws rest' where "rest = concat (map (\<lambda>w. w @ [b1]) ws) @ rest'" "list_all zword ws"
      "\<not> str_contains ''11'' rest'"
      using less.hyps [of rest] by auto
    then show ?thesis using w by (intro exI [of _ "w # ws"] exI [of _ rest']) simp
  qed
qed

lemma ds_loop_words:
  "list_all zword ws \<Longrightarrow> drop start bits = concat (map (\<lambda>w. w @ [b1]) ws) @ rest \<Longrightarrow>
   \<not> str_contains ''11'' rest \<Longrightarrow> ds_loop bits start start out = Inr (out @ map zval ws)"
proof (induction ws arbitrary: start out)
  case Nil
  then show ?case by (simp add: ds_loop_tail)
next
  case (Cons w ws)
  have d: "drop start bits = w @ [b1] @ (concat (map (\<lambda>w. w @ [b1]) ws) @ rest)"
    using Cons.prems(2) by simp
  have "drop (start + length w + 1) bits = drop (length w + 1) (drop start bits)"
    by (simp add: add.commute add.left_commute)
  then have "drop (start + length w + 1) bits = concat (map (\<lambda>w. w @ [b1]) ws) @ rest"
    unfolding d by simp
  then have "ds_loop bits (start + length w + 1) (start + length w + 1) (out @ [zval w])
      = Inr ((out @ [zval w]) @ map zval ws)"
    using Cons.IH Cons.prems by auto
  then show ?case using ds_loop_word [OF _ d, of out] Cons.prems(1) by simp
qed

lemma encode_stream_words:
  assumes "encode_stream vals = Inr bits"
  shows "\<exists>ws. list_all zword ws \<and> bits = concat (map (\<lambda>w. w @ [b1]) ws) \<and> map zval ws = vals \<and>
    bitstr bits \<and> (\<forall>v \<in> set vals. 1 \<le> v)"
proof -
  obtain codes where codes: "emap zeck_encode vals = Inr codes" "bits = concat codes"
    using assms by (auto simp: encode_stream_def err_simps)
  have "\<exists>ws. list_all zword ws \<and> codes = map (\<lambda>w. w @ [b1]) ws \<and> map zval ws = vals \<and>
      bitstr (concat codes) \<and> (\<forall>v \<in> set vals. 1 \<le> v)"
    using codes(1)
  proof (induction vals arbitrary: codes)
    case (Cons v vals)
    then obtain c cs where c: "zeck_encode v = Inr c" "emap zeck_encode vals = Inr cs" "codes = c # cs"
      by (auto simp: err_simps)
    then obtain w where "c = w @ [b1]" "zword w" "bitstr w" "zval w = v" "1 \<le> v"
      using zeck_encode_Inr_word by blast
    moreover obtain ws where "list_all zword ws" "cs = map (\<lambda>w. w @ [b1]) ws" "map zval ws = vals"
      "bitstr (concat cs)" "\<forall>v \<in> set vals. 1 \<le> v"
      using Cons.IH c(2) by blast
    ultimately show ?case using c(3) by (intro exI [of _ "w # ws"]) auto
  qed simp
  then show ?thesis using codes(2) by auto
qed

lemma encode_stream_Inr_iff: "(\<exists>bits. encode_stream vals = Inr bits) \<longleftrightarrow> (\<forall>v \<in> set vals. 1 \<le> v)"
proof
  assume "\<forall>v \<in> set vals. 1 \<le> v"
  then have "\<exists>codes. emap zeck_encode vals = Inr codes"
    using zeck_encode_Inr_iff by (intro emap_total) auto
  then show "\<exists>bits. encode_stream vals = Inr bits" by (auto simp: encode_stream_def)
qed (use encode_stream_words in blast)

lemma encode_stream_append:
  "encode_stream (xs @ ys) =
   ebind (encode_stream xs) (\<lambda>a. ebind (encode_stream ys) (\<lambda>b. Inr (a @ b)))"
  unfolding encode_stream_def emap_append
  by (cases "emap zeck_encode xs"; cases "emap zeck_encode ys") auto

lemma decode_stream_padded:
  assumes "encode_stream vals = Inr bits" "\<not> str_contains ''11'' pad"
  shows "decode_stream (bits @ pad) = Inr vals"
proof -
  obtain ws where "list_all zword ws" "bits = concat (map (\<lambda>w. w @ [b1]) ws)" "map zval ws = vals"
    using encode_stream_words [OF assms(1)] by blast
  then show ?thesis using ds_loop_words [of ws 0 "bits @ pad" pad "[]"] assms(2)
    by (simp add: decode_stream_def)
qed

lemma decode_stream_split:
  "\<exists>ws rest. bits = concat (map (\<lambda>w. w @ [b1]) ws) @ rest \<and> list_all zword ws \<and>
     \<not> str_contains ''11'' rest \<and> decode_stream bits = Inr (map zval ws)"
proof -
  obtain ws rest where "bits = concat (map (\<lambda>w. w @ [b1]) ws) @ rest" "list_all zword ws"
    "\<not> str_contains ''11'' rest"
    using split_stream by blast
  then show ?thesis using ds_loop_words [of ws 0 bits rest "[]"] by (auto simp: decode_stream_def)
qed

lemma decode_stream_total: "\<exists>vals. decode_stream bits = Inr vals"
  using decode_stream_split [of bits] by blast

lemma encode_stream_zwords:
  "list_all zword ws \<Longrightarrow> bitstr (concat (map (\<lambda>w. w @ [b1]) ws)) \<Longrightarrow>
   encode_stream (map zval ws) = Inr (concat (map (\<lambda>w. w @ [b1]) ws))"
proof (induction ws)
  case (Cons w ws)
  have "zeck_encode (zval w) = Inr (w @ [b1])"
    using Cons.prems by (intro zeck_encode_decode zeck_decode_word) auto
  then show ?case using Cons encode_stream_append [of "[zval w]" "map zval ws"]
    by (simp add: encode_stream_def)
qed (simp add: encode_stream_def)

text \<open>Reading is canonical: over bits, what is decoded is what was encoded, up to an unterminated tail.\<close>

lemma decode_stream_canonical:
  assumes "bitstr bits" "decode_stream bits = Inr vals"
  shows "\<exists>code rest. encode_stream vals = Inr code \<and> bits = code @ rest \<and> \<not> str_contains ''11'' rest"
proof -
  obtain ws rest where w: "bits = concat (map (\<lambda>w. w @ [b1]) ws) @ rest" "list_all zword ws"
    "\<not> str_contains ''11'' rest" "vals = map zval ws"
    using decode_stream_split [of bits] assms(2) by auto
  then show ?thesis using encode_stream_zwords [of ws] assms(1) by auto
qed

subsection \<open>The codec\<close>

text \<open>
  Encoding is a bijection between the positive integers and the codewords: a code that decodes
  under the strict decoder is the encoder's own code of the value (canonicity), and the decoder
  inverts the encoder.
\<close>

theorem zeckendorf_codeword_bijection:
  assumes "bitstr c"
  shows "zeck_decode c = Inr n \<longleftrightarrow> zeck_encode n = Inr c"
  using zeck_decode_encode zeck_encode_decode [OF assms] by blast

theorem zeckendorf_codeword_bijection_witness:
  "zeck_decode ''1011'' = Inr 4 \<and> zeck_encode 4 = Inr ''1011''"
proof -
  have "zeck_decode ''1011'' = Inr 4"
    by code_simp
  then show ?thesis using zeckendorf_codeword_bijection [of "''1011''" 4] by (simp add: bitstr_def)
qed

text \<open>
  C32. The stream codec on a padded line: whatever stream the encoder writes, followed by any padding
  without a codeword end, decodes to the same integers; and on every bit string the decoder returns
  integers whose encoding is a prefix of the string, followed by a rest with no codeword end.
\<close>

theorem stream_roundtrip_and_canonical:
  assumes "bitstr bits"
  shows "decode_stream bits = Inr vals \<longleftrightarrow>
    (\<exists>code rest. encode_stream vals = Inr code \<and> bits = code @ rest \<and> \<not> str_contains ''11'' rest)"
  using decode_stream_canonical [OF assms, of vals] decode_stream_padded [of vals] by blast

theorem stream_roundtrip_and_canonical_witness:
  "\<exists>code. encode_stream [4, 1, 7] = Inr code \<and> decode_stream (code @ ''0010'') = Inr [4, 1, 7]"
proof -
  obtain code where c: "encode_stream [4, 1, 7] = Inr code"
    using encode_stream_Inr_iff [of "[4, 1, 7]"] by auto
  then have "bitstr (code @ ''0010'')" using encode_stream_words [of "[4, 1, 7]" code] by (auto simp: bitstr_def)
  then show ?thesis
    using c stream_roundtrip_and_canonical [of "code @ ''0010''" "[4, 1, 7]"]
    by (auto simp: contains11_nth less_Suc_eq nth_Cons')
qed

end
