(* ===== verification/Packed.thy ===== *)
theory Packed
  imports Zeckendorf
begin

section \<open>The word packed wire (\<open>prismpath/telemetry/packed.py\<close>)\<close>

text \<open>
  Bytes are a list of \<open>char\<close>, one per byte. \<open>pack\<close> accumulates the bits of a stream most
  significant first and flushes a word at a time; the last word is padded with zeros on the right.
  The theorems: what \<open>unpack\<close> reads back is the stream and the padding, and the padding is too
  short of ones to be read as a codeword, so the integers survive the trip.
\<close>

text \<open>\<open>int.to_bytes(length, "big")\<close>, which raises when the number does not fit.\<close>

fun be_bytes :: "nat \<Rightarrow> nat \<Rightarrow> string" where
  "be_bytes 0 v = []"
| "be_bytes (Suc n) v = be_bytes n (v div 256) @ [char_of (v mod 256)]"

definition to_bytes :: "nat \<Rightarrow> nat \<Rightarrow> string result" where
  "to_bytes n v = (if v < 256 ^ n then Inr (be_bytes n v) else Inl OverflowError)"

fun pack_loop :: "nat \<Rightarrow> string \<Rightarrow> nat \<Rightarrow> nat \<Rightarrow> string \<Rightarrow> string result" where
  "pack_loop word_bits [] acc bit_count out =
     (if bit_count \<noteq> 0 then
        (if word_bits < bit_count then Inl ValueError
         else ebind (to_bytes (word_bits div 8) (acc * 2 ^ (word_bits - bit_count))) (\<lambda>b. Inr (out @ b)))
      else Inr out)"
| "pack_loop word_bits (ch # bits) acc bit_count out =
     (let acc = 2 * acc + (if ch = b1 then 1 else 0); bit_count = bit_count + 1 in
      if bit_count = word_bits
      then ebind (to_bytes (word_bits div 8) acc) (\<lambda>b. pack_loop word_bits bits 0 0 (out @ b))
      else pack_loop word_bits bits acc bit_count out)"

definition pack :: "string \<Rightarrow> nat \<Rightarrow> string result" where
  "pack bits word_bits = pack_loop word_bits bits 0 0 []"

text \<open>\<open>format(byte, "08b")\<close>: the \<open>n\<close> low bits of a number, most significant first.\<close>

fun msb_bits :: "nat \<Rightarrow> nat \<Rightarrow> string" where
  "msb_bits 0 v = []"
| "msb_bits (Suc n) v = msb_bits n (v div 2) @ [if v mod 2 = 1 then b1 else b0]"

definition unpack :: "string \<Rightarrow> string" where
  "unpack data = concat (map (\<lambda>byte. msb_bits 8 (of_char byte)) data)"

definition packed_encode :: "int list \<Rightarrow> nat \<Rightarrow> string result" where
  "packed_encode ints word_bits = ebind (encode_stream ints) (\<lambda>bits. pack bits word_bits)"

definition packed_decode :: "string \<Rightarrow> int list result" where
  "packed_decode data = decode_stream (unpack data)"

subsection \<open>Bits and bytes\<close>

definition bval :: "string \<Rightarrow> nat" where
  "bval s = foldl (\<lambda>a c. 2 * a + (if c = b1 then 1 else 0)) 0 s"

lemma bval_Nil [simp]: "bval [] = 0"
  by (simp add: bval_def)

lemma bval_snoc [simp]: "bval (s @ [c]) = 2 * bval s + (if c = b1 then 1 else 0)"
  by (simp add: bval_def)

lemma bval_bound: "bval s < 2 ^ length s"
  by (induction s rule: rev_induct) auto

lemma length_msb_bits [simp]: "length (msb_bits n v) = n"
  by (induction n arbitrary: v) auto

lemma msb_bits_bval: "bitstr s \<Longrightarrow> msb_bits (length s) (bval s) = s"
  by (induction s rule: rev_induct) auto

lemma msb_bits_append: "msb_bits (m + n) v = msb_bits m (v div 2 ^ n) @ msb_bits n v"
  by (induction n arbitrary: v) (auto simp: div_mult2_eq)

lemma msb_bits_mod: "msb_bits n (v mod 2 ^ n) = msb_bits n v"
proof (induction n arbitrary: v)
  case (Suc n)
  have "v mod 2 ^ Suc n div 2 = v div 2 mod 2 ^ n"
    by (simp add: mod_mult2_eq)
  moreover have "v mod 2 ^ Suc n mod 2 = v mod 2" by (simp add: mod_mod_cancel)
  ultimately show ?case using Suc [of "v div 2"] by simp
qed simp

lemma msb_bits_zero: "msb_bits n (v * 2 ^ n) = replicate n b0"
proof (induction n arbitrary: v)
  case (Suc n)
  have "v * 2 ^ Suc n div 2 = v * 2 ^ n" "v * 2 ^ Suc n mod 2 = 0" by simp_all
  then show ?case using Suc by (simp add: replicate_append_same)
qed simp

lemma unpack_append [simp]: "unpack (a @ b) = unpack a @ unpack b"
  by (simp add: unpack_def)

lemma unpack_Nil [simp]: "unpack [] = []"
  by (simp add: unpack_def)

lemma unpack_be_bytes: "unpack (be_bytes n v) = msb_bits (8 * n) v"
proof (induction n arbitrary: v)
  case (Suc n)
  have "unpack [char_of (v mod 256)] = msb_bits 8 v"
    using msb_bits_mod [of 8 v] by (simp add: unpack_def)
  moreover have "msb_bits (8 * n + 8) v = msb_bits (8 * n) (v div 256) @ msb_bits 8 v"
    using msb_bits_append [of "8 * n" 8 v] by simp
  ultimately show ?case using Suc by (simp add: add.commute)
qed simp

lemma length_be_bytes [simp]: "length (be_bytes n v) = n"
  by (induction n arbitrary: v) auto

lemma to_bytes_word:
  assumes "length s + z = 8 * n"
  shows "to_bytes n (bval s * 2 ^ z) = Inr (be_bytes n (bval s * 2 ^ z))"
proof -
  have "bval s * 2 ^ z < 2 ^ length s * 2 ^ z" using bval_bound by simp
  also have "\<dots> = 2 ^ (8 * n)" using assms by (simp add: power_add [symmetric])
  also have "\<dots> = 256 ^ n" by (simp add: power_mult)
  finally show ?thesis by (simp add: to_bytes_def)
qed

lemma msb_bits_pad:
  assumes "bitstr s"
  shows "msb_bits (length s + z) (bval s * 2 ^ z) = s @ replicate z b0"
  using msb_bits_append [of "length s" z "bval s * 2 ^ z"] msb_bits_bval [OF assms] msb_bits_zero
  by simp

subsection \<open>The loop of \<open>pack\<close>\<close>

lemma pack_loop_spec:
  assumes "0 < k"
  shows "bitstr bits \<Longrightarrow> bitstr s \<Longrightarrow> length s < 8 * k \<Longrightarrow>
    \<exists>data z. pack_loop (8 * k) bits (bval s) (length s) out = Inr (out @ data) \<and>
      unpack data = s @ bits @ replicate z b0 \<and> z < 8 * k \<and> k dvd length data"
proof (induction bits arbitrary: s out)
  case Nil
  show ?case
  proof (cases "s = []")
    case True
    then show ?thesis using assms by (intro exI [of _ "[]"] exI [of _ 0]) simp
  next
    case False
    define z where "z = 8 * k - length s"
    have z: "length s + z = 8 * k" "z < 8 * k" using Nil.prems False by (auto simp: z_def)
    have "unpack (be_bytes k (bval s * 2 ^ z)) = s @ replicate z b0"
      using msb_bits_pad [OF Nil.prems(2), of z] z(1) by (simp add: unpack_be_bytes)
    moreover have "pack_loop (8 * k) [] (bval s) (length s) out = Inr (out @ be_bytes k (bval s * 2 ^ z))"
      using False Nil.prems(3) to_bytes_word [OF z(1)] by (simp add: z_def)
    ultimately show ?thesis using z(2) by (intro exI [of _ "be_bytes k (bval s * 2 ^ z)"] exI [of _ z]) simp
  qed
next
  case (Cons c bits)
  have c: "bitstr (s @ [c])" "bitstr bits" using Cons.prems by auto
  show ?case
  proof (cases "Suc (length s) = 8 * k")
    case True
    let ?w = "be_bytes k (bval (s @ [c]))"
    have w: "unpack ?w = s @ [c]"
      using msb_bits_bval [OF c(1)] True by (simp add: unpack_be_bytes del: bval_snoc)
    have "to_bytes k (bval (s @ [c])) = Inr ?w"
      using to_bytes_word [of "s @ [c]" 0 k] True by (simp del: bval_snoc)
    then have step: "pack_loop (8 * k) (c # bits) (bval s) (length s) out
        = pack_loop (8 * k) bits (bval []) (length ([] :: string)) (out @ ?w)"
      using True by (simp add: Let_def)
    obtain data z where "pack_loop (8 * k) bits (bval []) (length ([] :: string)) (out @ ?w)
        = Inr ((out @ ?w) @ data)" "unpack data = [] @ bits @ replicate z b0" "z < 8 * k" "k dvd length data"
      using Cons.IH [of "[]" "out @ ?w"] c assms by auto
    then show ?thesis using step w by (intro exI [of _ "?w @ data"] exI [of _ z]) (simp del: bval_snoc)
  next
    case False
    then have step: "pack_loop (8 * k) (c # bits) (bval s) (length s) out
        = pack_loop (8 * k) bits (bval (s @ [c])) (length (s @ [c])) out"
      by (simp add: Let_def)
    show ?thesis using Cons.IH [of "s @ [c]" out] c Cons.prems(3) False step by auto
  qed
qed

lemma pack_unpack:
  assumes "bitstr bits" "0 < k"
  shows "\<exists>data z. pack bits (8 * k) = Inr data \<and> unpack data = bits @ replicate z b0 \<and>
    z < 8 * k \<and> k dvd length data"
  using pack_loop_spec [OF assms(2,1), of "[]" "[]"] assms(2) by (simp add: pack_def)

lemma zeros_no_terminator [simp]: "\<not> str_contains ''11'' (replicate z b0)"
  by (simp add: contains11_nth)

lemma packed_decode_encode:
  assumes "\<forall>v \<in> set ints. 1 \<le> v" "0 < k"
  shows "\<exists>data. packed_encode ints (8 * k) = Inr data \<and> packed_decode data = Inr ints"
proof -
  obtain bits where bits: "encode_stream ints = Inr bits" using encode_stream_Inr_iff assms(1) by blast
  then have "bitstr bits" using encode_stream_words by blast
  then obtain data z where "pack bits (8 * k) = Inr data" "unpack data = bits @ replicate z b0"
    using pack_unpack assms(2) by blast
  then show ?thesis
    using bits decode_stream_padded [OF bits, of "replicate z b0"]
    by (simp add: packed_encode_def packed_decode_def)
qed

lemma packed_length:
  assumes "encode_stream ints = Inr bits" "packed_encode ints (8 * k) = Inr data" "0 < k"
  shows "length bits \<le> 8 * length data \<and> 8 * length data < length bits + 8 * k"
proof -
  have "bitstr bits" using encode_stream_words assms(1) by blast
  then obtain z where z: "unpack data = bits @ replicate z b0" "z < 8 * k"
    using pack_unpack [of bits k] assms by (auto simp: packed_encode_def)
  have "length (unpack data) = 8 * length data" by (induction data) (auto simp: unpack_def)
  then show ?thesis using arg_cong [OF z(1), of length] z(2) by simp
qed

end
