(* ===== verification/Causes.thy ===== *)
theory Causes
  imports Prelude
begin

section \<open>The cause code registry (\<open>prismpath/kernel/causes.py\<close>)\<close>

text \<open>
  One byte says why the system refused, parked or escalated. The registry is a table of code, name,
  class and description; \<open>CODES\<close> and \<open>NAMES\<close> are the two dictionaries the module builds from it, in
  which a later row with the same key would replace an earlier one. The theorems say that no row
  does: codes and names are unique, so the two lookups invert each other, and every code fits a byte.
\<close>

type_synonym registry_row = "int \<times> string \<times> string \<times> string"

definition CAUSE_NONE :: int where "CAUSE_NONE = 0"

definition cause_registry :: "registry_row list" where
  "cause_registry =
  [(1, ''sig:missing'', ''authority'',
      ''pack, or flow when authorization is required, carries no signature''),
   (2, ''sig:invalid'', ''authority'',
      ''signature fails verification''),
   (3, ''sig:revoked-key'', ''authority'',
      ''signing key is revoked''),
   (4, ''manifest:key-id-mismatch'', ''authority'',
      ''manifest names a different key''),
   (5, ''manifest:bad-format'', ''authority'',
      ''manifest unparseable''),
   (6, ''image:sha256-mismatch'', ''authority'',
      ''image hash differs from the signed manifest''),
   (7, ''manifest:count-mismatch'', ''authority'',
      ''table counts differ from the signed manifest''),
   (8, ''manifest:wcet-mismatch'', ''authority'',
      ''recomputed WCET differs from the signed bound''),
   (9, ''image:version-replay'', ''authority'',
      ''older signed version replayed at the loader''),
   (10, ''image:unsigned-refused'', ''authority'',
      ''unsigned image without the explicit override''),
   (16, ''image:caps-exceeded'', ''envelope'',
      ''image exceeds a MAX_* capacity bound''),
   (17, ''packing:unknown-profile'', ''envelope'',
      ''manifest declares an unknown packing profile''),
   (18, ''spiral:sidecar-missing'', ''envelope'',
      ''declared spiral sidecar absent from the pack''),
   (19, ''spiral:sidecar-hash-mismatch'', ''envelope'',
      ''spiral sidecar differs from the signed hash''),
   (32, ''route:no-matching-edge'', ''routing'',
      ''no deterministic edge matched (hold for stateful, refuse for admission)''),
   (33, ''route:below-human-floor'', ''routing'',
      ''semantic confidence below the calibrated floor''),
   (34, ''route:needs-human'', ''routing'',
      ''worker explicitly requested a human''),
   (35, ''route:max-steps'', ''routing'',
      ''walk exhausted the signed step bound''),
   (36, ''route:stuck'', ''routing'',
      ''non-terminal node with no viable edge''),
   (37, ''route:contract-violation'', ''routing'',
      ''worker output violated the declared contract''),
   (48, ''wire:no-terminator'', ''wire'',
      ''frame carries no complete codeword''),
   (49, ''wire:dangling-codeword'', ''wire'',
      ''trailing partial codeword with data bits''),
   (50, ''wire:symbol-overflow'', ''wire'',
      ''wire integer beyond the cell range''),
   (51, ''wire:codebook-mismatch'', ''wire'',
      ''stream not decodable under the bound policy (I3)''),
   (52, ''replay-duplicate'', ''wire'',
      ''tick already seen inside the window''),
   (53, ''replay-stale'', ''wire'',
      ''tick beyond the replay window''),
   (54, ''concentrator-unknown-stream'', ''wire'',
      ''concentrated record names an unregistered stream''),
   (55, ''concentrator-truncated'', ''wire'',
      ''concentrated record cut mid-reading''),
   (56, ''wire:chain-broken'', ''wire'',
      ''reading's previous hash does not match the record before it (splice, not loss)''),
   (64, ''state:stale'', ''state'',
      ''refresh bound exceeded; parked on the signed fail-safe''),
   (65, ''state:recovered'', ''state'',
      ''fresh state restored after a stale episode''),
   (66, ''state:migration-reset'', ''state'',
      ''reset-to migration parked the resident state''),
   (67, ''state:swap-in-flight-park'', ''state'',
      ''evaluate during swap parked on the fail-safe''),
   (68, ''state:normal-unheld'', ''state'',
      ''the reading names a shared normal this side does not hold: abstain, the state the policy needs is absent''),
   (69, ''image:truncated-header'', ''envelope'',
      ''image shorter than the fixed header''),
   (70, ''image:bad-magic'', ''envelope'',
      ''image does not open with the .ppt magic word''),
   (71, ''image:bad-version'', ''envelope'',
      ''image declares an unsupported format version''),
   (72, ''image:safe-node-oob'', ''envelope'',
      ''signed fail-safe names a node index the image does not have''),
   (73, ''image:length-mismatch'', ''envelope'',
      ''image length differs from the sum of its declared sections''),
   (74, ''image:unknown-op'', ''envelope'',
      ''atom carries an operator outside the Level M fragment''),
   (75, ''image:unknown-type'', ''envelope'',
      ''atom carries a value type outside the Level M fragment''),
   (76, ''image:field-index-oob'', ''envelope'',
      ''atom names a field index beyond the declared field count''),
   (77, ''image:edge-target-oob'', ''envelope'',
      ''edge targets a node index beyond the declared node count''),
   (78, ''image:edge-prog-oob'', ''envelope'',
      ''edge program range runs past the declared program words''),
   (79, ''image:unknown-opcode'', ''envelope'',
      ''program word is an opcode outside the boolean set''),
   (80, ''image:atom-index-oob'', ''envelope'',
      ''program word names an atom index beyond the declared atom count''),
   (81, ''image:node-attr-oob'', ''envelope'',
      ''per node attribute exceeds the materialization envelope''),
   (82, ''envelope:missing'', ''envelope'',
      ''the declared envelope artifact is absent''),
   (83, ''envelope:sig-invalid'', ''envelope'',
      ''envelope signature verifies under none of the offered keys''),
   (84, ''envelope:id-mismatch'', ''envelope'',
      ''manifest targets a different envelope''),
   (85, ''envelope:unknown-field'', ''envelope'',
      ''manifest declares a field the envelope does not admit''),
   (86, ''envelope:field-kind-mismatch'', ''envelope'',
      ''manifest field kind differs from the envelope's''),
   (87, ''flow:sha256-mismatch'', ''authority'',
      ''flow document differs from the one its signed flow manifest names''),
   (88, ''flow:version-replay'', ''authority'',
      ''flow manifest version below the accepted floor, or equal to it with another flow'')]"

fun build_codes :: "registry_row list \<Rightarrow> (int, string \<times> string \<times> string) pydict \<Rightarrow> (int, string \<times> string \<times> string) pydict" where
  "build_codes [] d = d"
| "build_codes ((cause_code, canonical_name, class_name, description) # rows) d =
     build_codes rows (dict_set d cause_code (canonical_name, class_name, description))"

definition CODES :: "(int, string \<times> string \<times> string) pydict" where
  "CODES = build_codes cause_registry []"

fun build_names :: "registry_row list \<Rightarrow> (string, int) pydict \<Rightarrow> (string, int) pydict" where
  "build_names [] d = d"
| "build_names ((cause_code, canonical_name, _, _) # rows) d =
     build_names rows (dict_set d canonical_name cause_code)"

definition NAMES :: "(string, int) pydict" where
  "NAMES = build_names cause_registry []"

definition cause_name :: "int \<Rightarrow> string option" where
  "cause_name code = (case map_of CODES code of None \<Rightarrow> None | Some entry \<Rightarrow> Some (fst entry))"

definition cause_code :: "string \<Rightarrow> int option" where
  "cause_code name = map_of NAMES name"

text \<open>\<open>cause_class\<close> takes a code or a name.\<close>

definition cause_class :: "int + string \<Rightarrow> string option" where
  "cause_class code_or_name =
     (let cause_code = (case code_or_name of Inr name \<Rightarrow> map_of NAMES name | Inl code \<Rightarrow> Some code) in
      case cause_code of None \<Rightarrow> None
      | Some c \<Rightarrow> (case map_of CODES c of None \<Rightarrow> None | Some entry \<Rightarrow> Some (fst (snd entry))))"

definition ENGINE_STOP_TO_CAUSE :: "(string, int) pydict" where
  "ENGINE_STOP_TO_CAUSE =
     map (\<lambda>(stop, cause). (stop, the (map_of NAMES cause)))
       [(''stuck'', ''route:stuck''), (''needs_human'', ''route:needs-human''),
        (''max_steps'', ''route:max-steps''), (''contract_violation'', ''route:contract-violation'')]"

subsection \<open>The two dictionaries are the registry's two projections\<close>

lemma build_codes_distinct:
  "distinct (map fst rows) \<Longrightarrow> set (map fst rows) \<inter> set (map fst d) = {} \<Longrightarrow>
   build_codes rows d = d @ map (\<lambda>(c, n, k, t). (c, (n, k, t))) rows"
proof (induction rows d rule: build_codes.induct)
  case (2 c n k t rows d)
  then have "c \<notin> fst ` set d" by auto
  then have "dict_set d c (n, k, t) = d @ [(c, (n, k, t))]" by (rule map_fst_dict_set_new)
  then show ?case using 2 by auto
qed simp

lemma build_names_distinct:
  "distinct (map (fst \<circ> snd) rows) \<Longrightarrow> set (map (fst \<circ> snd) rows) \<inter> set (map fst d) = {} \<Longrightarrow>
   build_names rows d = d @ map (\<lambda>(c, n, k, t). (n, c)) rows"
proof (induction rows d rule: build_names.induct)
  case (2 c n k t rows d)
  then have "n \<notin> fst ` set d" by auto
  then have "dict_set d n c = d @ [(n, c)]" by (rule map_fst_dict_set_new)
  then show ?case using 2 by auto
qed simp

lemma registry_codes_distinct: "distinct (map fst cause_registry)"
  by (simp add: cause_registry_def)

lemma registry_names_distinct: "distinct (map (fst \<circ> snd) cause_registry)"
  by code_simp

lemma CODES_eq: "CODES = map (\<lambda>(c, n, k, t). (c, (n, k, t))) cause_registry"
  using build_codes_distinct [OF registry_codes_distinct, of "[]"] by (simp add: CODES_def)

lemma NAMES_eq: "NAMES = map (\<lambda>(c, n, k, t). (n, c)) cause_registry"
  using build_names_distinct [OF registry_names_distinct, of "[]"] by (simp add: NAMES_def)

lemma CODES_row: "map_of CODES c = Some (n, k, t) \<longleftrightarrow> (c, n, k, t) \<in> set cause_registry"
proof -
  have "distinct (map fst CODES)"
    using registry_codes_distinct by (simp add: CODES_eq comp_def case_prod_beta)
  then have "map_of CODES c = Some (n, k, t) \<longleftrightarrow> (c, (n, k, t)) \<in> set CODES" by simp
  then show ?thesis by (auto simp: CODES_eq)
qed

lemma NAMES_row: "map_of NAMES n = Some c \<longleftrightarrow> (\<exists>k t. (c, n, k, t) \<in> set cause_registry)"
proof -
  have "distinct (map fst NAMES)"
    using registry_names_distinct by (simp add: NAMES_eq comp_def case_prod_beta)
  then have "map_of NAMES n = Some c \<longleftrightarrow> (n, c) \<in> set NAMES" by simp
  moreover have "(n, c) \<in> set NAMES \<longleftrightarrow> (\<exists>k t. (c, n, k, t) \<in> set cause_registry)"
    by (force simp: NAMES_eq)
  ultimately show ?thesis by simp
qed

lemma cause_name_code: "cause_name c = Some n \<longleftrightarrow> cause_code n = Some c"
proof -
  have "cause_name c = Some n \<longleftrightarrow> (\<exists>k t. map_of CODES c = Some (n, k, t))"
    by (auto simp: cause_name_def split: option.splits)
  then show ?thesis by (simp add: CODES_row NAMES_row cause_code_def)
qed

lemma registry_codes_byte: "list_all (\<lambda>(c, _). 1 \<le> c \<and> c \<le> 255) cause_registry"
  by (simp add: cause_registry_def)

lemma cause_code_byte: "cause_code n = Some c \<Longrightarrow> 1 \<le> c \<and> c \<le> 255"
  using registry_codes_byte by (force simp: cause_code_def NAMES_row list_all_iff)

lemma cause_class_name: "cause_code n = Some c \<Longrightarrow> cause_class (Inr n) = cause_class (Inl c)"
  by (simp add: cause_code_def cause_class_def)

end
