(* ===== verification/Receipts.thy ===== *)
theory Receipts
  imports Packed Causes
begin

section \<open>The receipt stream (\<open>prismpath/telemetry/receipts.py\<close>)\<close>

text \<open>
  A receipt is five numbers sent as Fibonacci codewords in the alphabetical order of their names.
  The encoder takes the cause as a code or as a registry name and refuses what the wire cannot
  carry; the decoder refuses a frame with too few or too many codewords or a cause outside a byte.
\<close>

definition RECEIPT_FIELDS :: "string list" where
  "RECEIPT_FIELDS = [''cause'', ''event'', ''next_node'', ''prev_node'', ''seq'']"

definition RCPT_OK :: string where "RCPT_OK = ''ok''"
definition RECEIPT_TRUNCATED :: string where "RECEIPT_TRUNCATED = ''receipt-truncated''"
definition RECEIPT_INVALID_CAUSE :: string where "RECEIPT_INVALID_CAUSE = ''receipt-invalid-cause''"
definition RECEIPT_FIELD_MISMATCH :: string where "RECEIPT_FIELD_MISMATCH = ''receipt-field-mismatch''"

record receipt =
  r_cause :: int
  r_cause_name :: "string option"
  r_event :: int
  r_next_node :: int
  r_prev_node :: int
  r_seq :: int

record decoded_receipt =
  dr_receipt :: "receipt option"
  dr_refusal_cause :: string

text \<open>\<open>Union[int, str]\<close>: a registry code or a registry name.\<close>

datatype cause_arg = CauseInt int | CauseName string

definition encode_receipt_symbols :: "int \<Rightarrow> int \<Rightarrow> int \<Rightarrow> int \<Rightarrow> cause_arg \<Rightarrow> int list result" where
  "encode_receipt_symbols seq prev_node event next_node cause =
     ebind (case cause of
              CauseName name \<Rightarrow> (case cause_code name of None \<Rightarrow> Inl ValueError | Some c \<Rightarrow> Inr c)
            | CauseInt c \<Rightarrow> Inr c)
       (\<lambda>resolved_code.
          if \<not> (0 \<le> resolved_code \<and> resolved_code \<le> 255) then Inl ValueError
          else if seq < 0 \<or> prev_node < 0 \<or> event < 0 \<or> next_node < 0 then Inl ValueError
          else Inr [resolved_code, event, next_node, prev_node, seq])"

definition encode_receipt_bits :: "int \<Rightarrow> int \<Rightarrow> int \<Rightarrow> int \<Rightarrow> cause_arg \<Rightarrow> string result" where
  "encode_receipt_bits seq prev_node event next_node cause =
     ebind (encode_receipt_symbols seq prev_node event next_node cause)
       (\<lambda>syms. encode_stream (map (\<lambda>symbol. symbol + 1) syms))"

definition encode_receipt :: "int \<Rightarrow> int \<Rightarrow> int \<Rightarrow> int \<Rightarrow> cause_arg \<Rightarrow> string result" where
  "encode_receipt seq prev_node event next_node cause =
     ebind (encode_receipt_bits seq prev_node event next_node cause) (\<lambda>bits. pack bits 8)"

text \<open>A receipt as a dictionary: the four numbers and the cause, any of which may be missing.\<close>

record receipt_dict =
  rd_cause :: "cause_arg option"
  rd_event :: "int option"
  rd_next_node :: "int option"
  rd_prev_node :: "int option"
  rd_seq :: "int option"

definition encode_receipt_dict :: "receipt_dict \<Rightarrow> string result" where
  "encode_receipt_dict receipt =
     (case (rd_seq receipt, rd_prev_node receipt, rd_event receipt, rd_next_node receipt, rd_cause receipt) of
        (Some seq, Some prev_node, Some event, Some next_node, Some cause) \<Rightarrow>
          encode_receipt seq prev_node event next_node cause
      | _ \<Rightarrow> Inl KeyError)"

definition decode_receipt_bits :: "string \<Rightarrow> decoded_receipt result" where
  "decode_receipt_bits bits =
     (if bits = [] then Inr \<lparr>dr_receipt = None, dr_refusal_cause = RECEIPT_TRUNCATED\<rparr>
      else ebind (decode_stream bits) (\<lambda>wire_ints.
        if length wire_ints = 0 then Inr \<lparr>dr_receipt = None, dr_refusal_cause = RECEIPT_TRUNCATED\<rparr>
        else if length wire_ints \<noteq> length RECEIPT_FIELDS then
          (if length wire_ints < length RECEIPT_FIELDS
           then Inr \<lparr>dr_receipt = None, dr_refusal_cause = RECEIPT_TRUNCATED\<rparr>
           else Inr \<lparr>dr_receipt = None, dr_refusal_cause = RECEIPT_FIELD_MISMATCH\<rparr>)
        else
          let syms = map (\<lambda>wire_int. wire_int - 1) wire_ints; code = syms ! 0 in
          if \<not> (0 \<le> code \<and> code \<le> 255)
          then Inr \<lparr>dr_receipt = None, dr_refusal_cause = RECEIPT_INVALID_CAUSE\<rparr>
          else Inr \<lparr>dr_receipt = Some \<lparr>r_cause = code, r_cause_name = cause_name code, r_event = syms ! 1,
                      r_next_node = syms ! 2, r_prev_node = syms ! 3, r_seq = syms ! 4\<rparr>,
                    dr_refusal_cause = RCPT_OK\<rparr>))"

definition decode_receipt :: "string \<Rightarrow> decoded_receipt result" where
  "decode_receipt frame =
     (if frame = [] then Inr \<lparr>dr_receipt = None, dr_refusal_cause = RECEIPT_TRUNCATED\<rparr>
      else decode_receipt_bits (unpack frame))"

lemmas receipt_causes = RCPT_OK_def RECEIPT_TRUNCATED_def RECEIPT_INVALID_CAUSE_def RECEIPT_FIELD_MISMATCH_def

lemma encode_stream_nonempty: "encode_stream vals = Inr bits \<Longrightarrow> vals \<noteq> [] \<Longrightarrow> bits \<noteq> []"
  using encode_stream_words by fastforce

lemma encode_receipt_symbols_Inr:
  "encode_receipt_symbols seq prev_node event next_node cause = Inr syms \<longleftrightarrow>
   0 \<le> seq \<and> 0 \<le> prev_node \<and> 0 \<le> event \<and> 0 \<le> next_node \<and>
   (\<exists>c. (cause = CauseInt c \<or> (\<exists>n. cause = CauseName n \<and> cause_code n = Some c)) \<and>
        0 \<le> c \<and> c \<le> 255 \<and> syms = [c, event, next_node, prev_node, seq])"
  by (auto simp: encode_receipt_symbols_def split: cause_arg.splits option.splits if_splits)

text \<open>
  C27. A receipt survives its frame: whatever the encoder accepts, the decoder reads back field by
  field from the packed bytes, with the registry name of its cause.
\<close>

theorem receipt_roundtrip:
  assumes "encode_receipt seq prev_node event next_node cause = Inr frame"
  shows "\<exists>c. (cause = CauseInt c \<or> (\<exists>n. cause = CauseName n \<and> cause_code n = Some c)) \<and>
    decode_receipt frame = Inr \<lparr>dr_receipt = Some \<lparr>r_cause = c, r_cause_name = cause_name c, r_event = event,
        r_next_node = next_node, r_prev_node = prev_node, r_seq = seq\<rparr>, dr_refusal_cause = RCPT_OK\<rparr>"
proof -
  obtain bits where bits: "encode_receipt_bits seq prev_node event next_node cause = Inr bits"
    and frame: "pack bits 8 = Inr frame"
    using assms by (auto simp: encode_receipt_def err_simps)
  then obtain c where c: "cause = CauseInt c \<or> (\<exists>n. cause = CauseName n \<and> cause_code n = Some c)"
    "0 \<le> c" "c \<le> 255"
    and enc: "encode_stream [c + 1, event + 1, next_node + 1, prev_node + 1, seq + 1] = Inr bits"
    by (auto simp: encode_receipt_bits_def err_simps encode_receipt_symbols_Inr)
  have b: "bitstr bits" "bits \<noteq> []" using enc encode_stream_words encode_stream_nonempty by blast+
  obtain z where z: "unpack frame = bits @ replicate z b0"
    using pack_unpack [OF b(1), of 1] frame by auto
  have "decode_stream (bits @ replicate z b0)
      = Inr [c + 1, event + 1, next_node + 1, prev_node + 1, seq + 1]"
    by (rule decode_stream_padded [OF enc]) simp
  moreover have "frame \<noteq> []" using z b(2) by auto
  ultimately have "decode_receipt frame = Inr \<lparr>dr_receipt = Some \<lparr>r_cause = c, r_cause_name = cause_name c,
      r_event = event, r_next_node = next_node, r_prev_node = prev_node, r_seq = seq\<rparr>,
      dr_refusal_cause = RCPT_OK\<rparr>"
    using c z b(2) by (simp add: decode_receipt_def decode_receipt_bits_def RECEIPT_FIELDS_def Let_def)
  then show ?thesis using c by blast
qed

theorem receipt_roundtrip_witness:
  "\<exists>frame. encode_receipt 7 0 2 1 (CauseInt 3) = Inr frame \<and>
     (\<exists>r. decode_receipt frame = Inr r \<and> dr_refusal_cause r = RCPT_OK \<and>
          map_option r_seq (dr_receipt r) = Some 7)"
proof -
  have "\<exists>frame. encode_receipt 7 0 2 1 (CauseInt 3) = Inr frame"
    using packed_decode_encode [of "[4, 3, 2, 1, 8]" 1]
    by (auto simp: encode_receipt_def encode_receipt_bits_def encode_receipt_symbols_def packed_encode_def)
  then obtain frame where f: "encode_receipt 7 0 2 1 (CauseInt 3) = Inr frame" by blast
  then show ?thesis using receipt_roundtrip [OF f] by auto
qed

end
