(* ===== verification/Concentrator.thy ===== *)
theory Concentrator
  imports Packed
begin

section \<open>The concentrator (\<open>prismpath/telemetry/concentrator.py\<close>)\<close>

text \<open>
  Many streams share one datagram: a record is the codeword of its stream id followed by as many
  codewords as the registry says the stream has fields. The demultiplexer takes the whole datagram
  or nothing of it.
\<close>

definition CONCENTRATOR_UNKNOWN_STREAM :: string where
  "CONCENTRATOR_UNKNOWN_STREAM = ''concentrator-unknown-stream''"
definition CONCENTRATOR_TRUNCATED :: string where
  "CONCENTRATOR_TRUNCATED = ''concentrator-truncated''"
definition CONC_OK :: string where "CONC_OK = ''ok''"

lemmas conc_causes = CONCENTRATOR_UNKNOWN_STREAM_def CONCENTRATOR_TRUNCATED_def CONC_OK_def

type_synonym conc_record = "int \<times> int list"

definition conc_bits :: "conc_record \<Rightarrow> string result" where
  "conc_bits r = (case r of (stream_id, wire_ints) \<Rightarrow>
     if stream_id < 1 then Inl ValueError
     else if wire_ints = [] then Inl ValueError
     else ebind (zeck_encode stream_id) (\<lambda>a. ebind (encode_stream wire_ints) (\<lambda>b. Inr (a @ b))))"

definition concentrate :: "conc_record list \<Rightarrow> string result" where
  "concentrate records = ebind (emap conc_bits records) (\<lambda>bits. pack (concat bits) 8)"

text \<open>\<open>take_one\<close>: the codeword at \<open>pos\<close> and the position after it; None stands for \<open>(-1, -1)\<close>.\<close>

function take_one_loop :: "string \<Rightarrow> nat \<Rightarrow> nat \<Rightarrow> (int \<times> nat) option result" where
  "take_one_loop bits pos i =
     (if i + 1 < length bits then
        if bits ! i = b1 \<and> bits ! (i + 1) = b1
        then ebind (zeck_decode (take (i + 2 - pos) (drop pos bits))) (\<lambda>v. Inr (Some (v, i + 2)))
        else take_one_loop bits pos (i + 1)
      else Inr None)"
  by pat_completeness auto
termination
  by (relation "measure (\<lambda>(bits, pos, i). length bits - i)") auto

declare take_one_loop.simps [simp del]

definition take_one :: "string \<Rightarrow> nat \<Rightarrow> (int \<times> nat) option result" where
  "take_one bits pos = take_one_loop bits pos pos"

text \<open>The inner loop over the fields of one reading; None is a record cut in the middle.\<close>

fun take_fields :: "string \<Rightarrow> nat \<Rightarrow> nat \<Rightarrow> int list \<Rightarrow> (int list \<times> nat) option result" where
  "take_fields bits 0 pos wire_ints = Inr (Some (wire_ints, pos))"
| "take_fields bits (Suc n) pos wire_ints =
     ebind (take_one bits pos) (\<lambda>r. case r of None \<Rightarrow> Inr None
       | Some (value, nxt) \<Rightarrow> take_fields bits n nxt (wire_ints @ [value]))"

lemma take_one_loop_pos: "take_one_loop bits pos i = Inr (Some (v, nxt)) \<Longrightarrow> i < nxt \<and> nxt \<le> length bits"
proof (induction bits pos i rule: take_one_loop.induct)
  case (1 bits pos i)
  show ?case
  proof (cases "i + 1 < length bits \<and> \<not> (bits ! i = b1 \<and> bits ! (i + 1) = b1)")
    case True
    then have "take_one_loop bits pos (i + 1) = Inr (Some (v, nxt))"
      using 1(2) by (subst (asm) take_one_loop.simps) auto
    then show ?thesis using 1(1) True by auto
  next
    case False
    then show ?thesis using 1(2) by (subst (asm) take_one_loop.simps) (auto simp: err_simps split: if_splits)
  qed
qed

lemma take_one_pos: "take_one bits pos = Inr (Some (v, nxt)) \<Longrightarrow> pos < nxt \<and> nxt \<le> length bits"
  using take_one_loop_pos by (simp add: take_one_def)

lemma take_fields_pos: "take_fields bits n pos acc = Inr (Some (vs, nxt)) \<Longrightarrow> pos \<le> nxt"
proof (induction n arbitrary: pos acc)
  case (Suc n)
  then obtain v p where "take_one bits pos = Inr (Some (v, p))" "take_fields bits n p (acc @ [v]) = Inr (Some (vs, nxt))"
    by (auto simp: err_simps split: option.splits)
  then show ?case using Suc.IH take_one_pos by (meson less_imp_le order_trans)
qed simp

function demux_loop :: "string \<Rightarrow> (int \<Rightarrow> int option) \<Rightarrow> nat \<Rightarrow> conc_record list \<Rightarrow> (conc_record list \<times> string) result" where
  "demux_loop bits registry pos out =
     (if pos < length bits then
        if b1 \<notin> set (drop pos bits) then Inr (out, CONC_OK)
        else case take_one bits pos of
          Inl e \<Rightarrow> Inl e
        | Inr None \<Rightarrow> Inr ([], CONCENTRATOR_TRUNCATED)
        | Inr (Some (sid, nxt)) \<Rightarrow>
            (case registry sid of
               None \<Rightarrow> Inr ([], CONCENTRATOR_UNKNOWN_STREAM)
             | Some count \<Rightarrow>
                 (case take_fields bits (nat count) nxt [] of
                    Inl e \<Rightarrow> Inl e
                  | Inr None \<Rightarrow> Inr ([], CONCENTRATOR_TRUNCATED)
                  | Inr (Some (wire_ints, nxt')) \<Rightarrow> demux_loop bits registry nxt' (out @ [(sid, wire_ints)])))
      else Inr (out, CONC_OK))"
  by pat_completeness auto
termination
proof (relation "measure (\<lambda>(bits, registry, pos, out). length bits - pos)", goal_cases)
  case (2 bits registry pos out x2 x2a x y count x2b x2c x' y')
  then have "pos < y" "y \<le> y'" using take_one_pos take_fields_pos by blast+
  then show ?case using 2(1) by auto
qed auto

declare demux_loop.simps [simp del]

definition demux :: "string \<Rightarrow> (int \<Rightarrow> int option) \<Rightarrow> (conc_record list \<times> string) result" where
  "demux frame registry = demux_loop (unpack frame) registry 0 []"

subsection \<open>Taking one codeword\<close>

lemma take_one_loop_word:
  assumes w: "zword w" and bits: "drop pos bits = w @ [b1] @ rest"
  shows "k < length w \<Longrightarrow>
    take_one_loop bits pos (pos + (length w - 1 - k)) = Inr (Some (zval w, pos + length w + 1))"
proof (induction k)
  have at: "bits ! (pos + i) = (w @ [b1] @ rest) ! i" for i
    using bits by (metis linorder_linear nth_drop drop_all append_is_Nil_conv list.distinct(1))
  have len: "length bits = pos + length w + 1 + length rest"
    using arg_cong [OF bits, of length] by simp
  case 0
  obtain v where v: "w = v @ [b1]" using w by (metis append_butlast_last_id zword_def)
  have "bits ! (pos + length v) = b1" "bits ! (pos + Suc (length v)) = b1"
    using at [of "length v"] at [of "Suc (length v)"] v by (auto simp: nth_append)
  moreover have "take (pos + length v + 2 - pos) (drop pos bits) = w @ [b1]"
    unfolding bits using v by simp
  ultimately show ?case
    using v len zeck_decode_word [OF w] by (subst take_one_loop.simps) (simp add: add.assoc)
next
  have at: "bits ! (pos + i) = (w @ [b1] @ rest) ! i" for i
    using bits by (metis linorder_linear nth_drop drop_all append_is_Nil_conv list.distinct(1))
  have len: "length bits = pos + length w + 1 + length rest"
    using arg_cong [OF bits, of length] by simp
  case (Suc k)
  let ?j = "length w - 1 - Suc k"
  have j: "Suc ?j < length w" "Suc ?j = length w - 1 - k" using Suc.prems by auto
  have "\<not> (w ! ?j = b1 \<and> w ! Suc ?j = b1)"
    using w j(1) contains11_nth [of w] by (auto simp: zword_def)
  then have no: "\<not> (bits ! (pos + ?j) = b1 \<and> bits ! (pos + ?j + 1) = b1)"
    using at [of ?j] at [of "Suc ?j"] j(1) by (simp add: nth_append)
  have "take_one_loop bits pos (pos + ?j) = take_one_loop bits pos (pos + ?j + 1)"
    using no j len by (subst take_one_loop.simps) auto
  also have "\<dots> = Inr (Some (zval w, pos + length w + 1))"
    using Suc.IH Suc.prems j by (metis Suc_lessD add_Suc_right add.right_neutral One_nat_def)
  finally show ?case .
qed

lemma take_one_word:
  assumes "zword w" "drop pos bits = w @ [b1] @ rest"
  shows "take_one bits pos = Inr (Some (zval w, pos + length w + 1))"
  using take_one_loop_word [OF assms, of "length w - 1"] assms(1) by (auto simp: zword_def take_one_def)

lemma take_one_none: "\<not> str_contains ''11'' (drop pos bits) \<Longrightarrow> take_one bits pos = Inr None"
proof -
  assume no: "\<not> str_contains ''11'' (drop pos bits)"
  have "pos \<le> i \<Longrightarrow> take_one_loop bits pos i = Inr None" for i
  proof (induction "length bits - i" arbitrary: i)
    case 0
    then show ?case by (subst take_one_loop.simps) simp
  next
    case (Suc n)
    have "\<not> (bits ! i = b1 \<and> bits ! (i + 1) = b1)" if "i + 1 < length bits"
    proof
      assume "bits ! i = b1 \<and> bits ! (i + 1) = b1"
      then have "str_contains ''11'' (drop pos bits)"
        using that Suc.prems unfolding contains11_nth by (intro exI [of _ "i - pos"]) auto
      then show False using no by simp
    qed
    moreover have "take_one_loop bits pos (i + 1) = Inr None" using Suc by simp
    ultimately show ?case by (subst take_one_loop.simps) auto
  qed
  then show ?thesis by (simp add: take_one_def)
qed

lemma take_one_cases:
  obtains (word) w rest where "drop pos bits = w @ [b1] @ rest" "zword w"
      "take_one bits pos = Inr (Some (zval w, pos + length w + 1))"
    | (none) "\<not> str_contains ''11'' (drop pos bits)" "take_one bits pos = Inr None"
  using split_codeword take_one_word take_one_none by metis

lemma drop_word: "drop pos bits = w @ [b1] @ rest \<Longrightarrow> drop (pos + length w + 1) bits = rest"
proof -
  assume a: "drop pos bits = w @ [b1] @ rest"
  have "drop (pos + length w + 1) bits = drop (length w + 1) (drop pos bits)"
    by (simp add: add.commute add.left_commute)
  then show ?thesis unfolding a by simp
qed

lemma take_fields_words:
  "list_all zword ws \<Longrightarrow> drop pos bits = concat (map (\<lambda>w. w @ [b1]) ws) @ rest \<Longrightarrow>
   \<exists>nxt. take_fields bits (length ws) pos acc = Inr (Some (acc @ map zval ws, nxt)) \<and> drop nxt bits = rest"
proof (induction ws arbitrary: pos acc)
  case (Cons w ws)
  have d: "drop pos bits = w @ [b1] @ (concat (map (\<lambda>w. w @ [b1]) ws) @ rest)"
    using Cons.prems(2) by simp
  have "take_one bits pos = Inr (Some (zval w, pos + length w + 1))"
    using take_one_word [OF _ d] Cons.prems(1) by simp
  moreover obtain nxt where "take_fields bits (length ws) (pos + length w + 1) (acc @ [zval w])
      = Inr (Some ((acc @ [zval w]) @ map zval ws, nxt))" "drop nxt bits = rest"
    using Cons.IH [OF _ drop_word [OF d], of "acc @ [zval w]"] Cons.prems(1) by (auto simp del: append_assoc)
  ultimately show ?case by auto
qed simp

lemma take_fields_total:
  "(take_fields bits n pos acc = Inr None) \<or>
   (\<exists>ws nxt. take_fields bits n pos acc = Inr (Some (acc @ map zval ws, nxt)) \<and> length ws = n \<and>
     list_all zword ws \<and> drop pos bits = concat (map (\<lambda>w. w @ [b1]) ws) @ drop nxt bits)"
proof (induction n arbitrary: pos acc)
  case (Suc n)
  show ?case
  proof (cases rule: take_one_cases [of pos bits])
    case (word w rest)
    note rest = drop_word [OF word(1)]
    show ?thesis
      using Suc.IH [of "pos + length w + 1" "acc @ [zval w]"]
    proof (elim disjE exE conjE)
      fix ws nxt
      assume "take_fields bits n (pos + length w + 1) (acc @ [zval w]) = Inr (Some ((acc @ [zval w]) @ map zval ws, nxt))"
        "length ws = n" "list_all zword ws"
        "drop (pos + length w + 1) bits = concat (map (\<lambda>w. w @ [b1]) ws) @ drop nxt bits"
      then show ?thesis using word rest by (intro disjI2 exI [of _ "w # ws"] exI [of _ nxt]) auto
    qed (use word in auto)
  qed auto
qed simp


subsection \<open>The demultiplexer\<close>

definition conc_ints :: "conc_record list \<Rightarrow> int list" where
  "conc_ints records = concat (map (\<lambda>(sid, wire_ints). sid # wire_ints) records)"

definition conforms :: "(int \<Rightarrow> int option) \<Rightarrow> conc_record \<Rightarrow> bool" where
  "conforms registry r = (case r of (sid, wire_ints) \<Rightarrow>
     case registry sid of None \<Rightarrow> False | Some count \<Rightarrow> length wire_ints = nat count)"

lemma conc_ints_simps [simp]:
  "conc_ints [] = []"
  "conc_ints ((sid, wire_ints) # rs) = sid # wire_ints @ conc_ints rs"
  by (simp_all add: conc_ints_def)

lemma concentrate_stream:
  "emap conc_bits records = Inr cs \<Longrightarrow> encode_stream (conc_ints records) = Inr (concat cs)"
proof (induction records arbitrary: cs)
  case (Cons r records)
  obtain sid ints where r: "r = (sid, ints)" by (cases r)
  obtain c cs' where c: "conc_bits r = Inr c" "emap conc_bits records = Inr cs'" "cs = c # cs'"
    using Cons.prems by (auto simp: err_simps)
  obtain a b where "zeck_encode sid = Inr a" "encode_stream ints = Inr b" "c = a @ b"
    using c(1) by (auto simp: conc_bits_def r err_simps split: if_splits)
  then show ?case using Cons.IH [OF c(2)] c(3) encode_stream_append [of "[sid]" "ints @ conc_ints records"]
      encode_stream_append [of ints "conc_ints records"]
    by (simp add: r encode_stream_def)
qed (simp add: encode_stream_def)

lemma demux_loop_end: "b1 \<notin> set (drop pos bits) \<Longrightarrow> demux_loop bits registry pos out = Inr (out, CONC_OK)"
  by (subst demux_loop.simps) simp

lemma demux_loop_record:
  assumes "drop pos bits = w @ [b1] @ concat (map (\<lambda>w. w @ [b1]) ws) @ rest" "zword w" "list_all zword ws"
    "registry (zval w) = Some count" "nat count = length ws"
  shows "\<exists>nxt. demux_loop bits registry pos out = demux_loop bits registry nxt (out @ [(zval w, map zval ws)])
    \<and> drop nxt bits = rest"
proof -
  have t: "take_one bits pos = Inr (Some (zval w, pos + length w + 1))"
    by (rule take_one_word [OF assms(2,1)])
  obtain nxt where n: "take_fields bits (nat count) (pos + length w + 1) [] = Inr (Some (map zval ws, nxt))"
    "drop nxt bits = rest"
    using take_fields_words [OF assms(3) drop_word [OF assms(1)], of "[]"] assms(5) by auto
  have "pos < length bits" using arg_cong [OF assms(1), of length] by simp
  moreover have "b1 \<in> set (drop pos bits)" unfolding assms(1) by simp
  ultimately show ?thesis using t n assms(4) by (subst demux_loop.simps) auto
qed

lemma demux_loop_forward:
  "list_all zword ws \<Longrightarrow> map zval ws = conc_ints records \<Longrightarrow> list_all (conforms registry) records \<Longrightarrow>
   drop pos bits = concat (map (\<lambda>w. w @ [b1]) ws) @ zeros \<Longrightarrow> b1 \<notin> set zeros \<Longrightarrow>
   demux_loop bits registry pos out = Inr (out @ records, CONC_OK)"
proof (induction records arbitrary: ws pos out)
  case Nil
  then show ?case by (simp add: demux_loop_end)
next
  case (Cons r records)
  obtain sid ints where r: "r = (sid, ints)" by (cases r)
  obtain w ws' where ws: "ws = w # ws'" "zval w = sid" "map zval ws' = ints @ conc_ints records"
    using Cons.prems(2) r by auto
  define us where "us = take (length ints) ws'"
  define vs where "vs = drop (length ints) ws'"
  have us: "ws' = us @ vs" "map zval us = ints" "map zval vs = conc_ints records"
    using ws(3) by (auto simp: us_def vs_def simp flip: take_map drop_map)
  have z: "zword w" "list_all zword us" "list_all zword vs" using Cons.prems(1) ws us by auto
  obtain count where count: "registry sid = Some count" "nat count = length us"
    using Cons.prems(3) r us(2) by (auto simp: conforms_def split: option.splits)
  obtain nxt where "demux_loop bits registry pos out = demux_loop bits registry nxt (out @ [(sid, ints)])"
    "drop nxt bits = concat (map (\<lambda>w. w @ [b1]) vs) @ zeros"
    using demux_loop_record [of pos bits w us "concat (map (\<lambda>w. w @ [b1]) vs) @ zeros" registry count out]
      Cons.prems(4) ws us z count by auto
  then show ?case using Cons.IH [OF z(3) us(3), of nxt "out @ [r]"] Cons.prems(3,5) r by simp
qed

lemma demux_loop_total:
  "(\<exists>cause \<in> {CONCENTRATOR_UNKNOWN_STREAM, CONCENTRATOR_TRUNCATED}. demux_loop bits registry pos out = Inr ([], cause)) \<or>
   (\<exists>records ws zeros. demux_loop bits registry pos out = Inr (out @ records, CONC_OK) \<and>
      list_all zword ws \<and> map zval ws = conc_ints records \<and> list_all (conforms registry) records \<and>
      drop pos bits = concat (map (\<lambda>w. w @ [b1]) ws) @ zeros \<and> b1 \<notin> set zeros)"
proof (induction "length bits - pos" arbitrary: pos out rule: less_induct)
  case less
  show ?case
  proof (cases "b1 \<in> set (drop pos bits)")
    case False
    then show ?thesis
      by (intro disjI2 exI [of _ "[]"] exI [of _ "drop pos bits"]) (simp add: demux_loop_end)
  next
    case True
    then have p: "pos < length bits" by (metis drop_all empty_iff list.set(1) linorder_not_less)
    show ?thesis
    proof (cases rule: take_one_cases [of pos bits])
      case none
      then show ?thesis using True p by (intro disjI1) (subst demux_loop.simps, simp)
    next
      case (word w rest)
      show ?thesis
      proof (cases "registry (zval w)")
        case None
        then show ?thesis using word True p by (intro disjI1) (subst demux_loop.simps, simp)
      next
        case (Some count)
        consider (cut) "take_fields bits (nat count) (pos + length w + 1) [] = Inr None"
          | (got) ws nxt where "take_fields bits (nat count) (pos + length w + 1) [] = Inr (Some (map zval ws, nxt))"
              "length ws = nat count" "list_all zword ws"
              "drop (pos + length w + 1) bits = concat (map (\<lambda>w. w @ [b1]) ws) @ drop nxt bits"
          using take_fields_total [of bits "nat count" "pos + length w + 1" "[]"] by auto
        then show ?thesis
        proof cases
          case cut
          then show ?thesis using word True p Some by (intro disjI1) (subst demux_loop.simps, simp)
        next
          case got
          have step: "demux_loop bits registry pos out = demux_loop bits registry nxt (out @ [(zval w, map zval ws)])"
            using word True p Some got(1) by (subst demux_loop.simps) simp
          have pre: "drop pos bits = (w @ [b1]) @ concat (map (\<lambda>w. w @ [b1]) ws) @ drop nxt bits"
            using word(1) drop_word [OF word(1)] got(4) by simp
          have "pos < nxt" using take_fields_pos [OF got(1)] by simp
          then have "length bits - nxt < length bits - pos" using p by simp
          from less.hyps [OF this, of "out @ [(zval w, map zval ws)]"] show ?thesis
          proof (elim disjE exE conjE)
            fix records us zeros
            assume *: "demux_loop bits registry nxt (out @ [(zval w, map zval ws)])
                = Inr ((out @ [(zval w, map zval ws)]) @ records, CONC_OK)"
              "list_all zword us" "map zval us = conc_ints records" "list_all (conforms registry) records"
              "drop nxt bits = concat (map (\<lambda>w. w @ [b1]) us) @ zeros" "b1 \<notin> set zeros"
            show ?thesis
              using * step pre word(2) got(2,3) Some
              by (intro disjI2 exI [of _ "(zval w, map zval ws) # records"] exI [of _ "w # ws @ us"] exI [of _ zeros])
                (simp add: conforms_def)
          qed (use step in auto)
        qed
      qed
    qed
  qed
qed

lemma demux_ok_canonical:
  assumes "demux frame registry = Inr (records, CONC_OK)" "bitstr (unpack frame)"
  shows "list_all (conforms registry) records \<and> (\<exists>code zeros. encode_stream (conc_ints records) = Inr code \<and>
    unpack frame = code @ zeros \<and> set zeros \<subseteq> {b0})"
  using demux_loop_total [of "unpack frame" registry 0 "[]"]
proof (elim disjE exE conjE bexE)
  fix recs ws zeros
  assume "demux_loop (unpack frame) registry 0 [] = Inr ([] @ recs, CONC_OK)" and
    w: "list_all zword ws" "map zval ws = conc_ints recs" "list_all (conforms registry) recs"
    "drop 0 (unpack frame) = concat (map (\<lambda>w. w @ [b1]) ws) @ zeros" "b1 \<notin> set zeros"
  then have [simp]: "recs = records" using assms(1) by (simp add: demux_def)
  have "bitstr (concat (map (\<lambda>w. w @ [b1]) ws))" "set zeros \<subseteq> {b0}"
    using assms(2) w(4,5) by (auto simp: bitstr_def)
  then show ?thesis using encode_stream_zwords [OF w(1)] w by auto
qed (use assms(1) in \<open>auto simp: demux_def conc_causes\<close>)

lemma bitstr_unpack [simp]: "bitstr (unpack data)"
proof -
  have "bitstr (msb_bits n v)" for n v by (induction n arbitrary: v) auto
  then show ?thesis by (induction data) (auto simp: unpack_def)
qed

text \<open>
  C31. The concentrator round trip: a datagram of records whose field counts the registry knows is
  demultiplexed into exactly those records, in order.
\<close>

theorem demux_concentrate:
  assumes "concentrate records = Inr frame"
    and "\<forall>(sid, wire_ints) \<in> set records. registry sid = Some (int (length wire_ints))"
  shows "demux frame registry = Inr (records, CONC_OK)"
proof -
  obtain cs where cs: "emap conc_bits records = Inr cs" "pack (concat cs) 8 = Inr frame"
    using assms(1) by (auto simp: concentrate_def err_simps)
  obtain ws where ws: "list_all zword ws" "concat cs = concat (map (\<lambda>w. w @ [b1]) ws)"
    "map zval ws = conc_ints records" "bitstr (concat cs)"
    using encode_stream_words [OF concentrate_stream [OF cs(1)]] by blast
  obtain z where "unpack frame = concat cs @ replicate z b0"
    using pack_unpack [OF ws(4), of 1] cs(2) by auto
  moreover have "list_all (conforms registry) records"
    using assms(2) by (auto simp: list_all_iff conforms_def)
  ultimately show ?thesis
    using demux_loop_forward [OF ws(1,3), of registry 0 "unpack frame" "replicate z b0" "[]"] ws(2)
    by (simp add: demux_def)
qed

theorem demux_concentrate_witness:
  "demux (''y'' @ [CHR 0x80]) [2 \<mapsto> 2] = Inr ([(2, [1, 3])], CONC_OK)"
proof -
  have "concentrate [(2, [1, 3])] = Inr (''y'' @ [CHR 0x80])" by code_simp
  then show ?thesis by (rule demux_concentrate) simp
qed

text \<open>
  The demultiplexer is total and fails closed: on any bytes it returns, either no record and a
  cause that names the failure, or the records of the whole datagram, each with the field count its
  stream is registered with, whose codewords are all of the datagram up to zero padding.
\<close>

theorem demux_fail_closed:
  "(demux frame registry = Inr ([], CONCENTRATOR_UNKNOWN_STREAM) \<or>
    demux frame registry = Inr ([], CONCENTRATOR_TRUNCATED)) \<or>
   (\<exists>records code zeros. demux frame registry = Inr (records, CONC_OK) \<and>
      list_all (conforms registry) records \<and> encode_stream (conc_ints records) = Inr code \<and>
      unpack frame = code @ zeros \<and> set zeros \<subseteq> {b0})"
proof -
  consider "demux frame registry = Inr ([], CONCENTRATOR_UNKNOWN_STREAM)"
    | "demux frame registry = Inr ([], CONCENTRATOR_TRUNCATED)"
    | records where "demux frame registry = Inr (records, CONC_OK)"
    using demux_loop_total [of "unpack frame" registry 0 "[]"] by (auto simp: demux_def)
  then show ?thesis by cases (use demux_ok_canonical [OF _ bitstr_unpack] in blast)+
qed

end
