(* ===== verification/Replay.thy ===== *)
theory Replay
  imports Prelude
begin

unbundle bit_operations_syntax

section \<open>The replay window (\<open>prismpath/telemetry/replay.py\<close>)\<close>

text \<open>
  A receiver admits frame ticks through a sliding window: the highest tick admitted and a bitmask of
  the ticks just below it. The Python integer \<open>_mask\<close> never goes negative and is a \<open>nat\<close>. The
  theorems: over any sequence of observed ticks no tick is admitted twice, the mask says exactly which
  ticks of the window were admitted, and a tick is refused only for one of the two reasons the cause
  string gives.
\<close>

record tick_window =
  reorder :: nat
  top :: int
  mask_bits :: nat

definition ACCEPT :: string where "ACCEPT = ''accept''"
definition REPLAY_DUPLICATE :: string where "REPLAY_DUPLICATE = ''replay-duplicate''"
definition REPLAY_STALE :: string where "REPLAY_STALE = ''replay-stale''"

lemmas replay_causes = ACCEPT_def REPLAY_DUPLICATE_def REPLAY_STALE_def

definition tick_window_init :: "int \<Rightarrow> tick_window result" where
  "tick_window_init r =
     (if r < 0 \<or> r > 64 then Inl ValueError else Inr \<lparr>reorder = nat r, top = -1, mask_bits = 0\<rparr>)"

definition tick_check :: "tick_window \<Rightarrow> int \<Rightarrow> bool \<times> string" where
  "tick_check w tick =
     (if tick > top w then (True, ACCEPT)
      else if reorder w = 0 then (False, if tick = top w then REPLAY_DUPLICATE else REPLAY_STALE)
      else let back = top w - tick in
        if back \<ge> int (reorder w) then (False, REPLAY_STALE)
        else if (drop_bit (nat back) (mask_bits w)) AND 1 \<noteq> 0 then (False, REPLAY_DUPLICATE)
        else (True, ACCEPT))"

definition tick_observe :: "tick_window \<Rightarrow> int \<Rightarrow> tick_window \<times> bool \<times> string" where
  "tick_observe w tick =
     (case tick_check w tick of (ok, cause) \<Rightarrow>
        if \<not> ok then (w, ok, cause)
        else if tick > top w then
          let ahead = nat (tick - top w) in
          (w\<lparr>mask_bits := (push_bit ahead (mask_bits w) OR 1) AND (push_bit (max (reorder w) 1) 1 - 1), top := tick\<rparr>,
           True, ACCEPT)
        else (w\<lparr>mask_bits := mask_bits w OR push_bit (nat (top w - tick)) 1\<rparr>, True, ACCEPT))"

text \<open>A run: the window after a sequence of frames and the ticks it admitted, in order.\<close>

fun observe_all :: "tick_window \<Rightarrow> int list \<Rightarrow> tick_window \<times> int list" where
  "observe_all w [] = (w, [])"
| "observe_all w (t # ts) =
     (case tick_observe w t of (w', ok, _) \<Rightarrow>
        (case observe_all w' ts of (w'', acc) \<Rightarrow> (w'', if ok then t # acc else acc)))"

text \<open>
  What the window remembers of the set of ticks admitted so far: \<open>top\<close> bounds them, and bit \<open>k\<close> of
  the mask is set exactly when \<open>top - k\<close> is one of them, for every \<open>k\<close> the mask keeps.
\<close>

definition window_inv :: "tick_window \<Rightarrow> int set \<Rightarrow> bool" where
  "window_inv w seen \<longleftrightarrow> (\<forall>t \<in> seen. t \<le> top w) \<and>
     (\<forall>k. bit (mask_bits w) k \<longleftrightarrow> k < max (reorder w) 1 \<and> top w - int k \<in> seen)"

lemma bit_and_one: "(drop_bit k (m :: nat)) AND 1 \<noteq> 0 \<longleftrightarrow> bit m k"
  by (simp add: and_one_eq bit_iff_odd_drop_bit odd_iff_mod_2_eq_one)

lemma bit_one_nat: "bit (1 :: nat) k \<longleftrightarrow> k = 0"
  by (cases k) (simp_all add: bit_Suc bit_0)

lemma bit_two_power_nat: "bit (2 ^ n :: nat) k \<longleftrightarrow> k = n"
  by (auto simp: bit_exp_iff)

lemma bit_low_mask: "bit (push_bit n 1 - 1 :: nat) k \<longleftrightarrow> k < n"
  by (metis bit_mask_iff mask_eq_exp_minus_1 possible_bit_def exp_eq_0_imp_not_bit push_bit_eq_mult mult_1 bit_nat_iff
      linorder_not_less possible_bit_nat)

lemma window_inv_init: "tick_window_init r = Inr w \<Longrightarrow> window_inv w {}"
  by (auto simp: tick_window_init_def window_inv_def split: if_splits)

lemma tick_observe_reorder [simp]: "reorder (fst (tick_observe w t)) = reorder w"
  by (auto simp: tick_observe_def Let_def split: prod.splits)

lemma tick_check_cases:
  assumes "window_inv w seen"
  shows "tick_check w t =
    (if t > top w then (True, ACCEPT)
     else if top w - t < int (reorder w) then
       (if t \<in> seen then (False, REPLAY_DUPLICATE) else (True, ACCEPT))
     else (False, if reorder w = 0 \<and> t = top w then REPLAY_DUPLICATE else REPLAY_STALE))"
proof -
  have "bit (mask_bits w) (nat (top w - t)) \<longleftrightarrow> t \<in> seen" if "\<not> t > top w" "top w - t < int (reorder w)"
  proof -
    have "top w - int (nat (top w - t)) = t" "nat (top w - t) < max (reorder w) 1"
      using that by auto
    then show ?thesis using assms by (auto simp: window_inv_def)
  qed
  then show ?thesis using bit_and_one [of "nat (top w - t)" "mask_bits w"] by (auto simp: tick_check_def Let_def)
qed

lemma tick_observe_inv:
  assumes inv: "window_inv w seen" and obs: "tick_observe w t = (w', ok, cause)"
  shows "(ok \<longrightarrow> t \<notin> seen \<and> window_inv w' (insert t seen)) \<and> (\<not> ok \<longrightarrow> w' = w) \<and> (ok, cause) = tick_check w t"
proof (cases "t > top w")
  case True
  define ahead where "ahead = nat (t - top w)"
  have a: "0 < ahead" "t = top w + int ahead" using True by (auto simp: ahead_def)
  have chk: "tick_check w t = (True, ACCEPT)" using True by (simp add: tick_check_def)
  then have w': "w' = w\<lparr>mask_bits := (push_bit ahead (mask_bits w) OR 1) AND (push_bit (max (reorder w) 1) 1 - 1),
      top := t\<rparr>" "ok" "cause = ACCEPT"
    using obs True by (auto simp: tick_observe_def Let_def ahead_def)
  have m: "mask_bits w' = (push_bit ahead (mask_bits w) OR 1) AND (push_bit (max (reorder w) 1) 1 - 1)"
    using w' by simp
  have new: "t \<notin> seen" using inv True by (auto simp: window_inv_def)
  have "bit (mask_bits w') k \<longleftrightarrow> k < max (reorder w) 1 \<and> t - int k \<in> insert t seen" for k
  proof -
    have "bit (mask_bits w') k \<longleftrightarrow> (ahead \<le> k \<and> bit (mask_bits w) (k - ahead) \<or> k = 0) \<and> k < max (reorder w) 1"
      unfolding m by (simp only: bit_and_iff bit_or_iff bit_push_bit_iff_nat bit_low_mask bit_one_nat)
    also have "\<dots> \<longleftrightarrow> k < max (reorder w) 1 \<and> t - int k \<in> insert t seen"
    proof (cases "ahead \<le> k")
      case le: True
      have eq: "top w - int (k - ahead) = t - int k" using le a by simp
      have bk: "bit (mask_bits w) (k - ahead) \<longleftrightarrow> k - ahead < max (reorder w) 1 \<and> t - int k \<in> seen"
        using inv unfolding window_inv_def eq [symmetric] by blast
      show ?thesis unfolding bk using le a by auto
    next
      case False
      then have "t - int k > top w" using a by simp
      then have "t - int k \<notin> seen" using inv by (auto simp: window_inv_def)
      then show ?thesis using False by auto
    qed
    finally show ?thesis .
  qed
  moreover have "\<forall>s \<in> insert t seen. s \<le> t" using inv True by (auto simp: window_inv_def)
  ultimately show ?thesis using w' new chk by (auto simp: window_inv_def)
next
  case False
  show ?thesis
  proof (cases "top w - t < int (reorder w) \<and> t \<notin> seen")
    case True
    have chk: "tick_check w t = (True, ACCEPT)" using tick_check_cases [OF inv, of t] True False by simp
    define dist where "dist = nat (top w - t)"
    have b: "dist < reorder w" "t = top w - int dist" using True False by (auto simp: dist_def)
    have w': "w' = w\<lparr>mask_bits := mask_bits w OR push_bit dist 1\<rparr>" "ok" "cause = ACCEPT"
      using obs False chk by (auto simp: tick_observe_def Let_def dist_def)
    have "bit (mask_bits w') k \<longleftrightarrow> k < max (reorder w) 1 \<and> top w - int k \<in> insert t seen" for k
      using inv b unfolding w' by (auto simp: window_inv_def bit_or_iff bit_two_power_nat)
    then show ?thesis using inv True False w' chk by (auto simp: window_inv_def)
  next
    case no: False
    then have "\<not> fst (tick_check w t)" using tick_check_cases [OF inv, of t] False by (auto split: if_splits)
    then show ?thesis using obs by (auto simp: tick_observe_def split: prod.splits if_splits)
  qed
qed

lemma observe_all_inv:
  "window_inv w seen \<Longrightarrow> observe_all w ts = (w', acc) \<Longrightarrow>
   window_inv w' (seen \<union> set acc) \<and> distinct acc \<and> set acc \<inter> seen = {} \<and> set acc \<subseteq> set ts"
proof (induction ts arbitrary: w seen acc)
  case (Cons t ts)
  obtain w1 ok cause where o: "tick_observe w t = (w1, ok, cause)" by (cases "tick_observe w t") auto
  obtain acc1 where a: "observe_all w1 ts = (w', acc1)" "acc = (if ok then t # acc1 else acc1)"
    using Cons.prems(2) o by (auto split: prod.splits)
  show ?case
  proof (cases ok)
    case True
    have "t \<notin> seen" "window_inv w1 (insert t seen)" using tick_observe_inv [OF Cons.prems(1) o] True by auto
    then show ?thesis using Cons.IH [of w1 "insert t seen" acc1] a True by auto
  next
    case False
    then have "w1 = w" using tick_observe_inv [OF Cons.prems(1) o] by auto
    then show ?thesis using Cons.IH [of w seen acc1] Cons.prems(1) a False by auto
  qed
qed simp

text \<open>
  C28. No replay: whatever frames arrive, a window of any reorder tolerance admits no tick twice.
\<close>

theorem no_tick_admitted_twice:
  assumes "tick_window_init r = Inr w" and "observe_all w ticks = (w', admitted)"
  shows "distinct admitted"
  using observe_all_inv [OF window_inv_init [OF assms(1)] assms(2)] by simp

theorem no_tick_admitted_twice_witness:
  "tick_window_init 4 = Inr \<lparr>reorder = 4, top = -1, mask_bits = 0\<rparr> \<and>
   snd (observe_all \<lparr>reorder = 4, top = -1, mask_bits = 0\<rparr> [3, 1, 3, 9, 1, 7]) = [3, 1, 9, 7] \<and>
   distinct (snd (observe_all \<lparr>reorder = 4, top = -1, mask_bits = 0\<rparr> [3, 1, 3, 9, 1, 7]))"
proof -
  have i: "tick_window_init 4 = Inr \<lparr>reorder = 4, top = -1, mask_bits = 0\<rparr>"
    by (simp add: tick_window_init_def)
  have "snd (observe_all \<lparr>reorder = 4, top = -1, mask_bits = 0\<rparr> [3, 1, 3, 9, 1, 7]) = [3, 1, 9, 7]"
    by code_simp
  moreover have "distinct (snd (observe_all \<lparr>reorder = 4, top = -1, mask_bits = 0\<rparr> [3, 1, 3, 9, 1, 7]))"
    by (rule no_tick_admitted_twice [OF i prod.collapse [symmetric]])
  ultimately show ?thesis using i by simp
qed

text \<open>
  The window's decision, exactly: after any run, a tick above the window is admitted, a tick
  within the reorder tolerance is admitted unless it was before, and anything older is refused.
\<close>

theorem window_decision_exact:
  assumes "tick_window_init r = Inr w" and "observe_all w ticks = (w', admitted)"
  shows "tick_check w' t =
    (if t > top w' then (True, ACCEPT)
     else if top w' - t < int (reorder w') then
       (if t \<in> set admitted then (False, REPLAY_DUPLICATE) else (True, ACCEPT))
     else (False, if reorder w' = 0 \<and> t = top w' then REPLAY_DUPLICATE else REPLAY_STALE))"
proof -
  have "window_inv w' (set admitted)"
    using observe_all_inv [OF window_inv_init [OF assms(1)] assms(2)] by simp
  then show ?thesis by (rule tick_check_cases)
qed

theorem window_decision_exact_witness:
  "tick_check (fst (observe_all \<lparr>reorder = 2, top = -1, mask_bits = 0\<rparr> [5, 4])) 4 = (False, REPLAY_DUPLICATE)"
proof -
  have i: "tick_window_init 2 = Inr \<lparr>reorder = 2, top = -1, mask_bits = 0\<rparr>"
    by (simp add: tick_window_init_def)
  have o: "observe_all \<lparr>reorder = 2, top = -1, mask_bits = 0\<rparr> [5, 4] = (\<lparr>reorder = 2, top = 5, mask_bits = 3\<rparr>, [5, 4])"
    by code_simp
  show ?thesis using window_decision_exact [OF i o, of 4] o by simp
qed

end
