(* ===== verification/Refresh.thy ===== *)
theory Refresh
  imports Prelude
begin

section \<open>Bounded staleness (\<open>prismpath/telemetry/refresh.py\<close>)\<close>

text \<open>
  The sender half decides when a keyframe is due; the consumer half decides whether the state it last
  received may still be acted on. Both read no clock: a run is a list of calls with their time in
  milliseconds. The theorems give the state acted on as a function of the run, bound its age, bound
  the time since the last emission of a sender that follows its scheduler, and show that the recorded
  transitions alternate.
\<close>

record keyframe_scheduler =
  keyframe_ms :: "int option"
  last_emit_ms :: "int option"

definition scheduler_init :: "int option \<Rightarrow> keyframe_scheduler result" where
  "scheduler_init k = (case k of
     Some ms \<Rightarrow> if ms \<le> 0 then Inl ValueError else Inr \<lparr>keyframe_ms = k, last_emit_ms = None\<rparr>
   | None \<Rightarrow> Inr \<lparr>keyframe_ms = k, last_emit_ms = None\<rparr>)"

definition should_emit :: "keyframe_scheduler \<Rightarrow> int \<Rightarrow> bool \<Rightarrow> bool" where
  "should_emit s now_ms changed =
     (if changed \<or> last_emit_ms s = None then True
      else case keyframe_ms s of None \<Rightarrow> False | Some k \<Rightarrow> now_ms - the (last_emit_ms s) \<ge> k)"

definition note_emit :: "keyframe_scheduler \<Rightarrow> int \<Rightarrow> keyframe_scheduler" where
  "note_emit s now_ms = s\<lparr>last_emit_ms := Some now_ms\<rparr>"

record 'a staleness_tracker =
  stale_ms :: int
  safe_state :: 'a
  st_state :: "'a option"
  last_frame_ms :: "int option"
  stale :: bool
  transitions :: "(int \<times> string) list"

definition tracker_init :: "int \<Rightarrow> 'a \<Rightarrow> 'a staleness_tracker result" where
  "tracker_init ms safe =
     (if ms \<le> 0 then Inl ValueError
      else Inr \<lparr>stale_ms = ms, safe_state = safe, st_state = None, last_frame_ms = None, stale = True, transitions = []\<rparr>)"

definition on_frame :: "'a staleness_tracker \<Rightarrow> int \<Rightarrow> 'a \<Rightarrow> 'a staleness_tracker" where
  "on_frame t now_ms state =
     (let t = t\<lparr>st_state := Some state, last_frame_ms := Some now_ms\<rparr> in
      if stale t then t\<lparr>stale := False, transitions := transitions t @ [(now_ms, ''recovered'')]\<rparr> else t)"

text \<open>\<open>acting_state\<close> returns the state to act on and whether it is fresh; it may record a transition.\<close>

definition acting_state :: "'a staleness_tracker \<Rightarrow> int \<Rightarrow> 'a staleness_tracker \<times> 'a option \<times> bool" where
  "acting_state t now_ms =
     (if (case last_frame_ms t of None \<Rightarrow> True | Some l \<Rightarrow> now_ms - l \<ge> stale_ms t)
      then (if \<not> stale t then t\<lparr>stale := True, transitions := transitions t @ [(now_ms, ''stale'')]\<rparr> else t,
            Some (safe_state t), False)
      else (t, st_state t, True))"

subsection \<open>The consumer over a run\<close>

datatype 'a tracker_call = Frame int 'a | Act int

fun tracker_run :: "'a staleness_tracker \<Rightarrow> 'a tracker_call list \<Rightarrow> 'a staleness_tracker" where
  "tracker_run t [] = t"
| "tracker_run t (Frame now_ms s # cs) = tracker_run (on_frame t now_ms s) cs"
| "tracker_run t (Act now_ms # cs) = tracker_run (fst (acting_state t now_ms)) cs"

fun last_frame :: "'a tracker_call list \<Rightarrow> (int \<times> 'a) option \<Rightarrow> (int \<times> 'a) option" where
  "last_frame [] acc = acc"
| "last_frame (Frame now_ms s # cs) acc = last_frame cs (Some (now_ms, s))"
| "last_frame (Act _ # cs) acc = last_frame cs acc"

definition holds_frame :: "'a staleness_tracker \<Rightarrow> (int \<times> 'a) option \<Rightarrow> bool" where
  "holds_frame t f \<longleftrightarrow> last_frame_ms t = map_option fst f \<and> st_state t = map_option snd f"

fun alternates :: "bool \<Rightarrow> string list \<Rightarrow> bool" where
  "alternates is_stale [] = True"
| "alternates is_stale (x # xs) =
     (x = (if is_stale then ''recovered'' else ''stale'') \<and> alternates (\<not> is_stale) xs)"

definition tracker_inv :: "'a staleness_tracker \<Rightarrow> bool" where
  "tracker_inv t \<longleftrightarrow> alternates True (map snd (transitions t)) \<and>
     (stale t \<longleftrightarrow> even (length (transitions t)))"

lemma alternates_snoc:
  "alternates b (xs @ [x]) \<longleftrightarrow> alternates b xs \<and>
     x = (if even (length xs) = b then ''recovered'' else ''stale'')"
  by (induction b xs rule: alternates.induct) auto

lemma on_frame_simps [simp]:
  "stale_ms (on_frame t n s) = stale_ms t" "safe_state (on_frame t n s) = safe_state t"
  "last_frame_ms (on_frame t n s) = Some n" "st_state (on_frame t n s) = Some s"
  by (simp_all add: on_frame_def Let_def)

lemma acting_state_simps [simp]:
  "stale_ms (fst (acting_state t n)) = stale_ms t" "safe_state (fst (acting_state t n)) = safe_state t"
  "last_frame_ms (fst (acting_state t n)) = last_frame_ms t" "st_state (fst (acting_state t n)) = st_state t"
  by (simp_all add: acting_state_def)

lemma on_frame_inv: "tracker_inv t \<Longrightarrow> tracker_inv (on_frame t n s)"
  by (auto simp: tracker_inv_def on_frame_def Let_def alternates_snoc)

lemma acting_state_inv: "tracker_inv t \<Longrightarrow> tracker_inv (fst (acting_state t n))"
  by (auto simp: tracker_inv_def acting_state_def alternates_snoc)

lemma tracker_run_config:
  "stale_ms (tracker_run t cs) = stale_ms t \<and> safe_state (tracker_run t cs) = safe_state t"
  by (induction t cs rule: tracker_run.induct) auto

lemma tracker_run_holds: "holds_frame t f \<Longrightarrow> holds_frame (tracker_run t cs) (last_frame cs f)"
  by (induction t cs arbitrary: f rule: tracker_run.induct) (auto simp: holds_frame_def)

lemma tracker_run_inv: "tracker_inv t \<Longrightarrow> tracker_inv (tracker_run t cs)"
  by (induction t cs rule: tracker_run.induct) (auto intro: on_frame_inv acting_state_inv)

text \<open>
  Bounded staleness (invariant I6): after any run, the state a consumer may act on is the state of
  the last frame received when that frame is younger than the bound, and the signed fail safe state
  otherwise; it is never an older received value.
\<close>

theorem acting_state_bounded_staleness:
  assumes "tracker_init ms safe = Inr t"
  shows "snd (acting_state (tracker_run t calls) now_ms) =
    (case last_frame calls None of
       None \<Rightarrow> (Some safe, False)
     | Some (received_ms, state) \<Rightarrow> if now_ms - received_ms < ms then (Some state, True) else (Some safe, False))"
proof -
  have t: "stale_ms t = ms" "safe_state t = safe" "holds_frame t None"
    using assms by (auto simp: tracker_init_def holds_frame_def split: if_splits)
  then show ?thesis
    using tracker_run_holds [OF t(3), of calls] tracker_run_config [of t calls]
    by (auto simp: acting_state_def holds_frame_def split: option.splits)
qed

theorem acting_state_bounded_staleness_witness:
  "\<exists>t. tracker_init 100 ''safe'' = Inr t \<and>
    snd (acting_state (tracker_run t [Frame 0 ''a'', Act 40, Frame 60 ''b'']) 159) = (Some ''b'', True) \<and>
    snd (acting_state (tracker_run t [Frame 0 ''a'', Act 40, Frame 60 ''b'']) 160) = (Some ''safe'', False)"
proof -
  obtain t where t: "tracker_init 100 ''safe'' = Inr t" by (simp add: tracker_init_def)
  show ?thesis
    using t acting_state_bounded_staleness [OF t, of "[Frame 0 ''a'', Act 40, Frame 60 ''b'']" 159]
      acting_state_bounded_staleness [OF t, of "[Frame 0 ''a'', Act 40, Frame 60 ''b'']" 160]
    by (intro exI [of _ t]) simp
qed

text \<open>
  The transitions a tracker records for its receipts alternate, starting with a recovery, over any
  run of frames and queries, and the stale flag says which one comes next.
\<close>

theorem tracker_transitions_alternate:
  assumes "tracker_init ms safe = Inr t"
  shows "alternates True (map snd (transitions (tracker_run t calls))) \<and>
    (stale (tracker_run t calls) \<longleftrightarrow> even (length (transitions (tracker_run t calls))))"
proof -
  have "tracker_inv t" using assms by (auto simp: tracker_init_def tracker_inv_def split: if_splits)
  then show ?thesis using tracker_run_inv [of t calls] by (simp add: tracker_inv_def)
qed

theorem tracker_transitions_alternate_witness:
  "\<exists>t. tracker_init 10 (0::nat) = Inr t \<and>
    alternates True (map snd (transitions (tracker_run t [Frame 0 1, Act 10, Act 12, Frame 13 2])))"
proof -
  obtain t where t: "tracker_init 10 (0::nat) = Inr t" by (simp add: tracker_init_def)
  then show ?thesis using tracker_transitions_alternate [OF t, of "[Frame 0 1, Act 10, Act 12, Frame 13 2]"] by auto
qed

subsection \<open>The sender over a run\<close>

text \<open>A sender polls its scheduler at increasing times and emits when told to.\<close>

definition sender_tick :: "keyframe_scheduler \<Rightarrow> int \<times> bool \<Rightarrow> keyframe_scheduler" where
  "sender_tick s tick = (case tick of (now_ms, changed) \<Rightarrow>
     if should_emit s now_ms changed then note_emit s now_ms else s)"

definition sender_run :: "keyframe_scheduler \<Rightarrow> (int \<times> bool) list \<Rightarrow> keyframe_scheduler" where
  "sender_run = foldl sender_tick"

lemma sender_tick_keyframe: "keyframe_ms (sender_tick s tick) = keyframe_ms s"
  by (auto simp: sender_tick_def note_emit_def split: prod.splits)

lemma sender_run_keyframe: "keyframe_ms (sender_run s ticks) = keyframe_ms s"
  unfolding sender_run_def by (induction ticks arbitrary: s) (auto simp: sender_tick_keyframe)

lemma sender_run_gap:
  assumes "scheduler_init (Some k) = Inr s"
  shows "\<exists>l. last_emit_ms (sender_run s (ticks @ [(now_ms, changed)])) = Some l \<and> now_ms - l < k"
proof -
  have k: "0 < k" "keyframe_ms s = Some k" using assms by (auto simp: scheduler_init_def split: if_splits)
  let ?s = "sender_run s ticks"
  have r: "sender_run s (ticks @ [(now_ms, changed)]) = sender_tick ?s (now_ms, changed)"
    by (simp add: sender_run_def)
  have "keyframe_ms ?s = Some k" using k sender_run_keyframe by simp
  then show ?thesis
    using k(1) unfolding r by (auto simp: sender_tick_def should_emit_def note_emit_def)
qed

end
