(* ===== verification/Merkle.thy ===== *)
theory Merkle
  imports PyStr
begin

section \<open>The Merkle tree of the ledgers (\<open>prismpath/ledgers/ledger_ots.py\<close>)\<close>

text \<open>
  Digests are byte strings and travel as lower case hexadecimal. SHA-256 (\<open>hashlib\<close>) is the argument
  \<open>sha\<close> of every definition that hashes; what a theorem needs of it is a premise, and no theorem
  assumes it to be injective: a binding theorem says that a collision exists otherwise.
  The tree pairs the digests of a layer left to right and repeats the last one of an odd layer.
\<close>

definition hex_digit :: "nat \<Rightarrow> char" where
  "hex_digit n = ''0123456789abcdef'' ! n"

definition hex_of :: "string \<Rightarrow> string" where
  "hex_of bs = concat (map (\<lambda>c. [hex_digit (of_char c div 16), hex_digit (of_char c mod 16)]) bs)"

definition hex_val :: "char \<Rightarrow> nat option" where
  "hex_val c = (let n = (of_char c :: nat) in
     if 48 \<le> n \<and> n \<le> 57 then Some (n - 48)
     else if 97 \<le> n \<and> n \<le> 102 then Some (n - 87)
     else if 65 \<le> n \<and> n \<le> 70 then Some (n - 55) else None)"

text \<open>\<open>bytes.fromhex\<close>: pairs of digits of either case, ASCII white space between bytes skipped.\<close>

definition ascii_space :: "char \<Rightarrow> bool" where
  "ascii_space c = (let n = (of_char c :: nat) in (9 \<le> n \<and> n \<le> 13) \<or> n = 32)"

fun fromhex :: "string \<Rightarrow> string result" where
  "fromhex [] = Inr []"
| "fromhex [c] = (if ascii_space c then Inr [] else Inl ValueError)"
| "fromhex (c # d # s) =
     (if ascii_space c then fromhex (d # s)
      else case (hex_val c, hex_val d) of
        (Some a, Some b) \<Rightarrow> ebind (fromhex s) (\<lambda>bs. Inr (char_of (16 * a + b) # bs))
      | _ \<Rightarrow> Inl ValueError)"

type_synonym inclusion_path = "(string \<times> string) list"

definition node_hash :: "(string \<Rightarrow> string) \<Rightarrow> string \<Rightarrow> string" where
  "node_hash sha payload = sha payload"

text \<open>\<open>if len(layer) % 2: layer = layer + [layer[-1]]\<close>\<close>

definition pad_layer :: "string list \<Rightarrow> string list" where
  "pad_layer layer = (if length layer mod 2 = 1 then layer @ [last layer] else layer)"

definition next_layer :: "(string \<Rightarrow> string) \<Rightarrow> string list \<Rightarrow> string list" where
  "next_layer sha layer =
     (let cur = pad_layer layer in
      map (\<lambda>i. node_hash sha (cur ! (2 * i) @ cur ! (2 * i + 1))) [0..<length cur div 2])"

lemma length_pad_layer: "length (pad_layer layer) = 2 * ((length layer + 1) div 2)"
  unfolding pad_layer_def by (simp; presburger)

lemma length_next_layer [simp]: "length (next_layer sha layer) = (length layer + 1) div 2"
  by (simp add: next_layer_def Let_def length_pad_layer)

text \<open>The layers from the leaves up to the root, \<open>while len(layers[-1]) > 1\<close>.\<close>

function merkle_layers :: "(string \<Rightarrow> string) \<Rightarrow> string list \<Rightarrow> string list list" where
  "merkle_layers sha cur = (if length cur > 1 then cur # merkle_layers sha (next_layer sha cur) else [cur])"
  by pat_completeness auto
termination
  by (relation "measure (\<lambda>(sha, cur). length cur)") auto

declare merkle_layers.simps [simp del]

text \<open>The inner function \<open>path\<close>: one step per layer below the root.\<close>

fun merkle_path :: "string list list \<Rightarrow> nat \<Rightarrow> inclusion_path" where
  "merkle_path (l # m # ls) idx =
     (let layer = pad_layer l in
      (if idx mod 2 = 0 then (''R'', hex_of (layer ! (idx + 1))) else (''L'', hex_of (layer ! (idx - 1))))
      # merkle_path (m # ls) (idx div 2))"
| "merkle_path _ idx = []"

definition merkle_root_and_paths ::
    "(string \<Rightarrow> string) \<Rightarrow> string list \<Rightarrow> (string option \<times> inclusion_path list) result" where
  "merkle_root_and_paths sha leaves_hex =
     (if leaves_hex = [] then Inr (None, [])
      else ebind (emap fromhex leaves_hex) (\<lambda>leaves.
        let layers = merkle_layers sha leaves; root = hd (last layers) in
        Inr (Some (hex_of root), map (merkle_path layers) [0..<length leaves_hex])))"

fun verify_fold :: "(string \<Rightarrow> string) \<Rightarrow> string \<Rightarrow> inclusion_path \<Rightarrow> string result" where
  "verify_fold sha cur [] = Inr cur"
| "verify_fold sha cur ((side, sib) # path) =
     ebind (fromhex sib) (\<lambda>sibling.
       verify_fold sha (if side = ''R'' then node_hash sha (cur @ sibling) else node_hash sha (sibling @ cur)) path)"

text \<open>The root is an \<open>option\<close> because the root of no leaves is \<open>None\<close>, which equals no string.\<close>

definition verify_leaf :: "(string \<Rightarrow> string) \<Rightarrow> string \<Rightarrow> inclusion_path \<Rightarrow> string option \<Rightarrow> bool result" where
  "verify_leaf sha leaf_hex path root_hex =
     ebind (fromhex leaf_hex) (\<lambda>cur. ebind (verify_fold sha cur path) (\<lambda>top. Inr (Some (hex_of top) = root_hex)))"

subsection \<open>Hexadecimal\<close>

lemma hex_val_digit: "n < 16 \<Longrightarrow> hex_val (hex_digit n) = Some n"
proof -
  assume "n < 16"
  then have "n \<in> set [0..<16]" by simp
  moreover have "list_all (\<lambda>n. hex_val (hex_digit n) = Some n) [0..<16]" by code_simp
  ultimately show ?thesis by (simp add: list_all_iff)
qed

lemma ascii_space_digit: "n < 16 \<Longrightarrow> \<not> ascii_space (hex_digit n)"
proof -
  assume "n < 16"
  then have "n \<in> set [0..<16]" by simp
  moreover have "list_all (\<lambda>n. \<not> ascii_space (hex_digit n)) [0..<16]" by code_simp
  ultimately show ?thesis by (simp add: list_all_iff)
qed

lemma fromhex_hex_of [simp]: "fromhex (hex_of bs) = Inr bs"
proof (induction bs)
  case (Cons c bs)
  have "(of_char c :: nat) < 16 * 16" by simp
  then have "(of_char c :: nat) div 16 < 16" by (rule less_mult_imp_div_less)
  moreover have "(of_char c :: nat) mod 16 < 16" by simp
  moreover have "16 * (of_char c div 16) + of_char c mod 16 = (of_char c :: nat)" by simp
  moreover have "char_of (of_char c :: nat) = c" by simp
  ultimately show ?case using Cons by (simp add: hex_of_def hex_val_digit ascii_space_digit del: char_of_nat)
qed (simp add: hex_of_def)

lemma hex_of_inject [simp]: "hex_of a = hex_of b \<longleftrightarrow> a = b"
  by (metis fromhex_hex_of sum.inject(2))


subsection \<open>Every leaf verifies\<close>

lemma pad_layer_nth: "i < length layer \<Longrightarrow> pad_layer layer ! i = layer ! i"
  by (simp add: pad_layer_def nth_append)

lemma set_pad_layer: "layer \<noteq> [] \<Longrightarrow> set (pad_layer layer) = set layer"
  by (auto simp: pad_layer_def)

lemma next_layer_nth:
  "j < (length layer + 1) div 2 \<Longrightarrow>
   next_layer sha layer ! j = sha (pad_layer layer ! (2 * j) @ pad_layer layer ! (2 * j + 1))"
  by (simp add: next_layer_def Let_def length_pad_layer node_hash_def)

lemma merkle_layers_hd: "\<exists>ls. merkle_layers sha cur = cur # ls"
  by (subst merkle_layers.simps) auto

lemma merkle_layers_step:
  "1 < length cur \<Longrightarrow> merkle_layers sha cur = cur # merkle_layers sha (next_layer sha cur)"
  by (subst merkle_layers.simps) simp

lemma merkle_path_step:
  assumes "1 < length cur"
  shows "merkle_path (merkle_layers sha cur) idx =
    (if idx mod 2 = 0 then (''R'', hex_of (pad_layer cur ! (idx + 1))) else (''L'', hex_of (pad_layer cur ! (idx - 1))))
    # merkle_path (merkle_layers sha (next_layer sha cur)) (idx div 2)"
  using merkle_layers_hd [of sha "next_layer sha cur"] merkle_layers_step [OF assms, of sha]
  by (auto simp: Let_def)

lemma last_merkle_layers_step:
  "1 < length cur \<Longrightarrow> last (merkle_layers sha cur) = last (merkle_layers sha (next_layer sha cur))"
  using merkle_layers_hd [of sha "next_layer sha cur"] merkle_layers_step [of cur sha] by auto

lemma verify_fold_path:
  "idx < length cur \<Longrightarrow>
   verify_fold sha (cur ! idx) (merkle_path (merkle_layers sha cur) idx) = Inr (hd (last (merkle_layers sha cur)))"
proof (induction sha cur arbitrary: idx rule: merkle_layers.induct)
  case (1 sha cur)
  show ?case
  proof (cases "1 < length cur")
    case False
    then obtain x where "cur = [x]" using 1(2) by (cases cur) auto
    then show ?thesis using 1(2) by (subst (1 2) merkle_layers.simps) simp
  next
    case True
    let ?j = "idx div 2"
    have j: "?j < (length cur + 1) div 2" using 1(2) by auto
    have IH: "verify_fold sha (next_layer sha cur ! ?j) (merkle_path (merkle_layers sha (next_layer sha cur)) ?j)
        = Inr (hd (last (merkle_layers sha (next_layer sha cur))))"
      using 1(1) [OF True, of ?j] j by simp
    have nth: "next_layer sha cur ! ?j = sha (pad_layer cur ! (2 * ?j) @ pad_layer cur ! (2 * ?j + 1))"
      by (rule next_layer_nth [OF j])
    have at: "pad_layer cur ! idx = cur ! idx" by (rule pad_layer_nth [OF 1(2)])
    show ?thesis
    proof (cases "idx mod 2 = 0")
      case even: True
      then have "2 * ?j = idx" by auto
      then show ?thesis using even at nth IH
        by (simp add: merkle_path_step [OF True] last_merkle_layers_step [OF True] node_hash_def)
    next
      case odd: False
      then have "2 * ?j + 1 = idx" "2 * ?j = idx - 1" by presburger+
      then show ?thesis using odd at nth IH
        by (simp add: merkle_path_step [OF True] last_merkle_layers_step [OF True] node_hash_def)
    qed
  qed
qed

lemma emap_fromhex [simp]: "emap fromhex (map hex_of ds) = Inr ds"
  by (induction ds) auto

lemma merkle_root_and_paths_hex:
  "ds \<noteq> [] \<Longrightarrow> merkle_root_and_paths sha (map hex_of ds) =
     Inr (Some (hex_of (hd (last (merkle_layers sha ds)))), map (merkle_path (merkle_layers sha ds)) [0..<length ds])"
  by (simp add: merkle_root_and_paths_def Let_def)

text \<open>
  C29. Completeness of the Merkle tree: every leaf of a batch verifies against the batch's root with
  the path stored for its position, for any hash function and any number of leaves.
\<close>

theorem merkle_leaf_verifies:
  assumes "merkle_root_and_paths sha (map hex_of ds) = Inr (root, paths)" and "idx < length ds"
  shows "verify_leaf sha (hex_of (ds ! idx)) (paths ! idx) root = Inr True"
proof -
  have "ds \<noteq> []" using assms(2) by auto
  then show ?thesis
    using assms merkle_root_and_paths_hex [of ds sha] verify_fold_path [OF assms(2), of sha]
    by (auto simp: verify_leaf_def)
qed

theorem merkle_leaf_verifies_witness:
  "\<exists>root paths. merkle_root_and_paths (\<lambda>x. rev x) (map hex_of [''a'', ''b'', ''c'']) = Inr (root, paths) \<and>
     verify_leaf (\<lambda>x. rev x) (hex_of ''c'') (paths ! 2) root = Inr True"
proof -
  obtain root paths where r: "merkle_root_and_paths (\<lambda>x. rev x) (map hex_of [''a'', ''b'', ''c'']) = Inr (root, paths)"
    using merkle_root_and_paths_hex [of "[''a'', ''b'', ''c'']" "\<lambda>x. rev x"] by blast
  then show ?thesis using merkle_leaf_verifies [OF r, of 2] by auto
qed

subsection \<open>What a verified leaf is bound to\<close>

text \<open>The byte strings a tree hashes above its leaves, and those a verification hashes.\<close>

function tree_payloads :: "(string \<Rightarrow> string) \<Rightarrow> string list \<Rightarrow> string set" where
  "tree_payloads sha cur =
     (if length cur > 1
      then {pad_layer cur ! (2 * i) @ pad_layer cur ! (2 * i + 1) |i. i < (length cur + 1) div 2}
           \<union> tree_payloads sha (next_layer sha cur)
      else {})"
  by pat_completeness auto
termination
  by (relation "measure (\<lambda>(sha, cur). length cur)") auto

declare tree_payloads.simps [simp del]

fun verify_payloads :: "(string \<Rightarrow> string) \<Rightarrow> string \<Rightarrow> inclusion_path \<Rightarrow> string set" where
  "verify_payloads sha cur [] = {}"
| "verify_payloads sha cur ((side, sib) # path) =
     (case fromhex sib of Inl e \<Rightarrow> {}
      | Inr sibling \<Rightarrow>
          let p = (if side = ''R'' then cur @ sibling else sibling @ cur)
          in insert p (verify_payloads sha (sha p) path))"

lemma verify_fold_snoc:
  "verify_fold sha cur (path @ [(side, sib)]) = ebind (verify_fold sha cur path) (\<lambda>c. ebind (fromhex sib)
     (\<lambda>sibling. Inr (if side = ''R'' then sha (c @ sibling) else sha (sibling @ c))))"
proof (induction path arbitrary: cur)
  case Nil
  then show ?case by (cases "fromhex sib") (simp_all add: node_hash_def)
next
  case (Cons sp path)
  then show ?case by (cases sp; cases "fromhex (snd sp)") (auto simp: node_hash_def)
qed

lemma verify_payloads_snoc:
  assumes "verify_fold sha cur path = Inr c" "fromhex sib = Inr sibling"
  shows "verify_payloads sha cur (path @ [(side, sib)])
    = insert (if side = ''R'' then c @ sibling else sibling @ c) (verify_payloads sha cur path)"
  using assms(1)
proof (induction path arbitrary: cur)
  case Nil
  then show ?case using assms(2) by simp
next
  case (Cons sp path)
  obtain s t where [simp]: "sp = (s, t)" by (cases sp)
  show ?case using Cons by (cases "fromhex t") (auto simp: node_hash_def Let_def insert_commute)
qed

lemma verify_fold_digest:
  "verify_fold sha (sha b) path = Inr v \<Longrightarrow> \<exists>y \<in> insert b (verify_payloads sha (sha b) path). v = sha y"
proof (induction path arbitrary: v rule: rev_induct)
  case (snoc sp path)
  obtain side sib where sp: "sp = (side, sib)" by (cases sp)
  obtain c sibling where c: "verify_fold sha (sha b) path = Inr c" "fromhex sib = Inr sibling"
    "v = (if side = ''R'' then sha (c @ sibling) else sha (sibling @ c))"
    using snoc.prems sp by (auto simp: verify_fold_snoc err_simps)
  then show ?case using sp verify_payloads_snoc [OF c(1,2), of side] by auto
qed simp

definition is_ascii :: "string \<Rightarrow> bool" where
  "is_ascii s \<longleftrightarrow> (\<forall>c \<in> set s. (of_char c :: nat) < 128)"

lemma is_ascii_append [simp]: "is_ascii (a @ b) \<longleftrightarrow> is_ascii a \<and> is_ascii b"
  by (auto simp: is_ascii_def)

text \<open>
  Walking a path down from a digest of a known preimage: if no payload of the verification collides
  with a known one and no digest it meets is an ASCII string, the walk stays inside the known digests.
\<close>

lemma verify_fold_known:
  assumes len: "\<And>x. length (sha x) = 32"
    and closed: "\<And>k. k \<in> K \<Longrightarrow> is_ascii k \<or> (\<exists>a \<in> K. \<exists>b \<in> K. k = sha a @ sha b)"
  shows "verify_fold sha (sha b) path = Inr v \<Longrightarrow> v \<in> sha ` K \<Longrightarrow>
    (\<forall>x \<in> K. \<forall>y \<in> insert b (verify_payloads sha (sha b) path). sha x = sha y \<longrightarrow> x = y) \<Longrightarrow>
    (\<forall>y \<in> insert b (verify_payloads sha (sha b) path). \<not> is_ascii (sha y)) \<Longrightarrow> b \<in> K"
proof (induction path arbitrary: v rule: rev_induct)
  case Nil
  then show ?case by auto
next
  case (snoc sp path)
  obtain side sib where sp: "sp = (side, sib)" by (cases sp)
  obtain c sibling where c: "verify_fold sha (sha b) path = Inr c" "fromhex sib = Inr sibling"
    "v = (if side = ''R'' then sha (c @ sibling) else sha (sibling @ c))"
    using snoc.prems(1) sp by (auto simp: verify_fold_snoc err_simps)
  let ?p = "if side = ''R'' then c @ sibling else sibling @ c"
  let ?Y = "insert b (verify_payloads sha (sha b) path)"
  have Y: "insert b (verify_payloads sha (sha b) (path @ [sp])) = insert ?p ?Y"
    using verify_payloads_snoc [OF c(1,2), of side] sp by auto
  obtain y where y: "y \<in> ?Y" "c = sha y" using verify_fold_digest [OF c(1)] by blast
  have no: "\<not> is_ascii c" "length c = 32" using snoc.prems(4) y len unfolding Y by auto
  obtain k where k: "k \<in> K" "v = sha k" using snoc.prems(2) by blast
  then have "k = ?p" using snoc.prems(3) c(3) unfolding Y by (auto split: if_splits)
  moreover have "\<not> is_ascii ?p" using no(1) by simp
  ultimately obtain a d where ad: "a \<in> K" "d \<in> K" "?p = sha a @ sha d" using closed [OF k(1)] by auto
  have "c = sha a \<or> c = sha d"
  proof (cases "side = ''R''")
    case True
    then show ?thesis using ad(3) no(2) len by (simp add: append_eq_append_conv)
  next
    case False
    have "length sibling = length (sha a)"
      using arg_cong [OF ad(3), of length] False no(2) len [of a] len [of d] by simp
    then show ?thesis using False ad(3) by (simp add: append_eq_append_conv)
  qed
  then have "c \<in> sha ` K" using ad by blast
  then show ?case using snoc.IH [OF c(1)] snoc.prems(3,4) unfolding Y by blast
qed

lemma tree_payloads_step:
  "1 < length cur \<Longrightarrow> tree_payloads sha cur =
    {pad_layer cur ! (2 * i) @ pad_layer cur ! (2 * i + 1) |i. i < (length cur + 1) div 2}
    \<union> tree_payloads sha (next_layer sha cur)"
  by (subst tree_payloads.simps) simp

lemma tree_payloads_short: "\<not> 1 < length cur \<Longrightarrow> tree_payloads sha cur = {}"
  by (subst tree_payloads.simps) simp

lemma next_layer_payloads:
  assumes "1 < length cur"
  shows "set (next_layer sha cur) \<subseteq> sha ` tree_payloads sha cur"
proof
  fix x assume "x \<in> set (next_layer sha cur)"
  then obtain j where j: "j < (length cur + 1) div 2" "x = next_layer sha cur ! j"
    by (auto simp: in_set_conv_nth)
  then have "x = sha (pad_layer cur ! (2 * j) @ pad_layer cur ! (2 * j + 1))"
    using next_layer_nth by simp
  then show "x \<in> sha ` tree_payloads sha cur"
    unfolding tree_payloads_step [OF assms] using j(1) by blast
qed

lemma tree_root_known:
  assumes "cur \<noteq> []" "set cur \<subseteq> sha ` K" "tree_payloads sha cur \<subseteq> K"
  shows "hd (last (merkle_layers sha cur)) \<in> sha ` K"
  using assms
proof (induction sha cur rule: merkle_layers.induct)
  case (1 sha cur)
  show ?case
  proof (cases "1 < length cur")
    case False
    then show ?thesis using 1(2,3) by (subst merkle_layers.simps) auto
  next
    case True
    have "set (next_layer sha cur) \<subseteq> sha ` tree_payloads sha cur"
      by (rule next_layer_payloads [OF True])
    moreover have "tree_payloads sha (next_layer sha cur) \<subseteq> K"
      using 1(4) unfolding tree_payloads_step [OF True] by blast
    moreover have "next_layer sha cur \<noteq> []" using True length_next_layer [of sha cur]
      by (cases "next_layer sha cur") auto
    ultimately show ?thesis using 1(1) [OF True] 1(4) last_merkle_layers_step [OF True] by force
  qed
qed

lemma tree_payloads_closed:
  assumes "k \<in> tree_payloads sha cur"
  shows "\<exists>a \<in> set cur \<union> sha ` tree_payloads sha cur. \<exists>b \<in> set cur \<union> sha ` tree_payloads sha cur. k = a @ b"
  using assms
proof (induction sha cur rule: merkle_layers.induct)
  case (1 sha cur)
  have long: "1 < length cur" using 1(2) tree_payloads_short by fastforce
  have sub: "tree_payloads sha (next_layer sha cur) \<subseteq> tree_payloads sha cur"
    unfolding tree_payloads_step [OF long] by blast
  have next_in: "set (next_layer sha cur) \<subseteq> sha ` tree_payloads sha cur"
    by (rule next_layer_payloads [OF long])
  consider (here) i where "i < (length cur + 1) div 2" "k = pad_layer cur ! (2 * i) @ pad_layer cur ! (2 * i + 1)"
    | (up) "k \<in> tree_payloads sha (next_layer sha cur)"
    using 1(2) unfolding tree_payloads_step [OF long] by blast
  then show ?case
  proof cases
    case here
    have "pad_layer cur ! (2 * i) \<in> set (pad_layer cur)" "pad_layer cur ! (2 * i + 1) \<in> set (pad_layer cur)"
      using here(1) by (auto intro!: nth_mem simp: length_pad_layer)
    moreover have "set (pad_layer cur) = set cur" by (rule set_pad_layer) (use long in auto)
    ultimately show ?thesis using here(2) by blast
  next
    case up
    let ?N = "set (next_layer sha cur) \<union> sha ` tree_payloads sha (next_layer sha cur)"
    have N: "?N \<subseteq> set cur \<union> sha ` tree_payloads sha cur" using sub next_in by auto
    obtain a b where ab: "a \<in> ?N" "b \<in> ?N" "k = a @ b" using 1(1) [OF long up] by blast
    show ?thesis
    proof (intro bexI)
      show "k = a @ b" by (rule ab(3))
      show "b \<in> set cur \<union> sha ` tree_payloads sha cur" by (rule subsetD [OF N ab(2)])
      show "a \<in> set cur \<union> sha ` tree_payloads sha cur" by (rule subsetD [OF N ab(1)])
    qed
  qed
qed

end
