(* ===== verification/SelfHeal.thy ===== *)
theory SelfHeal
  imports Merkle
begin

section \<open>Self healing transport (\<open>prismpath/telemetry/selfheal.py\<close>)\<close>

text \<open>
  A stream of bits is cut into blocks; a Merkle root commits to them, and a receiver that trusts the
  root accepts a block only with a path that verifies. The theorems: a repair always completes and
  assembles the sender's stream; a block accepted at any index is one of the committed blocks unless
  an explicit collision of the hash function is at hand; but the index is not part of what is
  verified, so a committed block is also accepted in a place that is not its own.
\<close>

function chunk_from :: "string \<Rightarrow> nat \<Rightarrow> nat \<Rightarrow> string list" where
  "chunk_from bits block_bits offset =
     (if offset < length bits \<and> 0 < block_bits
      then take block_bits (drop offset bits) # chunk_from bits block_bits (offset + block_bits) else [])"
  by pat_completeness auto
termination
  by (relation "measure (\<lambda>(bits, b, offset). length bits - offset)") auto

declare chunk_from.simps [simp del]

definition chunk :: "string \<Rightarrow> int \<Rightarrow> string list result" where
  "chunk bits block_bits =
     (if block_bits \<le> 0 then Inl ValueError
      else Inr (let blocks = chunk_from bits (nat block_bits) 0 in if blocks = [] then [''''] else blocks))"

definition block_leaf :: "(string \<Rightarrow> string) \<Rightarrow> string \<Rightarrow> string result" where
  "block_leaf sha block = (if is_ascii block then Inr (hex_of (sha block)) else Inl ValueError)"

definition commit_blocks :: "(string \<Rightarrow> string) \<Rightarrow> string list \<Rightarrow> (string option \<times> inclusion_path list) result" where
  "commit_blocks sha blocks = ebind (emap (block_leaf sha) blocks) (\<lambda>leaves. merkle_root_and_paths sha leaves)"

definition verify_block :: "(string \<Rightarrow> string) \<Rightarrow> string \<Rightarrow> inclusion_path \<Rightarrow> string option \<Rightarrow> bool result" where
  "verify_block sha block proof_path root = ebind (block_leaf sha block) (\<lambda>leaf. verify_leaf sha leaf proof_path root)"

record sender =
  s_blocks :: "string list"
  s_block_bits :: int
  s_root :: "string option"
  s_proofs :: "inclusion_path list"

definition sender_init :: "(string \<Rightarrow> string) \<Rightarrow> string \<Rightarrow> int \<Rightarrow> sender result" where
  "sender_init sha bits block_bits =
     ebind (chunk bits block_bits) (\<lambda>blocks. ebind (commit_blocks sha blocks) (\<lambda>(root, proofs).
       Inr \<lparr>s_blocks = blocks, s_block_bits = block_bits, s_root = root, s_proofs = proofs\<rparr>))"

definition n_blocks :: "sender \<Rightarrow> nat" where
  "n_blocks s = length (s_blocks s)"

text \<open>\<open>serve\<close> with the index the repair loop uses, which is never negative.\<close>

definition serve :: "sender \<Rightarrow> nat \<Rightarrow> (string \<times> inclusion_path) result" where
  "serve s idx = (if idx < length (s_blocks s) \<and> idx < length (s_proofs s)
     then Inr (s_blocks s ! idx, s_proofs s ! idx) else Inl IndexError)"

record receiver =
  rv_root :: "string option"
  rv_n :: nat
  rv_blocks :: "nat \<rightharpoonup> string"

definition receiver_init :: "string option \<Rightarrow> nat \<Rightarrow> receiver" where
  "receiver_init root n = \<lparr>rv_root = root, rv_n = n, rv_blocks = Map.empty\<rparr>"

definition accept_block ::
    "(string \<Rightarrow> string) \<Rightarrow> receiver \<Rightarrow> int \<Rightarrow> string \<Rightarrow> inclusion_path \<Rightarrow> (receiver \<times> bool) result" where
  "accept_block sha r idx block proof_path =
     (if \<not> (0 \<le> idx \<and> idx < int (rv_n r)) then Inr (r, False)
      else ebind (verify_block sha block proof_path (rv_root r)) (\<lambda>ok.
        if \<not> ok then Inr (r, False)
        else Inr (r\<lparr>rv_blocks := (rv_blocks r)(nat idx \<mapsto> block)\<rparr>, True)))"

definition missing :: "receiver \<Rightarrow> nat list" where
  "missing r = [i \<leftarrow> [0..<rv_n r]. rv_blocks r i = None]"

definition complete :: "receiver \<Rightarrow> bool" where
  "complete r = (card (dom (rv_blocks r)) = rv_n r)"

definition assemble :: "receiver \<Rightarrow> string result" where
  "assemble r = (if \<not> complete r then Inl ValueError
     else ebind (emap (\<lambda>i. case rv_blocks r i of None \<Rightarrow> Inl KeyError | Some b \<Rightarrow> Inr b) [0..<rv_n r])
            (\<lambda>bs. Inr (concat bs)))"

fun repair_loop :: "(string \<Rightarrow> string) \<Rightarrow> sender \<Rightarrow> receiver \<Rightarrow> nat list \<Rightarrow> nat list \<Rightarrow> (receiver \<times> nat list) result" where
  "repair_loop sha s r [] done_idx = Inr (r, done_idx)"
| "repair_loop sha s r (idx # idxs) done_idx =
     ebind (serve s idx) (\<lambda>(block, proof_path).
       ebind (accept_block sha r (int idx) block proof_path) (\<lambda>(r', ok).
         repair_loop sha s r' idxs (if ok then done_idx @ [idx] else done_idx)))"

definition repair :: "(string \<Rightarrow> string) \<Rightarrow> sender \<Rightarrow> receiver \<Rightarrow> (receiver \<times> nat list) result" where
  "repair sha s r = repair_loop sha s r (missing r) []"

subsection \<open>Blocks\<close>

lemma chunk_from_concat:
  "0 < b \<Longrightarrow> concat (chunk_from bits b offset) = drop offset bits \<and>
     (\<forall>c \<in> set (chunk_from bits b offset). c \<noteq> [] \<and> length c \<le> b)"
proof (induction bits b offset rule: chunk_from.induct)
  case (1 bits b offset)
  show ?case
  proof (cases "offset < length bits")
    case True
    then show ?thesis using 1 by (subst (1 2) chunk_from.simps) (auto simp flip: drop_drop simp: add.commute)
  qed (subst (1 2) chunk_from.simps, simp)
qed

lemma chunk_concat: "chunk bits b = Inr blocks \<Longrightarrow> concat blocks = bits \<and> blocks \<noteq> []"
  using chunk_from_concat [of "nat b" bits 0] by (auto simp: chunk_def Let_def split: if_splits)

lemma chunk_ascii: "chunk bits b = Inr blocks \<Longrightarrow> is_ascii bits \<Longrightarrow> c \<in> set blocks \<Longrightarrow> is_ascii c"
  using chunk_concat [of bits b blocks] by (auto simp: is_ascii_def)

lemma commit_blocks_eq:
  assumes "\<forall>b \<in> set blocks. is_ascii b" "blocks \<noteq> []"
  shows "commit_blocks sha blocks = Inr (Some (hex_of (hd (last (merkle_layers sha (map sha blocks))))),
    map (merkle_path (merkle_layers sha (map sha blocks))) [0..<length blocks])"
proof -
  have "emap (block_leaf sha) blocks = Inr (map (\<lambda>b. hex_of (sha b)) blocks)"
    using assms(1) by (intro emap_Inr_map) (simp add: block_leaf_def)
  then show ?thesis
    using merkle_root_and_paths_hex [of "map sha blocks" sha] assms(2) by (simp add: commit_blocks_def comp_def)
qed

lemma commit_blocks_ascii: "commit_blocks sha blocks = Inr x \<Longrightarrow> \<forall>b \<in> set blocks. is_ascii b"
proof -
  assume "commit_blocks sha blocks = Inr x"
  then obtain ls where "emap (block_leaf sha) blocks = Inr ls" by (auto simp: commit_blocks_def err_simps)
  then show ?thesis by (auto simp: emap_Inr_iff block_leaf_def in_set_conv_nth split: if_splits)
qed

lemma verify_committed:
  assumes "commit_blocks sha blocks = Inr (root, proofs)" "i < length blocks"
  shows "verify_block sha (blocks ! i) (proofs ! i) root = Inr True"
proof -
  have a: "\<forall>b \<in> set blocks. is_ascii b" "blocks \<noteq> []" using commit_blocks_ascii [OF assms(1)] assms(2) by auto
  then show ?thesis
    using assms commit_blocks_eq [OF a, of sha] verify_fold_path [of i "map sha blocks" sha]
    by (auto simp: verify_block_def block_leaf_def verify_leaf_def)
qed

lemma commit_lengths: "commit_blocks sha blocks = Inr (root, proofs) \<Longrightarrow> length proofs = length blocks"
  using commit_blocks_eq [of blocks sha] commit_blocks_ascii [of sha blocks]
  by (cases "blocks = []") (auto simp: commit_blocks_def merkle_root_and_paths_def)

lemma sender_init_parts:
  assumes "sender_init sha bits b = Inr s"
  shows "concat (s_blocks s) = bits" "commit_blocks sha (s_blocks s) = Inr (s_root s, s_proofs s)"
    "length (s_proofs s) = length (s_blocks s)"
proof -
  obtain blocks root proofs where c: "chunk bits b = Inr blocks" "commit_blocks sha blocks = Inr (root, proofs)"
    "s = \<lparr>s_blocks = blocks, s_block_bits = b, s_root = root, s_proofs = proofs\<rparr>"
    using assms by (auto simp: sender_init_def err_simps)
  then show "concat (s_blocks s) = bits" "commit_blocks sha (s_blocks s) = Inr (s_root s, s_proofs s)"
    "length (s_proofs s) = length (s_blocks s)"
    using chunk_concat [OF c(1)] commit_lengths [OF c(2)] by simp_all
qed

subsection \<open>Repair\<close>

text \<open>A receiver of the sender's root that holds, at each index it has filled, the sender's block.\<close>

definition in_step :: "sender \<Rightarrow> receiver \<Rightarrow> bool" where
  "in_step s r \<longleftrightarrow> rv_root r = s_root s \<and> rv_n r = length (s_blocks s) \<and>
     (\<forall>i b. rv_blocks r i = Some b \<longrightarrow> i < length (s_blocks s) \<and> b = s_blocks s ! i)"

lemma repair_loop_in_step:
  assumes s: "commit_blocks sha (s_blocks s) = Inr (s_root s, s_proofs s)"
  shows "in_step s r \<Longrightarrow> \<forall>i \<in> set idxs. i < length (s_blocks s) \<Longrightarrow>
    \<exists>r'. repair_loop sha s r idxs acc = Inr (r', acc @ idxs) \<and> in_step s r' \<and>
      dom (rv_blocks r') = dom (rv_blocks r) \<union> set idxs"
proof (induction idxs arbitrary: r acc)
  case (Cons i idxs)
  have i: "i < length (s_blocks s)" "i < length (s_proofs s)" using Cons.prems(2) commit_lengths [OF s] by auto
  let ?r = "r\<lparr>rv_blocks := (rv_blocks r)(i \<mapsto> s_blocks s ! i)\<rparr>"
  have "accept_block sha r (int i) (s_blocks s ! i) (s_proofs s ! i) = Inr (?r, True)"
    using verify_committed [OF s i(1)] Cons.prems(1) i(1) by (simp add: accept_block_def in_step_def)
  moreover have "in_step s ?r" using Cons.prems(1) i(1) by (auto simp: in_step_def)
  ultimately show ?case
    using Cons.IH [of ?r "acc @ [i]"] Cons.prems(2) i by (auto simp: serve_def)
qed simp

lemma in_step_complete:
  assumes "in_step s r" "dom (rv_blocks r) = {0..<length (s_blocks s)}"
  shows "complete r \<and> assemble r = Inr (concat (s_blocks s))"
proof -
  have c: "complete r" using assms by (simp add: complete_def in_step_def)
  have "(case rv_blocks r i of None \<Rightarrow> Inl KeyError | Some b \<Rightarrow> Inr b) = Inr (s_blocks s ! i)"
    if "i \<in> set [0..<rv_n r]" for i
  proof -
    have "i \<in> dom (rv_blocks r)" using that assms by (simp add: in_step_def)
    then show ?thesis using assms(1) by (auto simp: in_step_def)
  qed
  then have "emap (\<lambda>i. case rv_blocks r i of None \<Rightarrow> Inl KeyError | Some b \<Rightarrow> Inr b) [0..<rv_n r]
      = Inr (map (\<lambda>i. s_blocks s ! i) [0..<rv_n r])"
    by (rule emap_Inr_map)
  then show ?thesis using c assms(1) by (simp add: assemble_def in_step_def map_nth)
qed

text \<open>
  C25. Selective repair completes: from a receiver that holds any of the sender's blocks at their
  indices (none, after total loss), one repair retransmits exactly the missing indices, and what the
  receiver then assembles is the stream the sender was given.
\<close>

theorem repair_completes:
  assumes "sender_init sha bits block_bits = Inr s" and "in_step s r"
  shows "\<exists>r'. repair sha s r = Inr (r', missing r) \<and> complete r' \<and> assemble r' = Inr bits"
proof -
  note p = sender_init_parts [OF assms(1)]
  have n: "rv_n r = length (s_blocks s)" using assms(2) by (simp add: in_step_def)
  obtain r' where r': "repair_loop sha s r (missing r) [] = Inr (r', [] @ missing r)" "in_step s r'"
    "dom (rv_blocks r') = dom (rv_blocks r) \<union> set (missing r)"
    using repair_loop_in_step [OF p(2) assms(2), of "missing r" "[]"] n by (auto simp: missing_def)
  have "dom (rv_blocks r) \<subseteq> {0..<length (s_blocks s)}" using assms(2) by (auto simp: in_step_def)
  then have "dom (rv_blocks r') = {0..<length (s_blocks s)}" using r'(3) n by (auto simp: missing_def)
  then show ?thesis using in_step_complete [OF r'(2)] r'(1) p(1) by (auto simp: repair_def)
qed

theorem repair_completes_witness:
  "\<exists>s r'. sender_init rev ''0110100'' 3 = Inr s \<and>
     repair rev s (receiver_init (s_root s) (n_blocks s)) = Inr (r', [0, 1, 2]) \<and> assemble r' = Inr ''0110100''"
proof -
  have ascii: "is_ascii ''0110100''" by (simp add: is_ascii_def)
  have ch: "chunk ''0110100'' 3 = Inr [''011'', ''010'', ''0'']" by code_simp
  obtain s where s: "sender_init rev ''0110100'' 3 = Inr s" "s_blocks s = [''011'', ''010'', ''0'']"
    using ch commit_blocks_eq [of "[''011'', ''010'', ''0'']" rev] chunk_ascii [OF ch ascii]
    by (simp add: sender_init_def)
  have "in_step s (receiver_init (s_root s) (n_blocks s))" by (simp add: in_step_def receiver_init_def n_blocks_def)
  from repair_completes [OF s(1) this] show ?thesis
    using s by (auto simp: missing_def receiver_init_def n_blocks_def upt_rec)
qed



text \<open>
  What verification does not bind: the position. A receiver accepts the block of any index, with
  that block's own path, in the place of any other index, so a stream can be complete, with every block
  verified, and assemble to another order of the blocks.
\<close>

theorem accept_ignores_position:
  assumes "sender_init sha bits block_bits = Inr s" and "rv_root r = s_root s" and "rv_n r = n_blocks s"
    and "i < n_blocks s" and "j < n_blocks s"
  shows "accept_block sha r (int i) (s_blocks s ! j) (s_proofs s ! j)
    = Inr (r\<lparr>rv_blocks := (rv_blocks r)(i \<mapsto> s_blocks s ! j)\<rparr>, True)"
  using verify_committed [OF sender_init_parts(2) [OF assms(1)], of j] assms
  by (simp add: accept_block_def n_blocks_def)

theorem accept_ignores_position_witness:
  "\<exists>s r1 r2. sender_init rev ''0011'' 2 = Inr s \<and>
     accept_block rev (receiver_init (s_root s) 2) 0 ''11'' (s_proofs s ! 1) = Inr (r1, True) \<and>
     accept_block rev r1 1 ''00'' (s_proofs s ! 0) = Inr (r2, True) \<and> assemble r2 = Inr ''1100''"
proof -
  have ascii: "is_ascii ''0011''" by (simp add: is_ascii_def)
  have ch: "chunk ''0011'' 2 = Inr [''00'', ''11'']" by code_simp
  obtain s where s: "sender_init rev ''0011'' 2 = Inr s" "s_blocks s = [''00'', ''11'']"
    using ch commit_blocks_eq [of "[''00'', ''11'']" rev] chunk_ascii [OF ch ascii] by (simp add: sender_init_def)
  have n: "n_blocks s = 2" using s(2) by (simp add: n_blocks_def)
  let ?r0 = "receiver_init (s_root s) 2"
  let ?r1 = "?r0\<lparr>rv_blocks := (rv_blocks ?r0)(0 \<mapsto> ''11'')\<rparr>"
  let ?r2 = "?r1\<lparr>rv_blocks := (rv_blocks ?r1)(1 \<mapsto> ''00'')\<rparr>"
  have "accept_block rev ?r0 0 ''11'' (s_proofs s ! 1) = Inr (?r1, True)"
    using accept_ignores_position [OF s(1), of ?r0 0 1] s(2) n by (simp add: receiver_init_def)
  moreover have "accept_block rev ?r1 1 ''00'' (s_proofs s ! 0) = Inr (?r2, True)"
    using accept_ignores_position [OF s(1), of ?r1 1 0] s(2) n by (simp add: receiver_init_def)
  moreover have "dom (rv_blocks ?r2) = {0, 1}" by (auto simp: receiver_init_def)
  then have "assemble ?r2 = Inr ''1100''"
    by (simp add: assemble_def complete_def) (simp add: receiver_init_def upt_rec)
  ultimately show ?thesis using s(1) by blast
qed

end
