(* ===== verification/Epochs.thy ===== *)
theory Epochs
  imports SelfHeal "HOL-Library.Sublist"
begin

section \<open>Chained epochs and retention (\<open>prismpath/telemetry/epochs.py\<close>)\<close>

text \<open>
  A store seals windows of the stream into epochs, each committing to the root of the one before it,
  and forgets raw data when the ground acknowledges it or a cap forces it out. \<open>blocks = None\<close> is an
  epoch whose data is gone. The theorems: the chain always verifies, the cap holds after every seal,
  and data is never gone without a reason recorded on the epoch.
\<close>

record epoch =
  ep_id :: nat
  ep_blocks :: "string list option"
  ep_merkle_root :: string
  ep_chained_root :: string
  ep_acked :: bool
  ep_dropped_under_pressure :: bool

record epoch_store =
  es_block_bits :: int
  es_max_data_epochs :: int
  es_epochs :: "epoch list"

definition chain_root :: "(string \<Rightarrow> string) \<Rightarrow> string \<Rightarrow> string \<Rightarrow> string" where
  "chain_root sha prev_chained merkle_root = hex_of (sha (prev_chained @ merkle_root))"

definition has_data :: "epoch \<Rightarrow> bool" where
  "has_data ep = (ep_blocks ep \<noteq> None)"

definition store_init :: "int \<Rightarrow> int \<Rightarrow> epoch_store" where
  "store_init block_bits max_data = \<lparr>es_block_bits = block_bits, es_max_data_epochs = max_data, es_epochs = []\<rparr>"

text \<open>One turn of the loop of \<open>_enforce_cap\<close>: the oldest epoch still holding data is the victim.\<close>

definition drop_epoch :: "epoch \<Rightarrow> epoch" where
  "drop_epoch victim = (if \<not> ep_acked victim
     then victim\<lparr>ep_dropped_under_pressure := True, ep_blocks := None\<rparr> else victim\<lparr>ep_blocks := None\<rparr>)"

fun drop_oldest :: "epoch list \<Rightarrow> epoch list" where
  "drop_oldest [] = []"
| "drop_oldest (ep # eps) = (if has_data ep then drop_epoch ep # eps else ep # drop_oldest eps)"

text \<open>The loop pops from the list of epochs with data; with a negative cap it pops from an empty list.\<close>

fun cap_loop :: "nat \<Rightarrow> int \<Rightarrow> epoch list \<Rightarrow> epoch list result" where
  "cap_loop n cap eps =
     (if int n > cap then (case n of 0 \<Rightarrow> Inl IndexError | Suc m \<Rightarrow> cap_loop m cap (drop_oldest eps))
      else Inr eps)"

declare cap_loop.simps [simp del]

definition enforce_cap :: "epoch_store \<Rightarrow> epoch_store result" where
  "enforce_cap st =
     ebind (cap_loop (length (filter has_data (es_epochs st))) (es_max_data_epochs st) (es_epochs st))
       (\<lambda>eps. Inr (st\<lparr>es_epochs := eps\<rparr>))"

definition seal :: "(string \<Rightarrow> string) \<Rightarrow> epoch_store \<Rightarrow> string \<Rightarrow> (epoch_store \<times> epoch) result" where
  "seal sha st bits =
     ebind (chunk bits (es_block_bits st)) (\<lambda>blocks.
     ebind (commit_blocks sha blocks) (\<lambda>(root, proofs).
       case root of None \<Rightarrow> Inl TypeError
       | Some merkle_root \<Rightarrow>
         let prev = (if es_epochs st = [] then '''' else ep_chained_root (last (es_epochs st)));
             ep = \<lparr>ep_id = length (es_epochs st), ep_blocks = Some blocks, ep_merkle_root = merkle_root,
                   ep_chained_root = chain_root sha prev merkle_root, ep_acked = False,
                   ep_dropped_under_pressure = False\<rparr> in
         ebind (enforce_cap (st\<lparr>es_epochs := es_epochs st @ [ep]\<rparr>)) (\<lambda>st'. Inr (st', last (es_epochs st')))))"

definition ack_epoch :: "epoch \<Rightarrow> epoch" where
  "ack_epoch ep = (if has_data ep then ep\<lparr>ep_acked := True, ep_blocks := None\<rparr> else ep\<lparr>ep_acked := True\<rparr>)"

text \<open>\<open>next((i for i, ep in enumerate(...) if ...), None)\<close>: the first epoch with that chained root.\<close>

fun find_chained :: "string \<Rightarrow> epoch list \<Rightarrow> nat \<Rightarrow> nat option" where
  "find_chained root [] i = None"
| "find_chained root (ep # eps) i = (if ep_chained_root ep = root then Some i else find_chained root eps (Suc i))"

definition ack :: "epoch_store \<Rightarrow> string \<Rightarrow> epoch_store \<times> nat" where
  "ack st root =
     (case find_chained root (es_epochs st) 0 of
        None \<Rightarrow> (st, 0)
      | Some idx \<Rightarrow>
          let pre = take (idx + 1) (es_epochs st) in
          (st\<lparr>es_epochs := map ack_epoch pre @ drop (idx + 1) (es_epochs st)\<rparr>, length (filter has_data pre)))"

fun verify_chain_loop :: "(string \<Rightarrow> string) \<Rightarrow> string \<Rightarrow> epoch list \<Rightarrow> bool" where
  "verify_chain_loop sha prev [] = True"
| "verify_chain_loop sha prev (ep # eps) =
     (if ep_chained_root ep \<noteq> chain_root sha prev (ep_merkle_root ep) then False
      else verify_chain_loop sha (ep_chained_root ep) eps)"

definition verify_epochs :: "(string \<Rightarrow> string) \<Rightarrow> epoch_store \<Rightarrow> bool" where
  "verify_epochs sha st = verify_chain_loop sha '''' (es_epochs st)"

definition chain_roots :: "epoch_store \<Rightarrow> string list" where
  "chain_roots st = map ep_chained_root (es_epochs st)"

definition retransmittable :: "epoch_store \<Rightarrow> nat list" where
  "retransmittable st = map ep_id (filter has_data (es_epochs st))"

definition gaps :: "epoch_store \<Rightarrow> nat list" where
  "gaps st = map ep_id (filter ep_dropped_under_pressure (es_epochs st))"

subsection \<open>Steps and reachable stores\<close>

datatype store_call = Seal string | Ack string

inductive store_step :: "(string \<Rightarrow> string) \<Rightarrow> epoch_store \<Rightarrow> epoch_store \<Rightarrow> bool" for sha where
  seal_step: "seal sha st bits = Inr (st', ep) \<Longrightarrow> store_step sha st st'"
| ack_step: "ack st root = (st', n) \<Longrightarrow> store_step sha st st'"

inductive store_reachable :: "(string \<Rightarrow> string) \<Rightarrow> int \<Rightarrow> int \<Rightarrow> epoch_store \<Rightarrow> bool" for sha block_bits cap where
  start: "store_reachable sha block_bits cap (store_init block_bits cap)"
| step: "store_reachable sha block_bits cap st \<Longrightarrow> store_step sha st st' \<Longrightarrow> store_reachable sha block_bits cap st'"

inductive_cases store_stepE: "store_step sha st st'"

text \<open>Dropping and acknowledging change neither the identity nor the roots of an epoch.\<close>

definition same_commit :: "epoch \<Rightarrow> epoch \<Rightarrow> bool" where
  "same_commit a b \<longleftrightarrow> ep_id a = ep_id b \<and> ep_merkle_root a = ep_merkle_root b \<and> ep_chained_root a = ep_chained_root b"

definition accounted :: "epoch \<Rightarrow> bool" where
  "accounted ep \<longleftrightarrow> has_data ep \<or> ep_acked ep \<or> ep_dropped_under_pressure ep"

lemma drop_epoch_commit [simp]: "same_commit (drop_epoch ep) ep"
  by (simp add: drop_epoch_def same_commit_def)

lemma ack_epoch_commit [simp]: "same_commit (ack_epoch ep) ep"
  by (simp add: ack_epoch_def same_commit_def)

lemma same_commit_refl [simp]: "same_commit ep ep"
  by (simp add: same_commit_def)

lemma drop_oldest_commit: "list_all2 same_commit (drop_oldest eps) eps"
  by (induction eps) (auto simp: list_all2_refl)

lemma list_all2_same_commit_trans:
  "list_all2 same_commit xs ys \<Longrightarrow> list_all2 same_commit ys zs \<Longrightarrow> list_all2 same_commit xs zs"
  by (rule list_all2_trans [where ?P1.0 = same_commit and ?P2.0 = same_commit]) (auto simp: same_commit_def)

lemma cap_loop_commit: "cap_loop n cap eps = Inr eps' \<Longrightarrow> list_all2 same_commit eps' eps"
proof (induction n arbitrary: eps)
  case 0
  then show ?case by (subst (asm) cap_loop.simps) (auto simp: list_all2_refl split: if_splits)
next
  case (Suc n)
  show ?case
  proof (cases "int (Suc n) > cap")
    case True
    then have "cap_loop n cap (drop_oldest eps) = Inr eps'" using Suc.prems by (subst (asm) cap_loop.simps) simp
    then show ?thesis using Suc.IH drop_oldest_commit list_all2_same_commit_trans by blast
  next
    case False
    then show ?thesis using Suc.prems by (subst (asm) cap_loop.simps) (simp add: list_all2_refl)
  qed
qed

lemma verify_chain_loop_commit:
  "list_all2 same_commit xs ys \<Longrightarrow> verify_chain_loop sha prev xs = verify_chain_loop sha prev ys"
  by (induction xs ys arbitrary: prev rule: list_all2_induct) (auto simp: same_commit_def)

lemma verify_chain_loop_snoc:
  "verify_chain_loop sha prev (eps @ [ep]) \<longleftrightarrow> verify_chain_loop sha prev eps \<and>
     ep_chained_root ep = chain_root sha (if eps = [] then prev else ep_chained_root (last eps)) (ep_merkle_root ep)"
  by (induction eps arbitrary: prev) auto

lemma has_data_drop_oldest:
  "filter has_data eps \<noteq> [] \<Longrightarrow>
   Suc (length (filter has_data (drop_oldest eps))) = length (filter has_data eps)"
  by (induction eps) (auto simp: drop_epoch_def has_data_def)

lemma accounted_drop_oldest: "list_all accounted eps \<Longrightarrow> list_all accounted (drop_oldest eps)"
  by (induction eps) (auto simp: drop_epoch_def accounted_def has_data_def)

lemma cap_loop_bounds:
  "cap_loop (length (filter has_data eps)) cap eps = Inr eps' \<Longrightarrow>
   int (length (filter has_data eps')) \<le> cap \<and> (list_all accounted eps \<longrightarrow> list_all accounted eps')"
proof (induction "length (filter has_data eps)" arbitrary: eps)
  case 0
  have c: "cap_loop 0 cap eps = Inr eps'" using "0"(2) unfolding "0"(1) [symmetric] by simp
  then have "eps' = eps" "0 \<le> cap" by (auto simp: cap_loop.simps split: if_splits)
  then show ?case using "0"(1) by simp
next
  case (Suc n)
  show ?case
  proof (cases "int (Suc n) > cap")
    case True
    then have "cap_loop n cap (drop_oldest eps) = Inr eps'"
      using Suc.prems unfolding Suc.hyps(2) [symmetric] by (subst (asm) cap_loop.simps) simp
    moreover have "filter has_data eps \<noteq> []" using Suc.hyps(2) by auto
    then have "n = length (filter has_data (drop_oldest eps))"
      using Suc.hyps(2) has_data_drop_oldest [of eps] by linarith
    ultimately show ?thesis using Suc.hyps(1) [of "drop_oldest eps"] accounted_drop_oldest by auto
  next
    case False
    then show ?thesis
      using Suc.prems unfolding Suc.hyps(2) [symmetric] by (subst (asm) cap_loop.simps) (simp add: Suc.hyps(2))
  qed
qed

lemma cap_loop_total: "0 \<le> cap \<Longrightarrow> \<exists>eps'. cap_loop n cap eps = Inr eps'"
  by (induction n arbitrary: eps) (subst cap_loop.simps, auto)+

lemma seal_parts:
  assumes "seal sha st bits = Inr (st', ep')"
  obtains blocks root proofs ep eps where
    "chunk bits (es_block_bits st) = Inr blocks" "commit_blocks sha blocks = Inr (Some root, proofs)"
    "ep = \<lparr>ep_id = length (es_epochs st), ep_blocks = Some blocks, ep_merkle_root = root,
        ep_chained_root = chain_root sha (if es_epochs st = [] then '''' else ep_chained_root (last (es_epochs st))) root,
        ep_acked = False, ep_dropped_under_pressure = False\<rparr>"
    "cap_loop (length (filter has_data (es_epochs st @ [ep]))) (es_max_data_epochs st) (es_epochs st @ [ep]) = Inr eps"
    "st' = st\<lparr>es_epochs := eps\<rparr>"
  using assms by (auto simp: seal_def enforce_cap_def err_simps Let_def split: option.splits)

lemma ack_commit: "ack st root = (st', n) \<Longrightarrow> list_all2 same_commit (es_epochs st') (es_epochs st)"
proof -
  have "list_all2 same_commit (map ack_epoch pre @ rest) (pre @ rest)" for pre rest
    by (rule list_all2_appendI) (auto simp: list_all2_conv_all_nth)
  then show "ack st root = (st', n) \<Longrightarrow> ?thesis"
    by (auto simp: ack_def Let_def list_all2_refl split: option.splits) (metis append_take_drop_id)
qed

definition store_inv :: "(string \<Rightarrow> string) \<Rightarrow> int \<Rightarrow> epoch_store \<Rightarrow> bool" where
  "store_inv sha cap st \<longleftrightarrow> es_max_data_epochs st = cap \<and> verify_epochs sha st \<and>
     list_all accounted (es_epochs st) \<and> map ep_id (es_epochs st) = [0..<length (es_epochs st)] \<and>
     (es_epochs st \<noteq> [] \<longrightarrow> int (length (filter has_data (es_epochs st))) \<le> cap)"

lemma same_commit_ids: "list_all2 same_commit xs ys \<Longrightarrow> map ep_id xs = map ep_id ys"
  by (induction xs ys rule: list_all2_induct) (auto simp: same_commit_def)

lemma seal_inv:
  assumes "seal sha st bits = Inr (st', ep')" "store_inv sha cap st"
  shows "store_inv sha cap st'"
  using assms(1)
proof (cases rule: seal_parts)
  case (1 blocks root proofs ep eps)
  note c = cap_loop_commit [OF 1(4)] and b = cap_loop_bounds [OF 1(4)]
  have "accounted ep" by (simp add: accounted_def has_data_def 1(3))
  moreover have "verify_chain_loop sha '''' (es_epochs st @ [ep])"
    using assms(2) 1(3) by (auto simp: verify_chain_loop_snoc store_inv_def verify_epochs_def)
  then have "verify_chain_loop sha '''' eps" using verify_chain_loop_commit [OF c] by simp
  moreover have "map ep_id eps = [0..<length eps]"
    using same_commit_ids [OF c] list_all2_lengthD [OF c] assms(2) 1(3) by (simp add: store_inv_def)
  ultimately show ?thesis using assms(2) b 1(5) by (auto simp: store_inv_def verify_epochs_def)
qed

lemma ack_inv:
  assumes "ack st root = (st', n)" "store_inv sha cap st"
  shows "store_inv sha cap st'"
proof -
  note c = ack_commit [OF assms(1)]
  have "list_all accounted (map ack_epoch xs)" for xs
    by (auto simp: list_all_iff accounted_def ack_epoch_def has_data_def)
  moreover have "list_all accounted (drop k xs)" if "list_all accounted xs" for k xs
    using that by (auto simp: list_all_iff dest: in_set_dropD)
  ultimately have acc: "list_all accounted (es_epochs st')"
    using assms by (auto simp: ack_def Let_def store_inv_def split: option.splits)
  have "filter has_data (map ack_epoch xs) = []" for xs
    by (auto simp: filter_empty_conv ack_epoch_def has_data_def)
  moreover have "length (filter has_data (drop k xs)) \<le> length (filter has_data xs)" for k xs
    by (metis append_take_drop_id filter_append le_add2 length_append)
  ultimately have "length (filter has_data (es_epochs st')) \<le> length (filter has_data (es_epochs st))"
    using assms(1) by (auto simp: ack_def Let_def split: option.splits)
  moreover have "es_max_data_epochs st' = es_max_data_epochs st"
    using assms(1) by (auto simp: ack_def Let_def split: option.splits)
  ultimately show ?thesis
    using assms(2) acc verify_chain_loop_commit [OF c] same_commit_ids [OF c] list_all2_lengthD [OF c]
    by (auto simp: store_inv_def verify_epochs_def)
qed

subsection \<open>What the ground relies on\<close>

text \<open>
  The acknowledged positions, and the contract of whatever keeps the epochs: a step adds to the chain and forgets no acknowledgment.
  The store in memory meets it here; the journal with its crashes and restarts meets it in a later theory.
\<close>

definition acked_ids :: "epoch list \<Rightarrow> nat set" where
  "acked_ids eps = {i. i < length eps \<and> ep_acked (eps ! i)}"

locale epoch_keeper =
  fixes valid :: "'s \<Rightarrow> bool" and keeper_step :: "'s \<Rightarrow> 's \<Rightarrow> bool" and kept_chain :: "'s \<Rightarrow> string list" and kept_acks :: "'s \<Rightarrow> nat set"
  assumes step_valid: "valid s \<Longrightarrow> keeper_step s t \<Longrightarrow> valid t"
    and step_chain: "valid s \<Longrightarrow> keeper_step s t \<Longrightarrow> prefix (kept_chain s) (kept_chain t)"
    and step_acks: "valid s \<Longrightarrow> keeper_step s t \<Longrightarrow> kept_acks s \<subseteq> kept_acks t"
begin

lemma run_keeps:
  assumes "keeper_step\<^sup>*\<^sup>* s t" "valid s"
  shows "valid t \<and> prefix (kept_chain s) (kept_chain t) \<and> kept_acks s \<subseteq> kept_acks t"
  using assms
proof (induction rule: rtranclp_induct)
  case (step u t)
  then show ?case using step_valid step_chain step_acks by (meson prefix_order.trans subset_trans)
qed simp

text \<open>Two runs of which one goes on where the other is: a root is never contradicted.\<close>

lemma roots_agree:
  assumes "keeper_step\<^sup>*\<^sup>* s t" "valid s" "i < length (kept_chain s)"
  shows "i < length (kept_chain t) \<and> kept_chain t ! i = kept_chain s ! i"
  using run_keeps [OF assms(1,2)] assms(3) by (auto simp: prefix_def nth_append)

end

lemma drop_oldest_acked: "map ep_acked (drop_oldest eps) = map ep_acked eps"
  by (induction eps) (auto simp: drop_epoch_def)

lemma cap_loop_acked: "cap_loop n cap eps = Inr eps' \<Longrightarrow> map ep_acked eps' = map ep_acked eps"
  by (induction n arbitrary: eps) (subst (asm) cap_loop.simps, fastforce simp: drop_oldest_acked split: if_splits)+

lemma acked_ids_map: "map ep_acked xs = map ep_acked ys \<Longrightarrow> acked_ids xs = acked_ids ys"
  by (metis (no_types, lifting) Collect_cong acked_ids_def length_map nth_map)

lemma same_commit_roots: "list_all2 same_commit xs ys \<Longrightarrow> map ep_chained_root xs = map ep_chained_root ys"
  by (induction xs ys rule: list_all2_induct) (auto simp: same_commit_def)

lemma store_step_grows:
  assumes "store_step sha st st'"
  shows "prefix (chain_roots st) (chain_roots st') \<and> acked_ids (es_epochs st) \<subseteq> acked_ids (es_epochs st')"
  using assms
proof (cases rule: store_step.cases)
  case (seal_step bits ep')
  from seal_step show ?thesis
  proof (cases rule: seal_parts)
    case (1 blocks root proofs ep eps)
    have "map ep_chained_root eps = map ep_chained_root (es_epochs st @ [ep])"
      by (rule same_commit_roots [OF cap_loop_commit [OF 1(4)]])
    moreover have "acked_ids (es_epochs st) \<subseteq> acked_ids (es_epochs st @ [ep])" by (auto simp: acked_ids_def nth_append)
    ultimately show ?thesis using acked_ids_map [OF cap_loop_acked [OF 1(4)]] 1(5) by (simp add: chain_roots_def)
  qed
next
  case (ack_step root n)
  have "map ep_chained_root (es_epochs st') = map ep_chained_root (es_epochs st)"
    by (rule same_commit_roots [OF ack_commit [OF ack_step]])
  moreover have "acked_ids (es_epochs st) \<subseteq> acked_ids (es_epochs st')"
    using ack_step by (auto simp: ack_def Let_def acked_ids_def nth_append ack_epoch_def split: option.splits)
  ultimately show ?thesis by (simp add: chain_roots_def)
qed

interpretation store: epoch_keeper "\<lambda>st. True" "store_step sha" chain_roots "\<lambda>st. acked_ids (es_epochs st)" for sha :: "string \<Rightarrow> string"
  by unfold_locales (use store_step_grows in blast)+

lemma store_step_inv: "store_step sha st st' \<Longrightarrow> store_inv sha cap st \<Longrightarrow> store_inv sha cap st'"
  by (erule store_stepE) (auto intro: seal_inv ack_inv)

lemma store_reachable_inv: "store_reachable sha block_bits cap st \<Longrightarrow> store_inv sha cap st"
proof (induction rule: store_reachable.induct)
  case start
  show ?case by (simp add: store_inv_def store_init_def verify_epochs_def)
next
  case (step st st')
  then show ?case by (blast intro: store_step_inv)
qed

text \<open>
  Retention without silent holes: in every store reached by sealing and acknowledging, the chain of
  roots verifies, epochs are numbered in order, at most the cap of them hold raw data, and an epoch
  without data was acknowledged or is marked as dropped under pressure.
\<close>

theorem store_retention_invariant:
  assumes "store_reachable sha block_bits cap st"
  shows "verify_epochs sha st \<and> map ep_id (es_epochs st) = [0..<length (es_epochs st)] \<and>
    (es_epochs st \<noteq> [] \<longrightarrow> int (length (retransmittable st)) \<le> cap) \<and>
    (\<forall>ep \<in> set (es_epochs st). \<not> has_data ep \<longrightarrow> ep_acked ep \<or> ep_id ep \<in> set (gaps st))"
proof -
  have inv: "store_inv sha cap st" by (rule store_reachable_inv [OF assms])
  then have "\<forall>ep \<in> set (es_epochs st). \<not> has_data ep \<longrightarrow> ep_acked ep \<or> ep_id ep \<in> set (gaps st)"
    by (auto simp: store_inv_def list_all_iff accounted_def gaps_def)
  then show ?thesis using inv by (simp add: store_inv_def retransmittable_def)
qed

lemma seal_total:
  assumes "0 < es_block_bits st" "0 \<le> es_max_data_epochs st" "is_ascii bits"
  shows "\<exists>st' ep. seal sha st bits = Inr (st', ep)"
proof -
  obtain blocks where ch: "chunk bits (es_block_bits st) = Inr blocks" using assms(1) by (simp add: chunk_def)
  have a: "\<forall>b \<in> set blocks. is_ascii b" "blocks \<noteq> []"
    using chunk_ascii [OF ch assms(3)] chunk_concat [OF ch] by auto
  obtain root proofs where c: "commit_blocks sha blocks = Inr (Some root, proofs)"
    using commit_blocks_eq [OF a, of sha] by blast
  have t: "\<exists>eps. cap_loop n (es_max_data_epochs st) xs = Inr eps" for n xs by (rule cap_loop_total [OF assms(2)])
  have "\<exists>st2. enforce_cap st1 = Inr st2" if "es_max_data_epochs st1 = es_max_data_epochs st" for st1
    using t [of "length (filter has_data (es_epochs st1))" "es_epochs st1"] that by (auto simp: enforce_cap_def)
  note cap = this
  have "\<exists>st2. enforce_cap (st\<lparr>es_epochs := eps\<rparr>) = Inr st2" for eps by (rule cap) simp
  then show ?thesis by (simp add: seal_def ch c Let_def ebind_def split: sum.splits) (metis Inl_Inr_False)
qed

theorem store_retention_invariant_witness:
  "\<exists>st ep. seal rev (store_init 2 0) ''0110'' = Inr (st, ep) \<and> store_reachable rev 2 0 st \<and> es_epochs st \<noteq> [] \<and>
     verify_epochs rev st \<and> retransmittable st = []"
proof -
  obtain st ep where s: "seal rev (store_init 2 0) ''0110'' = Inr (st, ep)"
    using seal_total [of "store_init 2 0" "''0110''" rev] by (auto simp: store_init_def is_ascii_def)
  have r: "store_reachable rev 2 0 st"
    by (rule store_reachable.step [OF store_reachable.start store_step.seal_step [OF s]])
  have "es_epochs st \<noteq> []"
    using s
  proof (cases rule: seal_parts)
    case (1 blocks root proofs ep' eps)
    then show ?thesis using list_all2_lengthD [OF cap_loop_commit [OF 1(4)]] by auto
  qed
  then show ?thesis using s r store_retention_invariant [OF r] by auto
qed

subsection \<open>Tamper evidence\<close>

text \<open>The byte string whose digest is the chained root at a position of a chain.\<close>

definition chain_payload :: "string \<Rightarrow> epoch list \<Rightarrow> nat \<Rightarrow> string" where
  "chain_payload prev eps i =
     (if i = 0 then prev else ep_chained_root (eps ! (i - 1))) @ ep_merkle_root (eps ! i)"

lemma chain_payload_butlast: "i < length eps \<Longrightarrow> chain_payload prev (eps @ [ep]) i = chain_payload prev eps i"
  by (cases i) (simp_all add: chain_payload_def nth_append)

lemma chain_payload_last:
  "chain_payload prev (eps @ [ep]) (length eps) =
   (if eps = [] then prev else ep_chained_root (last eps)) @ ep_merkle_root ep"
  by (simp add: chain_payload_def nth_append last_conv_nth)

lemma chain_binding:
  "length xs = length ys \<Longrightarrow> verify_chain_loop sha p xs \<Longrightarrow> verify_chain_loop sha q ys \<Longrightarrow> xs \<noteq> [] \<Longrightarrow>
   ep_chained_root (last xs) = ep_chained_root (last ys) \<Longrightarrow>
   list_all (\<lambda>ep. length (ep_merkle_root ep) = 64) (xs @ ys) \<Longrightarrow>
   (\<And>i. i < length xs \<Longrightarrow> sha (chain_payload p xs i) = sha (chain_payload q ys i) \<Longrightarrow>
      chain_payload p xs i = chain_payload q ys i) \<Longrightarrow>
   map ep_merkle_root xs = map ep_merkle_root ys"
proof (induction xs arbitrary: ys rule: rev_induct)
  case (snoc x xs)
  obtain ys' y where ys: "ys = ys' @ [y]" using snoc.prems(1) by (cases ys rule: rev_cases) auto
  have len: "length xs = length ys'" using snoc.prems(1) ys by simp
  let ?px = "if xs = [] then p else ep_chained_root (last xs)"
  let ?py = "if ys' = [] then q else ep_chained_root (last ys')"
  have "ep_chained_root x = hex_of (sha (?px @ ep_merkle_root x))" "ep_chained_root y = hex_of (sha (?py @ ep_merkle_root y))"
    using snoc.prems(2,3) ys by (auto simp: verify_chain_loop_snoc chain_root_def)
  then have h: "sha (?px @ ep_merkle_root x) = sha (?py @ ep_merkle_root y)" using snoc.prems(5) ys by simp
  have "?px @ ep_merkle_root x = ?py @ ep_merkle_root y"
    using snoc.prems(7) [of "length xs"] h ys len chain_payload_last [of p xs x] chain_payload_last [of q ys' y] by simp
  then have eq: "?px = ?py" "ep_merkle_root x = ep_merkle_root y"
    using snoc.prems(6) ys by (simp_all add: append_eq_append_conv)
  show ?case
  proof (cases "xs = []")
    case True
    then show ?thesis using eq ys len by simp
  next
    case False
    have "ys' \<noteq> []" using False len by auto
    have "map ep_merkle_root xs = map ep_merkle_root ys'"
    proof (rule snoc.IH [OF len _ _ False])
      fix i assume i: "i < length xs" "sha (chain_payload p xs i) = sha (chain_payload q ys' i)"
      then show "chain_payload p xs i = chain_payload q ys' i"
        using snoc.prems(7) [of i] ys len by (simp add: chain_payload_butlast)
    qed (use snoc.prems(2,3,6) ys False \<open>ys' \<noteq> []\<close> eq(1) in \<open>auto simp: verify_chain_loop_snoc\<close>)
    then show ?thesis using eq ys by simp
  qed
qed simp

text \<open>
  C24. The chain is tamper evident: two chains of the same length that both verify and end in the same
  chained root commit to the same Merkle roots in the same order, unless at some position two different
  byte strings the chains hash have the same digest.
\<close>

theorem chain_tamper_evident:
  assumes "verify_epochs sha st" and "verify_epochs sha st'"
    and "length (es_epochs st) = length (es_epochs st')" and "es_epochs st \<noteq> []"
    and "ep_chained_root (last (es_epochs st)) = ep_chained_root (last (es_epochs st'))"
    and "list_all (\<lambda>ep. length (ep_merkle_root ep) = 64) (es_epochs st @ es_epochs st')"
  shows "map ep_merkle_root (es_epochs st) = map ep_merkle_root (es_epochs st') \<or>
    (\<exists>i < length (es_epochs st).
       chain_payload '''' (es_epochs st) i \<noteq> chain_payload '''' (es_epochs st') i \<and>
       sha (chain_payload '''' (es_epochs st) i) = sha (chain_payload '''' (es_epochs st') i))"
  using chain_binding [of "es_epochs st" "es_epochs st'" sha "''''" "''''"] assms
  by (auto simp: verify_epochs_def)

definition demo_epoch :: "string \<Rightarrow> epoch" where
  "demo_epoch root = \<lparr>ep_id = 0, ep_blocks = None, ep_merkle_root = root,
     ep_chained_root = chain_root rev '''' root, ep_acked = True, ep_dropped_under_pressure = False\<rparr>"

theorem chain_tamper_evident_witness:
  "\<exists>st. verify_epochs rev st \<and> length (es_epochs st) = 1 \<and>
     (map ep_merkle_root (es_epochs st) = map ep_merkle_root (es_epochs st) \<or>
      (\<exists>i < length (es_epochs st). chain_payload '''' (es_epochs st) i \<noteq> chain_payload '''' (es_epochs st) i \<and>
         rev (chain_payload '''' (es_epochs st) i) = rev (chain_payload '''' (es_epochs st) i)))"
proof -
  define st where "st = \<lparr>es_block_bits = 8, es_max_data_epochs = 3, es_epochs = [demo_epoch (replicate 64 CHR ''a'')]\<rparr>"
  have v: "verify_epochs rev st" by (simp add: st_def verify_epochs_def demo_epoch_def)
  have l: "list_all (\<lambda>ep. length (ep_merkle_root ep) = 64) (es_epochs st @ es_epochs st)" "es_epochs st \<noteq> []"
    by (simp_all add: st_def demo_epoch_def)
  have "length (es_epochs st) = 1" by (simp add: st_def)
  then show ?thesis using v chain_tamper_evident [OF v v refl l(2) refl l(1)] by blast
qed

end
