(* ===== verification/PyVal.thy ===== *)
theory PyVal
  imports Complex_Main PyStr
begin

section \<open>Python values\<close>

text \<open>
  The values a flow routes on: \<open>None\<close>, booleans, unbounded integers, floats, strings, lists and
  dictionaries with string keys. A finite float is the rational it denotes (Python compares an int
  and a float by their exact values); a NaN carries the identity of its object, because containers
  compare by identity first. Equality, ordering, membership and truthiness are Python's; an
  operation that raises TypeError returns \<open>None\<close>.
\<close>

datatype pyfloat = FFin rat | FPosInf | FNegInf | FNaN nat

datatype pyval =
    PNone
  | PBool bool
  | PInt int
  | PFloat pyfloat
  | PStr string
  | PList "pyval list"
  | PDict "(string \<times> pyval) list"

type_synonym ctx = "(string, pyval) pydict"

fun num_of :: "pyval \<Rightarrow> pyfloat option" where
  "num_of (PBool b) = Some (FFin (if b then 1 else 0))"
| "num_of (PInt i) = Some (FFin (of_int i))"
| "num_of (PFloat f) = Some f"
| "num_of _ = None"

fun float_eq :: "pyfloat \<Rightarrow> pyfloat \<Rightarrow> bool" where
  "float_eq (FFin a) (FFin b) = (a = b)"
| "float_eq FPosInf FPosInf = True"
| "float_eq FNegInf FNegInf = True"
| "float_eq _ _ = False"

fun float_less :: "pyfloat \<Rightarrow> pyfloat \<Rightarrow> bool" where
  "float_less (FFin a) (FFin b) = (a < b)"
| "float_less (FFin _) FPosInf = True"
| "float_less FNegInf (FFin _) = True"
| "float_less FNegInf FPosInf = True"
| "float_less _ _ = False"

fun is_nan :: "pyfloat \<Rightarrow> bool" where
  "is_nan (FNaN _) = True"
| "is_nan _ = False"

text \<open>Two values that are one object: the only case in which this differs from equality is a NaN.\<close>

fun same_nan :: "pyval \<Rightarrow> pyval \<Rightarrow> bool" where
  "same_nan (PFloat (FNaN i)) (PFloat (FNaN j)) = (i = j)"
| "same_nan _ _ = False"

text \<open>\<open>==\<close>; the elements of containers are compared by identity or equality.\<close>

lemma pair_value_size: "kv \<in> set d \<Longrightarrow> size (snd kv) \<le> size_list (size_prod (\<lambda>_. 0) size) d"
  by (rule size_list_estimation') (auto simp: size_prod_def split: prod.splits)

function py_eq :: "pyval \<Rightarrow> pyval \<Rightarrow> bool" where
  "py_eq a b = (case a of
       PNone \<Rightarrow> b = PNone
     | PStr s \<Rightarrow> b = PStr s
     | PList xs \<Rightarrow> (case b of
           PList ys \<Rightarrow> list_all2 (\<lambda>x y. same_nan x y \<or> py_eq x y) xs ys
         | _ \<Rightarrow> False)
     | PDict d \<Rightarrow> (case b of
           PDict e \<Rightarrow> length d = length e \<and>
             list_all (\<lambda>kv. case map_of e (fst kv) of None \<Rightarrow> False
                                | Some w \<Rightarrow> same_nan (snd kv) w \<or> py_eq (snd kv) w) d
         | _ \<Rightarrow> False)
     | _ \<Rightarrow> (case (num_of a, num_of b) of (Some f, Some g) \<Rightarrow> float_eq f g | _ \<Rightarrow> False))"
  by pat_completeness auto
termination
  by (relation "measure (\<lambda>(a, b). size a)")
    (auto simp: less_Suc_eq_le intro: size_list_estimation' pair_value_size)

declare py_eq.simps [simp del]

definition py_same :: "pyval \<Rightarrow> pyval \<Rightarrow> bool" where
  "py_same a b = (same_nan a b \<or> py_eq a b)"

datatype ordop = OLt | OLtE | OGt | OGtE

fun ord_of :: "ordop \<Rightarrow> bool \<Rightarrow> bool \<Rightarrow> bool" where
  "ord_of OLt lt gt = lt"
| "ord_of OLtE lt gt = (\<not> gt)"
| "ord_of OGt lt gt = gt"
| "ord_of OGtE lt gt = (\<not> lt)"

definition float_order :: "ordop \<Rightarrow> pyfloat \<Rightarrow> pyfloat \<Rightarrow> bool" where
  "float_order op f g = (\<not> is_nan f \<and> \<not> is_nan g \<and> ord_of op (float_less f g) (float_less g f))"

text \<open>\<open><, <=, >, >=\<close>: two numbers, two strings or two lists; anything else raises TypeError.\<close>

function py_order :: "ordop \<Rightarrow> pyval \<Rightarrow> pyval \<Rightarrow> bool option"
  and order_lists :: "ordop \<Rightarrow> pyval list \<Rightarrow> pyval list \<Rightarrow> bool option" where
  "py_order op a b = (case a of
       PStr s \<Rightarrow> (case b of PStr t \<Rightarrow> Some (ord_of op (str_less s t) (str_less t s)) | _ \<Rightarrow> None)
     | PList xs \<Rightarrow> (case b of PList ys \<Rightarrow> order_lists op xs ys | _ \<Rightarrow> None)
     | _ \<Rightarrow> (case (num_of a, num_of b) of (Some f, Some g) \<Rightarrow> Some (float_order op f g) | _ \<Rightarrow> None))"
| "order_lists op (x # xs) (y # ys) = (if py_same x y then order_lists op xs ys else py_order op x y)"
| "order_lists op [] ys = Some (ord_of op (ys \<noteq> []) False)"
| "order_lists op (x # xs) [] = Some (ord_of op False True)"
  by pat_completeness auto
termination
  by (relation "measure (case_sum (\<lambda>(op, a, b). size a) (\<lambda>(op, xs, ys). size_list size xs))") auto

declare py_order.simps [simp del]

text \<open>\<open>x in c\<close>: a substring, a member of a list, a key of a dictionary.\<close>

fun py_in :: "pyval \<Rightarrow> pyval \<Rightarrow> bool option" where
  "py_in x (PStr t) = (case x of PStr s \<Rightarrow> Some (str_contains s t) | _ \<Rightarrow> None)"
| "py_in x (PList ys) = Some (list_ex (\<lambda>y. py_same y x) ys)"
| "py_in x (PDict d) = (case x of PList _ \<Rightarrow> None | PDict _ \<Rightarrow> None
     | PStr k \<Rightarrow> Some (k \<in> set (map fst d)) | _ \<Rightarrow> Some False)"
| "py_in x _ = None"

fun truthy :: "pyval \<Rightarrow> bool" where
  "truthy PNone = False"
| "truthy (PBool b) = b"
| "truthy (PInt i) = (i \<noteq> 0)"
| "truthy (PFloat f) = (f \<noteq> FFin 0)"
| "truthy (PStr s) = (s \<noteq> [])"
| "truthy (PList xs) = (xs \<noteq> [])"
| "truthy (PDict d) = (d \<noteq> [])"

text \<open>\<open>ctx.get(k)\<close>: an unknown name reads as None.\<close>

definition ctx_get :: "ctx \<Rightarrow> string \<Rightarrow> pyval" where
  "ctx_get c k = (case map_of c k of None \<Rightarrow> PNone | Some v \<Rightarrow> v)"

text \<open>Values that are not containers.\<close>

fun py_scalar :: "pyval \<Rightarrow> bool" where
  "py_scalar (PList _) = False"
| "py_scalar (PDict _) = False"
| "py_scalar _ = True"

lemma float_eq_sym: "float_eq f g = float_eq g f"
  by (cases f; cases g) auto

lemma float_eq_refl: "\<not> is_nan f \<Longrightarrow> float_eq f f"
  by (cases f) auto

lemma py_eq_simps [simp]:
  "py_eq PNone b = (b = PNone)"
  "py_eq a PNone = (a = PNone)"
  "py_eq (PStr s) b = (b = PStr s)"
  "py_eq a (PStr s) = (a = PStr s)"
  "py_eq (PBool x) (PBool y) = (x = y)"
  "py_eq (PInt i) (PInt j) = (i = j)"
  "py_eq (PBool x) (PInt i) = (i = (if x then 1 else 0))"
  "py_eq (PInt i) (PBool x) = (i = (if x then 1 else 0))"
  "py_eq (PFloat f) (PFloat g) = float_eq f g"
  "py_eq (PList xs) (PList ys) = list_all2 py_same xs ys"
  by (subst py_eq.simps; cases a; cases b; auto simp: py_same_def [abs_def])+

lemma py_eq_num:
  "num_of a = Some f \<Longrightarrow> num_of b = Some g \<Longrightarrow> py_eq a b = float_eq f g"
  "num_of a = Some f \<Longrightarrow> num_of b = None \<Longrightarrow> py_eq a b = False"
  "num_of a = None \<Longrightarrow> num_of b = Some f \<Longrightarrow> py_eq a b = False"
  by (subst py_eq.simps; cases a; cases b; auto)+

lemma py_order_simps [simp]:
  "py_order op (PInt i) (PInt j) = Some (ord_of op (i < j) (j < i))"
  "py_order op (PStr s) (PStr t) = Some (ord_of op (str_less s t) (str_less t s))"
  "py_order op PNone b = None"
  "py_order op a PNone = None"
  by (subst py_order.simps; cases a; cases b; auto simp: float_order_def)+

lemma py_order_num:
  "num_of a = Some f \<Longrightarrow> num_of b = Some g \<Longrightarrow> py_order op a b = Some (float_order op f g)"
  "num_of a = Some f \<Longrightarrow> num_of b = None \<Longrightarrow> py_order op a b = None"
  "num_of a = None \<Longrightarrow> num_of b = Some f \<Longrightarrow> py_order op a b = None"
  by (subst py_order.simps; cases a; cases b; auto)+

lemma ctx_get_map_of: "map_of c k = Some v \<Longrightarrow> ctx_get c k = v"
  by (simp add: ctx_get_def)

lemma ctx_get_dict_set [simp]: "ctx_get (dict_set c k v) k' = (if k' = k then v else ctx_get c k')"
  by (simp add: ctx_get_def)

end
