(* ===== verification/Predicates.thy ===== *)
theory Predicates
  imports PyVal
begin

section \<open>Deterministic edge predicates\<close>

text \<open>
  \<open>src/prismpath/kernel/predicates.py\<close>. The syntax tree is the one of Python's \<open>ast\<close>; the parser
  itself (\<open>ast.parse(expr, mode="eval")\<close>) is the parameter \<open>parse\<close> of the definitions, which returns
  the body of the expression or \<open>None\<close> for a SyntaxError or ValueError. \<open>AOther\<close> stands for every
  node type that the evaluator has no case for, with its children in field order; the nodes without
  a constructor of their own (\<open>Load\<close>, the operators) appear through it when the tree is walked.
  Problems reported by the static check are values; the wording of the messages is not modelled.
\<close>

datatype boolop = BAnd | BOr
datatype unop = UNot | UUSub | UUAdd | UInvert
datatype cmpop = CEq | CNotEq | CLt | CLtE | CGt | CGtE | CIn | CNotIn | CIs | CIsNot

datatype ast =
    AConst pyval
  | AName string
  | ABoolOp boolop "ast list"
  | AUnary unop ast
  | ACompare ast "cmpop list" "ast list"
  | AList "ast list"
  | ATuple "ast list"
  | AOther string "ast list"

type_synonym pyparse = "string \<Rightarrow> ast option"

definition ALWAYS :: "string list" where
  "ALWAYS = [''always'', ''true'', ''else'', ''otherwise'', ''default'', ''_'']"

definition NEVER :: "string list" where
  "NEVER = [''false'', ''never'']"

definition MAX_DEPTH :: nat where "MAX_DEPTH = 50"

subsection \<open>Node types and the walk\<close>

fun boolop_name :: "boolop \<Rightarrow> string" where
  "boolop_name BAnd = ''And''"
| "boolop_name BOr = ''Or''"

fun unop_name :: "unop \<Rightarrow> string" where
  "unop_name UNot = ''Not''"
| "unop_name UUSub = ''USub''"
| "unop_name UUAdd = ''UAdd''"
| "unop_name UInvert = ''Invert''"

fun cmpop_name :: "cmpop \<Rightarrow> string" where
  "cmpop_name CEq = ''Eq''"
| "cmpop_name CNotEq = ''NotEq''"
| "cmpop_name CLt = ''Lt''"
| "cmpop_name CLtE = ''LtE''"
| "cmpop_name CGt = ''Gt''"
| "cmpop_name CGtE = ''GtE''"
| "cmpop_name CIn = ''In''"
| "cmpop_name CNotIn = ''NotIn''"
| "cmpop_name CIs = ''Is''"
| "cmpop_name CIsNot = ''IsNot''"

fun node_type :: "ast \<Rightarrow> string" where
  "node_type (AConst _) = ''Constant''"
| "node_type (AName _) = ''Name''"
| "node_type (ABoolOp _ _) = ''BoolOp''"
| "node_type (AUnary _ _) = ''UnaryOp''"
| "node_type (ACompare _ _ _) = ''Compare''"
| "node_type (AList _) = ''List''"
| "node_type (ATuple _) = ''Tuple''"
| "node_type (AOther k _) = k"

definition leaf :: "string \<Rightarrow> ast" where
  "leaf k = AOther k []"

text \<open>\<open>ast.iter_child_nodes\<close>: the operators and expression contexts are nodes too.\<close>

fun child_nodes :: "ast \<Rightarrow> ast list" where
  "child_nodes (AConst _) = []"
| "child_nodes (AName _) = [leaf ''Load'']"
| "child_nodes (ABoolOp b vs) = leaf (boolop_name b) # vs"
| "child_nodes (AUnary u n) = [leaf (unop_name u), n]"
| "child_nodes (ACompare l ops cs) = l # map (\<lambda>c. leaf (cmpop_name c)) ops @ cs"
| "child_nodes (AList es) = es @ [leaf ''Load'']"
| "child_nodes (ATuple es) = es @ [leaf ''Load'']"
| "child_nodes (AOther _ cs) = cs"

fun node_count :: "ast \<Rightarrow> nat" where
  "node_count (AConst _) = 1"
| "node_count (AName _) = 2"
| "node_count (ABoolOp _ vs) = 2 + sum_list (map node_count vs)"
| "node_count (AUnary _ n) = 2 + node_count n"
| "node_count (ACompare l ops cs) = 1 + node_count l + length ops + sum_list (map node_count cs)"
| "node_count (AList es) = 2 + sum_list (map node_count es)"
| "node_count (ATuple es) = 2 + sum_list (map node_count es)"
| "node_count (AOther _ cs) = 1 + sum_list (map node_count cs)"

lemma node_count_children: "node_count n = 1 + sum_list (map node_count (child_nodes n))"
  by (cases n) (simp_all add: leaf_def comp_def sum_list_triv)

lemma node_count_child: "c \<in> set (child_nodes n) \<Longrightarrow> node_count c < node_count n"
  using member_le_sum_list [of "node_count c" "map node_count (child_nodes n)"] node_count_children [of n] by simp

text \<open>\<open>ast.walk\<close>: breadth first, as the queue of the library function has it.\<close>

function walk :: "ast list \<Rightarrow> ast list" where
  "walk [] = []"
| "walk (n # queue) = n # walk (queue @ child_nodes n)"
  by pat_completeness auto
termination
  by (relation "measure (\<lambda>q. sum_list (map node_count q))") (simp_all add: node_count_children)

definition ALLOWED_NODES :: "string list" where
  "ALLOWED_NODES =
     [''Expression'', ''Constant'', ''Name'', ''Load'',
      ''BoolOp'', ''And'', ''Or'',
      ''UnaryOp'', ''Not'',
      ''Compare'', ''Eq'', ''NotEq'', ''Lt'', ''LtE'', ''Gt'', ''GtE'', ''In'', ''NotIn'',
      ''List'', ''Tuple'']"

definition walk_expression :: "ast \<Rightarrow> string list" where
  "walk_expression body = ''Expression'' # map node_type (walk [body])"

function ast_depth :: "ast \<Rightarrow> nat \<Rightarrow> nat" where
  "ast_depth n depth_so_far =
     (let children = child_nodes n in
      if children = [] then depth_so_far
      else foldr max (map (\<lambda>c. ast_depth c (depth_so_far + 1)) children) 0)"
  by pat_completeness auto
termination
  by (relation "measure (\<lambda>(n, d). node_count n)") (auto simp: node_count_child)

declare ast_depth.simps [simp del]

subsection \<open>Signed literals\<close>

text \<open>\<open>_SignFolder\<close>: bottom up, a sign on an integer literal that is not a boolean becomes part of it.\<close>

fun fold_here :: "unop \<Rightarrow> ast \<Rightarrow> ast" where
  "fold_here UUSub (AConst (PInt i)) = AConst (PInt (- i))"
| "fold_here UUAdd (AConst (PInt i)) = AConst (PInt i)"
| "fold_here u n = AUnary u n"

fun fold_unary_signs :: "ast \<Rightarrow> ast" where
  "fold_unary_signs (AConst v) = AConst v"
| "fold_unary_signs (AName x) = AName x"
| "fold_unary_signs (ABoolOp b vs) = ABoolOp b (map fold_unary_signs vs)"
| "fold_unary_signs (AUnary u n) = fold_here u (fold_unary_signs n)"
| "fold_unary_signs (ACompare l ops cs) = ACompare (fold_unary_signs l) ops (map fold_unary_signs cs)"
| "fold_unary_signs (AList es) = AList (map fold_unary_signs es)"
| "fold_unary_signs (ATuple es) = ATuple (map fold_unary_signs es)"
| "fold_unary_signs (AOther k cs) = AOther k (map fold_unary_signs cs)"

subsection \<open>Which tier an edge belongs to\<close>

definition normalized :: "string \<Rightarrow> string" where
  "normalized condition = py_lower (strip condition)"

definition is_deterministic :: "string \<Rightarrow> bool" where
  "is_deterministic condition =
     (startswith (normalized condition) ''when '' \<or> normalized condition \<in> set ALWAYS \<or>
      normalized condition \<in> set NEVER)"

definition is_error :: "string \<Rightarrow> bool" where
  "is_error condition = startswith (normalized condition) ''on error''"

definition is_event :: "string \<Rightarrow> bool" where
  "is_event condition =
     (startswith (normalized condition) ''on event'' \<or> startswith (normalized condition) ''on timeout'')"

definition event_name :: "string \<Rightarrow> string" where
  "event_name condition =
     (let trimmed = strip condition in
      if startswith (py_lower trimmed) ''on timeout'' then ''__timeout__''
      else strip (drop 8 trimmed))"

definition is_semantic :: "string \<Rightarrow> bool" where
  "is_semantic condition = (\<not> is_deterministic condition \<and> \<not> is_error condition \<and> \<not> is_event condition)"

definition spawn_join_event :: "string \<Rightarrow> string" where
  "spawn_join_event join =
     (let join_policy = py_lower (strip (if join = [] then ''all_done'' else join)) in
      if startswith join_policy ''quorum'' then ''quorum''
      else if join_policy = ''any'' then ''any''
      else ''all_done'')"

definition error_expr :: "string \<Rightarrow> string" where
  "error_expr condition = strip (drop 8 (strip condition))"

definition expr_of :: "string \<Rightarrow> string" where
  "expr_of condition =
     (let trimmed = strip condition in
      if startswith (py_lower trimmed) ''when '' then strip (drop 5 trimmed) else trimmed)"

definition is_keyword :: "string \<Rightarrow> bool" where
  "is_keyword expr = (py_lower expr \<in> set ALWAYS \<or> py_lower expr \<in> set NEVER)"

subsection \<open>The static check\<close>

datatype problem = EmptyWhen | Unparseable | Disallowed string | TooDeep

fun dedup_loop :: "'a list \<Rightarrow> 'a list \<Rightarrow> 'a list" where
  "dedup_loop seen [] = []"
| "dedup_loop seen (p # ps) = (if p \<in> set seen then dedup_loop seen ps else p # dedup_loop (p # seen) ps)"

definition tree_problems :: "ast \<Rightarrow> problem list" where
  "tree_problems body =
     map Disallowed (filter (\<lambda>k. k \<notin> set ALLOWED_NODES) (walk_expression body)) @
     (if ast_depth body 0 > MAX_DEPTH then [TooDeep] else [])"

definition check_predicate :: "pyparse \<Rightarrow> string \<Rightarrow> problem list" where
  "check_predicate parse condition =
     (if \<not> is_deterministic condition then []
      else let expr = expr_of condition in
        if is_keyword expr then []
        else if expr = [] then [EmptyWhen]
        else case parse expr of
            None \<Rightarrow> [Unparseable]
          | Some tree \<Rightarrow> dedup_loop [] (tree_problems (fold_unary_signs tree)))"

subsection \<open>Evaluation\<close>

text \<open>\<open>_compare\<close>: a comparison that raises is unsatisfied, so its negation \<open>not in\<close> is satisfied.\<close>

fun py_compare :: "cmpop \<Rightarrow> pyval \<Rightarrow> pyval \<Rightarrow> bool result" where
  "py_compare CEq l r = Inr (py_eq l r)"
| "py_compare CNotEq l r = Inr (\<not> py_eq l r)"
| "py_compare CLt l r = Inr (py_order OLt l r = Some True)"
| "py_compare CLtE l r = Inr (py_order OLtE l r = Some True)"
| "py_compare CGt l r = Inr (py_order OGt l r = Some True)"
| "py_compare CGtE l r = Inr (py_order OGtE l r = Some True)"
| "py_compare CIn l r = Inr (py_in l r = Some True)"
| "py_compare CNotIn l r = Inr (py_in l r \<noteq> Some True)"
| "py_compare CIs l r = Inl PredicateError"
| "py_compare CIsNot l r = Inl PredicateError"

text \<open>\<open>_ev\<close>, with the loop over the operators of a comparison as \<open>ev_chain\<close>.\<close>

function ev :: "ctx \<Rightarrow> nat \<Rightarrow> ast \<Rightarrow> pyval result"
  and ev_chain :: "ctx \<Rightarrow> nat \<Rightarrow> pyval \<Rightarrow> cmpop list \<Rightarrow> ast list \<Rightarrow> pyval result" where
  "ev c depth node =
     (if depth > MAX_DEPTH then Inl PredicateError
      else case node of
          AConst v \<Rightarrow> Inr v
        | AName x \<Rightarrow> Inr (ctx_get c x)
        | ABoolOp b vs \<Rightarrow> ebind (emap (ev c (depth + 1)) vs) (\<lambda>vals.
            Inr (PBool (if b = BAnd then list_all truthy vals else list_ex truthy vals)))
        | AUnary UNot n \<Rightarrow> ebind (ev c (depth + 1) n) (\<lambda>v. Inr (PBool (\<not> truthy v)))
        | ACompare l ops cs \<Rightarrow> ebind (ev c (depth + 1) l) (\<lambda>left. ev_chain c depth left ops cs)
        | AList es \<Rightarrow> ebind (emap (ev c (depth + 1)) es) (\<lambda>vals. Inr (PList vals))
        | ATuple es \<Rightarrow> ebind (emap (ev c (depth + 1)) es) (\<lambda>vals. Inr (PList vals))
        | _ \<Rightarrow> Inl PredicateError)"
| "ev_chain c depth left (op # ops) (n # cs) =
     ebind (ev c (depth + 1) n) (\<lambda>right. ebind (py_compare op left right) (\<lambda>ok.
       if \<not> ok then Inr (PBool False) else ev_chain c depth right ops cs))"
| "ev_chain c depth left [] cs = Inr (PBool True)"
| "ev_chain c depth left (op # ops) [] = Inr (PBool True)"
  by pat_completeness auto
termination
  by (relation "measure (case_sum (\<lambda>(c, d, n). size n) (\<lambda>(c, d, l, ops, cs). size_list size cs))")
    (auto simp: size_list_estimation' less_Suc_eq_le)

declare ev.simps [simp del]

definition eval_condition :: "pyparse \<Rightarrow> string \<Rightarrow> ctx \<Rightarrow> bool result" where
  "eval_condition parse condition c =
     (let expr = expr_of condition; low = py_lower expr in
      if low \<in> set ALWAYS then Inr True
      else if low \<in> set NEVER then Inr False
      else case parse expr of
          None \<Rightarrow> Inl PredicateError
        | Some tree \<Rightarrow> let tree = fold_unary_signs tree in
            if list_all (\<lambda>k. k \<in> set ALLOWED_NODES) (walk_expression tree)
            then ebind (ev c 0 tree) (\<lambda>v. Inr (truthy v))
            else Inl PredicateError)"

definition expr_ast :: "pyparse \<Rightarrow> string \<Rightarrow> ast option" where
  "expr_ast parse cond =
     (if \<not> is_deterministic cond then None
      else let expr = expr_of cond in
        if is_keyword expr then None
        else map_option fold_unary_signs (parse expr))"

text \<open>One equation per node type, below the depth limit and above it.\<close>

lemma ev_node:
  "ev c d (AConst v) = (if d \<le> MAX_DEPTH then Inr v else Inl PredicateError)"
  "ev c d (AName x) = (if d \<le> MAX_DEPTH then Inr (ctx_get c x) else Inl PredicateError)"
  "ev c d (ABoolOp b vs) = (if d \<le> MAX_DEPTH then ebind (emap (ev c (Suc d)) vs) (\<lambda>vals.
     Inr (PBool (if b = BAnd then list_all truthy vals else list_ex truthy vals))) else Inl PredicateError)"
  "ev c d (AUnary u n) = (if d \<le> MAX_DEPTH \<and> u = UNot
     then ebind (ev c (Suc d) n) (\<lambda>v. Inr (PBool (\<not> truthy v))) else Inl PredicateError)"
  "ev c d (ACompare l ops cs) = (if d \<le> MAX_DEPTH
     then ebind (ev c (Suc d) l) (\<lambda>left. ev_chain c d left ops cs) else Inl PredicateError)"
  "ev c d (AList es) = (if d \<le> MAX_DEPTH then ebind (emap (ev c (Suc d)) es) (\<lambda>vals. Inr (PList vals))
     else Inl PredicateError)"
  "ev c d (ATuple es) = (if d \<le> MAX_DEPTH then ebind (emap (ev c (Suc d)) es) (\<lambda>vals. Inr (PList vals))
     else Inl PredicateError)"
  "ev c d (AOther k cs) = Inl PredicateError"
  by (subst ev.simps(1); simp; cases u; simp)+

subsection \<open>The walk and the depth, by structure\<close>

text \<open>A property of every node of a tree, stated by recursion over the children.\<close>

function all_nodes :: "(string \<Rightarrow> bool) \<Rightarrow> ast \<Rightarrow> bool" where
  "all_nodes P n = (P (node_type n) \<and> (\<forall>c \<in> set (child_nodes n). all_nodes P c))"
  by pat_completeness auto
termination
  by (relation "measure (\<lambda>(P, n). node_count n)") (auto simp: node_count_child)

declare all_nodes.simps [simp del]

lemma walk_all_nodes: "(\<forall>n \<in> set (walk q). P (node_type n)) \<longleftrightarrow> (\<forall>n \<in> set q. all_nodes P n)"
proof (induction q rule: walk.induct)
  case (2 n queue)
  then show ?case using all_nodes.simps [of P n] by (simp add: ball_Un) blast
qed simp

lemma walk_expression_allowed:
  "list_all (\<lambda>k. k \<in> set ALLOWED_NODES) (walk_expression n) \<longleftrightarrow> all_nodes (\<lambda>k. k \<in> set ALLOWED_NODES) n"
  using walk_all_nodes [of "[n]" "\<lambda>k. k \<in> set ALLOWED_NODES"]
  by (auto simp: walk_expression_def list_all_iff ALLOWED_NODES_def)

abbreviation allowed :: "ast \<Rightarrow> bool" where
  "allowed \<equiv> all_nodes (\<lambda>k. k \<in> set ALLOWED_NODES)"

lemma allowed_child: "allowed n \<Longrightarrow> c \<in> set (child_nodes n) \<Longrightarrow> allowed c"
  by (subst (asm) all_nodes.simps) auto

lemma allowed_leaf: "allowed (leaf k) \<longleftrightarrow> k \<in> set ALLOWED_NODES"
  by (subst all_nodes.simps) (simp add: leaf_def)

lemma allowed_unop: "allowed (leaf (unop_name u)) \<longleftrightarrow> u = UNot"
  unfolding allowed_leaf by (cases u) (simp_all add: ALLOWED_NODES_def)

lemma allowed_node: "allowed n \<Longrightarrow> node_type n \<in> set ALLOWED_NODES"
  by (subst (asm) all_nodes.simps) auto

lemma foldr_max_le: "foldr max xs (0::nat) \<le> m \<longleftrightarrow> (\<forall>x \<in> set xs. x \<le> m)"
  by (induction xs) auto

lemma foldr_max_ge: "x \<in> set xs \<Longrightarrow> x \<le> foldr max xs (0::nat)"
  using foldr_max_le by blast

lemma ast_depth_child: "c \<in> set (child_nodes n) \<Longrightarrow> ast_depth c (d + 1) \<le> ast_depth n d"
proof (subst ast_depth.simps [of n])
  assume "c \<in> set (child_nodes n)"
  then have "child_nodes n \<noteq> []"
    and "ast_depth c (d + 1) \<in> set (map (\<lambda>c. ast_depth c (d + 1)) (child_nodes n))" by auto
  then show "ast_depth c (d + 1) \<le> (let children = child_nodes n in
      if children = [] then d else foldr max (map (\<lambda>c. ast_depth c (d + 1)) children) 0)"
    using foldr_max_ge by (simp del: set_map)
qed

lemma ast_depth_ge: "d \<le> ast_depth n d"
proof (induction n d rule: ast_depth.induct)
  case (1 n d)
  show ?case
  proof (cases "child_nodes n")
    case Nil
    then show ?thesis by (simp add: ast_depth.simps)
  next
    case (Cons c cs)
    then have "d + 1 \<le> ast_depth c (d + 1)" by (intro 1) auto
    also have "\<dots> \<le> ast_depth n d" by (rule ast_depth_child) (simp add: Cons)
    finally show ?thesis by simp
  qed
qed

subsection \<open>What the parser returns\<close>

text \<open>
  What is relied on of Python's parser: a comparison has as many operators as comparators, and a node without a constructor of its own is either of a type
  outside the allowed list, or a name, list or tuple that is assigned to or deleted, which carries
  its \<open>Store\<close> or \<open>Del\<close> context as a child.
\<close>

fun ast_wf :: "ast \<Rightarrow> bool" where
  "ast_wf (AConst _) = True"
| "ast_wf (AName _) = True"
| "ast_wf (ABoolOp _ vs) = list_all ast_wf vs"
| "ast_wf (AUnary _ n) = ast_wf n"
| "ast_wf (ACompare l ops cs) = (length ops = length cs \<and> ast_wf l \<and> list_all ast_wf cs)"
| "ast_wf (AList es) = list_all ast_wf es"
| "ast_wf (ATuple es) = list_all ast_wf es"
| "ast_wf (AOther k cs) = (k \<notin> set ALLOWED_NODES \<or> leaf ''Store'' \<in> set cs \<or> leaf ''Del'' \<in> set cs)"

definition parser_wf :: "pyparse \<Rightarrow> bool" where
  "parser_wf parse \<longleftrightarrow> (\<forall>e tree. parse e = Some tree \<longrightarrow> ast_wf tree)"

lemma ast_wf_fold_here [simp]: "ast_wf (fold_here u n) \<longleftrightarrow> ast_wf n"
  by (cases "(u, n)" rule: fold_here.cases) auto

lemma fold_leaf [simp]: "fold_unary_signs (leaf k) = leaf k"
  by (simp add: leaf_def)

lemma ast_wf_fold: "ast_wf n \<Longrightarrow> ast_wf (fold_unary_signs n)"
proof (induction n rule: fold_unary_signs.induct)
  case (8 k cs)
  then show ?case
    using imageI [of "leaf ''Store''" "set cs" fold_unary_signs] imageI [of "leaf ''Del''" "set cs" fold_unary_signs]
    by auto
qed (auto simp: list_all_iff)

lemma not_allowed_other: "ast_wf (AOther k cs) \<Longrightarrow> \<not> allowed (AOther k cs)"
proof
  assume "ast_wf (AOther k cs)" and a: "allowed (AOther k cs)"
  then consider "k \<notin> set ALLOWED_NODES" | "leaf ''Store'' \<in> set cs" | "leaf ''Del'' \<in> set cs" by auto
  then show False
  proof cases
    case 1
    then show ?thesis using allowed_node [OF a] by simp
  next
    case 2
    then show ?thesis using allowed_child [OF a, of "leaf ''Store''"]
      unfolding allowed_leaf by (simp add: ALLOWED_NODES_def)
  next
    case 3
    then show ?thesis using allowed_child [OF a, of "leaf ''Del''"]
      unfolding allowed_leaf by (simp add: ALLOWED_NODES_def)
  qed
qed

subsection \<open>The evaluator is total on what the check accepts\<close>

lemma py_compare_total: "allowed (leaf (cmpop_name op)) \<Longrightarrow> \<exists>ok. py_compare op l r = Inr ok"
  unfolding allowed_leaf by (cases op) (simp_all add: ALLOWED_NODES_def)

lemma ev_chain_total:
  "(\<And>n. n \<in> set cs \<Longrightarrow> \<exists>v. ev c (Suc d) n = Inr v) \<Longrightarrow>
   (\<And>op l r. op \<in> set ops \<Longrightarrow> \<exists>ok. py_compare op l r = Inr ok) \<Longrightarrow> \<exists>v. ev_chain c d left ops cs = Inr v"
proof (induction ops arbitrary: left cs)
  case (Cons op ops)
  show ?case
  proof (cases cs)
    case (Cons n cs')
    obtain v where v: "ev c (Suc d) n = Inr v" using Cons.prems(1) Cons by auto
    obtain ok where ok: "py_compare op left v = Inr ok" using Cons.prems(2) by force
    have "\<exists>w. ev_chain c d v ops cs' = Inr w"
      by (rule Cons.IH) (use Cons.prems Cons in auto)
    then show ?thesis using Cons v ok by auto
  qed simp
qed simp

lemma ev_total: "ast_wf n \<Longrightarrow> allowed n \<Longrightarrow> ast_depth n d \<le> MAX_DEPTH \<Longrightarrow> \<exists>v. ev c d n = Inr v"
proof (induction n arbitrary: d rule: measure_induct_rule [of node_count])
  case (less n)
  have d: "d \<le> MAX_DEPTH" using ast_depth_ge [of d n] less.prems by simp
  have step: "\<exists>v. ev c (Suc d) m = Inr v" if "m \<in> set (child_nodes n)" "ast_wf m" for m
    by (rule less.IH) (use that less.prems node_count_child allowed_child ast_depth_child [of m n d] in auto)
  show ?case
  proof (cases n)
    case (ABoolOp b vs)
    then have "\<exists>ws. emap (ev c (Suc d)) vs = Inr ws"
      using step less.prems by (intro emap_total) (auto simp: list_all_iff)
    then show ?thesis using ABoolOp d by (auto simp: ev.simps(1))
  next
    case (AUnary u m)
    have "leaf (unop_name u) \<in> set (child_nodes n)" using AUnary by simp
    then have "u = UNot"
      using allowed_child [OF less.prems(2)] allowed_unop by blast
    then show ?thesis using AUnary d step less.prems by (fastforce simp: ev.simps(1))
  next
    case (ACompare l ops cs)
    have op: "\<exists>ok. py_compare op a b = Inr ok" if "op \<in> set ops" for op a b
      by (rule py_compare_total, rule allowed_child [OF less.prems(2)]) (use that ACompare in auto)
    have ch: "\<exists>v. ev_chain c d left ops cs = Inr v" for left
      by (rule ev_chain_total) (use step op less.prems ACompare in \<open>auto simp: list_all_iff\<close>)
    obtain v where "ev c (Suc d) l = Inr v" using step less.prems ACompare by auto
    then show ?thesis using ch ACompare d by (simp add: ev.simps(1))
  next
    case (AList es)
    then have "\<exists>ws. emap (ev c (Suc d)) es = Inr ws"
      using step less.prems by (intro emap_total) (auto simp: list_all_iff)
    then show ?thesis using AList d by (auto simp: ev.simps(1))
  next
    case (ATuple es)
    then have "\<exists>ws. emap (ev c (Suc d)) es = Inr ws"
      using step less.prems by (intro emap_total) (auto simp: list_all_iff)
    then show ?thesis using ATuple d by (auto simp: ev.simps(1))
  next
    case (AOther k cs)
    then show ?thesis using not_allowed_other less.prems by blast
  qed (use d in \<open>simp_all add: ev.simps(1)\<close>)
qed

text \<open>A condition the check passes is a keyword, or a tree of the sandbox the evaluator runs to a value.\<close>

lemma checked_tree:
  assumes "parser_wf parse" "check_predicate parse condition = []" "\<not> is_keyword (expr_of condition)" "is_deterministic condition"
  shows "\<exists>tree. parse (expr_of condition) = Some tree \<and> ast_wf (fold_unary_signs tree) \<and>
    (\<forall>c. \<exists>v. ev c 0 (fold_unary_signs tree) = Inr v \<and> eval_condition parse condition c = Inr (truthy v))"
proof -
  have dd: "dedup_loop [] ps = [] \<longleftrightarrow> ps = []" for ps :: "problem list" by (cases ps) auto
  obtain tree where t: "parse (expr_of condition) = Some tree"
    and p: "tree_problems (fold_unary_signs tree) = []"
    using assms(2-4) by (auto simp: check_predicate_def dd Let_def split: if_splits option.splits)
  have wf: "ast_wf (fold_unary_signs tree)" using assms(1) t by (auto simp: parser_wf_def ast_wf_fold)
  have al: "list_all (\<lambda>k. k \<in> set ALLOWED_NODES) (walk_expression (fold_unary_signs tree))"
    and dp: "ast_depth (fold_unary_signs tree) 0 \<le> MAX_DEPTH"
    using p by (auto simp: tree_problems_def list_all_iff filter_empty_conv split: if_splits)
  have "\<exists>v. ev c 0 (fold_unary_signs tree) = Inr v \<and> eval_condition parse condition c = Inr (truthy v)" for c
  proof -
    obtain v where "ev c 0 (fold_unary_signs tree) = Inr v"
      using ev_total [OF wf _ dp] al walk_expression_allowed by blast
    then show ?thesis using t al assms(3) by (simp add: eval_condition_def is_keyword_def Let_def)
  qed
  then show ?thesis using t wf by blast
qed

lemma keyword_evaluates: "is_keyword (expr_of condition) \<Longrightarrow>
    eval_condition parse condition c = Inr (py_lower (expr_of condition) \<in> set ALWAYS)"
  by (auto simp: eval_condition_def is_keyword_def Let_def)

text \<open>
  C33. The static check is sound for the evaluator: a deterministic condition with no reported problem
  evaluates to a truth value in every context, whatever the fields hold.
\<close>

theorem checked_predicate_evaluates:
  assumes "parser_wf parse" "is_deterministic condition" "check_predicate parse condition = []"
  shows "\<exists>b. eval_condition parse condition c = Inr b"
  using keyword_evaluates checked_tree [OF assms(1,3) _ assms(2)] by blast

theorem checked_predicate_evaluates_witness:
  "\<exists>b. eval_condition (\<lambda>e. Some (ACompare (AName ''x'') [CGtE] [AUnary UUSub (AConst (PInt 5))]))
         ''when x >= -5'' [(''x'', PStr ''high'')] = Inr b"
proof (rule checked_predicate_evaluates)
  show "parser_wf (\<lambda>e. Some (ACompare (AName ''x'') [CGtE] [AUnary UUSub (AConst (PInt 5))]))"
    by (simp add: parser_wf_def)
  show "is_deterministic ''when x >= -5''" by code_simp
  show "check_predicate (\<lambda>e. Some (ACompare (AName ''x'') [CGtE] [AUnary UUSub (AConst (PInt 5))]))
      ''when x >= -5'' = []" by code_simp
qed

lemma py_compare_error: "py_compare op l r = Inl e \<Longrightarrow> e = PredicateError"
  by (cases op) auto

lemma ev_error:
  "ev c d n = Inl e \<Longrightarrow> e = PredicateError"
  "ev_chain c d left ops cs = Inl e \<Longrightarrow> e = PredicateError"
proof (induction c d n and c d left ops cs arbitrary: e and e rule: ev_ev_chain.induct)
  case (1 c depth node)
  have em: "emap f xs = Inl e \<Longrightarrow> \<exists>x \<in> set xs. f x = Inl e" for f :: "ast \<Rightarrow> pyval result" and xs e
    by (induction xs) (auto simp: ebind_eq_Inl)
  show ?case
    using 1 by (cases node) (auto simp: ev_node ebind_eq_Inl dest!: em split: if_splits)
next
  case (2 c depth left op ops n cs)
  then show ?case by (auto simp: ebind_eq_Inl py_compare_error split: if_splits)
qed auto

text \<open>
  A predicate never crashes a run: on any condition, any parse result and any context the evaluator
  returns a truth value or raises PredicateError, the one exception its callers handle.
\<close>

theorem eval_condition_only_predicate_error:
  "(\<exists>b. eval_condition parse condition c = Inr b) \<or> eval_condition parse condition c = Inl PredicateError"
proof (cases "eval_condition parse condition c")
  case (Inl e)
  then have "e = PredicateError"
    by (auto simp: eval_condition_def Let_def ebind_eq_Inl dest: ev_error(1) split: if_splits option.splits)
  then show ?thesis using Inl by simp
qed simp

text \<open>
  Every edge belongs to exactly one routing tier: of deterministic, error handler, event and
  semantic, one test accepts the condition and the other three reject it.
\<close>

theorem edge_tier_unique:
  "length (filter (\<lambda>tier. tier condition) [is_deterministic, is_error, is_event, is_semantic]) = 1"
proof -
  have kw: "\<not> startswith k ''on error'' \<and> \<not> startswith k ''on event'' \<and> \<not> startswith k ''on timeout''"
    if "k \<in> set ALWAYS \<or> k \<in> set NEVER" for k
    using that by (auto simp: ALWAYS_def NEVER_def startswith_def)
  have w: "\<not> startswith k ''on error'' \<and> \<not> startswith k ''on event'' \<and> \<not> startswith k ''on timeout''"
    if "startswith k ''when ''" for k
    using that by (auto simp: startswith_iff)
  have e: "\<not> startswith k ''on event'' \<and> \<not> startswith k ''on timeout''" if "startswith k ''on error''" for k
    using that by (auto simp: startswith_iff)
  show ?thesis
    using kw w e by (auto simp: is_deterministic_def is_error_def is_event_def is_semantic_def)
qed

subsection \<open>The fields a predicate reads\<close>

fun names_of :: "ast \<Rightarrow> string set" where
  "names_of (AConst _) = {}"
| "names_of (AName x) = {x}"
| "names_of (ABoolOp _ vs) = (\<Union>v \<in> set vs. names_of v)"
| "names_of (AUnary _ n) = names_of n"
| "names_of (ACompare l ops cs) = names_of l \<union> (\<Union>n \<in> set cs. names_of n)"
| "names_of (AList es) = (\<Union>n \<in> set es. names_of n)"
| "names_of (ATuple es) = (\<Union>n \<in> set es. names_of n)"
| "names_of (AOther _ cs) = (\<Union>n \<in> set cs. names_of n)"

lemma ev_names:
  "(\<And>x. x \<in> names_of n \<Longrightarrow> ctx_get c x = ctx_get c' x) \<Longrightarrow> ev c d n = ev c' d n"
  "(\<And>x. x \<in> (\<Union>n \<in> set cs. names_of n) \<Longrightarrow> ctx_get c x = ctx_get c' x) \<Longrightarrow>
     ev_chain c d left ops cs = ev_chain c' d left ops cs"
proof (induction c d n and c d left ops cs rule: ev_ev_chain.induct)
  case (1 c d node)
  have em: "emap (ev c (Suc d)) es = emap (ev c' (Suc d)) es"
    if "\<And>m. m \<in> set es \<Longrightarrow> ev c (Suc d) m = ev c' (Suc d) m" for es
    using that by (rule emap_cong [OF refl])
  show ?case
  proof (cases "d \<le> MAX_DEPTH")
    case True
    show ?thesis
    proof (cases node)
      case (ABoolOp b vs)
      then have "emap (ev c (Suc d)) vs = emap (ev c' (Suc d)) vs" using 1 True by (intro em) auto
      then show ?thesis using ABoolOp by (simp add: ev_node)
    next
      case (AUnary u m)
      then show ?thesis using 1 True by (cases u) (simp_all add: ev_node)
    next
      case (ACompare l ops cs)
      then show ?thesis using 1 True by (auto simp: ev_node intro!: ebind_cong)
    next
      case (AList es)
      then have "emap (ev c (Suc d)) es = emap (ev c' (Suc d)) es" using 1 True by (intro em) auto
      then show ?thesis using AList by (simp add: ev_node)
    next
      case (ATuple es)
      then have "emap (ev c (Suc d)) es = emap (ev c' (Suc d)) es" using 1 True by (intro em) auto
      then show ?thesis using ATuple by (simp add: ev_node)
    qed (use 1 in \<open>simp_all add: ev_node\<close>)
  qed (cases node; simp add: ev_node)
next
  case (2 c depth left op ops n cs)
  then show ?case by (auto intro!: ebind_cong)
qed simp_all

text \<open>
  A predicate reads only the fields its expression names: two contexts that agree on those give the
  same outcome, errors included, so no other key of the context can steer an edge.
\<close>

theorem eval_condition_reads_named_fields:
  assumes "\<And>tree x. parse (expr_of condition) = Some tree \<Longrightarrow> x \<in> names_of (fold_unary_signs tree) \<Longrightarrow>
      ctx_get c x = ctx_get c' x"
  shows "eval_condition parse condition c = eval_condition parse condition c'"
proof (cases "parse (expr_of condition)")
  case (Some tree)
  have "ev c 0 (fold_unary_signs tree) = ev c' 0 (fold_unary_signs tree)"
    using assms [OF Some] by (rule ev_names(1))
  then show ?thesis using Some by (simp add: eval_condition_def Let_def)
qed (simp add: eval_condition_def Let_def)

theorem eval_condition_reads_named_fields_witness:
  "eval_condition (\<lambda>e. Some (ACompare (AName ''x'') [CLt] [AConst (PInt 3)])) ''when x < 3''
       [(''x'', PInt 1), (''y'', PInt 7)]
   = eval_condition (\<lambda>e. Some (ACompare (AName ''x'') [CLt] [AConst (PInt 3)])) ''when x < 3'' [(''x'', PInt 1)]"
  by (rule eval_condition_reads_named_fields) (auto simp: ctx_get_def)

subsection \<open>Where the check and the evaluator disagree\<close>

text \<open>\<open>not not ... x\<close>, a chain of negations of a field.\<close>

fun nest_not :: "nat \<Rightarrow> string \<Rightarrow> ast" where
  "nest_not 0 x = AName x"
| "nest_not (Suc n) x = AUnary UNot (nest_not n x)"

lemma nest_not_fold [simp]: "fold_unary_signs (nest_not n x) = nest_not n x"
  by (induction n) auto

lemma nest_not_allowed: "allowed (nest_not n x)"
proof (induction n)
  case 0
  show ?case by (subst all_nodes.simps) (simp add: allowed_leaf, simp add: ALLOWED_NODES_def)
next
  case (Suc n)
  then show ?case by (subst all_nodes.simps) (simp add: allowed_leaf, simp add: ALLOWED_NODES_def)
qed

lemma nest_not_depth: "ast_depth (nest_not n x) d = d + n + 1"
proof (induction n arbitrary: d)
  case 0
  show ?case by (simp add: ast_depth.simps leaf_def)
next
  case (Suc n)
  have l: "ast_depth (leaf k) (Suc d) = Suc d" for k by (simp add: ast_depth.simps leaf_def)
  show ?case by (subst ast_depth.simps) (simp add: l Suc)
qed

lemma nest_not_ev:
  "d + n \<le> MAX_DEPTH \<Longrightarrow> \<exists>v. ev c d (nest_not n x) = Inr v \<and>
     truthy v = (if even n then truthy (ctx_get c x) else \<not> truthy (ctx_get c x))"
proof (induction n arbitrary: d)
  case (Suc n)
  obtain v where "ev c (Suc d) (nest_not n x) = Inr v"
    "truthy v = (if even n then truthy (ctx_get c x) else \<not> truthy (ctx_get c x))"
    using Suc.IH [of "Suc d"] Suc.prems by auto
  then show ?case using Suc.prems by (simp add: ev_node)
qed (simp add: ev_node)

text \<open>
  The check and the evaluator do not accept the same language: fifty negations of a field are
  rejected as nested too deeply by the static check, because it counts the expression context below the
  name, while the evaluator gives them a truth value in every context.
\<close>

theorem check_rejects_what_eval_accepts:
  assumes "startswith (normalized condition) ''when ''" "expr_of condition \<noteq> []" "\<not> is_keyword (expr_of condition)"
    and "parse (expr_of condition) = Some (nest_not 50 x)"
  shows "check_predicate parse condition = [TooDeep] \<and>
    eval_condition parse condition c = Inr (truthy (ctx_get c x))"
proof -
  have al: "list_all (\<lambda>k. k \<in> set ALLOWED_NODES) (walk_expression (nest_not 50 x))"
    using nest_not_allowed walk_expression_allowed by blast
  then have "filter (\<lambda>k. k \<notin> set ALLOWED_NODES) (walk_expression (nest_not 50 x)) = []"
    by (auto simp: list_all_iff filter_empty_conv)
  moreover have "ast_depth (nest_not 50 x) 0 > MAX_DEPTH" unfolding nest_not_depth by (simp add: MAX_DEPTH_def)
  ultimately have "tree_problems (nest_not 50 x) = [TooDeep]" by (simp add: tree_problems_def)
  then have ch: "check_predicate parse condition = [TooDeep]"
    using assms by (simp add: check_predicate_def is_deterministic_def Let_def)
  obtain v where "ev c 0 (nest_not 50 x) = Inr v" "truthy v = truthy (ctx_get c x)"
    using nest_not_ev [of 0 50 c x] by (auto simp: MAX_DEPTH_def)
  then show ?thesis
    using ch assms al by (simp add: eval_condition_def is_keyword_def Let_def)
qed

definition not_text :: "nat \<Rightarrow> string \<Rightarrow> string" where
  "not_text n x = concat (replicate n ''not '') @ x"

theorem check_rejects_what_eval_accepts_witness:
  "let parse = (\<lambda>e. if e = not_text 50 ''x'' then Some (nest_not 50 ''x'') else None);
       condition = ''when '' @ not_text 50 ''x'' in
   check_predicate parse condition = [TooDeep] \<and>
   eval_condition parse condition [(''x'', PInt 1)] = Inr (truthy (ctx_get [(''x'', PInt 1)] ''x''))"
  unfolding Let_def
proof (rule check_rejects_what_eval_accepts)
  have e: "expr_of (''when '' @ not_text 50 ''x'') = not_text 50 ''x''" by code_simp
  show "startswith (normalized (''when '' @ not_text 50 ''x'')) ''when ''" by code_simp
  show "expr_of (''when '' @ not_text 50 ''x'') \<noteq> []" unfolding e by (simp add: not_text_def)
  show "\<not> is_keyword (expr_of (''when '' @ not_text 50 ''x''))" by code_simp
  show "(if expr_of (''when '' @ not_text 50 ''x'') = not_text 50 ''x'' then Some (nest_not 50 ''x'') else None)
      = Some (nest_not 50 ''x'')" unfolding e by simp
qed

end
