(* ===== verification/PyNum.thy ===== *)
theory PyNum
  imports PyStr
begin

section \<open>Decimal text\<close>

text \<open>
  \<open>str(n)\<close> of an integer and the reading of ASCII digits, as \<open>int(text)\<close> does after a regular
  expression has fixed the shape of the text, with their round trip.
\<close>

definition is_digit :: "char \<Rightarrow> bool" where
  "is_digit c = (let n = (of_char c :: nat) in 48 \<le> n \<and> n \<le> 57)"

definition digit_val :: "char \<Rightarrow> nat" where
  "digit_val c = of_char c - 48"

definition digit_char :: "nat \<Rightarrow> char" where
  "digit_char n = char_of (48 + n)"

fun nat_str :: "nat \<Rightarrow> string" where
  "nat_str n = (if n < 10 then [digit_char n] else nat_str (n div 10) @ [digit_char (n mod 10)])"

declare nat_str.simps [simp del]

definition int_str :: "int \<Rightarrow> string" where
  "int_str i = (if i < 0 then CHR ''-'' # nat_str (nat (- i)) else nat_str (nat i))"

definition digits_nat :: "string \<Rightarrow> nat" where
  "digits_nat s = foldl (\<lambda>n c. 10 * n + digit_val c) 0 s"

text \<open>\<open>[0-9]+\<close> and \<open>[+-]?[0-9]+\<close>, matched against the whole text.\<close>

definition all_digits :: "string \<Rightarrow> bool" where
  "all_digits s = (s \<noteq> [] \<and> list_all is_digit s)"

definition unsigned :: "string \<Rightarrow> string" where
  "unsigned s = (case s of c # t \<Rightarrow> if c = CHR ''+'' \<or> c = CHR ''-'' then t else s | [] \<Rightarrow> [])"

definition negative :: "string \<Rightarrow> bool" where
  "negative s = (case s of c # t \<Rightarrow> c = CHR ''-'' | [] \<Rightarrow> False)"

definition int_text :: "string \<Rightarrow> bool" where
  "int_text s = all_digits (unsigned s)"

definition int_of_text :: "string \<Rightarrow> int" where
  "int_of_text s = (if negative s then - int (digits_nat (unsigned s)) else int (digits_nat (unsigned s)))"

lemma digit_char_val [simp]: "n < 10 \<Longrightarrow> digit_val (digit_char n) = n"
  by (simp add: digit_val_def digit_char_def)

lemma digit_char_is_digit [simp]: "n < 10 \<Longrightarrow> is_digit (digit_char n)"
  by (simp add: is_digit_def digit_char_def)

lemma digits_nat_snoc [simp]: "digits_nat (s @ [c]) = 10 * digits_nat s + digit_val c"
  by (simp add: digits_nat_def)

lemma nat_str_digits [simp]: "list_all is_digit (nat_str n)"
proof (induction n rule: nat_str.induct)
  case (1 n)
  then show ?case by (subst nat_str.simps) simp
qed

lemma nat_str_nonempty [simp]: "nat_str n \<noteq> []"
  by (subst nat_str.simps) simp

lemma digits_nat_str [simp]: "digits_nat (nat_str n) = n"
proof (induction n rule: nat_str.induct)
  case (1 n)
  then show ?case
    by (subst nat_str.simps) (auto simp: digits_nat_def [of "[digit_char n]"])
qed

lemma nat_str_inj: "nat_str m = nat_str n \<Longrightarrow> m = n"
  by (metis digits_nat_str)

lemma nat_str_hd: "\<exists>c t. nat_str n = c # t \<and> is_digit c"
  using nat_str_digits [of n] nat_str_nonempty [of n] by (cases "nat_str n") auto

lemma digit_not_sign [simp]: "is_digit c \<Longrightarrow> c \<noteq> CHR ''-''" "is_digit c \<Longrightarrow> c \<noteq> CHR ''+''"
  by (auto simp: is_digit_def)

lemma int_text_int_str [simp]: "int_text (int_str i)"
proof -
  obtain c t where "nat_str (nat i) = c # t" "is_digit c" using nat_str_hd by blast
  then show ?thesis
    using nat_str_digits [of "nat i"]
    by (auto simp: int_text_def int_str_def unsigned_def all_digits_def)
qed

lemma int_of_int_str [simp]: "int_of_text (int_str i) = i"
proof -
  obtain c t where c: "nat_str (nat i) = c # t" "is_digit c" using nat_str_hd by blast
  have "digits_nat (c # t) = nat i" using digits_nat_str [of "nat i"] c by simp
  then show ?thesis
    using c by (auto simp: int_of_text_def int_str_def unsigned_def negative_def)
qed

lemma int_str_inj: "int_str i = int_str j \<Longrightarrow> i = j"
  by (metis int_of_int_str)

lemma int_str_chars: "c \<in> set (int_str i) \<Longrightarrow> is_digit c \<or> c = CHR ''-''"
  using nat_str_digits by (auto simp: int_str_def list_all_iff split: if_splits)

lemma int_str_nonempty [simp]: "int_str i \<noteq> []"
  by (simp add: int_str_def)

subsection \<open>\<open>int(text)\<close>\<close>

text \<open>Surrounding white space, a sign, and digits with single underscores between them.\<close>

fun digit_groups :: "string \<Rightarrow> bool" where
  "digit_groups [] = False"
| "digit_groups [c] = is_digit c"
| "digit_groups (c # d # s) = (is_digit c \<and> (if d = CHR ''_'' then digit_groups s else digit_groups (d # s)))"

definition py_int :: "string \<Rightarrow> int option" where
  "py_int s =
     (let t = strip s in
      if digit_groups (unsigned t)
      then Some (if negative t then - int (digits_nat (filter is_digit t)) else int (digits_nat (filter is_digit t)))
      else None)"

lemma digit_groups_digits: "xs \<noteq> [] \<Longrightarrow> list_all is_digit xs \<Longrightarrow> digit_groups xs"
  by (induction xs rule: digit_groups.induct) (auto simp: is_digit_def)

lemma strip_int_str [simp]: "strip (int_str i) = int_str i"
proof -
  have "\<not> py_isspace c" if "c \<in> set (int_str i)" for c
    using int_str_chars [OF that] by (auto simp: py_isspace_def is_digit_def Let_def)
  then show ?thesis by (intro strip_fixed) auto
qed

lemma int_str_parts:
  "unsigned (int_str i) = nat_str (nat \<bar>i\<bar>)" "filter is_digit (int_str i) = nat_str (nat \<bar>i\<bar>)" "negative (int_str i) = (i < 0)"
proof -
  obtain c t where c: "nat_str (nat i) = c # t" "is_digit c" using nat_str_hd by blast
  have f: "filter is_digit (nat_str n) = nat_str n" for n using nat_str_digits [of n] by (simp add: list_all_iff)
  show "unsigned (int_str i) = nat_str (nat \<bar>i\<bar>)" "filter is_digit (int_str i) = nat_str (nat \<bar>i\<bar>)" "negative (int_str i) = (i < 0)"
    using c f [of "nat i"] f [of "nat (- i)"] by (auto simp: int_str_def unsigned_def negative_def is_digit_def)
qed

lemma py_int_int_str: "py_int (int_str i) = Some i"
  by (simp add: py_int_def int_str_parts digit_groups_digits Let_def)

end
