(* ===== verification/FieldDef.thy ===== *)
theory FieldDef
  imports PyVal PyNum
begin

section \<open>Field definitions: kinds, exact decimals and canonical values\<close>

text \<open>
  The first half of \<open>src/prismpath/kernel/field_definitions.py\<close>: the definition of a field, its
  parser and printer, exact decimal text, the conversion of a source value to a canonical value and
  the boundary check on a canonical value. \<open>Fraction\<close> is \<open>rat\<close>; a \<open>Decimal\<close> is given by whether it
  is finite and by its text.
\<close>

definition KIND_INT :: string where "KIND_INT = ''int''"
definition KIND_FIXED :: string where "KIND_FIXED = ''fixed''"
definition KIND_BOOL :: string where "KIND_BOOL = ''bool''"
definition KIND_CATEGORY :: string where "KIND_CATEGORY = ''category''"

definition ROUNDING_FLOOR :: string where "ROUNDING_FLOOR = ''floor''"
definition ROUNDING_CEILING :: string where "ROUNDING_CEILING = ''ceiling''"
definition ROUNDING_EXACT :: string where "ROUNDING_EXACT = ''exact''"

definition EXACT_INTEGER_LIMIT :: int where "EXACT_INTEGER_LIMIT = 2 ^ 53 - 1"
definition MAX_SCALE :: int where "MAX_SCALE = 10 ^ 9"
definition MAX_DECIMAL_DIGITS :: nat where "MAX_DECIMAL_DIGITS = 28"
definition MAX_DECIMAL_EXPONENT :: int where "MAX_DECIMAL_EXPONENT = 30"

definition ENGINE_COUNTERS :: "string list" where
  "ENGINE_COUNTERS = [''visits'', ''error_count'']"

definition kind_options :: "string \<Rightarrow> string list option" where
  "kind_options kind =
     (if kind = KIND_INT then Some [''min'', ''max'', ''absent'']
      else if kind = KIND_FIXED then Some [''scale'', ''rounding'', ''unit'', ''min'', ''max'', ''absent'']
      else if kind = KIND_BOOL then Some [''absent'']
      else if kind = KIND_CATEGORY then Some [''absent'']
      else None)"

definition rounding_operators :: "string \<Rightarrow> string list option" where
  "rounding_operators rounding =
     (if rounding = ROUNDING_FLOOR then Some [''>='', ''<'']
      else if rounding = ROUNDING_CEILING then Some [''>'', ''<='']
      else if rounding = ROUNDING_EXACT then
        Some [''<'', ''<='', ''>'', ''>='', ''=='', ''!='', ''in'', ''not in'', ''truthy'']
      else None)"

definition REFUSAL_MISSING :: string where "REFUSAL_MISSING = ''missing''"
definition REFUSAL_WRONG_TYPE :: string where "REFUSAL_WRONG_TYPE = ''wrong_type''"
definition REFUSAL_UNPARSEABLE_STRING :: string where "REFUSAL_UNPARSEABLE_STRING = ''unparseable_string''"
definition REFUSAL_FRACTIONAL :: string where "REFUSAL_FRACTIONAL = ''fractional''"
definition REFUSAL_OUT_OF_RANGE :: string where "REFUSAL_OUT_OF_RANGE = ''out_of_range''"
definition REFUSAL_OFF_GRID :: string where "REFUSAL_OFF_GRID = ''off_grid''"
definition REFUSAL_BINARY_FLOAT :: string where "REFUSAL_BINARY_FLOAT = ''binary_float''"

record field_definition =
  fd_name :: string
  fd_kind :: string
  fd_scale :: "int option"
  fd_rounding :: "string option"
  fd_unit :: "string option"
  fd_minimum :: int
  fd_maximum :: int
  fd_absent_allowed :: bool

fun join_words :: "string list \<Rightarrow> string" where
  "join_words [] = []"
| "join_words [w] = w"
| "join_words (w # ws) = w @ '' '' @ join_words ws"

definition or_none :: "string option \<Rightarrow> string" where
  "or_none s = (case s of None \<Rightarrow> ''None'' | Some t \<Rightarrow> t)"

definition canonical_words :: "field_definition \<Rightarrow> string list" where
  "canonical_words d =
     [fd_kind d] @
     (if fd_kind d = KIND_FIXED then
        [''scale='' @ or_none (map_option int_str (fd_scale d)), ''rounding='' @ or_none (fd_rounding d)] @
        (case fd_unit d of None \<Rightarrow> [] | Some u \<Rightarrow> [''unit='' @ u])
      else []) @
     (if fd_kind d \<in> {KIND_INT, KIND_FIXED}
      then [''min='' @ int_str (fd_minimum d), ''max='' @ int_str (fd_maximum d)] else []) @
     [if fd_absent_allowed d then ''absent=allowed'' else ''absent=refused'']"

definition canonical_text :: "field_definition \<Rightarrow> string" where
  "canonical_text d = join_words (canonical_words d)"

subsection \<open>Parsing a definition\<close>

text \<open>\<open>text.split()\<close>: the runs of characters between white space.\<close>

fun split_ws :: "string \<Rightarrow> string \<Rightarrow> string list" where
  "split_ws cur [] = (if cur = [] then [] else [cur])"
| "split_ws cur (c # s) =
     (if py_isspace c then (if cur = [] then split_ws [] s else cur # split_ws [] s)
      else split_ws (cur @ [c]) s)"

definition words :: "string \<Rightarrow> string list" where
  "words text = split_ws [] text"

definition name_start :: "char \<Rightarrow> bool" where
  "name_start c = (let n = (of_char c :: nat) in (65 \<le> n \<and> n \<le> 90) \<or> (97 \<le> n \<and> n \<le> 122) \<or> n = 95)"

definition field_name :: "string \<Rightarrow> bool" where
  "field_name s = (case s of [] \<Rightarrow> False | c # t \<Rightarrow> name_start c \<and> list_all (\<lambda>x. name_start x \<or> is_digit x) t)"

definition integer_option :: "string \<Rightarrow> int result" where
  "integer_option text = (if int_text text then Inr (int_of_text text) else Inl FieldDefinitionError)"

fun parse_options :: "string list \<Rightarrow> string list \<Rightarrow> (string, string) pydict \<Rightarrow> (string, string) pydict result" where
  "parse_options allowed_options [] options = Inr options"
| "parse_options allowed_options (word # ws) options =
     (let (option, v) = split_once CHR ''='' word in
      if CHR ''='' \<notin> set word \<or> v = [] then Inl FieldDefinitionError
      else if option \<notin> set allowed_options then Inl FieldDefinitionError
      else if map_of options option \<noteq> None then Inl FieldDefinitionError
      else parse_options allowed_options ws (dict_set options option v))"

definition parse_scale :: "(string, string) pydict \<Rightarrow> (int \<times> string) result" where
  "parse_scale options =
     (case (map_of options ''scale'', map_of options ''rounding'') of
        (Some s, Some rounding) \<Rightarrow> ebind (integer_option s) (\<lambda>scale.
          if \<not> (1 \<le> scale \<and> scale \<le> MAX_SCALE) then Inl FieldDefinitionError
          else if rounding_operators rounding = None then Inl FieldDefinitionError
          else Inr (scale, rounding))
      | _ \<Rightarrow> Inl FieldDefinitionError)"

definition int_or :: "(string, string) pydict \<Rightarrow> string \<Rightarrow> int \<Rightarrow> int result" where
  "int_or options k fallback = (case map_of options k of None \<Rightarrow> Inr fallback | Some t \<Rightarrow> integer_option t)"

text \<open>The range, and the definition once its options have been read.\<close>

definition parse_range :: "(string, string) pydict \<Rightarrow> (int \<times> int) result" where
  "parse_range options =
     ebind (int_or options ''min'' (- EXACT_INTEGER_LIMIT)) (\<lambda>minimum.
     ebind (int_or options ''max'' EXACT_INTEGER_LIMIT) (\<lambda>maximum.
       if - EXACT_INTEGER_LIMIT \<le> minimum \<and> minimum \<le> maximum \<and> maximum \<le> EXACT_INTEGER_LIMIT
       then Inr (minimum, maximum) else Inl FieldDefinitionError))"

definition definition_from :: "string \<Rightarrow> string \<Rightarrow> (string, string) pydict \<Rightarrow> field_definition result" where
  "definition_from name kind options =
     (let absent = (case map_of options ''absent'' of None \<Rightarrow> ''refused'' | Some a \<Rightarrow> a) in
      if absent \<noteq> ''refused'' \<and> absent \<noteq> ''allowed'' then Inl FieldDefinitionError
      else ebind (if kind = KIND_FIXED then ebind (parse_scale options) (\<lambda>f. Inr (Some f)) else Inr None) (\<lambda>fixed.
      ebind (parse_range options) (\<lambda>(minimum, maximum).
      Inr \<lparr>fd_name = name, fd_kind = kind, fd_scale = map_option fst fixed,
        fd_rounding = map_option snd fixed,
        fd_unit = (if kind = KIND_FIXED then map_of options ''unit'' else None),
        fd_minimum = minimum, fd_maximum = maximum, fd_absent_allowed = (absent = ''allowed'')\<rparr>)))"

definition parse_definition :: "string \<Rightarrow> string \<Rightarrow> field_definition result" where
  "parse_definition name text =
     (if \<not> field_name name then Inl FieldDefinitionError
      else if name \<in> set ENGINE_COUNTERS then Inl FieldDefinitionError
      else case words text of
          [] \<Rightarrow> Inl FieldDefinitionError
        | kind # ws \<Rightarrow> (case kind_options kind of
              None \<Rightarrow> Inl FieldDefinitionError
            | Some allowed_options \<Rightarrow>
              ebind (parse_options allowed_options ws []) (definition_from name kind)))"

definition definitions_of :: "(string, string) pydict \<Rightarrow> (string, field_definition) pydict result" where
  "definitions_of meta =
     emap (\<lambda>kv. ebind (parse_definition (drop 6 (fst kv)) (snd kv)) (\<lambda>d. Inr (drop 6 (fst kv), d)))
       (filter (\<lambda>kv. startswith (fst kv) ''field.'') meta)"

subsection \<open>Exact decimals\<close>

definition is_exp_mark :: "char \<Rightarrow> bool" where
  "is_exp_mark c = (c = CHR ''e'' \<or> c = CHR ''E'')"

definition mantissa_of :: "string \<Rightarrow> string" where
  "mantissa_of text = takeWhile (\<lambda>c. \<not> is_exp_mark c) text"

definition exponent_of :: "string \<Rightarrow> string option" where
  "exponent_of text = (case dropWhile (\<lambda>c. \<not> is_exp_mark c) text of [] \<Rightarrow> None | _ # e \<Rightarrow> Some e)"

definition int_part :: "string \<Rightarrow> string" where
  "int_part m = takeWhile (\<lambda>c. c \<noteq> CHR ''.'') (unsigned m)"

definition frac_part :: "string \<Rightarrow> string" where
  "frac_part m = drop 1 (dropWhile (\<lambda>c. c \<noteq> CHR ''.'') (unsigned m))"

definition decimal_text :: "string \<Rightarrow> bool" where
  "decimal_text text =
     (let m = mantissa_of text in
      (if CHR ''.'' \<in> set (unsigned m)
       then (all_digits (int_part m) \<and> list_all is_digit (frac_part m)) \<or> (int_part m = [] \<and> all_digits (frac_part m))
       else all_digits (unsigned m)) \<and>
      (case exponent_of text of None \<Rightarrow> True | Some e \<Rightarrow> int_text e))"

definition fraction_of :: "string \<Rightarrow> rat" where
  "fraction_of text =
     (let m = mantissa_of text;
          e = (case exponent_of text of None \<Rightarrow> 0 | Some t \<Rightarrow> int_of_text t) - int (length (frac_part m));
          n = rat_of_nat (digits_nat (int_part m @ frac_part m)) in
      (if negative m then - 1 else 1) * n * (if 0 \<le> e then 10 ^ nat e else 1 / 10 ^ nat (- e)))"

definition decimal_fraction :: "string \<Rightarrow> rat option" where
  "decimal_fraction text =
     (if \<not> decimal_text text then None
      else let digits = dropWhile (\<lambda>c. c = CHR ''0'') (filter is_digit (mantissa_of text)) in
        if length digits > MAX_DECIMAL_DIGITS \<or>
           (case exponent_of text of None \<Rightarrow> False | Some e \<Rightarrow> \<bar>int_of_text e\<bar> > MAX_DECIMAL_EXPONENT)
        then None
        else Some (fraction_of text))"

definition is_integral :: "rat \<Rightarrow> bool" where
  "is_integral q = (of_int \<lfloor>q\<rfloor> = q)"

subsection \<open>The shared conversion\<close>

text \<open>\<open>_scaled\<close>: the refusal, or the canonical integer.\<close>

definition scaled_value :: "field_definition \<Rightarrow> int \<Rightarrow> rat \<Rightarrow> string + int" where
  "scaled_value d scale q =
     (let scaled = q * of_int scale in
      if fd_rounding d \<noteq> Some ROUNDING_FLOOR \<and> fd_rounding d \<noteq> Some ROUNDING_CEILING \<and> \<not> is_integral scaled
      then Inl REFUSAL_OFF_GRID
      else let canonical = (if fd_rounding d = Some ROUNDING_FLOOR then \<lfloor>scaled\<rfloor>
                            else if fd_rounding d = Some ROUNDING_CEILING then \<lceil>scaled\<rceil> else \<lfloor>scaled\<rfloor>) in
        if fd_minimum d \<le> canonical \<and> canonical \<le> fd_maximum d then Inr canonical
        else Inl REFUSAL_OUT_OF_RANGE)"

datatype raw_value = RawValue pyval | RawFraction rat | RawDecimal bool string

text \<open>The exact number of a source value that is neither absent nor boolean.\<close>

fun exact_value :: "string \<Rightarrow> raw_value \<Rightarrow> string + rat" where
  "exact_value kind (RawValue (PFloat (FFin q))) =
     (if is_integral q then Inr q
      else Inl (if kind = KIND_FIXED then REFUSAL_BINARY_FLOAT else REFUSAL_FRACTIONAL))"
| "exact_value kind (RawValue (PFloat _)) = Inl REFUSAL_OUT_OF_RANGE"
| "exact_value kind (RawValue (PInt i)) = Inr (of_int i)"
| "exact_value kind (RawFraction q) = Inr q"
| "exact_value kind (RawValue (PStr s)) =
     (case decimal_fraction s of None \<Rightarrow> Inl REFUSAL_UNPARSEABLE_STRING | Some q \<Rightarrow> Inr q)"
| "exact_value kind (RawDecimal is_finite text) =
     (if \<not> is_finite then Inl REFUSAL_OUT_OF_RANGE
      else case decimal_fraction text of None \<Rightarrow> Inl REFUSAL_UNPARSEABLE_STRING | Some q \<Rightarrow> Inr q)"
| "exact_value kind (RawValue _) = Inl REFUSAL_WRONG_TYPE"

definition refuse :: "field_definition \<Rightarrow> string \<Rightarrow> 'a result" where
  "refuse d reason = Inl (CanonicalRefusal (fd_name d) reason)"

definition lift_refusal :: "field_definition \<Rightarrow> string + 'a \<Rightarrow> 'a result" where
  "lift_refusal d r = (case r of Inl reason \<Rightarrow> refuse d reason | Inr x \<Rightarrow> Inr x)"

text \<open>Reading \<open>definition.scale\<close> of a definition without one makes the multiplication raise TypeError.\<close>

definition canonical_number :: "field_definition \<Rightarrow> raw_value \<Rightarrow> pyval result" where
  "canonical_number d raw =
     ebind (lift_refusal d (exact_value (fd_kind d) raw)) (\<lambda>q.
       if fd_kind d = KIND_FIXED then
         (case fd_scale d of None \<Rightarrow> Inl TypeError
          | Some scale \<Rightarrow> ebind (lift_refusal d (scaled_value d scale q)) (\<lambda>n. Inr (PInt n)))
       else if \<not> is_integral q then refuse d REFUSAL_FRACTIONAL
       else if \<not> (fd_minimum d \<le> \<lfloor>q\<rfloor> \<and> \<lfloor>q\<rfloor> \<le> fd_maximum d) then refuse d REFUSAL_OUT_OF_RANGE
       else Inr (PInt \<lfloor>q\<rfloor>))"

definition canonical_value :: "field_definition \<Rightarrow> raw_value \<Rightarrow> pyval result" where
  "canonical_value d raw =
     (if raw = RawValue PNone then (if fd_absent_allowed d then Inr PNone else refuse d REFUSAL_MISSING)
      else if fd_kind d = KIND_BOOL then
        (case raw of RawValue (PBool b) \<Rightarrow> Inr (PBool b) | _ \<Rightarrow> refuse d REFUSAL_WRONG_TYPE)
      else if fd_kind d = KIND_CATEGORY then
        (case raw of RawValue (PStr s) \<Rightarrow> Inr (PStr s) | _ \<Rightarrow> refuse d REFUSAL_WRONG_TYPE)
      else canonical_number d raw)"

text \<open>\<open>accept_canonical\<close>: the refusal, or the value that passes.\<close>

definition accept_canonical :: "field_definition \<Rightarrow> pyval \<Rightarrow> string + pyval" where
  "accept_canonical d v =
     (if v = PNone then (if fd_absent_allowed d then Inr PNone else Inl REFUSAL_MISSING)
      else if fd_kind d = KIND_BOOL then
        (case v of PBool b \<Rightarrow> Inr v | _ \<Rightarrow> Inl REFUSAL_WRONG_TYPE)
      else if fd_kind d = KIND_CATEGORY then
        (case v of PStr s \<Rightarrow> Inr v | _ \<Rightarrow> Inl REFUSAL_WRONG_TYPE)
      else ebind
        (case v of
            PInt i \<Rightarrow> Inr i
          | PFloat (FFin q) \<Rightarrow> (if is_integral q then Inr \<lfloor>q\<rfloor> else Inl REFUSAL_FRACTIONAL)
          | PFloat _ \<Rightarrow> Inl REFUSAL_OUT_OF_RANGE
          | _ \<Rightarrow> Inl REFUSAL_WRONG_TYPE)
        (\<lambda>i. if fd_minimum d \<le> i \<and> i \<le> fd_maximum d then Inr (PInt i) else Inl REFUSAL_OUT_OF_RANGE))"

subsection \<open>Decisions survive the conversion\<close>

lemma lift_refusal_Inr [simp]: "lift_refusal d r = Inr x \<longleftrightarrow> r = Inr x"
  by (auto simp: lift_refusal_def refuse_def split: sum.splits)

lemma scaled_value_Inr:
  assumes "scaled_value d scale q = Inr n"
  shows "fd_minimum d \<le> n \<and> n \<le> fd_maximum d \<and>
    (fd_rounding d = Some ROUNDING_FLOOR \<and> n = \<lfloor>q * of_int scale\<rfloor> \<or>
     fd_rounding d = Some ROUNDING_CEILING \<and> n = \<lceil>q * of_int scale\<rceil> \<or>
     of_int n = q * of_int scale)"
  using assms by (auto simp: scaled_value_def Let_def is_integral_def split: if_splits)

lemma canonical_number_fixed:
  assumes "canonical_number d raw = Inr v" "fd_kind d = KIND_FIXED" "fd_scale d = Some scale"
  shows "\<exists>q n. exact_value (fd_kind d) raw = Inr q \<and> scaled_value d scale q = Inr n \<and> v = PInt n"
  using assms by (auto simp: canonical_number_def ebind_eq_Inr)

definition carries :: "string option \<Rightarrow> ordop \<Rightarrow> bool" where
  "carries rounding op = (case op of
     OGtE \<Rightarrow> rounding \<noteq> Some ROUNDING_CEILING | OLt \<Rightarrow> rounding \<noteq> Some ROUNDING_CEILING
   | OGt \<Rightarrow> rounding \<noteq> Some ROUNDING_FLOOR | OLtE \<Rightarrow> rounding \<noteq> Some ROUNDING_FLOOR)"

text \<open>
  The conversion lemma of a fixed field: a rounding mode carries its operators exactly. Comparing
  the canonical integer with a lowered threshold k decides as comparing the exact source value with
  k divided by the scale, for every order operator the rounding mode allows.
\<close>

theorem canonical_order_is_source_order:
  assumes "fd_kind d = KIND_FIXED" "fd_scale d = Some scale" "1 \<le> scale"
    and "canonical_value d raw = Inr (PInt n)" "exact_value KIND_FIXED raw = Inr q"
    and "carries (fd_rounding d) op"
  shows "py_order op (PInt n) (PInt k)
    = Some (ord_of op (q < of_int k / of_int scale) (of_int k / of_int scale < q))"
proof -
  have "raw \<noteq> RawValue PNone" using assms(5) by auto
  then have "canonical_number d raw = Inr (PInt n)"
    using assms by (simp add: canonical_value_def KIND_FIXED_def KIND_BOOL_def KIND_CATEGORY_def)
  then have n: "scaled_value d scale q = Inr n" using canonical_number_fixed assms by fastforce
  have s: "(0::rat) < of_int scale" using assms(3) by simp
  have lt: "q < of_int k / of_int scale \<longleftrightarrow> q * of_int scale < of_int k"
    and gt: "of_int k / of_int scale < q \<longleftrightarrow> of_int k < q * of_int scale"
    using s by (simp_all add: pos_less_divide_eq pos_divide_less_eq)
  have fl: "ROUNDING_FLOOR \<noteq> ROUNDING_CEILING" by (simp add: ROUNDING_FLOOR_def ROUNDING_CEILING_def)
  from scaled_value_Inr [OF n] consider
      "fd_rounding d = Some ROUNDING_FLOOR" "n = \<lfloor>q * of_int scale\<rfloor>"
    | "fd_rounding d = Some ROUNDING_CEILING" "n = \<lceil>q * of_int scale\<rceil>"
    | "of_int n = q * of_int scale" by blast
  then show ?thesis
  proof cases
    case 1
    then have "n < k \<longleftrightarrow> q * of_int scale < of_int k" by (simp add: floor_less_iff)
    then show ?thesis using assms(6) 1(1) fl lt by (cases op) (simp_all add: carries_def)
  next
    case 2
    then have "k < n \<longleftrightarrow> of_int k < q * of_int scale" by (simp add: less_ceiling_iff)
    then show ?thesis using assms(6) 2(1) fl gt by (cases op) (simp_all add: carries_def)
  next
    case 3
    then have "n < k \<longleftrightarrow> q * of_int scale < of_int k" "k < n \<longleftrightarrow> of_int k < q * of_int scale"
      by (metis of_int_less_iff)+
    then show ?thesis using lt gt by (cases op) simp_all
  qed
qed

definition demo_fixed :: field_definition where
  "demo_fixed = \<lparr>fd_name = ''error_rate'', fd_kind = KIND_FIXED, fd_scale = Some 100,
     fd_rounding = Some ROUNDING_FLOOR, fd_unit = None, fd_minimum = 0, fd_maximum = 100, fd_absent_allowed = False\<rparr>"

theorem canonical_order_is_source_order_witness:
  "canonical_value demo_fixed (RawValue (PStr ''0.857'')) = Inr (PInt 85) \<and>
   py_order OGtE (PInt 85) (PInt 86)
     = Some (ord_of OGtE ((857 :: rat) / 1000 < of_int 86 / of_int 100) (of_int 86 / of_int 100 < (857 :: rat) / 1000))"
proof -
  have q: "exact_value KIND_FIXED (RawValue (PStr ''0.857'')) = Inr (857 / 1000)" by code_simp
  have v: "canonical_value demo_fixed (RawValue (PStr ''0.857'')) = Inr (PInt 85)" by code_simp
  show ?thesis
    using v canonical_order_is_source_order [OF _ _ _ v q, of 100 OGtE 86]
    by (simp add: demo_fixed_def carries_def ROUNDING_FLOOR_def ROUNDING_CEILING_def)
qed

text \<open>
  Adapter and boundary agree: whatever the conversion returns for a source value, the boundary check
  on canonical values passes unchanged.
\<close>

theorem canonical_values_are_accepted:
  assumes "canonical_value d raw = Inr v"
  shows "accept_canonical d v = Inr v"
proof (cases "raw = RawValue PNone \<or> fd_kind d = KIND_BOOL \<or> fd_kind d = KIND_CATEGORY")
  case True
  then show ?thesis
    using assms
    by (auto simp: canonical_value_def accept_canonical_def refuse_def split: if_splits raw_value.splits pyval.splits)
next
  case False
  then have "canonical_number d raw = Inr v" using assms by (simp add: canonical_value_def)
  then obtain n where "v = PInt n" "fd_minimum d \<le> n" "n \<le> fd_maximum d"
    by (auto simp: canonical_number_def ebind_eq_Inr refuse_def dest: scaled_value_Inr
        split: if_splits option.splits)
  then show ?thesis using False by (simp add: accept_canonical_def)
qed

theorem canonical_values_are_accepted_witness: "accept_canonical demo_fixed (PInt 85) = Inr (PInt 85)"
proof (rule canonical_values_are_accepted)
  show "canonical_value demo_fixed (RawValue (PStr ''0.857'')) = Inr (PInt 85)" by code_simp
qed

subsection \<open>A definition and its canonical text\<close>

definition plain_word :: "string \<Rightarrow> bool" where
  "plain_word w \<longleftrightarrow> w \<noteq> [] \<and> list_all (\<lambda>c. \<not> py_isspace c) w"

lemma split_ws_word:
  "list_all (\<lambda>c. \<not> py_isspace c) w \<Longrightarrow> split_ws cur (w @ s) = split_ws (cur @ w) s"
  by (induction w arbitrary: cur) auto

lemma words_join: "list_all plain_word ws \<Longrightarrow> words (join_words ws) = ws"
proof (induction ws rule: join_words.induct)
  case (2 w)
  then show ?case using split_ws_word [of w "[]" "[]"] by (simp add: words_def plain_word_def)
next
  case (3 w v ws)
  have sp: "py_isspace (CHR '' '')" by (simp add: py_isspace_def)
  have "words (join_words (w # v # ws)) = split_ws w (CHR '' '' # join_words (v # ws))"
    using 3 split_ws_word [of w "[]"] by (simp add: words_def plain_word_def)
  also have "\<dots> = w # words (join_words (v # ws))" using 3 sp by (simp add: words_def plain_word_def)
  finally show ?case using 3 by simp
qed (simp add: words_def)

lemma split_ws_plain: "list_all (\<lambda>c. \<not> py_isspace c) cur \<Longrightarrow> list_all plain_word (split_ws cur s)"
proof (induction s arbitrary: cur)
  case (Cons c s)
  then show ?case by (auto simp: plain_word_def)
qed (simp add: plain_word_def)

lemma words_plain: "list_all plain_word (words text)"
  by (simp add: words_def split_ws_plain)

lemma int_str_plain: "list_all (\<lambda>c. \<not> py_isspace c) (int_str i)"
  using int_str_chars [of _ i] by (fastforce simp: list_all_iff is_digit_def py_isspace_def Let_def)

lemma plain_option: "plain_word (k @ v) \<longleftrightarrow> k @ v \<noteq> [] \<and> list_all (\<lambda>c. \<not> py_isspace c) k \<and>
    list_all (\<lambda>c. \<not> py_isspace c) v"
  by (auto simp: plain_word_def)

lemma parse_options_values:
  "parse_options al ws options = Inr options' \<Longrightarrow> list_all plain_word ws \<Longrightarrow>
   (\<forall>(k, v) \<in> set options. plain_word v) \<Longrightarrow> (\<forall>(k, v) \<in> set options'. plain_word v)"
proof (induction al ws options rule: parse_options.induct)
  case (2 al word ws options)
  obtain k v where kv: "split_once CHR ''='' word = (k, v)" by (cases "split_once CHR ''='' word")
  have p: "parse_options al ws (dict_set options k v) = Inr options'" and nw: "map_of options k = None"
    and v: "v \<noteq> []"
    using 2(2) kv by (auto split: if_splits)
  have "set v \<subseteq> set word" using kv by (auto simp: split_once_def dest!: in_set_dropD set_dropWhileD)
  then have "plain_word v" using 2(3) v by (auto simp: plain_word_def list_all_iff)
  moreover have "k \<notin> fst ` set options" using nw by (simp add: map_of_eq_None_iff)
  ultimately have "\<forall>(k, v) \<in> set (dict_set options k v). plain_word v"
    using 2(4) by (auto simp: map_fst_dict_set_new)
  then show ?case using 2(1) [OF kv [symmetric] refl] p 2(2,3) kv by (auto split: if_splits)
qed simp

lemma split_once_eq: "CHR ''='' \<notin> set k \<Longrightarrow> split_once CHR ''='' (k @ CHR ''='' # v) = (k, v)"
proof -
  assume "CHR ''='' \<notin> set k"
  then have "\<And>x. x \<in> set k \<Longrightarrow> x \<noteq> CHR ''=''" by blast
  then show ?thesis by (simp add: split_once_def takeWhile_append2 dropWhile_append2)
qed

lemma parse_options_step:
  "CHR ''='' \<notin> set k \<Longrightarrow> v \<noteq> [] \<Longrightarrow> k \<in> set al \<Longrightarrow> map_of options k = None \<Longrightarrow>
   parse_options al ((k @ CHR ''='' # v) # ws) options = parse_options al ws (dict_set options k v)"
  by (simp add: split_once_eq)

text \<open>What holds of every definition the parser returns.\<close>

definition definition_wf :: "field_definition \<Rightarrow> bool" where
  "definition_wf d \<longleftrightarrow> field_name (fd_name d) \<and> fd_name d \<notin> set ENGINE_COUNTERS \<and>
     kind_options (fd_kind d) \<noteq> None \<and>
     (if fd_kind d = KIND_FIXED
      then (\<exists>s r. fd_scale d = Some s \<and> fd_rounding d = Some r \<and> 1 \<le> s \<and> s \<le> MAX_SCALE \<and> rounding_operators r \<noteq> None) \<and>
        (case fd_unit d of None \<Rightarrow> True | Some u \<Rightarrow> plain_word u)
      else fd_scale d = None \<and> fd_rounding d = None \<and> fd_unit d = None) \<and>
     - EXACT_INTEGER_LIMIT \<le> fd_minimum d \<and> fd_minimum d \<le> fd_maximum d \<and> fd_maximum d \<le> EXACT_INTEGER_LIMIT \<and>
     (fd_kind d \<notin> {KIND_INT, KIND_FIXED} \<longrightarrow> fd_minimum d = - EXACT_INTEGER_LIMIT \<and> fd_maximum d = EXACT_INTEGER_LIMIT)"

lemma parse_options_keys:
  "parse_options al ws options = Inr options' \<Longrightarrow> fst ` set options \<subseteq> set al \<Longrightarrow> fst ` set options' \<subseteq> set al"
proof (induction al ws options rule: parse_options.induct)
  case (2 al word ws options)
  obtain k v where kv: "split_once CHR ''='' word = (k, v)" by (cases "split_once CHR ''='' word")
  then have "k \<in> set al" using 2(2) by (auto split: if_splits)
  then show ?case using 2(1) [OF kv [symmetric] refl] 2(2,3) kv by (auto split: if_splits)
qed simp

lemmas field_kinds = KIND_INT_def KIND_FIXED_def KIND_BOOL_def KIND_CATEGORY_def

lemma parse_scale_Inr:
  "parse_scale options = Inr (scale, r) \<Longrightarrow> 1 \<le> scale \<and> scale \<le> MAX_SCALE \<and> rounding_operators r \<noteq> None"
  by (auto simp: parse_scale_def ebind_eq_Inr split: option.splits if_splits)

lemma parse_range_Inr:
  assumes "parse_range options = Inr (lo, hi)"
  shows "- EXACT_INTEGER_LIMIT \<le> lo \<and> lo \<le> hi \<and> hi \<le> EXACT_INTEGER_LIMIT"
    "map_of options ''min'' = None \<Longrightarrow> map_of options ''max'' = None \<Longrightarrow>
     lo = - EXACT_INTEGER_LIMIT \<and> hi = EXACT_INTEGER_LIMIT"
  using assms by (auto simp: parse_range_def int_or_def ebind_eq_Inr split: option.splits if_splits)

lemma definition_from_Inr:
  assumes "definition_from name kind options = Inr d"
  shows "fd_name d = name \<and> fd_kind d = kind \<and> parse_range options = Inr (fd_minimum d, fd_maximum d) \<and>
    (if kind = KIND_FIXED
     then \<exists>s r. parse_scale options = Inr (s, r) \<and> fd_scale d = Some s \<and> fd_rounding d = Some r \<and>
       fd_unit d = map_of options ''unit''
     else fd_scale d = None \<and> fd_rounding d = None \<and> fd_unit d = None)"
  using assms by (auto simp: definition_from_def ebind_eq_Inr Let_def split: if_splits)

lemma parse_definition_parts:
  assumes "parse_definition name text = Inr d"
  shows "\<exists>kind ws al options. words text = kind # ws \<and> kind_options kind = Some al \<and>
    parse_options al ws [] = Inr options \<and> definition_from name kind options = Inr d \<and>
    field_name name \<and> name \<notin> set ENGINE_COUNTERS"
  using assms by (auto simp: parse_definition_def ebind_eq_Inr split: if_splits list.splits option.splits)

lemma parse_definition_wf:
  assumes "parse_definition name text = Inr d"
  shows "definition_wf d"
proof -
  obtain kind ws al options where w: "words text = kind # ws" "kind_options kind = Some al"
    and o: "parse_options al ws [] = Inr options" and f: "definition_from name kind options = Inr d"
    and n: "field_name name" "name \<notin> set ENGINE_COUNTERS"
    using parse_definition_parts [OF assms] by blast
  have pl: "\<forall>(k, v) \<in> set options. plain_word v"
    using parse_options_values [OF o] words_plain [of "text"] w(1) by simp
  have ks: "fst ` set options \<subseteq> set al" using parse_options_keys [OF o] by simp
  have u: "plain_word v" if "map_of options ''unit'' = Some v" for v using pl map_of_SomeD [OF that] by auto
  have nr: "map_of options ''min'' = None \<and> map_of options ''max'' = None" if "kind \<notin> {KIND_INT, KIND_FIXED}"
    using ks w(2) that by (auto simp: kind_options_def map_of_eq_None_iff split: if_splits)
  have r: "parse_range options = Inr (fd_minimum d, fd_maximum d)" using definition_from_Inr [OF f] by simp
  show ?thesis
    unfolding definition_wf_def
    using definition_from_Inr [OF f] parse_range_Inr [OF r] parse_scale_Inr w(2) n nr u
    by (auto split: option.splits if_splits)
qed

lemma split_option_words:
  "split_once CHR ''='' (''scale='' @ v) = (''scale'', v)"
  "split_once CHR ''='' (''rounding='' @ v) = (''rounding'', v)"
  "split_once CHR ''='' (''unit='' @ v) = (''unit'', v)"
  "split_once CHR ''='' (''min='' @ v) = (''min'', v)"
  "split_once CHR ''='' (''max='' @ v) = (''max'', v)"
  "split_once CHR ''='' (''absent='' @ v) = (''absent'', v)"
  by (simp_all add: split_once_def)

definition absent_word :: "field_definition \<Rightarrow> string" where
  "absent_word d = (if fd_absent_allowed d then ''allowed'' else ''refused'')"

definition range_options :: "field_definition \<Rightarrow> (string, string) pydict" where
  "range_options d = [(''min'', int_str (fd_minimum d)), (''max'', int_str (fd_maximum d)), (''absent'', absent_word d)]"

lemma canonical_words_absent:
  "(if fd_absent_allowed d then ''absent=allowed'' else ''absent=refused'') = ''absent='' @ absent_word d"
  by (simp add: absent_word_def)

lemma absent_word_plain [simp]: "absent_word d \<noteq> []" "list_all (\<lambda>c. \<not> py_isspace c) (absent_word d)"
  by (simp_all add: absent_word_def py_isspace_def)

lemma option_letters [simp]:
  "\<not> py_isspace (CHR ''a'')"
  "\<not> py_isspace (CHR ''b'')"
  "\<not> py_isspace (CHR ''c'')"
  "\<not> py_isspace (CHR ''d'')"
  "\<not> py_isspace (CHR ''e'')"
  "\<not> py_isspace (CHR ''f'')"
  "\<not> py_isspace (CHR ''g'')"
  "\<not> py_isspace (CHR ''i'')"
  "\<not> py_isspace (CHR ''l'')"
  "\<not> py_isspace (CHR ''m'')"
  "\<not> py_isspace (CHR ''n'')"
  "\<not> py_isspace (CHR ''o'')"
  "\<not> py_isspace (CHR ''r'')"
  "\<not> py_isspace (CHR ''s'')"
  "\<not> py_isspace (CHR ''t'')"
  "\<not> py_isspace (CHR ''u'')"
  "\<not> py_isspace (CHR ''w'')"
  "\<not> py_isspace (CHR ''x'')"
  "\<not> py_isspace (CHR ''y'')"
  "\<not> py_isspace (CHR ''='')"
  by (simp_all add: py_isspace_def)

lemma canonical_words_plain:
  assumes "definition_wf d"
  shows "list_all plain_word (canonical_words d)"
proof -
  have k: "plain_word (fd_kind d)"
    using assms by (auto simp: definition_wf_def kind_options_def plain_word_def field_kinds split: if_splits)
  have r: "list_all (\<lambda>c. \<not> py_isspace c) r" if "rounding_operators r \<noteq> None" for r
    using that by (auto simp: rounding_operators_def ROUNDING_FLOOR_def ROUNDING_CEILING_def ROUNDING_EXACT_def
        split: if_splits)
  show ?thesis
    using assms k r int_str_plain
    by (auto simp: canonical_words_def definition_wf_def or_none_def plain_word_def canonical_words_absent
        split: option.splits if_splits)
qed

lemma parse_range_text:
  assumes "definition_wf d" "map_of options ''min'' = Some (int_str (fd_minimum d))"
    "map_of options ''max'' = Some (int_str (fd_maximum d))"
  shows "parse_range options = Inr (fd_minimum d, fd_maximum d)"
  using assms by (auto simp: parse_range_def int_or_def integer_option_def definition_wf_def)

lemma parse_range_default:
  assumes "definition_wf d" "fd_kind d \<notin> {KIND_INT, KIND_FIXED}" "map_of options ''min'' = None" "map_of options ''max'' = None"
  shows "parse_range options = Inr (fd_minimum d, fd_maximum d)"
  using assms by (auto simp: parse_range_def int_or_def definition_wf_def EXACT_INTEGER_LIMIT_def)

lemma definition_from_text:
  assumes wf: "definition_wf d" and ab: "map_of options ''absent'' = Some (absent_word d)"
    and rng: "parse_range options = Inr (fd_minimum d, fd_maximum d)"
    and fx: "fd_kind d = KIND_FIXED \<Longrightarrow> map_of options ''scale'' = map_option int_str (fd_scale d) \<and>
      map_of options ''rounding'' = fd_rounding d \<and> map_of options ''unit'' = fd_unit d"
  shows "definition_from (fd_name d) (fd_kind d) options = Inr d"
proof (cases "fd_kind d = KIND_FIXED")
  case True
  then obtain s r where s: "fd_scale d = Some s" "fd_rounding d = Some r" "1 \<le> s" "s \<le> MAX_SCALE"
    "rounding_operators r \<noteq> None" using wf by (auto simp: definition_wf_def)
  then have "parse_scale options = Inr (s, r)"
    using fx [OF True] by (simp add: parse_scale_def integer_option_def)
  then show ?thesis
    using True ab rng fx [OF True] s by (auto simp: definition_from_def absent_word_def)
next
  case False
  then show ?thesis
    using wf ab rng by (auto simp: definition_from_def absent_word_def definition_wf_def)
qed

lemma parse_words_fixed:
  assumes "definition_wf d" "fd_kind d = KIND_FIXED" "fd_scale d = Some s" "fd_rounding d = Some r"
  shows "parse_options [''scale'', ''rounding'', ''unit'', ''min'', ''max'', ''absent''] (tl (canonical_words d)) []
    = Inr ([(''scale'', int_str s), (''rounding'', r)] @
        (case fd_unit d of None \<Rightarrow> [] | Some u \<Rightarrow> [(''unit'', u)]) @ range_options d)"
proof -
  have "r \<noteq> []" using assms
    by (auto simp: definition_wf_def rounding_operators_def ROUNDING_FLOOR_def ROUNDING_CEILING_def ROUNDING_EXACT_def)
  moreover have "u \<noteq> []" if "fd_unit d = Some u" for u
    using assms that by (auto simp: definition_wf_def plain_word_def)
  ultimately show ?thesis
    using assms(2,3,4)
    by (cases "fd_unit d")
      (simp_all add: canonical_words_def canonical_words_absent range_options_def or_none_def split_once_def)
qed

lemma parse_words_int:
  assumes "fd_kind d = KIND_INT"
  shows "parse_options [''min'', ''max'', ''absent''] (tl (canonical_words d)) [] = Inr (range_options d)"
  using assms
  by (simp add: canonical_words_def canonical_words_absent range_options_def split_once_def field_kinds)

lemma parse_words_plain:
  assumes "fd_kind d = KIND_BOOL \<or> fd_kind d = KIND_CATEGORY"
  shows "parse_options [''absent''] (tl (canonical_words d)) [] = Inr [(''absent'', absent_word d)]"
  using assms by (auto simp: canonical_words_def canonical_words_absent split_once_def field_kinds)

lemma kind_options_cases:
  "kind_options k = Some al \<Longrightarrow> k = KIND_INT \<or> k = KIND_FIXED \<or> k = KIND_BOOL \<or> k = KIND_CATEGORY"
  by (auto simp: kind_options_def split: if_splits)

text \<open>
  The printed form of a definition is canonical: printing a parsed definition and parsing the text
  again gives the same definition, so two definitions are equal exactly when their texts are.
\<close>

theorem parse_canonical_text:
  assumes "parse_definition name text = Inr d"
  shows "parse_definition name (canonical_text d) = Inr d"
proof -
  have wf: "definition_wf d" by (rule parse_definition_wf [OF assms])
  have name: "fd_name d = name" using parse_definition_parts [OF assms] definition_from_Inr by blast
  obtain al where al: "kind_options (fd_kind d) = Some al" using wf by (auto simp: definition_wf_def)
  have w: "words (canonical_text d) = fd_kind d # tl (canonical_words d)"
    using words_join [OF canonical_words_plain [OF wf]] by (simp add: canonical_text_def canonical_words_def)
  have "\<exists>options. parse_options al (tl (canonical_words d)) [] = Inr options \<and>
      definition_from (fd_name d) (fd_kind d) options = Inr d"
    using kind_options_cases [OF al]
  proof (elim disjE)
    assume k: "fd_kind d = KIND_FIXED"
    then obtain s r where s: "fd_scale d = Some s" "fd_rounding d = Some r" using wf by (auto simp: definition_wf_def)
    let ?o = "[(''scale'', int_str s), (''rounding'', r)] @
        (case fd_unit d of None \<Rightarrow> [] | Some u \<Rightarrow> [(''unit'', u)]) @ range_options d"
    have "definition_from (fd_name d) (fd_kind d) ?o = Inr d"
      by (rule definition_from_text [OF wf _ parse_range_text [OF wf]])
        (use s in \<open>auto simp: range_options_def split: option.splits\<close>)
    moreover have "al = [''scale'', ''rounding'', ''unit'', ''min'', ''max'', ''absent'']"
      using al k by (simp add: kind_options_def field_kinds)
    ultimately show ?thesis using parse_words_fixed [OF wf k s] by blast
  next
    assume k: "fd_kind d = KIND_INT"
    have "definition_from (fd_name d) (fd_kind d) (range_options d) = Inr d"
      by (rule definition_from_text [OF wf _ parse_range_text [OF wf]])
        (use k in \<open>auto simp: range_options_def field_kinds\<close>)
    moreover have "al = [''min'', ''max'', ''absent'']" using al k by (simp add: kind_options_def field_kinds)
    ultimately show ?thesis using parse_words_int [OF k] by blast
  next
    assume k: "fd_kind d = KIND_BOOL"
    have "definition_from (fd_name d) (fd_kind d) [(''absent'', absent_word d)] = Inr d"
      by (rule definition_from_text [OF wf _ parse_range_default [OF wf]]) (use k in \<open>auto simp: field_kinds\<close>)
    moreover have "al = [''absent'']" using al k by (simp add: kind_options_def field_kinds)
    ultimately show ?thesis using parse_words_plain k by blast
  next
    assume k: "fd_kind d = KIND_CATEGORY"
    have "definition_from (fd_name d) (fd_kind d) [(''absent'', absent_word d)] = Inr d"
      by (rule definition_from_text [OF wf _ parse_range_default [OF wf]]) (use k in \<open>auto simp: field_kinds\<close>)
    moreover have "al = [''absent'']" using al k by (simp add: kind_options_def field_kinds)
    ultimately show ?thesis using parse_words_plain k by blast
  qed
  then show ?thesis
    using al w wf name by (auto simp: parse_definition_def definition_wf_def)
qed

theorem parse_canonical_text_witness:
  "\<exists>d. parse_definition ''error_rate'' ''fixed rounding=floor  max=100 scale=100'' = Inr d \<and>
     parse_definition ''error_rate'' (canonical_text d) = Inr d \<and> fd_scale d = Some 100"
proof -
  have "case parse_definition ''error_rate'' ''fixed rounding=floor  max=100 scale=100'' of
      Inr d \<Rightarrow> fd_scale d = Some 100 | Inl _ \<Rightarrow> False" by code_simp
  then obtain d where "parse_definition ''error_rate'' ''fixed rounding=floor  max=100 scale=100'' = Inr d"
    "fd_scale d = Some 100" by (auto split: sum.splits)
  then show ?thesis using parse_canonical_text by blast
qed

end
