(* ===== verification/FlowGraph.thy ===== *)
theory FlowGraph
  imports Predicates FieldDef
begin

section \<open>The flow graph\<close>

text \<open>
  The graph that \<open>src/prismpath/kernel/parser.py\<close> builds: nodes in document order with their edges
  and annotations, the front matter and the field definitions; and \<open>reachable\<close>, the traversal that
  the analyzer, the Level M classifier and the model checker share. The stack of the traversal is a
  list whose head is the top; the set of seen nodes is the list of them in the order of their visit.
\<close>

type_synonym edge = "string \<times> string"

record flow_node =
  fn_name :: string
  fn_instruction :: string
  fn_edges :: "edge list"
  fn_annotations :: "(string, (string, string option) pydict) pydict"

record flow_graph =
  fg_name :: string
  fg_start :: string
  fg_nodes :: "(string, flow_node) pydict"
  fg_meta :: "(string, string) pydict"
  fg_fields :: "(string, field_definition) pydict"

definition terminal :: "flow_node \<Rightarrow> bool" where
  "terminal node = (length (fn_edges node) = 0)"

function reach_loop :: "(string, flow_node) pydict \<Rightarrow> string list \<Rightarrow> string list \<Rightarrow> string list" where
  "reach_loop nodes seen [] = seen"
| "reach_loop nodes seen (cur # stack) =
     (if cur \<in> set seen then reach_loop nodes seen stack
      else case map_of nodes cur of
          None \<Rightarrow> reach_loop nodes seen stack
        | Some node \<Rightarrow> reach_loop nodes (seen @ [cur]) (rev (map fst (fn_edges node)) @ stack))"
  by pat_completeness auto

lemma reach_measure:
  "cur \<notin> set seen \<Longrightarrow> map_of nodes cur = Some node \<Longrightarrow>
   card (fst ` set nodes - set (seen @ [cur])) < card (fst ` set nodes - set seen)"
proof (rule psubset_card_mono)
  assume "cur \<notin> set seen" "map_of nodes cur = Some node"
  then have "cur \<in> fst ` set nodes - set seen"
    by (metis DiffI domI dom_map_of_conv_image_fst)
  then show "fst ` set nodes - set (seen @ [cur]) \<subset> fst ` set nodes - set seen" by auto
qed simp

termination reach_loop
proof (relation "measures [\<lambda>(nodes, seen, stack). card (fst ` set nodes - set seen), \<lambda>(nodes, seen, stack). length stack]")
  fix nodes :: "(string, flow_node) pydict" and seen cur stack node
  assume "cur \<notin> set seen" "map_of nodes cur = Some node"
  from reach_measure [OF this]
  show "((nodes, seen @ [cur], rev (map fst (fn_edges node)) @ stack), nodes, seen, cur # stack)
      \<in> measures [\<lambda>(nodes, seen, stack). card (fst ` set nodes - set seen), \<lambda>(nodes, seen, stack). length stack]"
    by simp
qed auto

definition reachable :: "flow_graph \<Rightarrow> string list" where
  "reachable graph = reach_loop (fg_nodes graph) [] [fg_start graph]"

text \<open>The declarative reading: a defined start node, and every defined target of a reachable node's edge.\<close>

inductive on_path :: "(string, flow_node) pydict \<Rightarrow> string \<Rightarrow> string \<Rightarrow> bool" for nodes start where
  at_start: "map_of nodes start \<noteq> None \<Longrightarrow> on_path nodes start start"
| along_edge: "on_path nodes start cur \<Longrightarrow> map_of nodes cur = Some node \<Longrightarrow>
    (target, cond) \<in> set (fn_edges node) \<Longrightarrow> map_of nodes target \<noteq> None \<Longrightarrow> on_path nodes start target"

definition seen_closed :: "(string, flow_node) pydict \<Rightarrow> string list \<Rightarrow> string list \<Rightarrow> bool" where
  "seen_closed nodes seen stack \<longleftrightarrow> (\<forall>cur node target cond. cur \<in> set seen \<longrightarrow> map_of nodes cur = Some node \<longrightarrow>
     (target, cond) \<in> set (fn_edges node) \<longrightarrow> map_of nodes target \<noteq> None \<longrightarrow> target \<in> set seen \<union> set stack)"

lemma seen_closed_visit:
  assumes "seen_closed nodes seen (cur # stack)" "map_of nodes cur = Some node"
  shows "seen_closed nodes (seen @ [cur]) (rev (map fst (fn_edges node)) @ stack)"
  unfolding seen_closed_def
proof (intro allI impI)
  fix c n t q
  assume c: "c \<in> set (seen @ [cur])" "map_of nodes c = Some n" "(t, q) \<in> set (fn_edges n)" "map_of nodes t \<noteq> None"
  show "t \<in> set (seen @ [cur]) \<union> set (rev (map fst (fn_edges node)) @ stack)"
  proof (cases "c = cur")
    case True
    then have "t \<in> fst ` set (fn_edges node)" using c assms(2) by force
    then show ?thesis by simp
  next
    case False
    then have "t \<in> set seen \<union> set (cur # stack)" using c assms(1) unfolding seen_closed_def by fastforce
    then show ?thesis by auto
  qed
qed

lemma reach_loop_spec:
  assumes "seen_closed nodes seen stack" "distinct seen"
    and "\<forall>s \<in> set seen. on_path nodes start s"
    and "\<forall>s \<in> set stack. map_of nodes s \<noteq> None \<longrightarrow> on_path nodes start s"
  shows "seen_closed nodes (reach_loop nodes seen stack) [] \<and> distinct (reach_loop nodes seen stack) \<and>
    (\<forall>s \<in> set (reach_loop nodes seen stack). on_path nodes start s) \<and>
    set seen \<subseteq> set (reach_loop nodes seen stack) \<and>
    (\<forall>s \<in> set stack. map_of nodes s \<noteq> None \<longrightarrow> s \<in> set (reach_loop nodes seen stack))"
  using assms
proof (induction nodes seen stack rule: reach_loop.induct)
  case (1 nodes seen)
  then show ?case by simp
next
  case (2 nodes seen cur stack)
  show ?case
  proof (cases "cur \<in> set seen \<or> map_of nodes cur = None")
    case True
    have c: "seen_closed nodes seen stack" unfolding seen_closed_def
    proof (intro allI impI)
      fix c n t q
      assume "c \<in> set seen" "map_of nodes c = Some n" "(t, q) \<in> set (fn_edges n)" "map_of nodes t \<noteq> None"
      then have "t \<in> set seen \<union> set (cur # stack) \<and> map_of nodes t \<noteq> None"
        using 2(4) unfolding seen_closed_def by blast
      then show "t \<in> set seen \<union> set stack" using True by auto
    qed
    have eq: "reach_loop nodes seen (cur # stack) = reach_loop nodes seen stack" using True by (auto split: option.splits)
    show ?thesis
    proof (cases "cur \<in> set seen")
      case t: True
      from 2(1) [OF t c 2(5,6)] 2(7) t show ?thesis unfolding eq by auto
    next
      case f: False
      then have m: "map_of nodes cur = None" using True by simp
      from 2(2) [OF f m c 2(5,6)] 2(7) m show ?thesis unfolding eq by auto
    qed
  next
    case False
    then obtain node where n: "map_of nodes cur = Some node" "cur \<notin> set seen" by auto
    have cur: "on_path nodes start cur" using 2(7) n by simp
    let ?stack = "rev (map fst (fn_edges node)) @ stack"
    have c: "seen_closed nodes (seen @ [cur]) ?stack" by (rule seen_closed_visit [OF 2(4) n(1)])
    have d: "distinct (seen @ [cur])" using 2(5) n(2) by simp
    have o: "\<forall>s \<in> set (seen @ [cur]). on_path nodes start s" using 2(6) cur by simp
    have k: "\<forall>s \<in> set ?stack. map_of nodes s \<noteq> None \<longrightarrow> on_path nodes start s"
    proof (intro ballI impI)
      fix s assume s: "s \<in> set ?stack" "map_of nodes s \<noteq> None"
      show "on_path nodes start s"
      proof (cases "s \<in> set stack")
        case True
        then show ?thesis using 2(7) s(2) by simp
      next
        case False
        then obtain q where "(s, q) \<in> set (fn_edges node)" using s(1) by auto
        then show ?thesis using along_edge [OF cur n(1)] s(2) by blast
      qed
    qed
    have eq: "reach_loop nodes seen (cur # stack) = reach_loop nodes (seen @ [cur]) ?stack" using n by simp
    show ?thesis unfolding eq using 2(3) [OF n(2,1) c d o k] by simp
  qed
qed

text \<open>
  C38. The traversal is exact: it returns, without repetition, the nodes that can be reached from the
  start by edges between defined nodes, and no others; it terminates on every graph, cycles included.
\<close>

theorem reachable_exact:
  "distinct (reachable graph) \<and> (\<forall>n. n \<in> set (reachable graph) \<longleftrightarrow> on_path (fg_nodes graph) (fg_start graph) n)"
proof -
  let ?r = "reach_loop (fg_nodes graph) [] [fg_start graph]"
  have s: "seen_closed (fg_nodes graph) ?r [] \<and> distinct ?r \<and>
      (\<forall>s \<in> set ?r. on_path (fg_nodes graph) (fg_start graph) s) \<and> set [] \<subseteq> set ?r \<and>
      (\<forall>s \<in> set [fg_start graph]. map_of (fg_nodes graph) s \<noteq> None \<longrightarrow> s \<in> set ?r)"
    by (rule reach_loop_spec) (auto simp: seen_closed_def intro: at_start)
  have "n \<in> set ?r" if "on_path (fg_nodes graph) (fg_start graph) n" for n
    using that
  proof (induction rule: on_path.induct)
    case (along_edge cur node target cond)
    then show ?case using s by (fastforce simp: seen_closed_def)
  qed (use s in auto)
  then show ?thesis using s by (auto simp: reachable_def)
qed

end
