(* ===== verification/LevelM.thy ===== *)
theory LevelM
  imports FlowGraph
begin

section \<open>Level M, the match action fragment\<close>

text \<open>
  \<open>src/prismpath/kernel/level_m.py\<close>: which deterministic conditions are table encodable, the
  desugaring of chained comparisons, the report per edge and the verdict per flow. A report row keeps
  the node, the target, the condition, the membership and the reason.
\<close>

definition R_CHAINED :: string where "R_CHAINED = ''chained-comparison''"
definition R_FIELD_VS_FIELD :: string where "R_FIELD_VS_FIELD = ''field-vs-field''"
definition R_SUBSTRING :: string where "R_SUBSTRING = ''substring-in''"
definition R_NONLITERAL :: string where "R_NONLITERAL = ''non-literal-collection''"
definition R_STRING_ORDER :: string where "R_STRING_ORDER = ''string-ordering''"
definition R_CONSTANT :: string where "R_CONSTANT = ''constant-only''"
definition R_NESTED :: string where "R_NESTED = ''nested-container''"
definition R_SYNTAX :: string where "R_SYNTAX = ''disallowed-or-unparseable''"

fun scalar_const :: "ast \<Rightarrow> bool" where
  "scalar_const (AConst PNone) = True"
| "scalar_const (AConst (PBool _)) = True"
| "scalar_const (AConst (PInt _)) = True"
| "scalar_const (AConst (PStr _)) = True"
| "scalar_const _ = False"

fun is_name :: "ast \<Rightarrow> bool" where
  "is_name (AName _) = True"
| "is_name _ = False"

fun is_const :: "ast \<Rightarrow> bool" where
  "is_const (AConst _) = True"
| "is_const _ = False"

fun is_str_const :: "ast \<Rightarrow> bool" where
  "is_str_const (AConst (PStr _)) = True"
| "is_str_const _ = False"

definition order_cmp :: "cmpop \<Rightarrow> bool" where
  "order_cmp op = (op \<in> {CLt, CLtE, CGt, CGtE})"

fun collection :: "ast \<Rightarrow> ast list option" where
  "collection (AList es) = Some es"
| "collection (ATuple es) = Some es"
| "collection _ = None"

text \<open>The elements of a literal collection: the first that is a container or not a scalar decides.\<close>

fun elements_reason :: "ast list \<Rightarrow> string option" where
  "elements_reason [] = None"
| "elements_reason (e # es) =
     (if collection e \<noteq> None then Some R_NESTED
      else if \<not> scalar_const e then Some R_NONLITERAL
      else elements_reason es)"

definition membership_reason :: "ast \<Rightarrow> ast \<Rightarrow> string option" where
  "membership_reason left right =
     (if \<not> is_name left then Some (if \<not> is_const left then R_FIELD_VS_FIELD else R_CONSTANT)
      else if is_str_const right then Some R_SUBSTRING
      else case collection right of Some es \<Rightarrow> elements_reason es | None \<Rightarrow> Some R_NONLITERAL)"

definition comparison_reason :: "cmpop \<Rightarrow> ast \<Rightarrow> ast \<Rightarrow> string option" where
  "comparison_reason op left right =
     (if is_name left \<and> scalar_const right
      then (if order_cmp op \<and> is_str_const right then Some R_STRING_ORDER else None)
      else if is_name right \<and> scalar_const left
      then (if order_cmp op \<and> is_str_const left then Some R_STRING_ORDER else None)
      else if is_name left \<and> is_name right then Some R_FIELD_VS_FIELD
      else Some (if scalar_const left \<and> scalar_const right then R_CONSTANT else R_SYNTAX))"

fun atom_reason :: "ast \<Rightarrow> string option" where
  "atom_reason (AName _) = None"
| "atom_reason (AConst _) = Some R_CONSTANT"
| "atom_reason (ACompare left [op] (right # _)) =
     (if op \<in> {CIs, CIsNot} then Some R_SYNTAX
      else if op \<in> {CIn, CNotIn} then membership_reason left right
      else comparison_reason op left right)"
| "atom_reason (ACompare _ _ _) = Some R_CHAINED"
| "atom_reason _ = Some R_SYNTAX"

text \<open>\<open>_desugar_chains\<close>: the pairs of neighbouring operands with the operator between them.\<close>

definition chain_pairs :: "ast \<Rightarrow> cmpop list \<Rightarrow> ast list \<Rightarrow> ast list" where
  "chain_pairs left ops cs = map (\<lambda>(l, op, r). ACompare l [op] [r]) (zip (left # cs) (zip ops cs))"

fun desugar_chains :: "ast \<Rightarrow> ast" where
  "desugar_chains (ABoolOp b vs) = ABoolOp b (map desugar_chains vs)"
| "desugar_chains (AUnary UNot n) = AUnary UNot (desugar_chains n)"
| "desugar_chains (ACompare left ops cs) =
     (if length ops > 1 then ABoolOp BAnd (chain_pairs left ops cs) else ACompare left ops cs)"
| "desugar_chains n = n"

text \<open>\<open>_classify\<close>: the reason of the first subexpression that has one.\<close>

fun first_some :: "'a option list \<Rightarrow> 'a option" where
  "first_some [] = None"
| "first_some (x # xs) = (case x of None \<Rightarrow> first_some xs | Some y \<Rightarrow> Some y)"

fun classify :: "ast \<Rightarrow> string option" where
  "classify (ABoolOp _ vs) = first_some (map classify vs)"
| "classify (AUnary UNot n) = classify n"
| "classify n = atom_reason n"

definition level_m_expr :: "pyparse \<Rightarrow> string \<Rightarrow> bool \<times> string option" where
  "level_m_expr parse cond =
     (if is_keyword (expr_of cond) then (True, None)
      else case expr_ast parse cond of
          None \<Rightarrow> (False, Some R_SYNTAX)
        | Some node \<Rightarrow> let reason = classify (desugar_chains node) in (reason = None, reason))"

definition when_form :: "string \<Rightarrow> string" where
  "when_form expr = (if startswith (py_lower expr) ''when '' then expr else ''when '' @ expr)"

lemma when_form_deterministic: "error_expr cond \<noteq> [] \<Longrightarrow> is_deterministic (when_form (error_expr cond))"
proof -
  let ?e = "error_expr cond"
  assume ne: "?e \<noteq> []"
  have s: "strip ?e = ?e" by (simp add: error_expr_def)
  show ?thesis
  proof (cases "startswith (py_lower ?e) ''when ''")
    case True
    then show ?thesis using s by (simp add: when_form_def is_deterministic_def normalized_def)
  next
    case False
    have l: "\<not> py_isspace (last ?e)" using strip_nonempty_last [of ?e] s ne by simp
    have "strip (''when '' @ ?e) = ''when '' @ ?e"
      by (rule strip_fixed) (use l ne in \<open>auto simp: py_isspace_def\<close>)
    moreover have "py_lower (''when '' @ ?e) = ''when '' @ py_lower ?e"
      by (simp add: py_lower_def py_lower_char_def)
    ultimately show ?thesis using False by (simp add: when_form_def is_deterministic_def normalized_def startswith_def)
  qed
qed

function is_level_m :: "pyparse \<Rightarrow> string \<Rightarrow> bool \<times> string option" where
  "is_level_m parse cond =
     (if \<not> is_deterministic cond then
        (if is_error cond then
           (if error_expr cond = [] then (True, None) else is_level_m parse (when_form (error_expr cond)))
         else (False, Some ''not-deterministic''))
      else level_m_expr parse cond)"
  by pat_completeness auto
termination
  by (relation "measure (\<lambda>(parse, cond). if is_deterministic cond then 0 else 1)")
    (auto simp: when_form_deterministic)

declare is_level_m.simps [simp del]

record level_m_row =
  lm_node :: string
  lm_target :: string
  lm_condition :: string
  lm_level_m :: bool
  lm_reason :: "string option"

definition level_m_row_of :: "pyparse \<Rightarrow> string \<Rightarrow> edge \<Rightarrow> level_m_row" where
  "level_m_row_of parse name e =
     (let (ok, reason) = is_level_m parse (snd e) in
      \<lparr>lm_node = name, lm_target = fst e, lm_condition = snd e, lm_level_m = ok, lm_reason = reason\<rparr>)"

definition level_m_report :: "pyparse \<Rightarrow> flow_graph \<Rightarrow> level_m_row list" where
  "level_m_report parse graph =
     concat (map (\<lambda>name. case map_of (fg_nodes graph) name of
         None \<Rightarrow> []
       | Some node \<Rightarrow> map (level_m_row_of parse name) (filter (\<lambda>e. is_deterministic (snd e)) (fn_edges node)))
       (str_sort (reachable graph)))"

definition flow_level_m :: "pyparse \<Rightarrow> flow_graph \<Rightarrow> bool \<times> level_m_row list" where
  "flow_level_m parse graph =
     (let bad = filter (\<lambda>row. \<not> lm_level_m row) (level_m_report parse graph) in (bad = [], bad))"

subsection \<open>Desugaring preserves evaluation\<close>

lemma ev_shallower_aux:
  "ev c d n = Inr v \<Longrightarrow> 0 < d \<Longrightarrow> ev c (d - 1) n = Inr v"
  "ev_chain c d left ops cs = Inr v \<Longrightarrow> 0 < d \<Longrightarrow> ev_chain c (d - 1) left ops cs = Inr v"
proof (induction c d n and c d left ops cs arbitrary: v and v rule: ev_ev_chain.induct)
  case (1 c d node)
  have em: "emap (ev c d) es = Inr vs" if "emap (ev c (Suc d)) es = Inr vs"
    "\<And>m v. m \<in> set es \<Longrightarrow> ev c (Suc d) m = Inr v \<Longrightarrow> ev c d m = Inr v" for es vs
    using that by (auto simp: emap_Inr_iff)
  have d: "d \<le> MAX_DEPTH" "\<not> MAX_DEPTH < d"
    using "1.prems" by (cases node; auto simp: ev_node split: if_splits)+
  have d1: "d - 1 \<le> MAX_DEPTH" "Suc (d - 1) = d" using d "1.prems"(2) by auto
  show ?case
  proof (cases node)
    case (ABoolOp b vs)
    then obtain ws where ws: "emap (ev c (Suc d)) vs = Inr ws"
      "v = PBool (if b = BAnd then list_all truthy ws else list_ex truthy ws)"
      using "1.prems"(1) d by (auto simp: ev_node ebind_eq_Inr)
    have "emap (ev c d) vs = Inr ws"
      by (rule em [OF ws(1)]) (use "1.IH"(1) [OF d(2) ABoolOp] in simp)
    then show ?thesis using ABoolOp d1 ws by (simp add: ev_node)
  next
    case (AList es)
    then obtain ws where ws: "emap (ev c (Suc d)) es = Inr ws" "v = PList ws"
      using "1.prems"(1) d by (auto simp: ev_node ebind_eq_Inr)
    have "emap (ev c d) es = Inr ws"
      by (rule em [OF ws(1)]) (use "1.IH"(5) [OF d(2) AList] in simp)
    then show ?thesis using AList d1 ws by (simp add: ev_node)
  next
    case (ATuple es)
    then obtain ws where ws: "emap (ev c (Suc d)) es = Inr ws" "v = PList ws"
      using "1.prems"(1) d by (auto simp: ev_node ebind_eq_Inr)
    have "emap (ev c d) es = Inr ws"
      by (rule em [OF ws(1)]) (use "1.IH"(6) [OF d(2) ATuple] in simp)
    then show ?thesis using ATuple d1 ws by (simp add: ev_node)
  next
    case (AUnary u m)
    then show ?thesis using "1.IH"(2) [OF d(2) AUnary] "1.prems" d d1 by (cases u) (auto simp: ev_node ebind_eq_Inr)
  next
    case (ACompare l ops cs)
    then obtain lv where l: "ev c (Suc d) l = Inr lv" "ev_chain c d lv ops cs = Inr v"
      using "1.prems"(1) d by (auto simp: ev_node ebind_eq_Inr)
    have "ev c d l = Inr lv" using "1.IH"(3) [OF d(2) ACompare] l by simp
    moreover have "ev_chain c (d - 1) lv ops cs = Inr v"
      using "1.IH"(4) [OF d(2) ACompare _ l(2)] l "1.prems"(2) by simp
    ultimately show ?thesis using ACompare d1 by (simp add: ev_node)
  qed (use "1.prems"(1) d d1 in \<open>simp_all add: ev_node\<close>)
next
  case (2 c depth left op ops n cs)
  obtain right ok where r: "ev c (Suc depth) n = Inr right" "py_compare op left right = Inr ok"
    and rest: "(if \<not> ok then Inr (PBool False) else ev_chain c depth right ops cs) = Inr v"
    using "2.prems"(1) by (auto simp: ebind_eq_Inr)
  have "ev c depth n = Inr right" using "2.IH"(1) r by simp
  then show ?case using "2.IH"(2) r rest "2.prems"(2) by (auto split: if_splits)
qed auto

lemma ev_shallower: "ev c (Suc d) n = Inr v \<Longrightarrow> ev c d n = Inr v"
  using ev_shallower_aux(1) [of c "Suc d" n v] by simp

lemma chain_pairs_Cons:
  "chain_pairs l (op # ops) (r # cs) = ACompare l [op] [r] # chain_pairs r ops cs"
  by (simp add: chain_pairs_def)

lemma ev_chain_pairs:
  assumes "length ops = length cs" "emap (ev c (Suc d)) (chain_pairs l ops cs) = Inr vals"
    and "ev c (Suc (Suc d)) l = Inr left"
  shows "\<exists>v. ev_chain c d left ops cs = Inr v \<and> truthy v = list_all truthy vals"
  using assms
proof (induction ops cs arbitrary: l left vals rule: list_induct2)
  case Nil
  then show ?case by (simp add: chain_pairs_def)
next
  case (Cons op ops r cs)
  obtain p vals' where p: "ev c (Suc d) (ACompare l [op] [r]) = Inr p" "vals = p # vals'"
    and rest: "emap (ev c (Suc d)) (chain_pairs r ops cs) = Inr vals'"
    using Cons.prems(1) by (auto simp: chain_pairs_Cons ebind_eq_Inr)
  obtain right ok where r: "ev c (Suc (Suc d)) r = Inr right" and ok: "py_compare op left right = Inr ok"
    and pok: "truthy p = ok"
    using p(1) Cons.prems(2) by (auto simp: ev_node ebind_eq_Inr split: if_splits)
  have sh: "ev c (Suc d) r = Inr right" using ev_shallower [OF r] by simp
  show ?case
    using Cons.IH [OF rest r] sh ok pok p(2) by auto
qed

lemma desugar_returns:
  assumes "ast_wf n" "ev c d (desugar_chains n) = Inr w"
  shows "\<exists>v. ev c d n = Inr v \<and> truthy v = truthy w"
  using assms
proof (induction n arbitrary: d w rule: desugar_chains.induct)
  case (1 b vs)
  obtain ws where ws: "emap (ev c (Suc d)) (map desugar_chains vs) = Inr ws"
    and w: "w = PBool (if b = BAnd then list_all truthy ws else list_ex truthy ws)" and d: "d \<le> MAX_DEPTH"
    using 1(3) by (auto simp: ev_node ebind_eq_Inr split: if_splits)
  have "\<exists>us. emap (ev c (Suc d)) vs = Inr us \<and> map truthy us = map truthy ws"
    using ws 1(1) 1(2)
  proof (induction vs arbitrary: ws)
    case (Cons x xs)
    obtain y ys where y: "ev c (Suc d) (desugar_chains x) = Inr y" "emap (ev c (Suc d)) (map desugar_chains xs) = Inr ys"
      "ws = y # ys" using Cons.prems(1) by (auto simp: ebind_eq_Inr)
    obtain u where "ev c (Suc d) x = Inr u" "truthy u = truthy y" using Cons.prems(2,3) y(1) by force
    moreover obtain us where "emap (ev c (Suc d)) xs = Inr us" "map truthy us = map truthy ys"
      using Cons.IH [OF y(2)] Cons.prems(2,3) by force
    ultimately show ?case using y(3) by simp
  qed simp
  then obtain us where us: "emap (ev c (Suc d)) vs = Inr us" "map truthy us = map truthy ws" by blast
  have "list_all truthy us = list_all truthy ws" "list_ex truthy us = list_ex truthy ws"
    using arg_cong [OF us(2), of "list_all id"] arg_cong [OF us(2), of "list_ex id"]
    by (simp_all add: list.pred_map comp_def list_ex_iff list_all_iff)
  then show ?case using us d w by (simp add: ev_node)
next
  case (2 n)
  then show ?case by (fastforce simp: ev_node ebind_eq_Inr split: if_splits)
next
  case (3 left ops cs)
  show ?case
  proof (cases "length ops > 1")
    case True
    then obtain vals where vals: "emap (ev c (Suc d)) (chain_pairs left ops cs) = Inr vals"
      and w: "w = PBool (list_all truthy vals)" and d: "d \<le> MAX_DEPTH"
      using 3(2) by (auto simp: ev_node ebind_eq_Inr split: if_splits)
    have len: "length ops = length cs" using 3(1) by simp
    obtain op ops' r cs' where o: "ops = op # ops'" "cs = r # cs'" using True len by (cases ops; cases cs) auto
    obtain lv where l: "ev c (Suc (Suc d)) left = Inr lv"
      using vals unfolding o chain_pairs_Cons by (auto simp: ev_node ebind_eq_Inr split: if_splits)
    obtain v where "ev_chain c d lv ops cs = Inr v" "truthy v = list_all truthy vals"
      using ev_chain_pairs [OF len vals l] by blast
    then show ?thesis using ev_shallower [OF l] d w by (simp add: ev_node)
  next
    case False
    then show ?thesis using 3 by simp
  qed
qed auto

lemma ast_depth_le:
  "ast_depth n d \<le> m \<longleftrightarrow> d \<le> m \<and> (\<forall>c \<in> set (child_nodes n). ast_depth c (Suc d) \<le> m)"
proof (cases "child_nodes n = []")
  case True
  then show ?thesis by (simp add: ast_depth.simps)
next
  case False
  then obtain x where x: "x \<in> set (child_nodes n)" by (cases "child_nodes n") auto
  have "ast_depth n d \<le> m \<longleftrightarrow> (\<forall>c \<in> set (child_nodes n). ast_depth c (Suc d) \<le> m)"
    using False by (subst ast_depth.simps) (simp add: foldr_max_le)
  moreover have "d \<le> m" if "\<forall>c \<in> set (child_nodes n). ast_depth c (Suc d) \<le> m"
    using that x ast_depth_ge [of "Suc d" x] by fastforce
  ultimately show ?thesis by blast
qed

lemma ast_depth_Suc: "ast_depth n (Suc d) \<le> Suc m \<longleftrightarrow> ast_depth n d \<le> m"
proof (induction n arbitrary: d rule: measure_induct_rule [of node_count])
  case (less n)
  then show ?case
    using node_count_child by (simp add: ast_depth_le [of n])
qed

lemma set_chain_pairs:
  "p \<in> set (chain_pairs l ops cs) \<Longrightarrow>
   \<exists>a op b. p = ACompare a [op] [b] \<and> a \<in> set (l # cs) \<and> op \<in> set ops \<and> b \<in> set cs"
proof (induction cs arbitrary: l ops)
  case Nil
  then show ?case by (simp add: chain_pairs_def)
next
  case (Cons r cs)
  show ?case
  proof (cases ops)
    case Nil
    then show ?thesis using Cons.prems by (simp add: chain_pairs_def)
  next
    case o: (Cons op ops')
    then consider "p = ACompare l [op] [r]" | "p \<in> set (chain_pairs r ops' cs)"
      using Cons.prems by (auto simp: chain_pairs_Cons)
    then show ?thesis
    proof cases
      case 1
      then show ?thesis using o by auto
    next
      case 2
      from Cons.IH [OF this] show ?thesis using o by auto
    qed
  qed
qed

lemma allowed_ops: "allowed (ACompare l ops cs) \<Longrightarrow> op \<in> set ops \<Longrightarrow> allowed (leaf (cmpop_name op))"
  by (erule allowed_child) auto

lemma allowed_iff: "allowed n \<longleftrightarrow> node_type n \<in> set ALLOWED_NODES \<and> (\<forall>c \<in> set (child_nodes n). allowed c)"
  by (subst all_nodes.simps) (rule refl)

lemma node_types_allowed:
  "''Compare'' \<in> set ALLOWED_NODES" "''BoolOp'' \<in> set ALLOWED_NODES" "''UnaryOp'' \<in> set ALLOWED_NODES"
  "''Name'' \<in> set ALLOWED_NODES" "''Constant'' \<in> set ALLOWED_NODES" "''List'' \<in> set ALLOWED_NODES"
  "''Tuple'' \<in> set ALLOWED_NODES" "''Load'' \<in> set ALLOWED_NODES" "''And'' \<in> set ALLOWED_NODES"
  "''Or'' \<in> set ALLOWED_NODES" "''Not'' \<in> set ALLOWED_NODES"
  by (simp_all add: ALLOWED_NODES_def)

lemma desugar_wf: "ast_wf n \<Longrightarrow> ast_wf (desugar_chains n)"
proof (induction n rule: desugar_chains.induct)
  case (3 left ops cs)
  then show ?case by (auto simp: list_all_iff dest!: set_chain_pairs)
qed (auto simp: list_all_iff)

lemma desugar_allowed: "allowed n \<Longrightarrow> allowed (desugar_chains n)"
proof (induction n rule: desugar_chains.induct)
  case (1 b vs)
  then show ?case by (auto simp: allowed_iff [of "ABoolOp _ _"])
next
  case (2 n)
  then show ?case by (auto simp: allowed_iff [of "AUnary _ _"])
next
  case (3 left ops cs)
  have "allowed p" if mem: "p \<in> set (chain_pairs left ops cs)" for p
  proof -
    obtain a op b where p: "p = ACompare a [op] [b]" "a \<in> set (left # cs)" "op \<in> set ops" "b \<in> set cs"
      using set_chain_pairs [OF mem] by blast
    then have "allowed a" "allowed b" "allowed (leaf (cmpop_name op))"
      using allowed_child [OF 3] allowed_ops [OF 3] by auto
    then show ?thesis by (simp add: p(1) allowed_iff [of "ACompare _ _ _"] node_types_allowed)
  qed
  then show ?case
    using 3 by (simp add: allowed_iff [of "ABoolOp _ _"] node_types_allowed allowed_leaf)
qed simp_all

lemma desugar_depth: "ast_depth n d \<le> m \<Longrightarrow> ast_depth (desugar_chains n) d \<le> Suc m"
proof (induction n arbitrary: d rule: desugar_chains.induct)
  case (1 b vs)
  then show ?case
    by (auto simp: ast_depth_le [of "ABoolOp _ _"] intro: le_SucI)
next
  case (2 n)
  then show ?case by (auto simp: ast_depth_le [of "AUnary _ _"] intro: le_SucI)
next
  case (3 left ops cs)
  have up: "ast_depth x d' \<le> Suc m" if "ast_depth x d' \<le> m" for x d' using that by simp
  have lf: "ast_depth (leaf k) d' = d'" for k d' by (simp add: ast_depth.simps leaf_def)
  have d: "d \<le> m" and l: "ast_depth left (Suc d) \<le> m" and c: "\<And>x. x \<in> set cs \<Longrightarrow> ast_depth x (Suc d) \<le> m"
    using 3 by (auto simp: ast_depth_le [of "ACompare _ _ _"])
  have "ast_depth p (Suc d) \<le> Suc m" if mem: "p \<in> set (chain_pairs left ops cs)" for p
  proof -
    obtain a op b where p: "p = ACompare a [op] [b]" "a \<in> set (left # cs)" "op \<in> set ops" "b \<in> set cs"
      using set_chain_pairs [OF mem] by blast
    have "Suc d \<le> m" using c [OF p(4)] ast_depth_ge [of "Suc d" b] by simp
    then show ?thesis
      using l c p by (auto simp: p(1) ast_depth_le [of "ACompare _ _ _"] ast_depth_Suc lf)
  qed
  moreover have "Suc d \<le> Suc m" using d by simp
  ultimately show ?case
    using up [OF 3] d by (simp add: ast_depth_le [of "ABoolOp _ _"] lf)
qed (simp_all add: le_SucI)

text \<open>
  C34. Desugaring chained comparisons is exact: on every expression of the sandbox below the depth limit
  the desugared form and the engine's own chain evaluation both return, with the same truth, in every
  context; so the table the desugared form is compiled to decides as the engine does.
\<close>

theorem desugar_preserves_decision:
  assumes "ast_wf n" "allowed n" "ast_depth n 0 < MAX_DEPTH"
  shows "\<exists>v w. ev c 0 n = Inr v \<and> ev c 0 (desugar_chains n) = Inr w \<and> truthy v = truthy w"
proof -
  have "ast_depth (desugar_chains n) 0 \<le> MAX_DEPTH"
    using desugar_depth [of n 0 "MAX_DEPTH - 1"] assms(3) by simp
  then obtain w where "ev c 0 (desugar_chains n) = Inr w"
    using ev_total [OF desugar_wf [OF assms(1)] desugar_allowed [OF assms(2)]] by blast
  then show ?thesis using desugar_returns [OF assms(1)] by blast
qed

theorem desugar_preserves_decision_witness:
  "\<exists>v w. ev [(''x'', PInt 4)] 0 (ACompare (AConst (PInt 0)) [CLt, CLtE] [AName ''x'', AConst (PInt 5)]) = Inr v \<and>
     ev [(''x'', PInt 4)] 0 (desugar_chains (ACompare (AConst (PInt 0)) [CLt, CLtE] [AName ''x'', AConst (PInt 5)])) = Inr w \<and>
     truthy v = truthy w"
proof (rule desugar_preserves_decision)
  show "allowed (ACompare (AConst (PInt 0)) [CLt, CLtE] [AName ''x'', AConst (PInt 5)])" by code_simp
  show "ast_depth (ACompare (AConst (PInt 0)) [CLt, CLtE] [AName ''x'', AConst (PInt 5)]) 0 < MAX_DEPTH" by code_simp
qed simp

subsection \<open>Level M lies inside the sandbox\<close>

lemma first_some_None: "first_some xs = None \<longleftrightarrow> (\<forall>x \<in> set xs. x = None)"
  by (induction xs) (auto split: option.splits)

lemma scalar_const_allowed: "scalar_const n \<Longrightarrow> allowed n"
  by (cases n rule: scalar_const.cases) (auto simp: allowed_iff [of "AConst _"] node_types_allowed)

lemma is_name_allowed: "is_name n \<Longrightarrow> allowed n"
  by (cases n) (auto simp: allowed_iff [of "AName _"] allowed_leaf node_types_allowed)

lemma elements_reason_None: "elements_reason es = None \<longleftrightarrow> list_all (\<lambda>e. collection e = None \<and> scalar_const e) es"
  by (induction es) auto

text \<open>The shape of an atom: what the classifier lets through.\<close>

lemma atom_reason_None:
  "atom_reason n = None \<longleftrightarrow>
   (\<exists>x. n = AName x) \<or>
   (\<exists>l op r rs. n = ACompare l [op] (r # rs) \<and>
      ((op = CIn \<or> op = CNotIn) \<and> is_name l \<and> \<not> is_str_const r \<and>
         (\<exists>es. collection r = Some es \<and> list_all (\<lambda>e. collection e = None \<and> scalar_const e) es) \<or>
       op \<notin> {CIn, CNotIn, CIs, CIsNot} \<and>
         (is_name l \<and> scalar_const r \<and> \<not> (order_cmp op \<and> is_str_const r) \<or>
          \<not> (is_name l \<and> scalar_const r) \<and> is_name r \<and> scalar_const l \<and> \<not> (order_cmp op \<and> is_str_const l))))"
  by (cases n rule: atom_reason.cases)
    (auto simp: membership_reason_def comparison_reason_def elements_reason_None split: option.splits if_splits)

lemma atom_allowed:
  assumes "atom_reason n = None" "ast_wf n"
  shows "allowed n"
proof -
  have op: "allowed (leaf (cmpop_name op))" if "op \<notin> {CIs, CIsNot}" for op
    using that by (cases op) (auto simp: allowed_leaf, simp_all add: ALLOWED_NODES_def)
  have coll: "allowed r" if "collection r = Some es" "list_all (\<lambda>e. collection e = None \<and> scalar_const e) es" for r es
  proof -
    have "\<forall>e \<in> set es. allowed e" using that(2) scalar_const_allowed by (auto simp: list_all_iff)
    then show ?thesis
      using that(1) by (cases r) (auto simp: allowed_iff [of "AList _"] allowed_iff [of "ATuple _"] allowed_leaf node_types_allowed)
  qed
  from assms(1) consider x where "n = AName x"
    | l op r rs where "n = ACompare l [op] (r # rs)" "op \<notin> {CIs, CIsNot}" "allowed l" "allowed r"
    unfolding atom_reason_None using coll scalar_const_allowed is_name_allowed by fastforce
  then show ?thesis
  proof cases
    case 1
    then show ?thesis using is_name_allowed by simp
  next
    case 2
    then show ?thesis using assms(2) op by (auto simp: allowed_iff [of "ACompare _ _ _"] node_types_allowed)
  qed
qed

lemma chain_pairs_allowed:
  "length ops = length cs \<Longrightarrow> \<forall>p \<in> set (chain_pairs l ops cs). allowed p \<Longrightarrow> cs \<noteq> [] \<Longrightarrow>
   allowed l \<and> (\<forall>r \<in> set cs. allowed r) \<and> (\<forall>op \<in> set ops. allowed (leaf (cmpop_name op)))"
proof (induction ops cs arbitrary: l rule: list_induct2)
  case (Cons op ops r cs)
  have p: "allowed (ACompare l [op] [r])" using Cons.prems(1) by (simp add: chain_pairs_Cons)
  then have "allowed l" "allowed r" "allowed (leaf (cmpop_name op))"
    using allowed_child [OF p] by auto
  moreover have "\<forall>r \<in> set cs. allowed r" "\<forall>op \<in> set ops. allowed (leaf (cmpop_name op))"
    using Cons.IH [of r] Cons.prems(1) Cons.hyps by (cases "cs = []"; simp add: chain_pairs_Cons)+
  ultimately show ?case by simp
qed simp

lemma classify_allowed: "classify (desugar_chains n) = None \<Longrightarrow> ast_wf n \<Longrightarrow> allowed n"
proof (induction n rule: desugar_chains.induct)
  case (1 b vs)
  have "allowed (leaf (boolop_name b))" by (cases b) (simp_all add: allowed_leaf node_types_allowed)
  then show ?case
    using 1 by (auto simp: first_some_None list_all_iff allowed_iff [of "ABoolOp _ _"] node_types_allowed)
next
  case (2 n)
  then show ?case by (auto simp: allowed_iff [of "AUnary _ _"] allowed_leaf node_types_allowed)
next
  case (3 left ops cs)
  show ?case
  proof (cases "length ops > 1")
    case True
    have "allowed p" if mem: "p \<in> set (chain_pairs left ops cs)" for p
    proof -
      obtain a op b where p: "p = ACompare a [op] [b]" "a \<in> set (left # cs)" "b \<in> set cs"
        using set_chain_pairs [OF mem] by blast
      have "atom_reason p = None" using 3(1) True mem p(1) by (auto simp: first_some_None)
      then show ?thesis by (rule atom_allowed) (use p 3(2) in \<open>auto simp: list_all_iff\<close>)
    qed
    moreover have "length ops = length cs" "cs \<noteq> []" using True 3(2) by auto
    ultimately show ?thesis
      using chain_pairs_allowed [of ops cs left] by (auto simp: allowed_iff [of "ACompare _ _ _"] node_types_allowed)
  next
    case False
    then show ?thesis using 3 atom_allowed by simp
  qed
qed (auto intro: atom_allowed)

text \<open>
  The match action fragment lies inside the predicate sandbox: a condition the classifier puts in
  Level M has no problem under the static check, the nesting bound aside, so a compiled table never
  stands for a condition the engine would refuse as disallowed or unparseable.
\<close>

theorem level_m_within_sandbox:
  assumes "parser_wf parse" "parse [] = None" "is_deterministic cond" "fst (is_level_m parse cond)"
  shows "set (check_predicate parse cond) \<subseteq> {TooDeep}"
proof (cases "is_keyword (expr_of cond)")
  case True
  then show ?thesis by (simp add: check_predicate_def Let_def)
next
  case False
  have dd: "set (dedup_loop seen ps) \<subseteq> set ps" for seen and ps :: "problem list"
    by (induction seen ps rule: dedup_loop.induct) auto
  from assms False obtain tree where t: "parse (expr_of cond) = Some tree"
    and c: "classify (desugar_chains (fold_unary_signs tree)) = None"
    by (auto simp: is_level_m.simps level_m_expr_def expr_ast_def Let_def split: option.splits)
  have "ast_wf (fold_unary_signs tree)" using assms(1) t ast_wf_fold by (auto simp: parser_wf_def)
  then have "allowed (fold_unary_signs tree)" using classify_allowed c by blast
  then have "list_all (\<lambda>k. k \<in> set ALLOWED_NODES) (walk_expression (fold_unary_signs tree))"
    using walk_expression_allowed by blast
  then have "set (tree_problems (fold_unary_signs tree)) \<subseteq> {TooDeep}"
    by (auto simp: tree_problems_def list_all_iff)
  moreover have "expr_of cond \<noteq> []" using assms(2) t by auto
  ultimately show ?thesis
    using t dd [of "[]" "tree_problems (fold_unary_signs tree)"] by (auto simp: check_predicate_def Let_def)
qed

definition demo_parse :: pyparse where
  "demo_parse e = (if e = [] then None else Some (ACompare (AName ''x'') [CLt] [AUnary UUSub (AConst (PInt 3))]))"

theorem level_m_within_sandbox_witness:
  "fst (is_level_m demo_parse ''when x < -3'') \<and> set (check_predicate demo_parse ''when x < -3'') \<subseteq> {TooDeep}"
proof -
  have d: "is_deterministic ''when x < -3''" by code_simp
  have m: "fst (is_level_m demo_parse ''when x < -3'')"
    using d by (simp add: is_level_m.simps, code_simp)
  have "parser_wf demo_parse" by (auto simp: parser_wf_def demo_parse_def split: if_splits)
  then show ?thesis using level_m_within_sandbox [OF _ _ d m] m by (simp add: demo_parse_def)
qed

end
