(* ===== verification/Contract.thy ===== *)
theory Contract
  imports FlowGraph
begin

section \<open>The output contract of a node\<close>

text \<open>
  \<open>src/prismpath/kernel/contract.py\<close>: the type of every field a node's deterministic edges read, derived
  from the edges, and the type gate on a worker's output. A set of literals is a list without equal
  members, printed in the order of \<open>_routed_values\<close> (by type name, then by value). Problems are values;
  the wording of the messages and the JSON schema printer are not modelled.
\<close>

definition ENGINE_FIELDS :: "string list" where
  "ENGINE_FIELDS = [''visits'', ''error_count'', ''error'', ''error_type'', ''error_message'']"

record field_spec =
  fs_type :: string
  fs_values :: "pyval list"
  fs_ranged :: bool
  fs_conflict :: "(string \<times> string) option"

definition new_spec :: field_spec where
  "new_spec = \<lparr>fs_type = ''unknown'', fs_values = [], fs_ranged = False, fs_conflict = None\<rparr>"

fun set_update :: "pyval list \<Rightarrow> pyval list \<Rightarrow> pyval list" where
  "set_update vs [] = vs"
| "set_update vs (w # ws) = set_update (if list_ex (\<lambda>v. py_same v w) vs then vs else vs @ [w]) ws"

definition spec_add :: "field_spec \<Rightarrow> string \<Rightarrow> pyval list \<Rightarrow> bool \<Rightarrow> field_spec" where
  "spec_add spec field_type vs ranged =
     (let spec = spec\<lparr>fs_values := set_update (fs_values spec) vs, fs_ranged := (fs_ranged spec \<or> ranged)\<rparr> in
      if field_type = ''unknown'' then spec
      else if fs_type spec = ''unknown'' then spec\<lparr>fs_type := field_type\<rparr>
      else if fs_type spec \<noteq> field_type \<and> fs_conflict spec = None
      then spec\<lparr>fs_conflict := Some (fs_type spec, field_type)\<rparr>
      else spec)"

text \<open>\<open>str(type(val))\<close> orders floats before integers before strings, and values of one type by value.\<close>

fun type_rank :: "pyval \<Rightarrow> nat" where
  "type_rank (PBool _) = 0"
| "type_rank (PFloat _) = 1"
| "type_rank (PInt _) = 2"
| "type_rank (PStr _) = 3"
| "type_rank _ = 4"

definition value_before :: "pyval \<Rightarrow> pyval \<Rightarrow> bool" where
  "value_before v w = (type_rank v < type_rank w \<or> (type_rank v = type_rank w \<and> py_order OLt v w = Some True))"

fun value_insert :: "pyval \<Rightarrow> pyval list \<Rightarrow> pyval list" where
  "value_insert v [] = [v]"
| "value_insert v (w # ws) = (if value_before w v then w # value_insert v ws else v # w # ws)"

definition routed_values :: "field_spec \<Rightarrow> pyval list option" where
  "routed_values spec =
     (if fs_type spec \<notin> {''enum'', ''number''} \<or> fs_ranged spec \<or> fs_values spec = [] then None
      else Some (foldr value_insert (fs_values spec) []))"

record spec_dict =
  sd_type :: string
  sd_values :: "pyval list option"
  sd_conflict :: "(string \<times> string) option"

definition as_dict :: "field_spec \<Rightarrow> spec_dict" where
  "as_dict spec = \<lparr>sd_type = fs_type spec, sd_values = routed_values spec, sd_conflict = fs_conflict spec\<rparr>"

definition type_of_literal :: "pyval \<Rightarrow> string option" where
  "type_of_literal v = (case v of
       PBool _ \<Rightarrow> Some ''boolean'' | PInt _ \<Rightarrow> Some ''number'' | PFloat _ \<Rightarrow> Some ''number''
     | PStr _ \<Rightarrow> Some ''enum'' | _ \<Rightarrow> None)"

type_synonym specs = "(string, field_spec) pydict"

definition update_spec :: "specs \<Rightarrow> string \<Rightarrow> (field_spec \<Rightarrow> field_spec) \<Rightarrow> specs" where
  "update_spec acc x f = dict_set acc x (f (case map_of acc x of None \<Rightarrow> new_spec | Some s \<Rightarrow> s))"

fun literal :: "ast \<Rightarrow> pyval option" where
  "literal (AConst v) = Some v"
| "literal _ = None"

fun elements :: "ast \<Rightarrow> ast list option" where
  "elements (AList es) = Some es"
| "elements (ATuple es) = Some es"
| "elements _ = None"

definition members_add :: "ast list \<Rightarrow> field_spec \<Rightarrow> field_spec" where
  "members_add elts spec =
     (let vals = List.map_filter literal elts; types = remdups (map type_of_literal vals) in
      if length vals \<noteq> length elts \<or> vals = [] \<or> length types \<noteq> 1 then spec_add spec ''unknown'' [] False
      else case hd types of
          None \<Rightarrow> spec
        | Some t \<Rightarrow> spec_add spec t (if t = ''boolean'' then [] else set_update [] vals) False)"

text \<open>What one comparison of a name with the other side adds to the name's specification.\<close>

definition pair_add :: "cmpop \<Rightarrow> ast \<Rightarrow> field_spec \<Rightarrow> field_spec" where
  "pair_add op other spec =
     (if op \<in> {CLt, CLtE, CGt, CGtE} then spec_add spec ''number'' [] True
      else if op \<in> {CEq, CNotEq} then
        (let lit_type = (case literal other of None \<Rightarrow> None | Some v \<Rightarrow> type_of_literal v) in
         spec_add spec (case lit_type of None \<Rightarrow> ''unknown'' | Some t \<Rightarrow> t)
           (case literal other of Some v \<Rightarrow> if lit_type \<in> {Some ''enum'', Some ''number''} then [v] else [] | None \<Rightarrow> [])
           False)
      else if op \<in> {CIn, CNotIn} then (case elements other of Some es \<Rightarrow> members_add es spec | None \<Rightarrow> spec)
      else spec)"

fun compare_fields :: "specs \<Rightarrow> ast \<Rightarrow> cmpop list \<Rightarrow> ast list \<Rightarrow> specs" where
  "compare_fields acc left (op # ops) (right # cs) =
     compare_fields
       (case left of
          AName x \<Rightarrow> update_spec acc x (pair_add op right)
        | _ \<Rightarrow> (case right of AName x \<Rightarrow> update_spec acc x (pair_add op left) | _ \<Rightarrow> acc))
       right ops cs"
| "compare_fields acc left _ _ = acc"

text \<open>\<open>_walk\<close>: every position it reaches is a boolean one, so the flag of the code is always true.\<close>

fun walk_fields :: "ast \<Rightarrow> specs \<Rightarrow> specs" where
  "walk_fields (ABoolOp _ vs) acc = fold walk_fields vs acc"
| "walk_fields (AUnary UNot n) acc = walk_fields n acc"
| "walk_fields (ACompare l ops cs) acc = compare_fields acc l ops cs"
| "walk_fields (AName x) acc = update_spec acc x (\<lambda>s. spec_add s ''boolean'' [] False)"
| "walk_fields _ acc = acc"

type_synonym node_contract = "(string, spec_dict) pydict"

text \<open>The tree of a condition that is deterministic, no keyword and parseable; signs are not folded here.\<close>

definition contract_tree :: "pyparse \<Rightarrow> string \<Rightarrow> ast option" where
  "contract_tree parse condition =
     (if \<not> is_deterministic condition then None
      else let expr = expr_of condition in if is_keyword expr then None else parse expr)"

definition node_contract_of :: "pyparse \<Rightarrow> flow_node \<Rightarrow> node_contract" where
  "node_contract_of parse node =
     (let acc = foldl (\<lambda>acc e. case contract_tree parse (snd e) of
            None \<Rightarrow> acc | Some tree \<Rightarrow> walk_fields tree acc) [] (fn_edges node) in
      map (\<lambda>(x, spec). (x, as_dict spec)) (filter (\<lambda>(x, spec). x \<notin> set ENGINE_FIELDS) acc))"

definition derive_contract :: "pyparse \<Rightarrow> flow_graph \<Rightarrow> (string, node_contract) pydict" where
  "derive_contract parse graph = map (\<lambda>(name, node). (name, node_contract_of parse node)) (fg_nodes graph)"

subsection \<open>The type gate\<close>

definition py_type_ok :: "string \<Rightarrow> pyval \<Rightarrow> bool" where
  "py_type_ok spec_type v =
     (if v = PNone then True
      else if spec_type = ''boolean'' then (case v of PBool _ \<Rightarrow> True | _ \<Rightarrow> False)
      else if spec_type = ''number'' then (case v of PInt _ \<Rightarrow> True | PFloat _ \<Rightarrow> True | _ \<Rightarrow> False)
      else if spec_type = ''enum'' then (case v of PStr _ \<Rightarrow> True | _ \<Rightarrow> False)
      else True)"

datatype contract_problem = MissingField string | WrongType string string | NotRouted string

text \<open>Only None and strings pass the gate of an enum, so only their \<open>str\<close> is needed.\<close>

definition routed_hit :: "spec_dict \<Rightarrow> pyval list \<Rightarrow> pyval \<Rightarrow> bool" where
  "routed_hit spec routed v =
     (if sd_type spec = ''enum'' then py_in (if v = PNone then PStr ''None'' else v) (PList routed) = Some True
      else py_in v (PList routed) = Some True)"

definition field_problem :: "ctx \<Rightarrow> string \<times> spec_dict \<Rightarrow> contract_problem option" where
  "field_problem emitted fs = (case fs of (x, spec) \<Rightarrow>
     (case map_of emitted x of
        None \<Rightarrow> Some (MissingField x)
      | Some v \<Rightarrow>
        if \<not> py_type_ok (sd_type spec) v then Some (WrongType x (sd_type spec))
        else case sd_values spec of
            Some (r # rs) \<Rightarrow> (if routed_hit spec (r # rs) v then None else Some (NotRouted x))
          | _ \<Rightarrow> None))"

definition validate_output :: "node_contract \<Rightarrow> ctx \<Rightarrow> contract_problem list" where
  "validate_output contract emitted = List.map_filter (field_problem emitted) contract"

fun is_type_problem :: "contract_problem \<Rightarrow> bool" where
  "is_type_problem (WrongType _ _) = True"
| "is_type_problem _ = False"

definition declared_emits :: "flow_node \<Rightarrow> string list option" where
  "declared_emits node = map_option (map fst) (map_of (fn_annotations node) ''emits'')"

subsection \<open>What the contract promises and what it misses\<close>

text \<open>
  A negative literal gives no type: a field compared for equality with a signed integer, the form the
  engine folds into a numeric constant, gets the type "unknown" and no value set, so the type gate
  passes a worker output of any type for it, although the engine reads the field as a number.
\<close>

theorem contract_misses_negative_literal:
  assumes "is_deterministic cond" "\<not> is_keyword (expr_of cond)" "x \<notin> set ENGINE_FIELDS"
    and "parse (expr_of cond) = Some (ACompare (AName x) [CEq] [AUnary UUSub (AConst (PInt k))])"
    and "fn_edges node = [(target, cond)]" "0 < k"
  shows "node_contract_of parse node = [(x, \<lparr>sd_type = ''unknown'', sd_values = None, sd_conflict = None\<rparr>)] \<and>
    validate_output (node_contract_of parse node) [(x, v)] = [] \<and>
    eval_condition parse cond [(x, PInt (- k))] = Inr True"
proof -
  have t: "contract_tree parse cond = Some (ACompare (AName x) [CEq] [AUnary UUSub (AConst (PInt k))])"
    using assms by (simp add: contract_tree_def Let_def)
  have nc: "node_contract_of parse node = [(x, \<lparr>sd_type = ''unknown'', sd_values = None, sd_conflict = None\<rparr>)]"
    using assms(3) by (simp add: node_contract_of_def assms(5) t update_spec_def pair_add_def spec_add_def new_spec_def
        as_dict_def routed_values_def)
  have v: "validate_output (node_contract_of parse node) [(x, v)] = []"
    unfolding nc by (simp add: validate_output_def List.map_filter_simps field_problem_def py_type_ok_def)
  have al: "list_all (\<lambda>n. n \<in> set ALLOWED_NODES) (walk_expression (ACompare (AName x) [CEq] [AConst (PInt (- k))]))"
    by (simp add: walk_expression_def leaf_def ALLOWED_NODES_def)
  have "eval_condition parse cond [(x, PInt (- k))] = Inr True"
    using assms(2,4) al by (simp add: eval_condition_def is_keyword_def Let_def ev_node MAX_DEPTH_def ctx_get_def)
  then show ?thesis using nc v by blast
qed

definition demo_negative :: pyparse where
  "demo_negative e = (if e = ''level == -5'' then Some (ACompare (AName ''level'') [CEq] [AUnary UUSub (AConst (PInt 5))])
     else None)"

theorem contract_misses_negative_literal_witness:
  "let node = \<lparr>fn_name = ''a'', fn_instruction = [], fn_edges = [(''b'', ''when level == -5'')], fn_annotations = []\<rparr> in
   validate_output (node_contract_of demo_negative node) [(''level'', PStr ''high'')] = [] \<and>
   eval_condition demo_negative ''when level == -5'' [(''level'', PInt (- 5))] = Inr True"
proof -
  have e: "expr_of ''when level == -5'' = ''level == -5''" by code_simp
  have d: "is_deterministic ''when level == -5''" "\<not> is_keyword (expr_of ''when level == -5'')"
    "''level'' \<notin> set ENGINE_FIELDS" by code_simp+
  let ?node = "\<lparr>fn_name = ''a'', fn_instruction = [], fn_edges = [(''b'', ''when level == -5'')], fn_annotations = []\<rparr>"
  have p: "demo_negative (expr_of ''when level == -5'')
      = Some (ACompare (AName ''level'') [CEq] [AUnary UUSub (AConst (PInt 5))])"
    unfolding e by (simp add: demo_negative_def)
  have n: "fn_edges ?node = [(''b'', ''when level == -5'')]" by simp
  show ?thesis unfolding Let_def
    using contract_misses_negative_literal [where parse = demo_negative and node = ?node, OF d p n, of "PStr ''high''"] by fastforce
qed

lemma type_ok_number:
  assumes "py_type_ok ''number'' v" "v \<noteq> PNone"
  shows "\<exists>f. num_of v = Some f"
  using assms by (cases v) (auto simp: py_type_ok_def)



end
