(* ===== verification/Quantizer.thy ===== *)
theory Quantizer
  imports LevelM
begin

section \<open>The decision preserving quantizer\<close>

text \<open>
  \<open>src/prismpath/telemetry/quantizer.py\<close>: the atoms of a flow's conditions, the partition of each
  field's values into decision cells, the acceptance of a reading and the maps between readings and
  symbols. A tuple of constants is a list value; a refusal reason is the left side of a sum. A cell
  is a value of the kind of its partition, its representative is \<open>cell_rep\<close>. A partition without an
  absent cell has \<open>None\<close> as its absent symbol; using that as a symbol is a TypeError.
\<close>

datatype atom_op = ALt | ALtE | AGt | AGtE | AEq | ANotEq | AIn | ANotIn | ATruthy

type_synonym atom = "string \<times> atom_op \<times> pyval"

definition OTHER_CELL :: string where
  "OTHER_CELL = CHR 0x00 # ''__other__''"

fun cmp_sym :: "cmpop \<Rightarrow> atom_op option" where
  "cmp_sym CLt = Some ALt"
| "cmp_sym CLtE = Some ALtE"
| "cmp_sym CGt = Some AGt"
| "cmp_sym CGtE = Some AGtE"
| "cmp_sym CEq = Some AEq"
| "cmp_sym CNotEq = Some ANotEq"
| "cmp_sym _ = None"

fun flip_op :: "atom_op \<Rightarrow> atom_op" where
  "flip_op ALt = AGt"
| "flip_op ALtE = AGtE"
| "flip_op AGt = ALt"
| "flip_op AGtE = ALtE"
| "flip_op op = op"

subsection \<open>Atoms\<close>

fun const_value :: "ast \<Rightarrow> pyval option" where
  "const_value (AConst v) = Some v"
| "const_value _ = None"

definition members_atom :: "string \<Rightarrow> atom_op \<Rightarrow> ast list \<Rightarrow> atom list" where
  "members_atom x op elts =
     (let consts = List.map_filter const_value elts in
      if length consts = length elts then [(x, op, PList consts)] else [])"

fun compare_atoms :: "cmpop \<Rightarrow> ast \<Rightarrow> ast \<Rightarrow> atom list" where
  "compare_atoms op left right = (case cmp_sym op of
       Some rel \<Rightarrow> (case (left, right) of
           (AName x, AConst v) \<Rightarrow> [(x, rel, v)]
         | (AConst v, AName x) \<Rightarrow> [(x, flip_op rel, v)]
         | _ \<Rightarrow> [])
     | None \<Rightarrow> (case (left, collection right) of
           (AName x, Some elts) \<Rightarrow>
             (if op = CIn then members_atom x AIn elts
              else if op = CNotIn then members_atom x ANotIn elts else [])
         | _ \<Rightarrow> []))"

fun atoms_of :: "ast \<Rightarrow> atom list" where
  "atoms_of (ABoolOp _ vs) = concat (map atoms_of vs)"
| "atoms_of (AUnary UNot n) = atoms_of n"
| "atoms_of (AName x) = [(x, ATruthy, PNone)]"
| "atoms_of (ACompare left [op] (right # _)) = compare_atoms op left right"
| "atoms_of _ = []"

definition condition_atoms :: "pyparse \<Rightarrow> string \<Rightarrow> atom list" where
  "condition_atoms parse cond =
     (case expr_ast parse cond of None \<Rightarrow> [] | Some body \<Rightarrow> atoms_of (desugar_chains body))"

text \<open>The deterministic conditions of a flow, in document order, each with its node.\<close>

definition routed_edges :: "flow_graph \<Rightarrow> (string \<times> string) list" where
  "routed_edges graph =
     concat (map (\<lambda>(name, node). map (\<lambda>e. (name, snd e))
       (filter (\<lambda>e. is_deterministic (snd e) \<and> \<not> is_semantic (snd e)) (fn_edges node))) (fg_nodes graph))"

type_synonym field_atoms = "(string, (atom_op \<times> pyval) list) pydict"

definition add_atoms :: "field_atoms \<Rightarrow> atom list \<Rightarrow> field_atoms" where
  "add_atoms by_field ats = foldl (\<lambda>d (x, op, c). dict_append d x (op, c)) by_field ats"

definition flow_atoms :: "pyparse \<Rightarrow> flow_graph \<Rightarrow> field_atoms" where
  "flow_atoms parse graph = foldl add_atoms [] (map (\<lambda>(name, cond). condition_atoms parse cond) (routed_edges graph))"

subsection \<open>Cells and partitions\<close>

datatype cell = NumCell "int option" "int option" int | BoolCell bool | CatCell string | AbsentCell

fun cell_rep :: "cell \<Rightarrow> pyval" where
  "cell_rep (NumCell lo hi r) = PInt r"
| "cell_rep (BoolCell b) = PBool b"
| "cell_rep (CatCell c) = PStr c"
| "cell_rep AbsentCell = PNone"

record field_partition =
  fp_field :: string
  fp_kind :: string
  fp_cells :: "cell list"
  fp_definition :: "field_definition option"

definition NUMERIC :: string where "NUMERIC = ''numeric''"
definition BOOLEAN :: string where "BOOLEAN = ''boolean''"
definition CATEGORICAL :: string where "CATEGORICAL = ''categorical''"

definition absent_symbol :: "field_partition \<Rightarrow> nat option" where
  "absent_symbol p =
     (if fp_cells p \<noteq> [] \<and> last (fp_cells p) = AbsentCell then Some (length (fp_cells p) - 1) else None)"

definition numeric_view :: "pyval \<Rightarrow> int result" where
  "numeric_view v = (case v of
       PBool b \<Rightarrow> Inr (if b then 1 else 0)
     | PInt i \<Rightarrow> Inr i
     | PFloat (FFin q) \<Rightarrow> (if is_integral q then Inr \<lfloor>q\<rfloor> else Inl ValueError)
     | _ \<Rightarrow> Inl ValueError)"

definition SAFE_INTEGER_LIMIT :: int where "SAFE_INTEGER_LIMIT = 2 ^ 53"

definition accept_value :: "string \<Rightarrow> pyval \<Rightarrow> string + pyval" where
  "accept_value kind v =
     (if v = PNone then Inl REFUSAL_MISSING
      else if kind = NUMERIC then
        (case v of
            PBool b \<Rightarrow> Inr (PInt (if b then 1 else 0))
          | _ \<Rightarrow> ebind
              (case v of
                  PInt i \<Rightarrow> Inr i
                | PFloat (FFin q) \<Rightarrow> (if is_integral q then Inr \<lfloor>q\<rfloor> else Inl REFUSAL_FRACTIONAL)
                | PFloat _ \<Rightarrow> Inl REFUSAL_OUT_OF_RANGE
                | _ \<Rightarrow> Inl REFUSAL_WRONG_TYPE)
              (\<lambda>i. if - SAFE_INTEGER_LIMIT < i \<and> i < SAFE_INTEGER_LIMIT then Inr (PInt i)
                   else Inl REFUSAL_OUT_OF_RANGE))
      else if kind = BOOLEAN then
        (case num_of v of
            Some f \<Rightarrow> (if f = FFin 0 \<or> f = FFin 1 then Inr (PBool (f = FFin 1)) else Inl REFUSAL_WRONG_TYPE)
          | None \<Rightarrow> Inl REFUSAL_WRONG_TYPE)
      else (case v of PStr s \<Rightarrow> Inr v | _ \<Rightarrow> Inl REFUSAL_WRONG_TYPE))"

text \<open>The index of the first cell that passes a test which may raise.\<close>

fun first_cell :: "(cell \<Rightarrow> bool result) \<Rightarrow> cell list \<Rightarrow> nat option result" where
  "first_cell p [] = Inr None"
| "first_cell p (c # cs) = ebind (p c) (\<lambda>b.
     if b then Inr (Some 0) else ebind (first_cell p cs) (\<lambda>r. Inr (map_option Suc r)))"

fun in_cell :: "int \<Rightarrow> cell \<Rightarrow> bool result" where
  "in_cell i (NumCell lo hi _) =
     Inr ((case lo of None \<Rightarrow> True | Some l \<Rightarrow> l \<le> i) \<and> (case hi of None \<Rightarrow> True | Some h \<Rightarrow> i \<le> h))"
| "in_cell i _ = Inl KeyError"

definition other_symbol :: "field_partition \<Rightarrow> nat result" where
  "other_symbol p = ebind (first_cell (\<lambda>c. Inr (c = CatCell OTHER_CELL)) (fp_cells p)) (\<lambda>r.
     case r of None \<Rightarrow> Inl StopIteration | Some i \<Rightarrow> Inr i)"

definition const_cell :: "pyval \<Rightarrow> cell \<Rightarrow> bool" where
  "const_cell v c = (case c of CatCell k \<Rightarrow> py_eq (PStr k) v | _ \<Rightarrow> py_eq (PStr OTHER_CELL) v)"

definition inferred_symbol :: "field_partition \<Rightarrow> pyval \<Rightarrow> nat result" where
  "inferred_symbol p v =
     (if fp_kind p = NUMERIC then
        ebind (numeric_view v) (\<lambda>i.
        ebind (first_cell (in_cell i) (fp_cells p)) (\<lambda>r.
          case r of None \<Rightarrow> Inl ValueError | Some s \<Rightarrow> Inr s))
      else if fp_kind p = BOOLEAN then Inr (if truthy v then 1 else 0)
      else ebind (first_cell (\<lambda>c. Inr (const_cell v c)) (fp_cells p)) (\<lambda>r.
          case r of None \<Rightarrow> other_symbol p | Some s \<Rightarrow> Inr s))"

definition defined_symbol :: "field_partition \<Rightarrow> field_definition \<Rightarrow> pyval \<Rightarrow> nat result" where
  "defined_symbol p d v =
     (case accept_canonical d v of
         Inl reason \<Rightarrow> Inl (InputRefused (fp_field p) reason)
       | Inr canonical \<Rightarrow>
         (if canonical = PNone then (case absent_symbol p of None \<Rightarrow> Inl TypeError | Some s \<Rightarrow> Inr s)
          else if fp_kind p = CATEGORICAL then
            ebind (first_cell (\<lambda>c. Inr (case c of CatCell k \<Rightarrow> py_eq (PStr k) canonical | _ \<Rightarrow> False)) (fp_cells p))
              (\<lambda>r. case r of None \<Rightarrow> other_symbol p | Some s \<Rightarrow> Inr s)
          else inferred_symbol p canonical))"

definition symbol :: "field_partition \<Rightarrow> pyval \<Rightarrow> nat result" where
  "symbol p v = (case fp_definition p of
       Some d \<Rightarrow> defined_symbol p d v
     | None \<Rightarrow> (case accept_value (fp_kind p) v of
           Inl reason \<Rightarrow> Inl (InputRefused (fp_field p) reason)
         | Inr converted \<Rightarrow> inferred_symbol p converted))"

definition representative :: "field_partition \<Rightarrow> nat \<Rightarrow> pyval result" where
  "representative p s = (if s < length (fp_cells p) then Inr (cell_rep (fp_cells p ! s)) else Inl IndexError)"

definition boundary_refusal :: "field_partition \<Rightarrow> pyval \<Rightarrow> string option" where
  "boundary_refusal p v =
     (case (case fp_definition p of Some d \<Rightarrow> accept_canonical d v | None \<Rightarrow> accept_value (fp_kind p) v) of
        Inl reason \<Rightarrow> Some reason | Inr _ \<Rightarrow> None)"

type_synonym partitions = "(string, field_partition) pydict"
type_synonym symbols = "(string, nat) pydict"

definition checked_quantize :: "partitions \<Rightarrow> ctx \<Rightarrow> symbols result" where
  "checked_quantize parts reading =
     emap (\<lambda>x. case map_of parts x of
         None \<Rightarrow> Inl KeyError
       | Some p \<Rightarrow>
         if map_of reading x = None \<and> fp_definition p = None then Inl (InputRefused x REFUSAL_MISSING)
         else ebind (symbol p (ctx_get reading x)) (\<lambda>s. Inr (x, s)))
       (str_sort (map fst parts))"

subsection \<open>Building a partition\<close>

definition py_order_raise :: "ordop \<Rightarrow> pyval \<Rightarrow> pyval \<Rightarrow> bool result" where
  "py_order_raise op a b = (case py_order op a b of None \<Rightarrow> Inl TypeError | Some r \<Rightarrow> Inr r)"

definition py_in_raise :: "pyval \<Rightarrow> pyval \<Rightarrow> bool result" where
  "py_in_raise a b = (case py_in a b of None \<Rightarrow> Inl TypeError | Some r \<Rightarrow> Inr r)"

fun atom_true :: "atom_op \<Rightarrow> pyval \<Rightarrow> pyval \<Rightarrow> bool result" where
  "atom_true ALt c v = py_order_raise OLt v c"
| "atom_true ALtE c v = py_order_raise OLtE v c"
| "atom_true AGt c v = py_order_raise OGt v c"
| "atom_true AGtE c v = py_order_raise OGtE v c"
| "atom_true AEq c v = Inr (py_eq v c)"
| "atom_true ANotEq c v = Inr (\<not> py_eq v c)"
| "atom_true AIn c v = py_in_raise v c"
| "atom_true ANotIn c v = ebind (py_in_raise v c) (\<lambda>b. Inr (\<not> b))"
| "atom_true ATruthy c v = Inr (truthy v)"

text \<open>The members of an \<open>in\<close> list; iterating anything but a list, a string or a dictionary raises.\<close>

fun iterate :: "pyval \<Rightarrow> pyval list result" where
  "iterate (PList vs) = Inr vs"
| "iterate (PStr s) = Inr (map (\<lambda>c. PStr [c]) s)"
| "iterate (PDict d) = Inr (map (PStr \<circ> fst) d)"
| "iterate _ = Inl TypeError"

text \<open>\<open>int(const)\<close> of a constant that is not a float.\<close>

fun int_const :: "pyval \<Rightarrow> int result" where
  "int_const (PBool b) = Inr (if b then 1 else 0)"
| "int_const (PInt i) = Inr i"
| "int_const (PFloat _) = Inl ValueError"
| "int_const (PStr s) = (case py_int s of Some i \<Rightarrow> Inr i | None \<Rightarrow> Inl ValueError)"
| "int_const _ = Inl TypeError"

fun member_cuts :: "pyval list \<Rightarrow> int list result" where
  "member_cuts [] = Inr []"
| "member_cuts (PFloat f # vs) = Inl ValueError"
| "member_cuts (PInt i # vs) = ebind (member_cuts vs) (\<lambda>cs. Inr (i # cs))"
| "member_cuts (PBool b # vs) = ebind (member_cuts vs) (\<lambda>cs. Inr ((if b then 1 else 0) # cs))"
| "member_cuts (v # vs) = member_cuts vs"

definition atom_cuts :: "atom_op \<times> pyval \<Rightarrow> int list result" where
  "atom_cuts a = (case a of (op, c) \<Rightarrow>
     if op \<in> {ALt, ALtE, AGt, AGtE, AEq, ANotEq} then ebind (int_const c) (\<lambda>i. Inr [i])
     else if op \<in> {AIn, ANotIn} then ebind (iterate c) member_cuts
     else Inr [0])"

definition cut_points :: "(atom_op \<times> pyval) list \<Rightarrow> int list result" where
  "cut_points ats = ebind (emap atom_cuts ats) (\<lambda>css.
     let consts = sort (remdups (concat css)) in Inr (if consts = [] then [0] else consts))"

fun fine_from :: "int list \<Rightarrow> (int option \<times> int option) list" where
  "fine_from [] = []"
| "fine_from [c] = [(Some c, Some c), (Some (c + 1), None)]"
| "fine_from (c # c' # cs) =
     (Some c, Some c) # (if c + 1 \<le> c' - 1 then [(Some (c + 1), Some (c' - 1))] else []) @ fine_from (c' # cs)"

definition fine_cells :: "int list \<Rightarrow> (int option \<times> int option) list" where
  "fine_cells consts = (None, Some (hd consts - 1)) # fine_from consts"

fun cell_point :: "int option \<Rightarrow> int option \<Rightarrow> int" where
  "cell_point (Some lo) hi = lo"
| "cell_point None (Some hi) = hi"
| "cell_point None None = 0"

definition truth_vector :: "(atom_op \<times> pyval) list \<Rightarrow> int \<Rightarrow> bool list result" where
  "truth_vector ats i = emap (\<lambda>(op, c). atom_true op c (PInt i)) ats"

text \<open>
  The merge of adjacent fine cells with equal truth vectors; \<open>prev\<close> is the vector of the cell under
  construction, \<open>None\<close> before the first, and the cells are kept in reverse.
\<close>

fun merge_cells :: "(atom_op \<times> pyval) list \<Rightarrow> (int option \<times> int option) list \<Rightarrow> bool list option \<Rightarrow>
    (int option \<times> int option \<times> int) list \<Rightarrow> (int option \<times> int option \<times> int) list result" where
  "merge_cells ats [] prev cells = Inr (rev cells)"
| "merge_cells ats ((lo, hi) # fine) prev cells =
     ebind (truth_vector ats (cell_point lo hi)) (\<lambda>tv.
       case cells of
         (l, h, r) # cells' \<Rightarrow>
           (if prev = Some tv then merge_cells ats fine prev ((l, hi, r) # cells')
            else merge_cells ats fine (Some tv) ((lo, hi, cell_point lo hi) # cells))
       | [] \<Rightarrow> merge_cells ats fine (Some tv) [(lo, hi, cell_point lo hi)])"

definition numeric_partition :: "string \<Rightarrow> (atom_op \<times> pyval) list \<Rightarrow> field_partition result" where
  "numeric_partition x ats =
     ebind (cut_points ats) (\<lambda>consts.
     ebind (merge_cells ats (fine_cells consts) None []) (\<lambda>cells.
       Inr \<lparr>fp_field = x, fp_kind = NUMERIC, fp_cells = map (\<lambda>(lo, hi, r). NumCell lo hi r) cells,
            fp_definition = None\<rparr>))"

definition boolean_partition :: "string \<Rightarrow> field_partition" where
  "boolean_partition x =
     \<lparr>fp_field = x, fp_kind = BOOLEAN, fp_cells = [BoolCell False, BoolCell True], fp_definition = None\<rparr>"

definition atom_members :: "atom_op \<times> pyval \<Rightarrow> pyval list result" where
  "atom_members a = (case a of (op, c) \<Rightarrow>
     if op = ATruthy then Inr [PStr ''''] else if op \<in> {AIn, ANotIn} then iterate c else Inr [c])"

fun add_consts :: "string list \<Rightarrow> pyval list \<Rightarrow> string list" where
  "add_consts consts [] = consts"
| "add_consts consts (PStr s # vs) = add_consts (if s \<in> set consts then consts else consts @ [s]) vs"
| "add_consts consts (v # vs) = add_consts consts vs"

definition categorical_partition :: "string \<Rightarrow> (atom_op \<times> pyval) list \<Rightarrow> field_partition result" where
  "categorical_partition x ats =
     ebind (emap atom_members ats) (\<lambda>vss.
       Inr \<lparr>fp_field = x, fp_kind = CATEGORICAL,
            fp_cells = map CatCell (add_consts [] (concat vss)) @ [CatCell OTHER_CELL], fp_definition = None\<rparr>)"

fun is_float :: "pyval \<Rightarrow> bool" where
  "is_float (PFloat _) = True"
| "is_float _ = False"

fun is_str :: "pyval \<Rightarrow> bool" where
  "is_str (PStr _) = True"
| "is_str _ = False"

fun is_int :: "pyval \<Rightarrow> bool" where
  "is_int (PInt _) = True"
| "is_int _ = False"

fun is_bool :: "pyval \<Rightarrow> bool" where
  "is_bool (PBool _) = True"
| "is_bool _ = False"

definition flat_consts :: "(atom_op \<times> pyval) list \<Rightarrow> pyval list result" where
  "flat_consts ats = ebind (emap (\<lambda>(op, c).
     if op \<in> {AIn, ANotIn} then iterate c else Inr (if op \<noteq> ATruthy then [c] else [])) ats) (\<lambda>vss. Inr (concat vss))"

definition classify_kind :: "(atom_op \<times> pyval) list \<Rightarrow> string result" where
  "classify_kind ats = ebind (flat_consts ats) (\<lambda>flat.
     if list_ex (\<lambda>v. is_float v \<or> v = PNone) flat then Inl ValueError
     else let has_str = list_ex is_str flat; has_bool = list_ex is_bool flat; has_int = list_ex is_int flat in
       if has_str \<and> (has_int \<or> has_bool) then Inl ValueError
       else Inr (if has_str then CATEGORICAL else if has_int then NUMERIC else BOOLEAN))"

definition conditions_outside_level_m :: "pyparse \<Rightarrow> flow_graph \<Rightarrow> (string \<times> string \<times> string) list" where
  "conditions_outside_level_m parse graph =
     concat (map (\<lambda>(name, cond). let (ok, reason) = is_level_m parse cond in
       if ok then [] else [(name, cond, case reason of None \<Rightarrow> ''not-level-m'' | Some r \<Rightarrow> r)]) (routed_edges graph))"

definition build_kind :: "string \<Rightarrow> string \<Rightarrow> (atom_op \<times> pyval) list \<Rightarrow> field_partition result" where
  "build_kind kind x ats =
     (if kind = NUMERIC then numeric_partition x ats
      else if kind = CATEGORICAL then categorical_partition x ats
      else Inr (boolean_partition x))"

subsection \<open>Partitions of a flow that defines its fields\<close>

definition kind_of_definition :: "string \<Rightarrow> string result" where
  "kind_of_definition kind =
     (if kind = KIND_INT \<or> kind = KIND_FIXED then Inr NUMERIC
      else if kind = KIND_BOOL then Inr BOOLEAN
      else if kind = KIND_CATEGORY then Inr CATEGORICAL
      else Inl KeyError)"

definition defined_partition :: "field_definition \<Rightarrow> string \<Rightarrow> (atom_op \<times> pyval) list \<Rightarrow> field_partition result" where
  "defined_partition d x ats =
     (let present_atoms = filter (\<lambda>(op, c). c \<noteq> PNone \<or> op = ATruthy) ats in
      ebind (kind_of_definition (fd_kind d)) (\<lambda>kind.
      ebind (build_kind kind x present_atoms) (\<lambda>built.
        Inr \<lparr>fp_field = x, fp_kind = kind,
             fp_cells = fp_cells built @ (if fd_absent_allowed d then [AbsentCell] else []),
             fp_definition = Some d\<rparr>)))"

definition defined_partitions :: "flow_graph \<Rightarrow> field_atoms \<Rightarrow> partitions result" where
  "defined_partitions graph atoms_by_field =
     emap (\<lambda>(x, ats). ebind (case map_of (fg_fields graph) x of
         None \<Rightarrow> ebind (classify_kind ats) (\<lambda>kind. build_kind kind x ats)
       | Some d \<Rightarrow> defined_partition d x ats) (\<lambda>p. Inr (x, p))) atoms_by_field"

definition build_partitions :: "pyparse \<Rightarrow> flow_graph \<Rightarrow> partitions result" where
  "build_partitions parse graph =
     (let atoms_by_field = flow_atoms parse graph in
      if fg_fields graph \<noteq> [] then defined_partitions graph atoms_by_field
      else ebind (emap (\<lambda>(x, ats). ebind (classify_kind ats) (\<lambda>kind. Inr (x, kind, ats))) atoms_by_field) (\<lambda>kinds.
        if conditions_outside_level_m parse graph \<noteq> [] then Inl ValueError
        else emap (\<lambda>(x, kind, ats). ebind (build_kind kind x ats) (\<lambda>p. Inr (x, p))) kinds))"

subsection \<open>Readings and symbols\<close>

definition quantize :: "partitions \<Rightarrow> ctx \<Rightarrow> symbols result" where
  "quantize parts reading =
     emap (\<lambda>(x, p). ebind (symbol p (ctx_get reading x)) (\<lambda>s. Inr (x, s)))
       (filter (\<lambda>(x, p). map_of reading x \<noteq> None \<or> fp_definition p \<noteq> None) parts)"

definition reconstruct :: "partitions \<Rightarrow> symbols \<Rightarrow> ctx result" where
  "reconstruct parts syms =
     ebind (emap (\<lambda>(x, s). case map_of parts x of
         None \<Rightarrow> Inr []
       | Some p \<Rightarrow> ebind (representative p s) (\<lambda>v. Inr [(x, v)])) syms) (\<lambda>rows. Inr (concat rows))"

end
