(* ===== verification/QuantizerSound.thy ===== *)
theory QuantizerSound
  imports Quantizer
begin

section \<open>The quantizer preserves decisions\<close>

text \<open>
  Every atom of a flow has the same truth on an accepted reading and on the representative of its cell;
  hence every deterministic condition of the flow does.
\<close>

subsection \<open>Atoms as the engine evaluates them\<close>

fun holds :: "atom_op \<Rightarrow> pyval \<Rightarrow> pyval \<Rightarrow> bool" where
  "holds ALt c v = (py_order OLt v c = Some True)"
| "holds ALtE c v = (py_order OLtE v c = Some True)"
| "holds AGt c v = (py_order OGt v c = Some True)"
| "holds AGtE c v = (py_order OGtE v c = Some True)"
| "holds AEq c v = py_eq v c"
| "holds ANotEq c v = (\<not> py_eq v c)"
| "holds AIn c v = (py_in v c = Some True)"
| "holds ANotIn c v = (py_in v c \<noteq> Some True)"
| "holds ATruthy c v = truthy v"

lemma atom_true_holds: "atom_true op c v = Inr b \<Longrightarrow> holds op c v = b"
  by (cases op) (auto simp: py_order_raise_def py_in_raise_def ebind_eq_Inr split: option.splits)

text \<open>Two numbers with the same exact value are the same to every atom.\<close>

lemma float_num_same:
  assumes "num_of v = Some (FFin a)" "num_of w = Some (FFin a)"
  shows "py_eq v c = py_eq w c" "py_eq c v = py_eq c w" "py_order op v c = py_order op w c"
    "py_same y v = py_same y w"
proof -
  show "py_eq v c = py_eq w c" using assms by (cases "num_of c") (simp_all add: py_eq_num)
  show e: "py_eq c v = py_eq c w" for c using assms by (cases "num_of c") (simp_all add: py_eq_num)
  show "py_order op v c = py_order op w c" using assms by (cases "num_of c") (simp_all add: py_order_num)
  have "\<not> same_nan y v" "\<not> same_nan y w"
    using assms by (cases "(y, v)" rule: same_nan.cases; cases "(y, w)" rule: same_nan.cases; auto)+
  then show "py_same y v = py_same y w" using e [of y] by (simp add: py_same_def)
qed

lemma num_not_containers: "num_of v = Some f \<Longrightarrow> v \<noteq> PNone \<and> (\<forall>s. v \<noteq> PStr s) \<and> (\<forall>xs. v \<noteq> PList xs) \<and> (\<forall>d. v \<noteq> PDict d)"
  by auto

lemma holds_num_same:
  assumes "num_of v = Some (FFin a)" "num_of w = Some (FFin a)"
  shows "holds op c v = holds op c w"
proof -
  have i: "py_in v c = py_in w c"
    using float_num_same(4) [OF assms] num_not_containers [OF assms(1)] num_not_containers [OF assms(2)]
    by (cases c) (auto split: pyval.splits)
  have t: "truthy v = truthy w"
    using assms by (cases v; cases w) (auto split: if_splits)
  show ?thesis using i t float_num_same [OF assms] by (cases op) simp_all
qed

subsection \<open>Numeric cells\<close>

definition agree :: "int list \<Rightarrow> int \<Rightarrow> int \<Rightarrow> bool" where
  "agree cs i j \<longleftrightarrow> (\<forall>k \<in> set cs. (i < k \<longleftrightarrow> j < k) \<and> (k < i \<longleftrightarrow> k < j))"

lemma agree_eq: "agree cs i j \<Longrightarrow> k \<in> set cs \<Longrightarrow> i = k \<longleftrightarrow> j = k"
  unfolding agree_def by (metis linorder_neq_iff)

lemma int_const_num: "int_const c = Inr k \<Longrightarrow> num_of c = Some (FFin (of_int k)) \<or> (\<exists>s. c = PStr s)"
  by (cases c) (auto split: if_splits option.splits)

lemma py_eq_int_num: "num_of c = Some (FFin (of_int k)) \<Longrightarrow> py_eq (PInt i) c \<longleftrightarrow> i = k"
  "num_of c = Some (FFin (of_int k)) \<Longrightarrow> py_eq c (PInt i) \<longleftrightarrow> i = k"
  by (simp_all add: py_eq_num) auto

lemma py_order_int_num: "num_of c = Some (FFin (of_int k)) \<Longrightarrow>
    py_order op (PInt i) c = Some (ord_of op (i < k) (k < i))"
  by (simp add: py_order_num float_order_def)

lemma py_eq_int_none: "num_of y = None \<Longrightarrow> \<not> py_same y (PInt i)"
  by (cases y) (simp_all add: py_same_def py_eq_num)

lemma py_order_int_str: "py_order op (PInt i) (PStr s) = None"
  by (simp add: py_order_num(2))

lemma member_cuts_agree:
  assumes "member_cuts vs = Inr ks" "agree cs i j" "set ks \<subseteq> set cs"
  shows "list_ex (\<lambda>y. py_same y (PInt i)) vs = list_ex (\<lambda>y. py_same y (PInt j)) vs"
  using assms
proof (induction vs arbitrary: ks rule: member_cuts.induct)
  case (3 k vs)
  then obtain ks' where "member_cuts vs = Inr ks'" "ks = k # ks'" by (auto simp: ebind_eq_Inr)
  then show ?case using 3 agree_eq [OF 3(3), of k] by (auto simp: py_same_def)
next
  case (4 b vs)
  then obtain ks' where "member_cuts vs = Inr ks'" "ks = (if b then 1 else 0) # ks'" by (auto simp: ebind_eq_Inr)
  then show ?case using 4 agree_eq [OF 4(3), of "if b then 1 else 0"] by (auto simp: py_same_def)
qed (simp_all add: py_eq_int_none)

lemma holds_agree:
  assumes "atom_cuts (op, c) = Inr ks" "agree cs i j" "set ks \<subseteq> set cs"
  shows "holds op c (PInt i) = holds op c (PInt j)"
proof -
  consider (order) k where "op \<in> {ALt, ALtE, AGt, AGtE, AEq, ANotEq}" "int_const c = Inr k" "ks = [k]"
    | (member) vs where "op \<in> {AIn, ANotIn}" "iterate c = Inr vs" "member_cuts vs = Inr ks"
    | (truthy) "op = ATruthy" "ks = [0]"
    using assms(1) by (cases op) (auto simp: atom_cuts_def ebind_eq_Inr)
  then show ?thesis
  proof cases
    case order
    then have k: "(i < k \<longleftrightarrow> j < k) \<and> (k < i \<longleftrightarrow> k < j)" "i = k \<longleftrightarrow> j = k"
      using assms(2,3) agree_eq [OF assms(2)] by (auto simp: agree_def)
    from int_const_num [OF order(2)] show ?thesis
    proof
      assume "num_of c = Some (FFin (of_int k))"
      then show ?thesis using k order(1) by (auto simp: py_eq_int_num py_order_int_num)
    next
      assume "\<exists>s. c = PStr s"
      then show ?thesis using order(1) by (auto simp: py_order_int_str)
    qed
  next
    case member
    have "py_in (PInt i) c = py_in (PInt j) c"
      using member(2) member_cuts_agree [OF member(3) assms(2,3)] by (cases c) auto
    then show ?thesis using member(1) by auto
  next
    case truthy
    then show ?thesis using agree_eq [OF assms(2), of 0] assms(3) by simp
  qed
qed

lemma cut_points_set:
  assumes "cut_points ats = Inr cs"
  shows "\<exists>css. emap atom_cuts ats = Inr css \<and> set (concat css) \<subseteq> set cs \<and> cs \<noteq> [] \<and> sorted_wrt (<) cs"
proof -
  obtain css where css: "emap atom_cuts ats = Inr css"
    and cs: "cs = (if sort (remdups (concat css)) = [] then [0] else sort (remdups (concat css)))"
    using assms by (auto simp: cut_points_def ebind_eq_Inr Let_def)
  have st: "set (sort (remdups (concat css))) = set (concat css)" by simp
  have sub: "set (concat css) \<subseteq> set cs"
  proof (cases "sort (remdups (concat css)) = []")
    case True
    then have "set (concat css) = {}" using st by simp
    then show ?thesis by (simp only: empty_subsetI)
  next
    case False
    then show ?thesis using cs st by simp
  qed
  have "sorted_wrt (<) (sort (remdups (concat css)))" by (simp add: strict_sorted_iff)
  then have "cs \<noteq> [] \<and> sorted_wrt (<) cs" using cs by auto
  then show ?thesis using css sub by blast
qed

definition int_truth :: "(atom_op \<times> pyval) list \<Rightarrow> int \<Rightarrow> bool list" where
  "int_truth ats i = map (\<lambda>(op, c). holds op c (PInt i)) ats"

lemma truth_vector_Inr:
  assumes "truth_vector ats i = Inr tv"
  shows "tv = int_truth ats i"
proof (rule nth_equalityI)
  show len: "length tv = length (int_truth ats i)" using assms by (simp add: truth_vector_def int_truth_def emap_Inr_iff)
  fix m assume m: "m < length tv"
  obtain op c where oc: "ats ! m = (op, c)" by (cases "ats ! m")
  have "m < length ats" using m len by (simp add: int_truth_def)
  then have "atom_true op c (PInt i) = Inr (tv ! m)"
    using assms oc by (fastforce simp: truth_vector_def emap_Inr_iff)
  then show "tv ! m = int_truth ats i ! m"
    using atom_true_holds oc \<open>m < length ats\<close> by (simp add: int_truth_def)
qed

lemma int_truth_agree:
  assumes "cut_points ats = Inr cs" "agree cs i j"
  shows "int_truth ats i = int_truth ats j"
proof -
  obtain css where css: "emap atom_cuts ats = Inr css" "set (concat css) \<subseteq> set cs"
    using cut_points_set [OF assms(1)] by blast
  have "holds op c (PInt i) = holds op c (PInt j)" if mem: "(op, c) \<in> set ats" for op c
  proof -
    obtain m where m: "m < length ats" "ats ! m = (op, c)" using mem by (auto simp: in_set_conv_nth)
    then have "atom_cuts (op, c) = Inr (css ! m)" "m < length css" using css(1) by (auto simp: emap_Inr_iff)
    moreover have "set (css ! m) \<subseteq> set cs" using css(2) nth_mem [OF calculation(2)] by (auto simp: subset_iff)
    ultimately show ?thesis using holds_agree assms(2) by blast
  qed
  then show ?thesis by (auto simp: int_truth_def)
qed

definition in_range :: "int option \<Rightarrow> int option \<Rightarrow> int \<Rightarrow> bool" where
  "in_range lo hi i \<longleftrightarrow> (case lo of None \<Rightarrow> True | Some l \<Rightarrow> l \<le> i) \<and> (case hi of None \<Rightarrow> True | Some h \<Rightarrow> i \<le> h)"

fun nonempty_cell :: "int option \<times> int option \<Rightarrow> bool" where
  "nonempty_cell (Some l, Some h) = (l \<le> h)"
| "nonempty_cell _ = True"

fun linked :: "(int option \<times> int option) list \<Rightarrow> bool" where
  "linked ((lo, hi) # (lo', hi') # fine) =
     (nonempty_cell (lo, hi) \<and> (\<exists>h. hi = Some h \<and> lo' = Some (h + 1)) \<and> linked ((lo', hi') # fine))"
| "linked [x] = nonempty_cell x"
| "linked [] = True"

lemma in_range_point: "nonempty_cell (lo, hi) \<Longrightarrow> in_range lo hi (cell_point lo hi)"
  by (cases lo; cases hi) (auto simp: in_range_def)

lemma in_range_nonempty: "in_range lo hi i \<Longrightarrow> nonempty_cell (lo, hi)"
  by (cases lo; cases hi) (auto simp: in_range_def)

lemma fine_from_linked:
  "sorted_wrt (<) cs \<Longrightarrow> cs \<noteq> [] \<Longrightarrow> linked (fine_from cs) \<and> (\<exists>hi fs. fine_from cs = (Some (hd cs), hi) # fs)"
proof (induction cs rule: fine_from.induct)
  case (3 c c' cs)
  have lt: "c < c'" using 3(2) by simp
  obtain hi fs where f: "fine_from (c' # cs) = (Some c', hi) # fs" "linked (fine_from (c' # cs))"
    using 3 by auto
  then show ?case using lt by auto
qed auto

lemma fine_from_ge:
  "sorted_wrt (<) cs \<Longrightarrow> (lo, hi) \<in> set (fine_from cs) \<Longrightarrow> in_range lo hi i \<Longrightarrow> hd cs \<le> i"
proof (induction cs rule: fine_from.induct)
  case (3 c c' cs)
  have lt: "c < c'" using 3(2) by simp
  consider "lo = Some c" | "lo = Some (c + 1)" | "(lo, hi) \<in> set (fine_from (c' # cs))"
    using 3(3) by (auto split: if_splits)
  then show ?case
  proof cases
    case 3
    then show ?thesis using "3.IH" "3.prems" lt by simp
  qed (use 3(4) in \<open>auto simp: in_range_def\<close>)
qed (auto simp: in_range_def)

lemma fine_from_agree:
  "sorted_wrt (<) cs \<Longrightarrow> (lo, hi) \<in> set (fine_from cs) \<Longrightarrow> in_range lo hi i \<Longrightarrow> in_range lo hi j \<Longrightarrow> agree cs i j"
proof (induction cs rule: fine_from.induct)
  case (2 c)
  then show ?case by (auto simp: in_range_def agree_def)
next
  case (3 c c' cs)
  have lt: "c < c'" and rest: "\<forall>k \<in> set cs. c' < k" and st: "sorted_wrt (<) (c' # cs)" using 3(2) by auto
  consider "lo = Some c" "hi = Some c" | "lo = Some (c + 1)" "hi = Some (c' - 1)" "c + 1 \<le> c' - 1"
    | "(lo, hi) \<in> set (fine_from (c' # cs))"
    using 3(3) by (auto split: if_splits)
  then show ?case
  proof cases
    case 1
    then show ?thesis using 3(4,5) by (auto simp: in_range_def agree_def)
  next
    case 2
    then show ?thesis using 3(4,5) lt rest by (force simp: in_range_def agree_def)
  next
    case mem: 3
    have "agree (c' # cs) i j" using "3.IH" [OF st mem 3(4,5)] .
    moreover have "c' \<le> i" "c' \<le> j" using fine_from_ge [OF st mem] 3(4,5) by auto
    ultimately show ?thesis using lt by (auto simp: agree_def)
  qed
qed simp

lemma fine_cells_agree:
  assumes "sorted_wrt (<) cs" "cs \<noteq> []" "(lo, hi) \<in> set (fine_cells cs)" "in_range lo hi i" "in_range lo hi j"
  shows "agree cs i j"
proof (cases "(lo, hi) \<in> set (fine_from cs)")
  case True
  then show ?thesis using fine_from_agree assms by blast
next
  case False
  then have "lo = None" "hi = Some (hd cs - 1)" using assms(3) by (auto simp: fine_cells_def)
  then have "i < hd cs" "j < hd cs" using assms(4,5) by (auto simp: in_range_def)
  moreover have "\<forall>k \<in> set cs. hd cs \<le> k" using assms(1,2) by (cases cs) auto
  ultimately show ?thesis by (fastforce simp: agree_def)
qed

lemma fine_cells_linked: "sorted_wrt (<) cs \<Longrightarrow> cs \<noteq> [] \<Longrightarrow> linked (fine_cells cs)"
  using fine_from_linked [of cs] by (auto simp: fine_cells_def)

lemma fine_from_cover:
  "sorted_wrt (<) cs \<Longrightarrow> cs \<noteq> [] \<Longrightarrow> hd cs \<le> i \<Longrightarrow> \<exists>lo hi. (lo, hi) \<in> set (fine_from cs) \<and> in_range lo hi i"
proof (induction cs rule: fine_from.induct)
  case (2 c)
  then have "in_range (Some c) (Some c) i \<or> in_range (Some (c + 1)) None i" by (auto simp: in_range_def)
  then show ?case by auto
next
  case (3 c c' cs)
  consider "i = c" | "c < i" "i < c'" | "c' \<le> i" using 3(4) by force
  then show ?case
  proof cases
    case 1
    then have "in_range (Some c) (Some c) i" by (simp add: in_range_def)
    moreover have "(Some c, Some c) \<in> set (fine_from (c # c' # cs))" by simp
    ultimately show ?thesis by blast
  next
    case 2
    then have "in_range (Some (c + 1)) (Some (c' - 1)) i" "c + 1 \<le> c' - 1" by (auto simp: in_range_def)
    moreover from this have "(Some (c + 1), Some (c' - 1)) \<in> set (fine_from (c # c' # cs))" by simp
    ultimately show ?thesis by blast
  next
    case 3
    then obtain lo hi where "(lo, hi) \<in> set (fine_from (c' # cs))" "in_range lo hi i"
      using "3.IH" "3.prems" by auto
    then show ?thesis by auto
  qed
qed simp

lemma fine_cells_cover:
  assumes "sorted_wrt (<) cs" "cs \<noteq> []"
  shows "\<exists>lo hi. (lo, hi) \<in> set (fine_cells cs) \<and> in_range lo hi i"
proof (cases "hd cs \<le> i")
  case True
  then show ?thesis using fine_from_cover [OF assms] by (force simp: fine_cells_def)
next
  case False
  then have "in_range None (Some (hd cs - 1)) i" by (simp add: in_range_def)
  then show ?thesis by (force simp: fine_cells_def)
qed

subsection \<open>The merge\<close>

definition cell_ok :: "(atom_op \<times> pyval) list \<Rightarrow> int option \<times> int option \<times> int \<Rightarrow> bool" where
  "cell_ok ats c = (case c of (lo, hi, r) \<Rightarrow> \<forall>i. in_range lo hi i \<longrightarrow> int_truth ats i = int_truth ats r)"

definition covers :: "(int option \<times> int option \<times> int) list \<Rightarrow> int \<Rightarrow> bool" where
  "covers cells i = list_ex (\<lambda>(lo, hi, r). in_range lo hi i) cells"

definition fine_covers :: "(int option \<times> int option) list \<Rightarrow> int \<Rightarrow> bool" where
  "fine_covers fine i = list_ex (\<lambda>(lo, hi). in_range lo hi i) fine"

lemma in_range_join:
  assumes "nonempty_cell (l, Some h)" "nonempty_cell (Some (h + 1), hi)"
  shows "in_range l hi i \<longleftrightarrow> in_range l (Some h) i \<or> in_range (Some (h + 1)) hi i"
  using assms by (cases l; cases hi) (auto simp: in_range_def)

lemma merge_cells_spec:
  assumes "merge_cells ats fine prev cells = Inr out"
    and "\<And>lo hi i. (lo, hi) \<in> set fine \<Longrightarrow> in_range lo hi i \<Longrightarrow> int_truth ats i = int_truth ats (cell_point lo hi)"
    and "list_all (cell_ok ats) cells"
    and "cells \<noteq> [] \<Longrightarrow> prev = Some (int_truth ats (snd (snd (hd cells))))"
    and "linked ((case cells of [] \<Rightarrow> [] | (l, h, r) # _ \<Rightarrow> [(l, h)]) @ fine)"
  shows "list_all (cell_ok ats) out \<and> (\<forall>i. covers cells i \<or> fine_covers fine i \<longrightarrow> covers out i)"
  using assms
proof (induction ats fine prev cells rule: merge_cells.induct)
  case (1 ats prev cells)
  then show ?case by (auto simp: covers_def fine_covers_def)
next
  case (2 ats lo hi fine prev cells)
  obtain tv where tv: "truth_vector ats (cell_point lo hi) = Inr tv" using "2.prems"(1) by (auto simp: ebind_eq_Inr)
  have tvi: "tv = int_truth ats (cell_point lo hi)" by (rule truth_vector_Inr [OF tv])
  have fine_ok: "\<And>l h i. (l, h) \<in> set fine \<Longrightarrow> in_range l h i \<Longrightarrow> int_truth ats i = int_truth ats (cell_point l h)"
    using "2.prems"(2) by simp
  have new_ok: "cell_ok ats (lo, hi, cell_point lo hi)" using "2.prems"(2) [of lo hi] by (simp add: cell_ok_def)
  show ?case
  proof (cases cells)
    case Nil
    have m: "merge_cells ats fine (Some tv) [(lo, hi, cell_point lo hi)] = Inr out"
      using "2.prems"(1) tv Nil by simp
    have "list_all (cell_ok ats) out \<and>
        (\<forall>i. covers [(lo, hi, cell_point lo hi)] i \<or> fine_covers fine i \<longrightarrow> covers out i)"
      by (rule "2.IH"(1) [OF tv Nil m fine_ok]) (use new_ok tvi "2.prems"(5) Nil in auto)
    then show ?thesis using Nil by (auto simp: covers_def fine_covers_def)
  next
    case (Cons c cells')
    obtain l h r where c: "c = (l, h, r)" by (cases c)
    obtain b where b: "h = Some b" "lo = Some (b + 1)" "nonempty_cell (l, Some b)" "linked ((lo, hi) # fine)"
      using "2.prems"(5) Cons c by auto
    have ne: "nonempty_cell (Some (b + 1), hi)" using b by (cases fine) auto
    note join = in_range_join [OF b(3) ne]
    have cok: "cell_ok ats (l, h, r)" "list_all (cell_ok ats) cells'" using "2.prems"(3) Cons c by auto
    have prev: "prev = Some (int_truth ats r)" using "2.prems"(4) Cons c by simp
    show ?thesis
    proof (cases "prev = Some tv")
      case True
      have m: "merge_cells ats fine prev ((l, hi, r) # cells') = Inr out" using "2.prems"(1) tv Cons c True by simp
      have "int_truth ats i = int_truth ats r" if "in_range l hi i" for i
        using that cok(1) new_ok join [of i] b prev True tvi by (auto simp: cell_ok_def)
      then have ok: "list_all (cell_ok ats) ((l, hi, r) # cells')" using cok(2) by (simp add: cell_ok_def)
      have lk: "linked ((l, hi) # fine)"
        using b ne by (cases fine; cases l; cases hi) auto
      have "list_all (cell_ok ats) out \<and>
          (\<forall>i. covers ((l, hi, r) # cells') i \<or> fine_covers fine i \<longrightarrow> covers out i)"
        by (rule "2.IH"(2) [OF tv Cons c [symmetric] refl True m fine_ok ok]) (use prev lk in auto)
      moreover have "covers cells i \<or> fine_covers ((lo, hi) # fine) i \<Longrightarrow>
          covers ((l, hi, r) # cells') i \<or> fine_covers fine i" for i
        using join [of i] b Cons c by (auto simp: covers_def fine_covers_def)
      ultimately show ?thesis by blast
    next
      case False
      have m: "merge_cells ats fine (Some tv) ((lo, hi, cell_point lo hi) # cells) = Inr out"
        using "2.prems"(1) tv Cons c False by simp
      have "list_all (cell_ok ats) out \<and>
          (\<forall>i. covers ((lo, hi, cell_point lo hi) # cells) i \<or> fine_covers fine i \<longrightarrow> covers out i)"
        by (rule "2.IH"(3) [OF tv Cons c [symmetric] refl False m fine_ok]) (use new_ok "2.prems"(3) tvi b in auto)
      then show ?thesis by (auto simp: covers_def fine_covers_def)
    qed
  qed
qed

subsection \<open>One field\<close>

definition decides_alike :: "(atom_op \<times> pyval) list \<Rightarrow> pyval \<Rightarrow> pyval \<Rightarrow> bool" where
  "decides_alike ats v w \<longleftrightarrow> (\<forall>(op, c) \<in> set ats. holds op c v = holds op c w)"

lemma decides_alike_trans: "decides_alike ats u v \<Longrightarrow> decides_alike ats v w \<Longrightarrow> decides_alike ats u w"
  by (auto simp: decides_alike_def)

lemma decides_alike_num:
  "num_of v = Some (FFin a) \<Longrightarrow> num_of w = Some (FFin a) \<Longrightarrow> decides_alike ats v w"
  unfolding decides_alike_def by (auto dest: holds_num_same)

lemma first_cell_Some: "first_cell p cs = Inr (Some s) \<Longrightarrow> s < length cs \<and> p (cs ! s) = Inr True"
proof (induction cs arbitrary: s)
  case (Cons c cs)
  then show ?case by (auto simp: ebind_eq_Inr split: if_splits)
qed simp

lemma first_cell_None: "first_cell p cs = Inr None \<Longrightarrow> c \<in> set cs \<Longrightarrow> p c = Inr False"
proof (induction cs)
  case (Cons d cs)
  then show ?case by (auto simp: ebind_eq_Inr split: if_splits)
qed simp

lemma first_cell_total: "(\<And>c. c \<in> set cs \<Longrightarrow> \<exists>b. p c = Inr b) \<Longrightarrow> \<exists>r. first_cell p cs = Inr r"
proof (induction cs)
  case (Cons c cs)
  obtain b where "p c = Inr b" using Cons.prems by force
  moreover obtain r where "first_cell p cs = Inr r" using Cons by force
  ultimately show ?case by auto
qed simp

lemma accept_numeric:
  assumes "accept_value NUMERIC v = Inr w"
  shows "\<exists>i. w = PInt i \<and> num_of v = Some (FFin (of_int i))"
proof (cases v)
  case (PFloat f)
  then show ?thesis using assms by (cases f) (auto simp: accept_value_def ebind_eq_Inr is_integral_def split: if_splits)
qed (use assms in \<open>auto simp: accept_value_def ebind_eq_Inr split: if_splits\<close>)

lemma accept_boolean:
  assumes "accept_value BOOLEAN v = Inr w"
  shows "\<exists>b. w = PBool b \<and> num_of v = num_of (PBool b)"
proof -
  have nb: "BOOLEAN \<noteq> NUMERIC" by (simp add: NUMERIC_def BOOLEAN_def)
  obtain f where f: "num_of v = Some f" "f = FFin 0 \<or> f = FFin 1" "w = PBool (f = FFin 1)"
    using assms nb by (auto simp: accept_value_def split: option.splits if_splits)
  then show ?thesis by auto
qed

lemma accept_categorical:
  assumes "accept_value CATEGORICAL v = Inr w"
  shows "\<exists>s. v = PStr s \<and> w = PStr s"
  using assms by (cases v) (auto simp: accept_value_def NUMERIC_def BOOLEAN_def CATEGORICAL_def)

lemma numeric_field:
  assumes "numeric_partition x ats = Inr p"
  shows "\<exists>s. inferred_symbol p (PInt i) = Inr s \<and> s < length (fp_cells p) \<and>
    decides_alike ats (PInt i) (cell_rep (fp_cells p ! s))"
proof -
  obtain cs cells where cs: "cut_points ats = Inr cs"
    and m: "merge_cells ats (fine_cells cs) None [] = Inr cells"
    and p: "p = \<lparr>fp_field = x, fp_kind = NUMERIC, fp_cells = map (\<lambda>(lo, hi, r). NumCell lo hi r) cells, fp_definition = None\<rparr>"
    using assms by (auto simp: numeric_partition_def ebind_eq_Inr)
  have so: "sorted_wrt (<) cs" "cs \<noteq> []" using cut_points_set [OF cs] by auto
  have fo: "int_truth ats j = int_truth ats (cell_point lo hi)" if "(lo, hi) \<in> set (fine_cells cs)" "in_range lo hi j" for lo hi j
  proof -
    have "nonempty_cell (lo, hi)" by (rule in_range_nonempty [OF that(2)])
    then show ?thesis
      using int_truth_agree [OF cs] fine_cells_agree [OF so that in_range_point] by blast
  qed
  have sp: "list_all (cell_ok ats) cells \<and> (\<forall>i. covers [] i \<or> fine_covers (fine_cells cs) i \<longrightarrow> covers cells i)"
    by (rule merge_cells_spec [OF m fo]) (use fine_cells_linked [OF so] in auto)
  have "covers cells i" using sp fine_cells_cover [OF so, of i] by (auto simp: fine_covers_def list_ex_iff)
  then obtain lo hi r where c: "(lo, hi, r) \<in> set cells" "in_range lo hi i" by (auto simp: covers_def list_ex_iff)
  have cl: "in_cell i (NumCell lo hi r) = Inr (in_range lo hi i)" for lo hi r by (simp add: in_range_def)
  have "\<exists>r. first_cell (in_cell i) (fp_cells p) = Inr r" by (rule first_cell_total) (auto simp: p)
  then obtain o' where o': "first_cell (in_cell i) (fp_cells p) = Inr o'" by blast
  have "NumCell lo hi r \<in> set (fp_cells p)" using c(1) by (force simp: p)
  then have "o' \<noteq> None" using first_cell_None [of "in_cell i" "fp_cells p" "NumCell lo hi r"] o' c(2) cl by fastforce
  then obtain s where s: "first_cell (in_cell i) (fp_cells p) = Inr (Some s)" using o' by auto
  from first_cell_Some [OF s] have sl: "s < length cells" "in_cell i (fp_cells p ! s) = Inr True" by (auto simp: p)
  obtain l h q where lhq: "cells ! s = (l, h, q)" by (cases "cells ! s")
  have "in_range l h i" using sl lhq cl by (simp add: p)
  moreover have "cell_ok ats (l, h, q)" using sp sl(1) lhq by (metis list_all_length)
  ultimately have "int_truth ats i = int_truth ats q" by (simp add: cell_ok_def)
  then have "decides_alike ats (PInt i) (PInt q)" by (auto simp: int_truth_def decides_alike_def)
  then show ?thesis
    using s sl lhq by (auto simp: inferred_symbol_def p numeric_view_def)
qed

lemma set_add_consts: "set (add_consts ks vs) = set ks \<union> {s. PStr s \<in> set vs}"
  by (induction ks vs rule: add_consts.induct) auto

text \<open>The atoms a Level M condition can have, and a constant that spells the trailing cell.\<close>

fun scalar_value :: "pyval \<Rightarrow> bool" where
  "scalar_value PNone = True"
| "scalar_value (PBool _) = True"
| "scalar_value (PInt _) = True"
| "scalar_value (PStr _) = True"
| "scalar_value _ = False"

fun level_m_atom :: "atom_op \<times> pyval \<Rightarrow> bool" where
  "level_m_atom (op, c) =
     (if op = ATruthy then True
      else if op \<in> {AIn, ANotIn} then (case c of PList vs \<Rightarrow> list_all scalar_value vs | _ \<Rightarrow> False)
      else scalar_value c \<and> (op \<in> {AEq, ANotEq} \<or> \<not> is_str c))"

fun atom_consts :: "atom_op \<times> pyval \<Rightarrow> pyval list" where
  "atom_consts (op, c) =
     (if op = ATruthy then [] else if op \<in> {AIn, ANotIn} then (case c of PList vs \<Rightarrow> vs | _ \<Rightarrow> []) else [c])"

definition names_other :: "(atom_op \<times> pyval) list \<Rightarrow> bool" where
  "names_other ats \<longleftrightarrow> (\<exists>a \<in> set ats. PStr OTHER_CELL \<in> set (atom_consts a))"

lemma singleton_mem: "[x] = ys \<Longrightarrow> x \<in> set ys"
  by auto

lemma flat_consts_set:
  assumes "flat_consts ats = Inr flat" "list_all level_m_atom ats" "a \<in> set ats"
  shows "set (atom_consts a) \<subseteq> set flat"
proof -
  let ?f = "\<lambda>(op, c). if op \<in> {AIn, ANotIn} then iterate c else Inr (if op \<noteq> ATruthy then [c] else [])"
  obtain vss where vss: "emap ?f ats = Inr vss" "flat = concat vss"
    using assms(1) by (auto simp: flat_consts_def ebind_eq_Inr)
  obtain m where m: "m < length ats" "ats ! m = a" using assms(3) by (auto simp: in_set_conv_nth)
  have "?f a = Inr (vss ! m)" "m < length vss" using vss(1) m by (auto simp: emap_Inr_iff)
  moreover have "set (atom_consts a) \<subseteq> set (vss ! m)"
    using calculation(1) assms(2,3) by (cases a) (auto simp: list_all_iff intro: singleton_mem split: if_splits pyval.splits)
  moreover have "set (vss ! m) \<subseteq> set flat" using vss(2) nth_mem [OF calculation(2)] by auto
  ultimately show ?thesis by blast
qed

lemma holds_strings:
  assumes "level_m_atom (op, c)" "\<forall>k \<in> set (atom_consts (op, c)). is_str k \<and> k \<noteq> PStr s \<and> k \<noteq> PStr t"
    and "op = ATruthy \<Longrightarrow> s \<noteq> [] \<and> t \<noteq> []"
  shows "holds op c (PStr s) = holds op c (PStr t)"
proof -
  have m: "list_ex (\<lambda>y. py_same y (PStr u)) vs = (PStr u \<in> set vs)" for vs u
    by (auto simp: list_ex_iff py_same_def)
  show ?thesis
  proof (cases "op \<in> {AIn, ANotIn}")
    case True
    then obtain vs where "c = PList vs" using assms(1) by (auto split: pyval.splits if_splits)
    then show ?thesis using True assms(2) by (auto simp: m)
  next
    case False
    then show ?thesis using assms by (cases op; cases c) auto
  qed
qed

lemma categorical_field:
  assumes "categorical_partition x ats = Inr p" "list_all level_m_atom ats" "\<not> names_other ats"
    and "\<forall>a \<in> set ats. \<forall>k \<in> set (atom_consts a). is_str k"
  shows "\<exists>n. inferred_symbol p (PStr s) = Inr n \<and> n < length (fp_cells p) \<and>
    decides_alike ats (PStr s) (cell_rep (fp_cells p ! n))"
proof -
  obtain vss where vss: "emap atom_members ats = Inr vss"
    and p: "p = \<lparr>fp_field = x, fp_kind = CATEGORICAL,
        fp_cells = map CatCell (add_consts [] (concat vss)) @ [CatCell OTHER_CELL], fp_definition = None\<rparr>"
    using assms(1) by (auto simp: categorical_partition_def ebind_eq_Inr)
  define named where "named = add_consts [] (concat vss)"
  have cells: "c \<in> set (fp_cells p) \<longleftrightarrow> (\<exists>k. c = CatCell k \<and> (k \<in> set named \<or> k = OTHER_CELL))" for c
    by (auto simp: p named_def)
  have kinds: "fp_kind p \<noteq> NUMERIC" "fp_kind p \<noteq> BOOLEAN"
    by (simp_all add: p CATEGORICAL_def NUMERIC_def BOOLEAN_def)
  have cc: "const_cell (PStr s) c \<longleftrightarrow> c = CatCell s" if "c \<in> set (fp_cells p)" for c
    using that by (auto simp: cells const_cell_def)
  obtain r where r: "first_cell (\<lambda>c. Inr (const_cell (PStr s) c)) (fp_cells p) = Inr r"
    using first_cell_total [of "fp_cells p" "\<lambda>c. Inr (const_cell (PStr s) c)"] by auto
  show ?thesis
  proof (cases r)
    case (Some n)
    then have n: "n < length (fp_cells p)" "const_cell (PStr s) (fp_cells p ! n)"
      using first_cell_Some [OF r [unfolded Some]] by auto
    then have "fp_cells p ! n = CatCell s" using cc nth_mem by blast
    then show ?thesis
      using n(1) r Some kinds by (simp add: inferred_symbol_def decides_alike_def)
  next
    case None
    have ns: "s \<notin> set named"
      using first_cell_None [OF r [unfolded None], of "CatCell s"] cells [of "CatCell s"] cc by auto
    obtain q where q: "first_cell (\<lambda>c. Inr (c = CatCell OTHER_CELL)) (fp_cells p) = Inr q"
      using first_cell_total [of "fp_cells p" "\<lambda>c. Inr (c = CatCell OTHER_CELL)"] by auto
    have "q \<noteq> None" using first_cell_None [of _ "fp_cells p" "CatCell OTHER_CELL"] q cells by fastforce
    then obtain n where n: "q = Some n" by auto
    then have nl: "n < length (fp_cells p)" "fp_cells p ! n = CatCell OTHER_CELL"
      using first_cell_Some [OF q [unfolded n]] by auto
    have sym: "inferred_symbol p (PStr s) = Inr n"
      using kinds r None q n by (simp add: inferred_symbol_def other_symbol_def)
    have "holds op c (PStr s) = holds op c (PStr OTHER_CELL)" if a: "(op, c) \<in> set ats" for op c
    proof (rule holds_strings)
      show lm: "level_m_atom (op, c)" using assms(2) a by (auto simp: list_all_iff)
      obtain m where m: "m < length ats" "ats ! m = (op, c)" using a by (auto simp: in_set_conv_nth)
      then have mem: "atom_members (op, c) = Inr (vss ! m)" "m < length vss" using vss by (auto simp: emap_Inr_iff)
      then have sub: "\<forall>k. PStr k \<in> set (vss ! m) \<longrightarrow> k \<in> set named"
        by (auto simp: named_def set_add_consts)
      have "set (atom_consts (op, c)) \<subseteq> set (vss ! m)"
        using mem(1) lm by (auto simp: atom_members_def intro: singleton_mem split: if_splits pyval.splits)
      then show "\<forall>k \<in> set (atom_consts (op, c)). is_str k \<and> k \<noteq> PStr s \<and> k \<noteq> PStr OTHER_CELL"
        using assms(3,4) a sub ns by (fastforce simp: names_other_def)
      show "s \<noteq> [] \<and> OTHER_CELL \<noteq> []" if "op = ATruthy"
      proof -
        have "[PStr ''''] = vss ! m" using mem(1) that by (simp add: atom_members_def)
        then have "'''' \<in> set named" using sub singleton_mem by metis
        then show ?thesis using ns by (auto simp: OTHER_CELL_def)
      qed
    qed
    then show ?thesis using sym nl by (auto simp: decides_alike_def)
  qed
qed

lemma classify_flat:
  assumes "classify_kind ats = Inr kind" "list_all level_m_atom ats" "a \<in> set ats" "k \<in> set (atom_consts a)"
  shows "\<not> is_float k \<and> k \<noteq> PNone \<and> (kind = CATEGORICAL \<longrightarrow> \<not> is_int k \<and> \<not> is_bool k) \<and>
    (kind = BOOLEAN \<longrightarrow> \<not> is_str k \<and> \<not> is_int k)"
proof -
  obtain flat where flat: "flat_consts ats = Inr flat" using assms(1) by (auto simp: classify_kind_def ebind_eq_Inr)
  have "k \<in> set flat" using flat_consts_set [OF flat assms(2,3)] assms(4) by blast
  then show ?thesis
    using assms(1) flat
    by (auto simp: classify_kind_def Let_def list_ex_iff NUMERIC_def BOOLEAN_def CATEGORICAL_def split: if_splits)
qed

lemma atom_consts_scalar: "level_m_atom a \<Longrightarrow> k \<in> set (atom_consts a) \<Longrightarrow> scalar_value k"
  by (cases a) (auto simp: list_all_iff split: if_splits pyval.splits)

lemma field_decides:
  assumes "classify_kind ats = Inr kind" "build_kind kind x ats = Inr p" "list_all level_m_atom ats"
    "\<not> names_other ats" "accept_value (fp_kind p) v = Inr w"
  shows "\<exists>s. symbol p v = Inr s \<and> s < length (fp_cells p) \<and> decides_alike ats v (cell_rep (fp_cells p ! s))"
proof -
  have kind: "kind = NUMERIC \<or> kind = CATEGORICAL \<or> kind = BOOLEAN"
    using assms(1) by (auto simp: classify_kind_def Let_def ebind_eq_Inr split: if_splits)
  have names: "NUMERIC \<noteq> CATEGORICAL" "NUMERIC \<noteq> BOOLEAN" "CATEGORICAL \<noteq> BOOLEAN"
    by (simp_all add: NUMERIC_def BOOLEAN_def CATEGORICAL_def)
  have "\<exists>s. inferred_symbol p w = Inr s \<and> s < length (fp_cells p) \<and> decides_alike ats v (cell_rep (fp_cells p ! s))
      \<and> fp_definition p = None"
    using kind
  proof (elim disjE)
    assume k: "kind = NUMERIC"
    then have p: "numeric_partition x ats = Inr p" using assms(2) by (simp add: build_kind_def)
    then have "fp_kind p = NUMERIC" "fp_definition p = None" by (auto simp: numeric_partition_def ebind_eq_Inr)
    then obtain i where i: "w = PInt i" "num_of v = Some (FFin (of_int i))" using accept_numeric assms(5) by auto
    have "decides_alike ats v (PInt i)" by (rule decides_alike_num [OF i(2)]) simp
    then show ?thesis
      using numeric_field [OF p, of i] i(1) decides_alike_trans \<open>fp_definition p = None\<close> by blast
  next
    assume k: "kind = CATEGORICAL"
    then have p: "categorical_partition x ats = Inr p" using assms(2) names by (simp add: build_kind_def)
    then have pk: "fp_kind p = CATEGORICAL" "fp_definition p = None" by (auto simp: categorical_partition_def ebind_eq_Inr)
    then obtain s where s: "v = PStr s" "w = PStr s" using accept_categorical assms(5) by auto
    have "\<forall>a \<in> set ats. \<forall>k \<in> set (atom_consts a). is_str k"
    proof (intro ballI)
      fix a c assume a: "a \<in> set ats" "c \<in> set (atom_consts a)"
      have "scalar_value c" using atom_consts_scalar [OF _ a(2)] a(1) assms(3) unfolding list_all_iff by blast
      then show "is_str c" using classify_flat [OF assms(1,3) a] k by (cases c) auto
    qed
    then show ?thesis using categorical_field [OF p assms(3,4), of s] s pk by auto
  next
    assume k: "kind = BOOLEAN"
    then have p: "p = boolean_partition x" using assms(2) names by (simp add: build_kind_def)
    then obtain b where b: "w = PBool b" "num_of v = num_of (PBool b)"
      using accept_boolean assms(5) by (auto simp: boolean_partition_def)
    have "decides_alike ats v (PBool b)" by (rule decides_alike_num [of _ "if b then 1 else 0"]) (use b in auto)
    then show ?thesis
      using b names by (cases b) (auto simp: p boolean_partition_def inferred_symbol_def)
  qed
  then show ?thesis using assms(5) by (auto simp: symbol_def)
qed

subsection \<open>One condition\<close>

definition alike :: "pyval result \<Rightarrow> pyval result \<Rightarrow> bool" where
  "alike r r' \<longleftrightarrow> map_sum id truthy r = map_sum id truthy r'"

definition atoms_alike :: "ctx \<Rightarrow> ctx \<Rightarrow> atom list \<Rightarrow> bool" where
  "atoms_alike c c' ats \<longleftrightarrow> (\<forall>(x, op, k) \<in> set ats. holds op k (ctx_get c x) = holds op k (ctx_get c' x))"

lemma scalar_eq_sym: "scalar_value k \<Longrightarrow> py_eq k v = py_eq v k"
proof (cases "num_of k")
  case (Some f)
  then show ?thesis by (cases "num_of v") (simp_all add: py_eq_num float_eq_sym)
next
  case None
  assume "scalar_value k"
  with None show ?thesis by (cases k) auto
qed

fun flip_ord :: "ordop \<Rightarrow> ordop" where
  "flip_ord OLt = OGt"
| "flip_ord OLtE = OGtE"
| "flip_ord OGt = OLt"
| "flip_ord OGtE = OLtE"

lemma ord_of_flip: "ord_of (flip_ord op) lt gt = ord_of op gt lt"
  by (cases op) auto

lemma scalar_order_flip: "scalar_value k \<Longrightarrow> py_order op k v = py_order (flip_ord op) v k"
proof (cases "num_of k")
  case (Some f)
  then show ?thesis by (cases "num_of v") (auto simp: py_order_num float_order_def ord_of_flip)
next
  case None
  assume "scalar_value k"
  with None consider "k = PNone" | s where "k = PStr s" by (cases k) auto
  then show ?thesis
  proof cases
    case 2
    show ?thesis
      unfolding 2 by (cases v) (simp_all add: ord_of_flip py_order.simps(1) [of _ "PStr _" "PList _"]
        py_order.simps(1) [of _ "PList _" "PStr _"] py_order.simps(1) [of _ "PStr _" "PDict _"]
        py_order.simps(1) [of _ "PDict _" "PStr _"] py_order_num)
  qed simp
qed

lemma scalar_const_iff: "scalar_const e \<longleftrightarrow> (\<exists>k. e = AConst k \<and> scalar_value k)"
  by (cases e rule: scalar_const.cases) auto

lemma is_name_iff: "is_name e \<longleftrightarrow> (\<exists>x. e = AName x)"
  by (cases e) auto

lemmas scalar_const_value = scalar_const_iff [THEN iffD1]

lemma consts_map_filter:
  "list_all scalar_const es \<Longrightarrow> length (List.map_filter const_value es) = length es \<and>
   (\<forall>i < length es. es ! i = AConst (List.map_filter const_value es ! i)) \<and>
   list_all scalar_value (List.map_filter const_value es)"
proof (induction es)
  case (Cons e es)
  then obtain k where "e = AConst k" "scalar_value k" using scalar_const_value by auto
  with Cons show ?case by (auto simp: List.map_filter_simps nth_Cons split: nat.splits)
qed (simp add: List.map_filter_simps)

lemma ev_collection:
  assumes "collection r = Some es" "list_all scalar_const es" "ev c d r = Inr b"
  shows "b = PList (List.map_filter const_value es)"
proof -
  let ?ks = "List.map_filter const_value es"
  have b: "\<exists>vs. emap (ev c (Suc d)) es = Inr vs \<and> b = PList vs"
    using assms(1,3) by (cases r) (auto simp: ev_node ebind_eq_Inr split: if_splits)
  then obtain vs where vs: "emap (ev c (Suc d)) es = Inr vs" "b = PList vs" by blast
  have "vs = ?ks"
  proof (rule nth_equalityI)
    show "length vs = length ?ks" using emap_length [OF vs(1)] consts_map_filter [OF assms(2)] by simp
    fix i assume "i < length vs"
    then have i: "i < length es" "ev c (Suc d) (es ! i) = Inr (vs ! i)"
      using vs(1) by (auto simp: emap_Inr_iff)
    have "es ! i = AConst (?ks ! i)" using consts_map_filter [OF assms(2)] i(1) by blast
    then show "vs ! i = ?ks ! i" using i(2) by (auto simp: ev_node split: if_splits)
  qed
  then show ?thesis using vs(2) by simp
qed

text \<open>The constant or the name of an atom, with the operator the engine applies.\<close>

lemma py_compare_holds:
  "cmp_sym op = Some rel \<Longrightarrow> py_compare op v k = Inr (holds rel k v)"
  "cmp_sym op = Some rel \<Longrightarrow> scalar_value k \<Longrightarrow> py_compare op k v = Inr (holds (flip_op rel) k v)"
  by (cases op; auto)
    (cases op; auto simp: scalar_eq_sym [of k v] scalar_order_flip [of k _ v])

lemma pair_cases:
  assumes "atom_reason (ACompare l [op] [r]) = None"
  obtains
      (member) x es where "op = CIn \<or> op = CNotIn" "l = AName x" "collection r = Some es"
        "list_all (\<lambda>e. collection e = None \<and> scalar_const e) es"
    | (left) x k where "op \<notin> {CIn, CNotIn, CIs, CIsNot}" "l = AName x" "r = AConst k" "scalar_value k"
    | (right) x k where "op \<notin> {CIn, CNotIn, CIs, CIsNot}" "r = AName x" "l = AConst k" "scalar_value k"
proof (cases "op = CIn \<or> op = CNotIn")
  case True
  then have "membership_reason l r = None" using assms by auto
  then obtain x es where "l = AName x" "collection r = Some es" "elements_reason es = None"
    by (auto simp: membership_reason_def is_name_iff split: if_splits option.splits)
  then show ?thesis using member True by (simp add: elements_reason_None)
next
  case False
  then have op: "op \<notin> {CIn, CNotIn, CIs, CIsNot}" and c: "comparison_reason op l r = None"
    using assms by (auto split: if_splits)
  then consider "is_name l" "scalar_const r" | "is_name r" "scalar_const l"
    by (auto simp: comparison_reason_def split: if_splits)
  then show ?thesis
  proof cases
    case 1
    then show ?thesis using left op unfolding is_name_iff scalar_const_iff by blast
  next
    case 2
    then show ?thesis using right op unfolding is_name_iff scalar_const_iff by blast
  qed
qed

lemma pair_alike:
  assumes "atom_reason (ACompare l [op] [r]) = None" "atoms_alike c c' (compare_atoms op l r)"
    and "ev c d l = Inr a" "ev c' d l = Inr a'" "ev c d r = Inr b" "ev c' d r = Inr b'"
  shows "py_compare op a b = py_compare op a' b'"
proof -
  have nm: "v = ctx_get k x" if "ev k d (AName x) = Inr v" for k x v using that by (auto simp: ev_node split: if_splits)
  have ct: "v = w" if "ev k d (AConst w) = Inr v" for k v w using that by (auto simp: ev_node split: if_splits)
  from assms(1) show ?thesis
  proof (cases rule: pair_cases)
    case (member x es)
    let ?ks = "List.map_filter const_value es"
    have es: "list_all scalar_const es" using member(4) by (simp add: list_all_iff)
    have b: "b = PList ?ks" "b' = PList ?ks" using ev_collection [OF member(3) es assms(5)] ev_collection [OF member(3) es assms(6)] by simp_all
    have a: "a = ctx_get c x" "a' = ctx_get c' x" using nm member(2) assms(3,4) by auto
    have "compare_atoms op l r = [(x, if op = CIn then AIn else ANotIn, PList ?ks)]"
      using member consts_map_filter [OF es] by (auto simp: members_atom_def)
    then have "holds (if op = CIn then AIn else ANotIn) (PList ?ks) a = holds (if op = CIn then AIn else ANotIn) (PList ?ks) a'"
      using assms(2) a by (simp add: atoms_alike_def)
    then show ?thesis using member(1) b by auto
  next
    case (left x k)
    obtain rel where rel: "cmp_sym op = Some rel" using left(1) by (cases op) auto
    have "holds rel k a = holds rel k a'" "b = k" "b' = k"
      using assms(2-) left rel nm ct by (auto simp: atoms_alike_def)
    then show ?thesis using py_compare_holds(1) [OF rel] by simp
  next
    case (right x k)
    obtain rel where rel: "cmp_sym op = Some rel" using right(1) by (cases op) auto
    have "holds (flip_op rel) k b = holds (flip_op rel) k b'" "a = k" "a' = k"
      using assms(2-) right rel nm ct by (auto simp: atoms_alike_def)
    then show ?thesis using py_compare_holds(2) [OF rel right(4)] by simp
  qed
qed

text \<open>An operand of an atom returns in one context exactly when it returns in another.\<close>

lemma atom_operand_names:
  assumes "atom_reason (ACompare l [op] [r]) = None"
  shows "(is_name l \<or> names_of l = {}) \<and> (is_name r \<or> names_of r = {})"
proof -
  have sc: "names_of e = {}" if "scalar_const e" for e using scalar_const_value [OF that] by auto
  have "names_of r = {}" if "collection r = Some es" "list_all (\<lambda>e. collection e = None \<and> scalar_const e) es" for es
    using that sc by (cases r) (auto simp: list_all_iff)
  then show ?thesis using assms sc unfolding atom_reason_None by auto
qed

lemma operand_returns:
  assumes "is_name l \<or> names_of l = {}" "ev c d l = Inr a"
  shows "\<exists>a'. ev c' d l = Inr a'"
  using assms(1)
proof
  assume "is_name l"
  then show ?thesis using assms(2) by (cases l) (auto simp: ev_node split: if_splits)
next
  assume "names_of l = {}"
  then have "ev c' d l = ev c d l" by (intro ev_names(1)) auto
  then show ?thesis using assms(2) by simp
qed

lemma ev_chain_alike:
  assumes "length ops = length cs" "\<forall>p \<in> set (chain_pairs l ops cs). atom_reason p = None"
    "atoms_alike c c' (concat (map atoms_of (chain_pairs l ops cs)))"
    "ev c (Suc d) l = Inr a" "ev c' (Suc d) l = Inr a'"
  shows "ev_chain c d a ops cs = ev_chain c' d a' ops cs"
  using assms
proof (induction ops cs arbitrary: l a a' rule: list_induct2)
  case (Cons op ops r cs)
  have at: "atom_reason (ACompare l [op] [r]) = None" using Cons.prems(1) by (simp add: chain_pairs_Cons)
  have al: "atoms_alike c c' (compare_atoms op l r)"
    "atoms_alike c c' (concat (map atoms_of (chain_pairs r ops cs)))"
    using Cons.prems(2) by (auto simp: chain_pairs_Cons atoms_alike_def)
  have rn: "is_name r \<or> names_of r = {}" using atom_operand_names [OF at] by simp
  show ?case
  proof (cases "ev c (Suc d) r")
    case (Inl e)
    then have "e = PredicateError" by (rule ev_error)
    moreover have "\<not> (\<exists>v. ev c' (Suc d) r = Inr v)" using operand_returns [OF rn, of c' "Suc d" _ c] Inl by auto
    then obtain e' where "ev c' (Suc d) r = Inl e'" by (cases "ev c' (Suc d) r") auto
    moreover from this have "e' = PredicateError" by (rule ev_error)
    ultimately show ?thesis using Inl by simp
  next
    case (Inr b)
    then obtain b' where b': "ev c' (Suc d) r = Inr b'" using operand_returns [OF rn] by blast
    have "py_compare op a b = py_compare op a' b'"
      by (rule pair_alike [OF at al(1) Cons.prems(3,4) Inr b'])
    moreover have "ev_chain c d b ops cs = ev_chain c' d b' ops cs"
      by (rule Cons.IH) (use Cons.prems(1) al(2) Inr b' in \<open>auto simp: chain_pairs_Cons\<close>)
    ultimately show ?thesis using Inr b' by (cases "py_compare op a' b'") simp_all
  qed
qed simp

lemma emap_alike:
  "(\<And>v. v \<in> set vs \<Longrightarrow> alike (f v) (g v)) \<Longrightarrow>
   map_sum id (map truthy) (emap f vs) = map_sum id (map truthy) (emap g vs)"
proof (induction vs)
  case (Cons v vs)
  have h: "alike (f v) (g v)" using Cons.prems by simp
  have t: "map_sum id (map truthy) (emap f vs) = map_sum id (map truthy) (emap g vs)"
    by (rule Cons.IH) (use Cons.prems in simp)
  show ?case using h t
    by (cases "f v"; cases "g v"; cases "emap f vs"; cases "emap g vs") (auto simp: alike_def)
qed simp

lemma list_truth_map: "list_all truthy us = list_all id (map truthy us)" "list_ex truthy us = list_ex id (map truthy us)"
  by (simp_all add: list_all_iff list_ex_iff)

lemma bool_alike:
  assumes "map_sum id (map truthy) (emap f vs) = map_sum id (map truthy) (emap g vs)"
  shows "alike (ebind (emap f vs) (\<lambda>us. Inr (PBool (if b then list_all truthy us else list_ex truthy us))))
    (ebind (emap g vs) (\<lambda>us. Inr (PBool (if b then list_all truthy us else list_ex truthy us))))"
  using assms by (cases "emap f vs"; cases "emap g vs") (simp_all add: alike_def list_truth_map)

lemma alike_refl [simp]: "alike r r"
  by (simp add: alike_def)

lemma compare_alike:
  assumes "length ops = length cs" "cs \<noteq> []" "\<forall>p \<in> set (chain_pairs l ops cs). atom_reason p = None"
    "atoms_alike c c' (concat (map atoms_of (chain_pairs l ops cs)))"
  shows "ev c d (ACompare l ops cs) = ev c' d (ACompare l ops cs)"
proof -
  obtain op ops' r cs' where o: "ops = op # ops'" "cs = r # cs'" using assms(1,2) by (cases ops; cases cs) auto
  then have "atom_reason (ACompare l [op] [r]) = None" using assms(3) by (simp add: chain_pairs_Cons)
  then have ln: "is_name l \<or> names_of l = {}" using atom_operand_names by blast
  show ?thesis
  proof (cases "ev c (Suc d) l")
    case (Inl e)
    then have "e = PredicateError" by (rule ev_error)
    moreover have "\<not> (\<exists>v. ev c' (Suc d) l = Inr v)" using operand_returns [OF ln, of c' "Suc d" _ c] Inl by auto
    then obtain e' where "ev c' (Suc d) l = Inl e'" by (cases "ev c' (Suc d) l") auto
    moreover from this have "e' = PredicateError" by (rule ev_error)
    ultimately show ?thesis using Inl by (simp add: ev_node)
  next
    case (Inr a)
    then obtain a' where a': "ev c' (Suc d) l = Inr a'" using operand_returns [OF ln] by blast
    then show ?thesis using Inr ev_chain_alike [OF assms(1,3,4) Inr a'] by (simp add: ev_node)
  qed
qed

lemma classify_pairs:
  assumes "classify (desugar_chains (ACompare l ops cs)) = None" "length ops = length cs"
  shows "cs \<noteq> [] \<and> (\<forall>p \<in> set (chain_pairs l ops cs). atom_reason p = None) \<and>
    set (atoms_of (desugar_chains (ACompare l ops cs))) = set (concat (map atoms_of (chain_pairs l ops cs)))"
proof (cases "length ops > 1")
  case True
  have "atom_reason p = None" if p: "p \<in> set (chain_pairs l ops cs)" for p
  proof -
    have "classify p = None" using assms(1) True p by (auto simp: first_some_None)
    then show ?thesis using set_chain_pairs [OF p] by auto
  qed
  then show ?thesis using True assms(2) by auto
next
  case False
  then obtain op r where "ops = [op]" "cs = [r]" using assms by (cases ops; cases cs) auto
  then show ?thesis using assms(1) by (simp add: chain_pairs_def)
qed

lemma expr_alike:
  "classify (desugar_chains n) = None \<Longrightarrow> ast_wf n \<Longrightarrow> atoms_alike c c' (atoms_of (desugar_chains n)) \<Longrightarrow>
   alike (ev c d n) (ev c' d n)"
proof (induction n arbitrary: d rule: desugar_chains.induct)
  case (1 b vs)
  have "alike (ev c (Suc d) v) (ev c' (Suc d) v)" if "v \<in> set vs" for v
    by (rule "1.IH" [OF that]) (use that "1.prems" in \<open>auto simp: first_some_None list_all_iff atoms_alike_def\<close>)
  then show ?case using bool_alike [OF emap_alike, of vs "ev c (Suc d)" "ev c' (Suc d)" "b = BAnd"] by (simp add: ev_node)
next
  case (2 n)
  then have "alike (ev c (Suc d) n) (ev c' (Suc d) n)" by simp
  then show ?case by (cases "ev c (Suc d) n"; cases "ev c' (Suc d) n") (auto simp: ev_node alike_def)
next
  case (3 l ops cs)
  have len: "length ops = length cs" using 3(2) by simp
  have "ev c d (ACompare l ops cs) = ev c' d (ACompare l ops cs)"
    by (rule compare_alike) (use classify_pairs [OF 3(1) len] 3(3) len in \<open>auto simp: atoms_alike_def\<close>)
  then show ?case by simp
next
  case "4_2"
  then show ?case by (auto simp: ev_node alike_def atoms_alike_def)
qed auto

lemma compare_atoms_level_m:
  assumes ar: "atom_reason (ACompare l [op] [r]) = None" and m: "(x, a) \<in> set (compare_atoms op l r)"
  shows "level_m_atom a"
  using ar
proof (cases rule: pair_cases)
  case (member y es)
  have "list_all scalar_value (List.map_filter const_value es)"
    using consts_map_filter [of es] member(4) by (auto simp: list_all_iff)
  then show ?thesis using member m by (auto simp: members_atom_def Let_def split: if_splits)
next
  case (left y k)
  have "\<not> (order_cmp op \<and> is_str k)"
    using ar left by (cases k) (auto simp: comparison_reason_def split: if_splits)
  then show ?thesis using left m by (cases op) (auto simp: order_cmp_def)
next
  case (right y k)
  have "\<not> (order_cmp op \<and> is_str k)"
    using ar right by (cases k) (auto simp: comparison_reason_def split: if_splits)
  then show ?thesis using right m by (cases op) (auto simp: order_cmp_def)
qed

lemma atoms_level_m:
  "classify (desugar_chains n) = None \<Longrightarrow> ast_wf n \<Longrightarrow> (x, a) \<in> set (atoms_of (desugar_chains n)) \<Longrightarrow> level_m_atom a"
proof (induction n rule: desugar_chains.induct)
  case (1 b vs)
  then show ?case by (auto simp: first_some_None list_all_iff)
next
  case (3 l ops cs)
  note cp = classify_pairs [OF 3(1)]
  have len: "length ops = length cs" using 3(2) by simp
  obtain p where p: "p \<in> set (chain_pairs l ops cs)" "(x, a) \<in> set (atoms_of p)" "atom_reason p = None"
    using cp [OF len] 3(3) by auto
  obtain e op r where "p = ACompare e [op] [r]" using set_chain_pairs [OF p(1)] by blast
  then show ?case using p(2,3) compare_atoms_level_m by simp
qed auto

subsection \<open>The flow\<close>

definition atoms_at :: "field_atoms \<Rightarrow> string \<Rightarrow> (atom_op \<times> pyval) list" where
  "atoms_at d x = (case map_of d x of None \<Rightarrow> [] | Some ats \<Rightarrow> ats)"

lemma atoms_at_append: "atoms_at (dict_append d k v) x = atoms_at d x @ (if k = x then [v] else [])"
  by (simp add: atoms_at_def map_of_dict_append)

lemma atoms_at_add: "set (atoms_at (add_atoms d ats) x) = set (atoms_at d x) \<union> {a. (x, a) \<in> set ats}"
proof (induction ats arbitrary: d)
  case (Cons a ats)
  obtain y b c where a: "a = (y, b, c)" by (cases a)
  have "add_atoms d (a # ats) = add_atoms (dict_append d y (b, c)) ats" by (simp add: add_atoms_def a)
  then show ?case using Cons by (auto simp: a atoms_at_append)
qed (simp add: add_atoms_def)

lemma atoms_at_fold:
  "set (atoms_at (foldl add_atoms d atss) x) = set (atoms_at d x) \<union> {a. \<exists>ats \<in> set atss. (x, a) \<in> set ats}"
proof (induction atss arbitrary: d)
  case (Cons ats atss)
  then show ?case by (auto simp: atoms_at_add)
qed simp

lemma atoms_at_flow:
  "set (atoms_at (flow_atoms parse graph) x) =
   {a. \<exists>(name, cond) \<in> set (routed_edges graph). (x, a) \<in> set (condition_atoms parse cond)}"
  unfolding flow_atoms_def atoms_at_fold by (auto simp: atoms_at_def)

lemma distinct_add_atoms: "distinct (map fst d) \<Longrightarrow> distinct (map fst (add_atoms d ats))"
proof (induction ats arbitrary: d)
  case (Cons a ats)
  obtain y b c where a: "a = (y, b, c)" by (cases a)
  have "add_atoms d (a # ats) = add_atoms (dict_append d y (b, c)) ats" by (simp add: add_atoms_def a)
  then show ?case using Cons.IH [OF distinct_dict_append [OF Cons.prems]] by simp
qed (simp add: add_atoms_def)

lemma distinct_flow_atoms: "distinct (map fst (flow_atoms parse graph))"
proof -
  have "distinct (map fst d) \<Longrightarrow> distinct (map fst (foldl add_atoms d atss))" for d atss
    by (induction atss arbitrary: d) (auto simp: distinct_add_atoms)
  then show ?thesis by (simp add: flow_atoms_def)
qed

lemma routed_edges_iff:
  "(name, cond) \<in> set (routed_edges graph) \<longleftrightarrow>
   (\<exists>node target. (name, node) \<in> set (fg_nodes graph) \<and> (target, cond) \<in> set (fn_edges node) \<and> is_deterministic cond)"
proof
  assume "(name, cond) \<in> set (routed_edges graph)"
  then show "\<exists>node target. (name, node) \<in> set (fg_nodes graph) \<and> (target, cond) \<in> set (fn_edges node) \<and> is_deterministic cond"
    by (auto simp: routed_edges_def) blast
next
  assume "\<exists>node target. (name, node) \<in> set (fg_nodes graph) \<and> (target, cond) \<in> set (fn_edges node) \<and> is_deterministic cond"
  then obtain node target where n: "(name, node) \<in> set (fg_nodes graph)" "(target, cond) \<in> set (fn_edges node)"
    "is_deterministic cond" by blast
  let ?es = "filter (\<lambda>e. is_deterministic (snd e) \<and> \<not> is_semantic (snd e)) (fn_edges node)"
  have "(target, cond) \<in> set ?es" using n by (simp add: is_semantic_def)
  then have "(name, cond) \<in> set (map (\<lambda>e. (name, snd e)) ?es)" unfolding set_map by (rule rev_image_eqI) simp
  then show "(name, cond) \<in> set (routed_edges graph)"
    unfolding routed_edges_def set_concat
    by (intro UN_I [of "map (\<lambda>e. (name, snd e)) ?es"]) (auto intro: rev_image_eqI [OF n(1)])
qed

text \<open>What building the partitions of a flow without definitions establishes.\<close>

lemma build_partitions_parts:
  assumes "build_partitions parse graph = Inr parts" "fg_fields graph = []"
  shows "map fst parts = map fst (flow_atoms parse graph)"
    and "\<And>x p. map_of parts x = Some p \<Longrightarrow> \<exists>kind. classify_kind (atoms_at (flow_atoms parse graph) x) = Inr kind \<and>
        build_kind kind x (atoms_at (flow_atoms parse graph) x) = Inr p"
    and "\<And>name cond. (name, cond) \<in> set (routed_edges graph) \<Longrightarrow> fst (is_level_m parse cond)"
proof -
  let ?fa = "flow_atoms parse graph"
  obtain kinds where kinds: "emap (\<lambda>(x, ats). ebind (classify_kind ats) (\<lambda>kind. Inr (x, kind, ats))) ?fa = Inr kinds"
    and out: "conditions_outside_level_m parse graph = []"
    and parts: "emap (\<lambda>(x, kind, ats). ebind (build_kind kind x ats) (\<lambda>p. Inr (x, p))) kinds = Inr parts"
    using assms by (auto simp: build_partitions_def ebind_eq_Inr Let_def split: if_splits)
  have len: "length kinds = length ?fa" "length parts = length kinds"
    using emap_length [OF kinds] emap_length [OF parts] by auto
  have at: "\<exists>kind. classify_kind (snd (?fa ! i)) = Inr kind \<and> fst (parts ! i) = fst (?fa ! i) \<and>
      build_kind kind (fst (?fa ! i)) (snd (?fa ! i)) = Inr (snd (parts ! i))" if i: "i < length parts" for i
  proof -
    obtain x ats where xa: "?fa ! i = (x, ats)" by (cases "?fa ! i")
    have "(case ?fa ! i of (x, ats) \<Rightarrow> ebind (classify_kind ats) (\<lambda>kind. Inr (x, kind, ats))) = Inr (kinds ! i)"
      using kinds i len by (simp add: emap_Inr_iff)
    then obtain kind where k: "classify_kind ats = Inr kind" "kinds ! i = (x, kind, ats)"
      using xa by (auto simp: ebind_eq_Inr)
    have "(case kinds ! i of (x, kind, ats) \<Rightarrow> ebind (build_kind kind x ats) (\<lambda>p. Inr (x, p))) = Inr (parts ! i)"
      using parts i len by (simp add: emap_Inr_iff)
    then obtain p where "build_kind kind x ats = Inr p" "parts ! i = (x, p)" using k by (auto simp: ebind_eq_Inr)
    then show ?thesis using k xa by simp
  qed
  show m: "map fst parts = map fst ?fa" by (rule nth_equalityI) (use len at in auto)
  show "\<exists>kind. classify_kind (atoms_at ?fa x) = Inr kind \<and> build_kind kind x (atoms_at ?fa x) = Inr p"
    if mp: "map_of parts x = Some p" for x p
  proof -
    obtain i where i: "i < length parts" "parts ! i = (x, p)"
      using map_of_SomeD [OF mp] by (auto simp: in_set_conv_nth)
    obtain ats where ats: "?fa ! i = (x, ats)" using at [OF i(1)] i(2) by (cases "?fa ! i") auto
    have "(x, ats) \<in> set ?fa" using ats i(1) len nth_mem by metis
    then have "map_of ?fa x = Some ats" using distinct_flow_atoms by (simp add: map_of_is_SomeI)
    then show ?thesis using at [OF i(1)] i(2) ats by (auto simp: atoms_at_def)
  qed
  show "fst (is_level_m parse cond)" if "(name, cond) \<in> set (routed_edges graph)" for name cond
  proof (rule ccontr)
    assume "\<not> fst (is_level_m parse cond)"
    then have "(let (ok, reason) = is_level_m parse cond in
        if ok then [] else [(name, cond, case reason of None \<Rightarrow> ''not-level-m'' | Some r \<Rightarrow> r)]) \<noteq> []"
      by (cases "is_level_m parse cond") auto
    then show False using out that by (auto simp: conditions_outside_level_m_def)
  qed
qed

lemma condition_body:
  assumes "is_deterministic cond" "fst (is_level_m parse cond)" "\<not> is_keyword (expr_of cond)"
  shows "\<exists>tree. parse (expr_of cond) = Some tree \<and> classify (desugar_chains (fold_unary_signs tree)) = None \<and>
    condition_atoms parse cond = atoms_of (desugar_chains (fold_unary_signs tree))"
  using assms
  by (auto simp: is_level_m.simps level_m_expr_def expr_ast_def condition_atoms_def Let_def split: option.splits)

lemma flow_atoms_level_m:
  assumes "parser_wf parse" "\<And>name cond. (name, cond) \<in> set (routed_edges graph) \<Longrightarrow> fst (is_level_m parse cond)"
  shows "list_all level_m_atom (atoms_at (flow_atoms parse graph) x)"
  unfolding list_all_iff atoms_at_flow
proof safe
  fix op k name cond
  assume e: "(name, cond) \<in> set (routed_edges graph)" and a: "(x, op, k) \<in> set (condition_atoms parse cond)"
  have d: "is_deterministic cond" using e by (auto simp: routed_edges_iff)
  have nk: "\<not> is_keyword (expr_of cond)" using a by (auto simp: condition_atoms_def expr_ast_def Let_def split: if_splits)
  obtain tree where t: "parse (expr_of cond) = Some tree" "classify (desugar_chains (fold_unary_signs tree)) = None"
    "condition_atoms parse cond = atoms_of (desugar_chains (fold_unary_signs tree))"
    using condition_body [OF d assms(2) [OF e] nk] by blast
  have "ast_wf (fold_unary_signs tree)" using assms(1) t(1) ast_wf_fold by (auto simp: parser_wf_def)
  then show "level_m_atom (op, k)" using atoms_level_m t(2) a t(3) by metis
qed

lemma eval_alike:
  assumes "parser_wf parse" "is_deterministic cond" "fst (is_level_m parse cond)"
    and "atoms_alike c c' (condition_atoms parse cond)"
  shows "eval_condition parse cond c = eval_condition parse cond c'"
proof (cases "is_keyword (expr_of cond)")
  case True
  then show ?thesis by (auto simp: eval_condition_def is_keyword_def Let_def)
next
  case False
  obtain tree where t: "parse (expr_of cond) = Some tree" "classify (desugar_chains (fold_unary_signs tree)) = None"
    "condition_atoms parse cond = atoms_of (desugar_chains (fold_unary_signs tree))"
    using condition_body [OF assms(2,3) False] by blast
  have "ast_wf (fold_unary_signs tree)" using assms(1) t(1) ast_wf_fold by (auto simp: parser_wf_def)
  then have "alike (ev c 0 (fold_unary_signs tree)) (ev c' 0 (fold_unary_signs tree))"
    using expr_alike t assms(4) by simp
  then have "ebind (ev c 0 (fold_unary_signs tree)) (\<lambda>v. Inr (truthy v)) =
      ebind (ev c' 0 (fold_unary_signs tree)) (\<lambda>v. Inr (truthy v))"
    by (cases "ev c 0 (fold_unary_signs tree)"; cases "ev c' 0 (fold_unary_signs tree)") (auto simp: alike_def)
  then show ?thesis using t(1) False by (simp add: eval_condition_def is_keyword_def Let_def)
qed

text \<open>Symbols and their representatives, field by field.\<close>

lemma checked_quantize_symbols:
  assumes "checked_quantize parts reading = Inr syms"
  shows "map fst syms = str_sort (map fst parts)"
    and "\<And>x p. map_of parts x = Some p \<Longrightarrow> \<exists>s. (x, s) \<in> set syms \<and> symbol p (ctx_get reading x) = Inr s"
proof -
  let ?xs = "str_sort (map fst parts)"
  have len: "length syms = length ?xs" using emap_length assms unfolding checked_quantize_def by blast
  have at: "fst (syms ! i) = ?xs ! i \<and> (\<exists>p. map_of parts (?xs ! i) = Some p \<and>
      symbol p (ctx_get reading (?xs ! i)) = Inr (snd (syms ! i)))" if i: "i < length syms" for i
  proof -
    have "(case map_of parts (?xs ! i) of None \<Rightarrow> Inl KeyError
       | Some p \<Rightarrow>
         if map_of reading (?xs ! i) = None \<and> fp_definition p = None then Inl (InputRefused (?xs ! i) REFUSAL_MISSING)
         else ebind (symbol p (ctx_get reading (?xs ! i))) (\<lambda>s. Inr (?xs ! i, s))) = Inr (syms ! i)"
      using assms i len unfolding checked_quantize_def emap_Inr_iff by simp
    then show ?thesis by (cases "syms ! i") (auto simp: ebind_eq_Inr split: option.splits if_splits)
  qed
  show "map fst syms = ?xs" by (rule nth_equalityI) (use len at in auto)
  show "\<exists>s. (x, s) \<in> set syms \<and> symbol p (ctx_get reading x) = Inr s" if "map_of parts x = Some p" for x p
  proof -
    have "x \<in> set ?xs" using map_of_SomeD [OF that] by force
    then obtain i where i: "i < length syms" "?xs ! i = x" using len by (metis in_set_conv_nth)
    have "syms ! i = (x, snd (syms ! i))" using at [OF i(1)] i(2) by (metis prod.collapse)
    then have "(x, snd (syms ! i)) \<in> set syms" using nth_mem [OF i(1)] by simp
    then show ?thesis using at [OF i(1)] i(2) that by auto
  qed
qed

lemma reconstruct_values:
  assumes "distinct (map fst syms)"
    and "\<And>x s. (x, s) \<in> set syms \<Longrightarrow> \<exists>p. map_of parts x = Some p \<and> s < length (fp_cells p)"
  shows "\<exists>c. reconstruct parts syms = Inr c \<and>
    (\<forall>x s p. (x, s) \<in> set syms \<longrightarrow> map_of parts x = Some p \<longrightarrow> ctx_get c x = cell_rep (fp_cells p ! s))"
proof -
  let ?row = "\<lambda>(x, s). (x, cell_rep (fp_cells (the (map_of parts x)) ! s))"
  have "emap (\<lambda>(x, s). case map_of parts x of None \<Rightarrow> Inr []
      | Some p \<Rightarrow> ebind (representative p s) (\<lambda>v. Inr [(x, v)])) syms = Inr (map (\<lambda>y. [?row y]) syms)"
    by (rule emap_Inr_map) (use assms(2) in \<open>fastforce simp: representative_def\<close>)
  then have r: "reconstruct parts syms = Inr (map ?row syms)"
    by (simp add: reconstruct_def map_concat [symmetric] concat_map_singleton)
  have "ctx_get (map ?row syms) x = cell_rep (fp_cells p ! s)" if "(x, s) \<in> set syms" "map_of parts x = Some p" for x s p
  proof -
    have "(x, cell_rep (fp_cells p ! s)) \<in> set (map ?row syms)" using that by force
    moreover have "distinct (map fst (map ?row syms))" using assms(1) by (simp add: comp_def case_prod_unfold)
    ultimately have "map_of (map ?row syms) x = Some (cell_rep (fp_cells p ! s))" by (rule map_of_is_SomeI [rotated])
    then show ?thesis by (rule ctx_get_map_of)
  qed
  then show ?thesis using r by blast
qed

subsection \<open>Decision preservation\<close>

lemma reading_alike:
  assumes "parser_wf parse" "fg_fields graph = []" "build_partitions parse graph = Inr parts"
    and "checked_quantize parts reading = Inr syms"
    and "\<not> list_ex names_other (map snd (flow_atoms parse graph))"
  shows "\<exists>rep. reconstruct parts syms = Inr rep \<and>
    (\<forall>name cond. (name, cond) \<in> set (routed_edges graph) \<longrightarrow> atoms_alike rep reading (condition_atoms parse cond))"
proof -
  note bp = build_partitions_parts [OF assms(3,2)]
  let ?ats = "atoms_at (flow_atoms parse graph)"
  have key: "symbol p (ctx_get reading x) = Inr s \<Longrightarrow> map_of parts x = Some p \<Longrightarrow>
      s < length (fp_cells p) \<and> decides_alike (?ats x) (ctx_get reading x) (cell_rep (fp_cells p ! s))" for x p s
  proof -
    assume sy: "symbol p (ctx_get reading x) = Inr s" and p: "map_of parts x = Some p"
    obtain kind where k: "classify_kind (?ats x) = Inr kind" "build_kind kind x (?ats x) = Inr p" using bp(2) [OF p] by blast
    have lm: "list_all level_m_atom (?ats x)" by (rule flow_atoms_level_m [OF assms(1) bp(3)])
    have no: "\<not> names_other (?ats x)"
    proof (cases "map_of (flow_atoms parse graph) x")
      case None
      then show ?thesis by (simp add: atoms_at_def names_other_def)
    next
      case (Some ats)
      then have "ats \<in> set (map snd (flow_atoms parse graph))" by (force dest: map_of_SomeD)
      then show ?thesis using assms(5) Some by (auto simp: atoms_at_def list_ex_iff)
    qed
    have "fp_definition p = None"
      using k(2) by (auto simp: build_kind_def numeric_partition_def categorical_partition_def boolean_partition_def
          ebind_eq_Inr split: if_splits)
    then obtain w where "accept_value (fp_kind p) (ctx_get reading x) = Inr w"
      using sy by (auto simp: symbol_def split: sum.splits)
    then show ?thesis using field_decides [OF k lm no] sy by fastforce
  qed
  have keys: "set (map fst syms) = set (map fst parts)" "distinct (map fst syms)"
    using checked_quantize_symbols(1) [OF assms(4)] bp(1) distinct_flow_atoms by (metis set_str_sort, metis distinct_str_sort)
  have part: "\<exists>p. map_of parts x = Some p \<and> symbol p (ctx_get reading x) = Inr s" if m: "(x, s) \<in> set syms" for x s
  proof -
    have "x \<in> fst ` set parts" using m keys(1) by force
    then obtain p where p: "map_of parts x = Some p" by (metis map_of_eq_None_iff not_None_eq)
    obtain s' where s': "(x, s') \<in> set syms" "symbol p (ctx_get reading x) = Inr s'"
      using checked_quantize_symbols(2) [OF assms(4) p] by blast
    then have "s' = s" using m keys(2) by (metis eq_key_imp_eq_value)
    then show ?thesis using p s' by blast
  qed
  have "\<exists>c. reconstruct parts syms = Inr c \<and>
      (\<forall>x s p. (x, s) \<in> set syms \<longrightarrow> map_of parts x = Some p \<longrightarrow> ctx_get c x = cell_rep (fp_cells p ! s))"
    by (rule reconstruct_values [OF keys(2)]) (use part key in blast)
  then obtain rep where rep: "reconstruct parts syms = Inr rep"
    "\<And>x s p. (x, s) \<in> set syms \<Longrightarrow> map_of parts x = Some p \<Longrightarrow> ctx_get rep x = cell_rep (fp_cells p ! s)" by blast
  have "atoms_alike rep reading (condition_atoms parse cond)" if routed: "(name, cond) \<in> set (routed_edges graph)" for name cond
    unfolding atoms_alike_def
  proof clarify
    fix x op k
    assume a: "(x, op, k) \<in> set (condition_atoms parse cond)"
    then have at: "(op, k) \<in> set (?ats x)" using routed by (auto simp: atoms_at_flow)
    then have "map_of (flow_atoms parse graph) x \<noteq> None" by (cases "map_of (flow_atoms parse graph) x") (simp_all add: atoms_at_def)
    then have "x \<in> fst ` set (flow_atoms parse graph)" by (simp add: map_of_eq_None_iff)
    then have "x \<in> fst ` set parts" using bp(1) by (metis set_map)
    then obtain p where p: "map_of parts x = Some p" by (metis map_of_eq_None_iff not_None_eq)
    obtain s where s: "(x, s) \<in> set syms" "symbol p (ctx_get reading x) = Inr s"
      using checked_quantize_symbols(2) [OF assms(4) p] by blast
    show "holds op k (ctx_get rep x) = holds op k (ctx_get reading x)"
      using key [OF s(2) p] rep(2) [OF s(1) p] at by (auto simp: decides_alike_def)
  qed
  then show ?thesis using rep(1) by blast
qed

lemma quantized_conditions:
  assumes "parser_wf parse" "fg_fields graph = []" "build_partitions parse graph = Inr parts"
    and "checked_quantize parts reading = Inr syms"
    and "\<not> list_ex names_other (map snd (flow_atoms parse graph))"
  shows "\<exists>rep. reconstruct parts syms = Inr rep \<and>
    (\<forall>name node target cond. (name, node) \<in> set (fg_nodes graph) \<longrightarrow> (target, cond) \<in> set (fn_edges node) \<longrightarrow>
       is_deterministic cond \<longrightarrow> eval_condition parse cond rep = eval_condition parse cond reading)"
proof -
  obtain rep where rep: "reconstruct parts syms = Inr rep"
    "\<And>name cond. (name, cond) \<in> set (routed_edges graph) \<Longrightarrow> atoms_alike rep reading (condition_atoms parse cond)"
    using reading_alike [OF assms] by blast
  have "eval_condition parse cond rep = eval_condition parse cond reading"
    if "(name, node) \<in> set (fg_nodes graph)" "(target, cond) \<in> set (fn_edges node)" "is_deterministic cond" for name node target cond
  proof -
    have routed: "(name, cond) \<in> set (routed_edges graph)" using that by (auto simp: routed_edges_iff)
    show ?thesis
      by (rule eval_alike [OF assms(1) that(3) build_partitions_parts(3) [OF assms(3,2) routed] rep(2) [OF routed]])
  qed
  then show ?thesis using rep(1) by blast
qed

text \<open>
  The quantizer preserves decisions: for a flow without field definitions whose partitions are
  built, any reading the checked encoder accepts reconstructs to representatives on which every
  deterministic condition of the flow has the outcome it has on the raw reading, errors included;
  provided no condition compares with the sentinel string of the trailing categorical cell.
\<close>

theorem quantizer_preserves_decisions:
  assumes "parser_wf parse" "fg_fields graph = []" "build_partitions parse graph = Inr parts"
    and "checked_quantize parts reading = Inr syms"
    and "\<not> list_ex names_other (map snd (flow_atoms parse graph))"
    and "(name, node) \<in> set (fg_nodes graph)" "(target, cond) \<in> set (fn_edges node)" "is_deterministic cond"
  shows "\<exists>rep. reconstruct parts syms = Inr rep \<and> eval_condition parse cond rep = eval_condition parse cond reading"
  using quantized_conditions [OF assms(1-5)] assms(6-8) by blast

definition demo_flow :: flow_graph where
  "demo_flow = \<lparr>fg_name = ''demo'', fg_start = ''a'',
     fg_nodes = [(''a'', \<lparr>fn_name = ''a'', fn_instruction = [], fn_edges = [(''b'', ''when x >= 5''), (''c'', ''else'')],
                   fn_annotations = []\<rparr>),
                 (''b'', \<lparr>fn_name = ''b'', fn_instruction = [], fn_edges = [], fn_annotations = []\<rparr>)],
     fg_meta = [], fg_fields = []\<rparr>"

definition demo_flow_parse :: pyparse where
  "demo_flow_parse e = (if e = ''x >= 5'' then Some (ACompare (AName ''x'') [CGtE] [AConst (PInt 5)]) else None)"

definition demo_parts :: partitions where
  "demo_parts = [(''x'', \<lparr>fp_field = ''x'', fp_kind = NUMERIC,
     fp_cells = [NumCell None (Some 4) 4, NumCell (Some 5) None 5], fp_definition = None\<rparr>)]"

lemma demo_flow_facts:
  "build_partitions demo_flow_parse demo_flow = Inr demo_parts"
  "checked_quantize demo_parts [(''x'', PFloat (FFin 7)), (''y'', PNone)] = Inr [(''x'', 1)]"
  "\<not> list_ex names_other (map snd (flow_atoms demo_flow_parse demo_flow))"
  "is_deterministic ''when x >= 5''"
  by code_simp+

theorem quantizer_preserves_decisions_witness:
  "\<exists>rep. reconstruct demo_parts [(''x'', 1)] = Inr rep \<and>
     eval_condition demo_flow_parse ''when x >= 5'' rep
       = eval_condition demo_flow_parse ''when x >= 5'' [(''x'', PFloat (FFin 7)), (''y'', PNone)]"
proof -
  have wf: "parser_wf demo_flow_parse" by (auto simp: parser_wf_def demo_flow_parse_def split: if_splits)
  show ?thesis
    by (rule quantizer_preserves_decisions [OF wf _ demo_flow_facts(1-3) _ _ demo_flow_facts(4)])
      (auto simp: demo_flow_def)
qed

subsection \<open>The sentinel is not out of reach\<close>

text \<open>
  The sentinel of the trailing categorical cell can be written by an author, and then the codec
  changes decisions: for a field whose one atom compares with the sentinel string, every other string
  is encoded as a cell whose representative satisfies the atom, although the string itself does not.
\<close>

theorem other_cell_collision:
  assumes "categorical_partition x [(AEq, PStr OTHER_CELL)] = Inr p" "s \<noteq> OTHER_CELL"
  shows "\<exists>n w. symbol p (PStr s) = Inr n \<and> representative p n = Inr w \<and>
    atom_true AEq (PStr OTHER_CELL) w = Inr True \<and> atom_true AEq (PStr OTHER_CELL) (PStr s) = Inr False"
proof -
  have p: "p = \<lparr>fp_field = x, fp_kind = CATEGORICAL, fp_cells = [CatCell OTHER_CELL, CatCell OTHER_CELL], fp_definition = None\<rparr>"
    using assms(1) by (auto simp: categorical_partition_def atom_members_def ebind_eq_Inr)
  have k: "CATEGORICAL \<noteq> NUMERIC" "CATEGORICAL \<noteq> BOOLEAN" by (simp_all add: CATEGORICAL_def NUMERIC_def BOOLEAN_def)
  have "symbol p (PStr s) = Inr 0"
    using assms(2) k by (simp add: p symbol_def accept_value_def inferred_symbol_def const_cell_def other_symbol_def)
  then show ?thesis using assms(2) by (auto simp: representative_def p)
qed

theorem other_cell_collision_witness:
  "\<exists>p. categorical_partition ''x'' [(AEq, PStr OTHER_CELL)] = Inr p \<and>
     (\<exists>n w. symbol p (PStr ''idle'') = Inr n \<and> representative p n = Inr w \<and>
       atom_true AEq (PStr OTHER_CELL) w = Inr True \<and> atom_true AEq (PStr OTHER_CELL) (PStr ''idle'') = Inr False)"
proof -
  obtain p where p: "categorical_partition ''x'' [(AEq, PStr OTHER_CELL)] = Inr p"
    by (auto simp: categorical_partition_def atom_members_def)
  then show ?thesis using other_cell_collision [OF p, of "''idle''"] by (simp add: OTHER_CELL_def)
qed

end
