(* ===== verification/Engine.thy ===== *)
theory Engine
  imports Contract Causes
begin

section \<open>The graph engine\<close>

text \<open>
  \<open>src/prismpath/kernel/engine.py\<close>. The worker, the router and \<open>str\<close> on values that are not text are
  parameters: a worker gets the node, its instruction and the state, may change the state, and returns
  an outcome or raises; a router picks a target with a score. Both thread a world of type 'w, so that any
  stateful collaborator is an instance. The state dictionary is a record; a key that is absent in the
  code is an empty list here. What \<open>on_step\<close> and \<open>on_decision\<close> are called with is recorded in the loop
  state, in order. A run that raises leaves with the exception.
\<close>

datatype outcome = OutText string | OutDict ctx | OutRaise string string

record transcript_entry =
  te_node :: string
  te_outcome :: string
  te_error :: bool

record run_state =
  st_transcript :: "transcript_entry list"
  st_visits :: "(string, int) pydict"
  st_errors :: "(string, int) pydict"
  st_guard_errors :: "(string \<times> string) list"
  st_outcomes :: "(string, ctx) pydict"
  st_dropped :: "(string, int) pydict"

definition empty_state :: run_state where
  "empty_state = \<lparr>st_transcript = [], st_visits = [], st_errors = [], st_guard_errors = [], st_outcomes = [], st_dropped = []\<rparr>"

record route_decision =
  rd_target :: string
  rd_score :: "rat option"
  rd_sims :: "(string, rat) pydict"
  rd_margin :: "rat option"
  rd_used :: string
  rd_escalated :: bool

datatype step_info = InfoError string nat | InfoDeterministic string | InfoRouted route_decision

record step_log =
  sl_node :: string
  sl_outcome :: string
  sl_target :: string
  sl_info :: step_info

datatype pending =
    PendingContract string "contract_problem list"
  | PendingHuman string pyval "edge list"
  | PendingFloor string rat string "(edge \<times> rat option) list"
  | PendingWait string "string list" pyval "edge list" "pyval option"

record run_result =
  rr_path :: "string list"
  rr_steps :: "step_log list"
  rr_stopped :: string
  rr_pending :: "pending option"
  rr_cause :: int

record decision_record =
  dr_node :: string
  dr_outcome_text :: string
  dr_outcome_fields :: ctx
  dr_candidates :: "(edge \<times> rat option) list"
  dr_top1 :: "rat option"
  dr_top2 :: "rat option"
  dr_margin :: "rat option"
  dr_chosen :: string
  dr_mechanism :: string
  dr_escalated :: bool
  dr_llm_choice :: "string option"

definition normalize :: "(pyval \<Rightarrow> string) \<Rightarrow> outcome \<Rightarrow> string \<times> ctx" where
  "normalize str_of out = (case out of
       OutDict d \<Rightarrow> ((case map_of d ''text'' of None \<Rightarrow> '''' | Some (PStr s) \<Rightarrow> s | Some v \<Rightarrow> str_of v), d)
     | OutText s \<Rightarrow> (s, [(''text'', PStr s)])
     | OutRaise _ _ \<Rightarrow> ('''', []))"

fun first_deterministic :: "pyparse \<Rightarrow> edge list \<Rightarrow> ctx \<Rightarrow> edge option" where
  "first_deterministic parse [] c = None"
| "first_deterministic parse ((target, condition) # es) c =
     (if \<not> is_deterministic condition then first_deterministic parse es c
      else case eval_condition parse condition c of
          Inr True \<Rightarrow> Some (target, condition)
        | _ \<Rightarrow> first_deterministic parse es c)"

subsection \<open>The bound on the state\<close>

definition bound_of_args :: "(string, string option) pydict \<Rightarrow> int result" where
  "bound_of_args args =
     (case map_of args ''transcript'' of
        Some (Some raw) \<Rightarrow> (case py_int raw of
            None \<Rightarrow> Inl ValueError
          | Some keep \<Rightarrow> if keep < 1 then Inl ValueError else Inr keep)
      | _ \<Rightarrow> Inl ValueError)"

fun bound_of_nodes :: "(string, flow_node) pydict \<Rightarrow> int option result" where
  "bound_of_nodes [] = Inr None"
| "bound_of_nodes ((name, node) # nodes) =
     (case map_of (fn_annotations node) ''state_bound'' of
        None \<Rightarrow> bound_of_nodes nodes
      | Some args \<Rightarrow> ebind (bound_of_args args) (\<lambda>keep. Inr (Some keep)))"

definition flow_state_bound :: "flow_graph \<Rightarrow> int option result" where
  "flow_state_bound graph = bound_of_nodes (fg_nodes graph)"

definition count_drop :: "run_state \<Rightarrow> string \<Rightarrow> int \<Rightarrow> run_state" where
  "count_drop st k count = st\<lparr>st_dropped := dict_set (st_dropped st) k
     ((case map_of (st_dropped st) k of None \<Rightarrow> 0 | Some n \<Rightarrow> n) + count)\<rparr>"

text \<open>\<open>seq[i:]\<close>.\<close>

definition slice_from :: "int \<Rightarrow> 'a list \<Rightarrow> 'a list" where
  "slice_from i xs = drop (nat (if i < 0 then max 0 (int (length xs) + i) else i)) xs"

definition bound_transcript :: "int option \<Rightarrow> run_state \<Rightarrow> run_state" where
  "bound_transcript keep st =
     (case keep of
        None \<Rightarrow> st
      | Some k \<Rightarrow>
        if k = 0 then st
        else let seq = st_transcript st in
          if int (length seq) > k
          then (count_drop st ''transcript'' (int (length seq) - k))\<lparr>st_transcript := slice_from (- k) seq\<rparr>
          else st)"

subsection \<open>One step\<close>

record 'w run_config =
  rc_parse :: pyparse
  rc_str_of :: "pyval \<Rightarrow> string"
  rc_worker :: "'w \<Rightarrow> string \<Rightarrow> string \<Rightarrow> run_state \<Rightarrow> outcome \<times> run_state \<times> 'w"
  rc_router :: "'w \<Rightarrow> string \<Rightarrow> edge list \<Rightarrow> string \<Rightarrow> route_decision result \<times> 'w"
  rc_human_floor :: "rat option"
  rc_type_gate :: bool
  rc_contracts :: "(string, node_contract) pydict"
  rc_bound :: "int option"

record 'w loop_state =
  lp_node :: string
  lp_state :: run_state
  lp_result :: run_result
  lp_world :: 'w
  lp_checkpoints :: "(string option \<times> string) list"
  lp_decisions :: "decision_record list"

definition checkpoint :: "string option \<Rightarrow> 'w loop_state \<Rightarrow> 'w loop_state" where
  "checkpoint pending_node lp = lp\<lparr>lp_checkpoints := lp_checkpoints lp @ [(pending_node, rr_stopped (lp_result lp))]\<rparr>"

text \<open>Stop with a reason, a cause and what is pending, then call \<open>on_step\<close>.\<close>

definition stop_run :: "string \<Rightarrow> int \<Rightarrow> pending option \<Rightarrow> string option \<Rightarrow> 'w loop_state \<Rightarrow> 'w loop_state" where
  "stop_run reason cause pend pending_node lp =
     checkpoint pending_node (lp\<lparr>lp_result := (lp_result lp)\<lparr>rr_stopped := reason, rr_cause := cause, rr_pending := pend\<rparr>\<rparr>)"

definition cause_of :: "string \<Rightarrow> int result" where
  "cause_of name = (case map_of NAMES name of None \<Rightarrow> Inl KeyError | Some c \<Rightarrow> Inr c)"

text \<open>Log a step, move to its target.\<close>

definition advance :: "string \<Rightarrow> string \<Rightarrow> step_info \<Rightarrow> 'w loop_state \<Rightarrow> 'w loop_state" where
  "advance target text info lp =
     lp\<lparr>lp_node := target,
        lp_result := (lp_result lp)
          \<lparr>rr_steps := rr_steps (lp_result lp) @ [\<lparr>sl_node = lp_node lp, sl_outcome = text, sl_target = target, sl_info = info\<rparr>],
           rr_path := rr_path (lp_result lp) @ [target]\<rparr>\<rparr>"

definition error_context :: "string \<Rightarrow> string \<Rightarrow> int \<Rightarrow> int \<Rightarrow> ctx" where
  "error_context etype msg count visits =
     [(''error'', PBool True), (''error_type'', PStr etype), (''error_message'', PStr msg),
      (''error_count'', PInt count), (''visits'', PInt visits)]"

text \<open>The first error edge whose guard holds, with the guards that could not be evaluated on the way.\<close>

fun error_target :: "pyparse \<Rightarrow> edge list \<Rightarrow> ctx \<Rightarrow> string option \<times> string list" where
  "error_target parse [] c = (None, [])"
| "error_target parse ((target, cond) # es) c =
     (if \<not> is_error cond then error_target parse es c
      else let expr = error_expr cond in
        if expr = [] then (Some target, [])
        else case eval_condition parse expr c of
            Inr True \<Rightarrow> (Some target, [])
          | Inr False \<Rightarrow> error_target parse es c
          | Inl _ \<Rightarrow> (let (t, guards) = error_target parse es c in (t, expr # guards)))"

definition error_text :: "string \<Rightarrow> string \<Rightarrow> string" where
  "error_text etype msg = ''[error: '' @ etype @ '': '' @ msg @ '']''"

definition log_transcript :: "int option \<Rightarrow> transcript_entry \<Rightarrow> run_state \<Rightarrow> run_state" where
  "log_transcript bound entry st = bound_transcript bound (st\<lparr>st_transcript := st_transcript st @ [entry]\<rparr>)"

definition handle_error :: "'w run_config \<Rightarrow> flow_node \<Rightarrow> string \<Rightarrow> string \<Rightarrow> 'w loop_state \<Rightarrow> 'w loop_state result" where
  "handle_error cfg node etype msg lp =
     (let here = lp_node lp; st = lp_state lp;
          count = (case map_of (st_errors st) here of None \<Rightarrow> 0 | Some n \<Rightarrow> n) + 1;
          st = st\<lparr>st_errors := dict_set (st_errors st) here count\<rparr> in
      case map_of (st_visits st) here of
        None \<Rightarrow> Inl KeyError
      | Some visits \<Rightarrow>
        (let (etarget, guards) = error_target (rc_parse cfg) (fn_edges node) (error_context etype msg count visits);
             st = st\<lparr>st_guard_errors := st_guard_errors st @ map (\<lambda>g. (here, g)) guards\<rparr> in
         case etarget of
           None \<Rightarrow> Inl (WorkerError etype msg)
         | Some target \<Rightarrow>
           (let etext = error_text etype msg;
                st = log_transcript (rc_bound cfg) \<lparr>te_node = here, te_outcome = etext, te_error = True\<rparr> st;
                failed = length (filter (\<lambda>(n, g). n = here) (st_guard_errors st)) in
            Inr (advance target etext (InfoError etype failed) (lp\<lparr>lp_state := st\<rparr>)))))"

text \<open>\<open>sorted(xs, reverse=True)\<close> of scores.\<close>

definition scores_desc :: "rat list \<Rightarrow> rat list" where
  "scores_desc xs = rev (sort xs)"

definition decision_of :: "string \<Rightarrow> string \<Rightarrow> ctx \<Rightarrow> edge list \<Rightarrow> route_decision \<Rightarrow> decision_record" where
  "decision_of here text fs sem d =
     (let score = (\<lambda>e. map_of (rd_sims d) (fst e)); scored = scores_desc (List.map_filter score sem) in
      \<lparr>dr_node = here, dr_outcome_text = text, dr_outcome_fields = filter (\<lambda>(k, v). k \<noteq> ''text'') fs,
       dr_candidates = map (\<lambda>e. (e, score e)) sem,
       dr_top1 = (if scored = [] then None else Some (scored ! 0)),
       dr_top2 = (if length scored > 1 then Some (scored ! 1) else None),
       dr_margin = rd_margin d, dr_chosen = rd_target d, dr_mechanism = rd_used d,
       dr_escalated = rd_escalated d,
       dr_llm_choice = (if rd_escalated d then Some (rd_target d) else None)\<rparr>)"

text \<open>The semantic tier: the router's choice, or a person when its score is below the floor.\<close>

definition route_semantic :: "'w run_config \<Rightarrow> flow_node \<Rightarrow> string \<Rightarrow> ctx \<Rightarrow> edge list \<Rightarrow> 'w loop_state \<Rightarrow> ('w loop_state \<times> bool) result" where
  "route_semantic cfg node text fs sem lp =
     (case rc_router cfg (lp_world lp) text sem (fn_instruction node) of
        (Inl e, w) \<Rightarrow> Inl e
      | (Inr d, w) \<Rightarrow>
        (let lp = lp\<lparr>lp_world := w\<rparr> in
         case (rc_human_floor cfg, rd_score d) of
           (Some human_floor, Some score) \<Rightarrow>
             (if score < human_floor
              then ebind (cause_of ''route:below-human-floor'') (\<lambda>cause.
                Inr (stop_run ''needs_human'' cause (Some (PendingFloor (lp_node lp) score (rd_target d)
                  (map (\<lambda>e. (e, map_of (rd_sims d) (fst e))) sem))) (Some (lp_node lp)) lp, True))
              else Inr (advance (rd_target d) text (InfoRouted d)
                (lp\<lparr>lp_decisions := lp_decisions lp @ [decision_of (lp_node lp) text fs sem d]\<rparr>), False))
         | _ \<Rightarrow> Inr (advance (rd_target d) text (InfoRouted d)
                (lp\<lparr>lp_decisions := lp_decisions lp @ [decision_of (lp_node lp) text fs sem d]\<rparr>), False)))"

definition route :: "'w run_config \<Rightarrow> flow_node \<Rightarrow> string \<Rightarrow> ctx \<Rightarrow> 'w loop_state \<Rightarrow> ('w loop_state \<times> bool) result" where
  "route cfg node text fs lp =
     (let sem = filter (\<lambda>e. is_semantic (snd e)) (fn_edges node) in
      case map_of (st_visits (lp_state lp)) (lp_node lp) of
        None \<Rightarrow> Inl KeyError
      | Some visits \<Rightarrow>
        (case first_deterministic (rc_parse cfg) (fn_edges node) (dict_set fs ''visits'' (PInt visits)) of
           Some (target, cond) \<Rightarrow> Inr (advance target text (InfoDeterministic cond) lp, False)
         | None \<Rightarrow>
           if sem \<noteq> [] then route_semantic cfg node text fs sem lp
           else ebind (cause_of ''route:stuck'') (\<lambda>cause.
             Inr (stop_run ''stuck'' cause None (Some (lp_node lp)) lp, True))))"

text \<open>What a returned outcome leads to: the type gate, a person, an event, or routing.\<close>

definition handle_outcome :: "'w run_config \<Rightarrow> flow_node \<Rightarrow> outcome \<Rightarrow> 'w loop_state \<Rightarrow> ('w loop_state \<times> bool) result" where
  "handle_outcome cfg node out lp =
     (let (text, fs) = normalize (rc_str_of cfg) out;
          here = lp_node lp;
          st = log_transcript (rc_bound cfg) \<lparr>te_node = here, te_outcome = text, te_error = False\<rparr> (lp_state lp);
          st = st\<lparr>st_outcomes := dict_set (st_outcomes st) here fs\<rparr>;
          lp = lp\<lparr>lp_state := st\<rparr>;
          violations = (if rc_type_gate cfg
            then filter is_type_problem (validate_output
              (case map_of (rc_contracts cfg) here of None \<Rightarrow> [] | Some contract \<Rightarrow> contract) fs) else []) in
      if violations \<noteq> [] then
        ebind (cause_of ''route:contract-violation'') (\<lambda>cause.
          Inr (stop_run ''contract_violation'' cause (Some (PendingContract here violations)) (Some here) lp, True))
      else if truthy (ctx_get fs ''needs_human'') then
        ebind (cause_of ''route:needs-human'') (\<lambda>cause.
          Inr (stop_run ''needs_human'' cause (Some (PendingHuman here
            (if truthy (ctx_get fs ''reason'') then ctx_get fs ''reason'' else PStr text) (fn_edges node))) (Some here) lp, True))
      else if truthy (ctx_get fs ''wait'') \<or> ctx_get fs ''spawn'' \<noteq> PNone then
        (let events = filter (\<lambda>e. is_event (snd e)) (fn_edges node) in
         Inr (stop_run ''waiting'' (rr_cause (lp_result lp)) (Some (PendingWait here (map (event_name \<circ> snd) events)
           (ctx_get fs ''timeout_s'') events
           (if ctx_get fs ''spawn'' \<noteq> PNone then Some (ctx_get fs ''spawn'') else None))) (Some here) lp, True))
      else route cfg node text fs lp)"

definition run_step :: "'w run_config \<Rightarrow> flow_graph \<Rightarrow> 'w loop_state \<Rightarrow> ('w loop_state \<times> bool) result" where
  "run_step cfg graph lp =
     (case map_of (fg_nodes graph) (lp_node lp) of
        None \<Rightarrow> Inl KeyError
      | Some node \<Rightarrow>
        if terminal node
        then Inr (stop_run ''terminal'' (rr_cause (lp_result lp)) (rr_pending (lp_result lp)) None lp, True)
        else
          (let lp = checkpoint (Some (lp_node lp)) lp;
               here = lp_node lp; st = lp_state lp;
               visits = (case map_of (st_visits st) here of None \<Rightarrow> 0 | Some n \<Rightarrow> n) + 1;
               st = st\<lparr>st_visits := dict_set (st_visits st) here visits\<rparr>;
               (out, st, w) = rc_worker cfg (lp_world lp) here (fn_instruction node) st;
               lp = lp\<lparr>lp_state := st, lp_world := w\<rparr> in
           case out of
             OutRaise etype msg \<Rightarrow> ebind (handle_error cfg node etype msg lp) (\<lambda>lp'. Inr (lp', False))
           | _ \<Rightarrow> handle_outcome cfg node out lp))"

fun run_loop :: "'w run_config \<Rightarrow> flow_graph \<Rightarrow> nat \<Rightarrow> 'w loop_state \<Rightarrow> 'w loop_state result" where
  "run_loop cfg graph 0 lp =
     ebind (cause_of ''route:max-steps'') (\<lambda>cause.
       Inr (lp\<lparr>lp_result := (lp_result lp)\<lparr>rr_stopped := ''max_steps'', rr_cause := cause\<rparr>\<rparr>))"
| "run_loop cfg graph (Suc n) lp =
     ebind (run_step cfg graph lp) (\<lambda>(lp', stop). if stop then Inr lp' else run_loop cfg graph n lp')"

text \<open>
  The seeds of a resumed run are windowed like the transcript; a bound of zero, which \<open>run\<close> treats as
  none, leaves them alone.
\<close>

definition window_seed :: "int option \<Rightarrow> string \<Rightarrow> 'a list \<Rightarrow> run_state \<Rightarrow> 'a list \<times> run_state" where
  "window_seed bound k seed st =
     (case bound of
        None \<Rightarrow> (seed, st)
      | Some b \<Rightarrow>
        if seed \<noteq> [] \<and> b \<noteq> 0 \<and> int (length seed) > b
        then (slice_from (- b) seed, count_drop st k (int (length seed) - b))
        else (seed, st))"

definition initial_loop ::
    "'w run_config \<Rightarrow> string \<Rightarrow> run_state \<Rightarrow> string list \<Rightarrow> step_log list \<Rightarrow> 'w \<Rightarrow> 'w loop_state" where
  "initial_loop cfg node st seed_path seed_steps w =
     (let st = bound_transcript (rc_bound cfg) st;
          (seed_path, st) = window_seed (rc_bound cfg) ''path'' seed_path st;
          (seed_steps, st) = window_seed (rc_bound cfg) ''steps'' seed_steps st in
      \<lparr>lp_node = node, lp_state = st,
       lp_result = \<lparr>rr_path = seed_path @ [node], rr_steps = seed_steps, rr_stopped = '''', rr_pending = None,
                    rr_cause = CAUSE_NONE\<rparr>,
       lp_world = w, lp_checkpoints = [], lp_decisions = []\<rparr>)"

definition configured :: "'w run_config \<Rightarrow> flow_graph \<Rightarrow> int option \<Rightarrow> 'w run_config result" where
  "configured cfg graph max_transcript =
     ebind (case max_transcript of Some k \<Rightarrow> Inr (Some k) | None \<Rightarrow> flow_state_bound graph) (\<lambda>bound.
       Inr (cfg\<lparr>rc_bound := bound,
                rc_contracts := (if rc_type_gate cfg then derive_contract (rc_parse cfg) graph else [])\<rparr>))"

definition run ::
    "'w run_config \<Rightarrow> flow_graph \<Rightarrow> int \<Rightarrow> string option \<Rightarrow> run_state \<Rightarrow> int option \<Rightarrow>
     string list \<Rightarrow> step_log list \<Rightarrow> 'w \<Rightarrow> 'w loop_state result" where
  "run cfg graph max_steps start st max_transcript seed_path seed_steps w =
     ebind (configured cfg graph max_transcript) (\<lambda>cfg.
       run_loop cfg graph (nat max_steps)
         (initial_loop cfg (case start of Some s \<Rightarrow> s | None \<Rightarrow> fg_start graph) st seed_path seed_steps w))"

end
