(* ===== verification/EngineSound.thy ===== *)
theory EngineSound
  imports Engine "HOL-Library.Sublist"
begin

section \<open>What a run of the engine guarantees\<close>

text \<open>
  The laws of the engine: the deterministic tier is first-match in document order and takes precedence
  over the router; a run follows the edges of the graph and takes at most its step budget; the reason it
  stops and the cause it reports agree with the registry; the transcript window changes no decision.
\<close>

lemmas loop_defs = stop_run_def checkpoint_def advance_def

subsection \<open>First match\<close>

definition edge_holds :: "pyparse \<Rightarrow> ctx \<Rightarrow> edge \<Rightarrow> bool" where
  "edge_holds parse c e \<longleftrightarrow> is_deterministic (snd e) \<and> eval_condition parse (snd e) c = Inr True"

lemma first_deterministic_find: "first_deterministic parse es c = find (edge_holds parse c) es"
  by (induction parse es c rule: first_deterministic.induct)
    (auto simp: edge_holds_def split: sum.splits bool.splits)

lemma find_before: "\<forall>y\<in>set before. \<not> P y \<Longrightarrow> P e \<Longrightarrow> find P (before @ e # rest) = Some e"
  by (induction before) auto

lemma find_split:
  "find P es = Some e \<longleftrightarrow> (\<exists>before rest. es = before @ e # rest \<and> P e \<and> (\<forall>y\<in>set before. \<not> P y))"
proof
  show "find P es = Some e \<Longrightarrow> \<exists>before rest. es = before @ e # rest \<and> P e \<and> (\<forall>y\<in>set before. \<not> P y)"
  proof (induction es)
    case (Cons a es)
    show ?case
    proof (cases "P a")
      case True
      then show ?thesis using Cons.prems by (intro exI [of _ "[]"] exI [of _ es]) simp
    next
      case False
      then obtain before rest where "es = before @ e # rest" "P e" "\<forall>y\<in>set before. \<not> P y" using Cons by auto
      then show ?thesis using False by (intro exI [of _ "a # before"] exI [of _ rest]) simp
    qed
  qed simp
qed (auto intro: find_before)

text \<open>
  The deterministic tier is first match in document order: the edge it takes is a deterministic edge
  whose condition holds, and no edge before it is one; it takes none exactly when there is none. A
  condition that cannot be evaluated counts as not holding.
\<close>

theorem first_deterministic_first_match:
  "first_deterministic parse es c = Some e \<longleftrightarrow>
     (\<exists>before rest. es = before @ e # rest \<and> edge_holds parse c e \<and> (\<forall>e'\<in>set before. \<not> edge_holds parse c e'))"
  unfolding first_deterministic_find by (rule find_split)

theorem first_deterministic_first_match_witness:
  "first_deterministic (\<lambda>e. None) [(''a'', ''false''), (''b'', ''always''), (''c'', ''always'')] [] = Some (''b'', ''always'')"
proof -
  have "edge_holds (\<lambda>e. None) [] (''b'', ''always'')" "\<not> edge_holds (\<lambda>e. None) [] (''a'', ''false'')"
    unfolding edge_holds_def by code_simp+
  then have "\<exists>before rest. [(''a'', ''false''), (''b'', ''always''), (''c'', ''always'')] = before @ (''b'', ''always'') # rest \<and>
      edge_holds (\<lambda>e. None) [] (''b'', ''always'') \<and> (\<forall>e'\<in>set before. \<not> edge_holds (\<lambda>e. None) [] e')"
    by (intro exI [of _ "[(''a'', ''false'')]"] exI [of _ "[(''c'', ''always'')]"]) simp
  then show ?thesis by (rule first_deterministic_first_match [THEN iffD2])
qed

subsection \<open>One step of a run\<close>

definition stays :: "'w loop_state \<Rightarrow> 'w loop_state \<Rightarrow> bool" where
  "stays lp lp' \<longleftrightarrow> lp_node lp' = lp_node lp \<and> rr_path (lp_result lp') = rr_path (lp_result lp) \<and>
     rr_steps (lp_result lp') = rr_steps (lp_result lp)"

definition moves :: "(step_log \<Rightarrow> bool) \<Rightarrow> 'w loop_state \<Rightarrow> 'w loop_state \<Rightarrow> bool" where
  "moves ok lp lp' \<longleftrightarrow> (\<exists>l. ok l \<and> sl_node l = lp_node lp \<and> lp_node lp' = sl_target l \<and>
     rr_steps (lp_result lp') = rr_steps (lp_result lp) @ [l] \<and>
     rr_path (lp_result lp') = rr_path (lp_result lp) @ [sl_target l])"

text \<open>A router that answers with the target of an edge it was given.\<close>

definition router_sound :: "'w run_config \<Rightarrow> bool" where
  "router_sound cfg \<longleftrightarrow> (\<forall>w text es instr d w'. rc_router cfg w text es instr = (Inr d, w') \<longrightarrow> rd_target d \<in> fst ` set es)"

definition followed :: "flow_graph \<Rightarrow> step_log \<Rightarrow> bool" where
  "followed graph l \<longleftrightarrow> (\<exists>node. map_of (fg_nodes graph) (sl_node l) = Some node \<and> sl_target l \<in> fst ` set (fn_edges node))"

lemma stays_stop: "stays lp (stop_run reason cause pend pnode lp)"
  by (simp add: stays_def loop_defs)

lemma moves_advance:
  "followed graph \<lparr>sl_node = lp_node lp, sl_outcome = tx, sl_target = target, sl_info = info\<rparr> \<Longrightarrow>
   moves (followed graph) lp (advance target tx info lp)"
  by (auto simp: moves_def advance_def)

lemma stays_trans [trans]: "stays lp lp' \<Longrightarrow> stays lp' lp'' \<Longrightarrow> stays lp lp''"
  by (simp add: stays_def)

lemma stays_moves [trans]: "stays lp lp' \<Longrightarrow> moves ok lp' lp'' \<Longrightarrow> moves ok lp lp''"
  by (auto simp: stays_def moves_def)

lemma error_target_edge: "error_target parse es c = (Some t, gs) \<Longrightarrow> t \<in> fst ` set es"
  by (induction parse es c arbitrary: gs rule: error_target.induct)
    (auto simp: Let_def split: if_splits sum.splits bool.splits prod.splits)

lemma handle_error_moves:
  assumes "handle_error cfg node etype msg lp = Inr lp'" "map_of (fg_nodes graph) (lp_node lp) = Some node"
  shows "moves (followed graph) lp lp'"
proof -
  from assms(1) obtain target gs c etext info st where
    "error_target (rc_parse cfg) (fn_edges node) c = (Some target, gs)"
    "lp' = advance target etext info (lp\<lparr>lp_state := st\<rparr>)"
    by (auto simp: handle_error_def Let_def split: option.splits prod.splits)
  then show ?thesis using assms(2) error_target_edge
    by (force simp: moves_def advance_def followed_def)
qed

text \<open>A step either stops where it is, or moves along an edge of its node.\<close>

definition step_ok :: "flow_graph \<Rightarrow> 'w loop_state \<Rightarrow> 'w loop_state \<times> bool \<Rightarrow> bool" where
  "step_ok graph lp r \<longleftrightarrow> (if snd r then stays lp (fst r) else moves (followed graph) lp (fst r))"

lemma route_semantic_ok:
  assumes "route_semantic cfg node tx fs sem lp = Inr r" "map_of (fg_nodes graph) (lp_node lp) = Some node"
    and "router_sound cfg" "set sem \<subseteq> set (fn_edges node)"
  shows "step_ok graph lp r"
proof -
  obtain d w where d: "rc_router cfg (lp_world lp) tx sem (fn_instruction node) = (Inr d, w)"
    using assms(1) by (auto simp: route_semantic_def split: prod.splits sum.splits)
  then have "rd_target d \<in> fst ` set (fn_edges node)"
    using assms(3,4) unfolding router_sound_def by blast
  then have f: "followed graph \<lparr>sl_node = lp_node lp, sl_outcome = tx, sl_target = rd_target d, sl_info = info\<rparr>" for info
    using assms(2) by (simp add: followed_def)
  show ?thesis using assms(1) d f
    by (auto simp: route_semantic_def step_ok_def Let_def ebind_eq_Inr stays_def moves_def loop_defs
        split: option.splits if_splits)
qed

lemma route_ok:
  assumes "route cfg node tx fs lp = Inr r" "map_of (fg_nodes graph) (lp_node lp) = Some node" "router_sound cfg"
  shows "step_ok graph lp r"
proof -
  obtain visits where v: "map_of (st_visits (lp_state lp)) (lp_node lp) = Some visits"
    using assms(1) by (auto simp: route_def Let_def split: option.splits)
  show ?thesis
  proof (cases "first_deterministic (rc_parse cfg) (fn_edges node) (dict_set fs ''visits'' (PInt visits))")
    case (Some e)
    then have "e \<in> set (fn_edges node)" by (auto simp: first_deterministic_find find_Some_iff)
    then have "followed graph \<lparr>sl_node = lp_node lp, sl_outcome = tx, sl_target = fst e, sl_info = info\<rparr>" for info
      using assms(2) by (auto simp: followed_def)
    then show ?thesis using assms(1) Some v
      by (auto simp: route_def Let_def step_ok_def intro!: moves_advance split: prod.splits)
  next
    case None
    show ?thesis
    proof (cases "filter (\<lambda>e. is_semantic (snd e)) (fn_edges node) = []")
      case True
      then show ?thesis using assms(1) None v
        by (auto simp: route_def Let_def ebind_eq_Inr step_ok_def stays_stop)
    next
      case False
      then have "route_semantic cfg node tx fs (filter (\<lambda>e. is_semantic (snd e)) (fn_edges node)) lp = Inr r"
        using assms(1) None v by (simp add: route_def Let_def)
      then show ?thesis by (rule route_semantic_ok [OF _ assms(2,3)]) auto
    qed
  qed
qed

lemma step_ok_same:
  "lp_node lp = lp_node lq \<Longrightarrow> lp_result lp = lp_result lq \<Longrightarrow> step_ok graph lp r = step_ok graph lq r"
  by (simp add: step_ok_def stays_def moves_def)

lemma step_ok_stop: "lp_node lp = lp_node lq \<Longrightarrow> lp_result lp = lp_result lq \<Longrightarrow> step_ok graph lq (stop_run reason cause pend pnode lp, True)"
  by (simp add: step_ok_def stays_def loop_defs)

definition noted :: "'w run_config \<Rightarrow> string \<Rightarrow> ctx \<Rightarrow> 'w loop_state \<Rightarrow> 'w loop_state" where
  "noted cfg tx fs lp =
     (let st = log_transcript (rc_bound cfg) \<lparr>te_node = lp_node lp, te_outcome = tx, te_error = False\<rparr> (lp_state lp) in
      lp\<lparr>lp_state := st\<lparr>st_outcomes := dict_set (st_outcomes st) (lp_node lp) fs\<rparr>\<rparr>)"

lemma noted_simps [simp]: "lp_node (noted cfg tx fs lp) = lp_node lp" "lp_result (noted cfg tx fs lp) = lp_result lp"
  by (simp_all add: noted_def Let_def)

lemma handle_outcome_cases:
  assumes "handle_outcome cfg node out lp = Inr r" "normalize (rc_str_of cfg) out = (tx, fs)"
  shows "route cfg node tx fs (noted cfg tx fs lp) = Inr r \<or>
    (\<exists>reason cause pend pnode. r = (stop_run reason cause pend pnode (noted cfg tx fs lp), True))"
  using assms(1) unfolding handle_outcome_def assms(2) Let_def prod.case noted_def [symmetric, unfolded Let_def]
  by (simp only: ebind_eq_Inr sum.inject split: if_splits) blast+

lemma handle_outcome_ok:
  assumes "handle_outcome cfg node out lp = Inr r" "map_of (fg_nodes graph) (lp_node lp) = Some node" "router_sound cfg"
  shows "step_ok graph lp r"
proof -
  obtain tx fs where n: "normalize (rc_str_of cfg) out = (tx, fs)" by (cases "normalize (rc_str_of cfg) out")
  from handle_outcome_cases [OF assms(1) n] show ?thesis
  proof (elim disjE exE)
    assume "route cfg node tx fs (noted cfg tx fs lp) = Inr r"
    then have "step_ok graph (noted cfg tx fs lp) r" by (rule route_ok) (use assms in simp_all)
    then show ?thesis by (simp cong: step_ok_same)
  qed (simp add: step_ok_stop)
qed

definition entered :: "'w loop_state \<Rightarrow> run_state" where
  "entered lp = (lp_state lp)\<lparr>st_visits := dict_set (st_visits (lp_state lp)) (lp_node lp)
     ((case map_of (st_visits (lp_state lp)) (lp_node lp) of None \<Rightarrow> 0 | Some n \<Rightarrow> n) + 1)\<rparr>"

definition worked :: "run_state \<Rightarrow> 'w \<Rightarrow> 'w loop_state \<Rightarrow> 'w loop_state" where
  "worked st w lp = (checkpoint (Some (lp_node lp)) lp)\<lparr>lp_state := st, lp_world := w\<rparr>"

lemma worked_simps [simp]:
  "lp_node (worked st w lp) = lp_node lp" "lp_result (worked st w lp) = lp_result lp"
  "lp_state (worked st w lp) = st" "lp_world (worked st w lp) = w"
  by (simp_all add: worked_def checkpoint_def)

lemma run_step_node:
  assumes "map_of (fg_nodes graph) (lp_node lp) = Some node" "\<not> terminal node"
    and "rc_worker cfg (lp_world lp) (lp_node lp) (fn_instruction node) (entered lp) = (out, st, w)"
  shows "run_step cfg graph lp = (case out of
      OutRaise etype msg \<Rightarrow> ebind (handle_error cfg node etype msg (worked st w lp)) (\<lambda>lp'. Inr (lp', False))
    | _ \<Rightarrow> handle_outcome cfg node out (worked st w lp))"
  using assms by (simp add: run_step_def Let_def entered_def worked_def checkpoint_def split: outcome.splits)

lemma run_step_ok:
  assumes "run_step cfg graph lp = Inr r" "router_sound cfg"
  shows "step_ok graph lp r"
proof -
  obtain node where node: "map_of (fg_nodes graph) (lp_node lp) = Some node"
    using assms(1) by (auto simp: run_step_def split: option.splits)
  show ?thesis
  proof (cases "terminal node")
    case True
    then show ?thesis using assms(1) node by (auto simp: run_step_def step_ok_stop)
  next
    case False
    obtain out st w where wk: "rc_worker cfg (lp_world lp) (lp_node lp) (fn_instruction node) (entered lp) = (out, st, w)"
      by (metis prod_cases3)
    have n: "map_of (fg_nodes graph) (lp_node (worked st w lp)) = Some node" using node by simp
    have "step_ok graph (worked st w lp) r"
    proof (cases out)
      case (OutRaise etype msg)
      then obtain lp' where "handle_error cfg node etype msg (worked st w lp) = Inr lp'" "r = (lp', False)"
        using assms(1) unfolding run_step_node [OF node False wk] by (auto simp: ebind_eq_Inr)
      then show ?thesis using handle_error_moves [OF _ n] by (simp add: step_ok_def)
    qed (use assms(1) handle_outcome_ok [OF _ n assms(2)] in \<open>simp_all add: run_step_node [OF node False wk]\<close>)
    then show ?thesis by (simp cong: step_ok_same)
  qed
qed

subsection \<open>A run follows the graph\<close>

fun chained :: "string \<Rightarrow> step_log list \<Rightarrow> string \<Rightarrow> bool" where
  "chained a [] b \<longleftrightarrow> a = b"
| "chained a (l # ls) b \<longleftrightarrow> sl_node l = a \<and> chained (sl_target l) ls b"

lemma run_loop_chained:
  assumes "run_loop cfg graph n lp = Inr lp'" "router_sound cfg"
  shows "\<exists>new. rr_steps (lp_result lp') = rr_steps (lp_result lp) @ new \<and>
    rr_path (lp_result lp') = rr_path (lp_result lp) @ map sl_target new \<and>
    chained (lp_node lp) new (lp_node lp') \<and> list_all (followed graph) new \<and> length new \<le> n"
  using assms(1)
proof (induction n arbitrary: lp)
  case 0
  then show ?case by (auto simp: ebind_eq_Inr)
next
  case (Suc n)
  then obtain lq stop where r: "run_step cfg graph lp = Inr (lq, stop)"
    "(if stop then Inr lq else run_loop cfg graph n lq) = Inr lp'" by (auto simp: ebind_eq_Inr)
  note ok = run_step_ok [OF r(1) assms(2)]
  show ?case
  proof (cases stop)
    case True
    then show ?thesis using ok r(2) by (intro exI [of _ "[]"]) (simp add: step_ok_def stays_def)
  next
    case False
    then obtain l where l: "followed graph l" "sl_node l = lp_node lp" "lp_node lq = sl_target l"
      "rr_steps (lp_result lq) = rr_steps (lp_result lp) @ [l]" "rr_path (lp_result lq) = rr_path (lp_result lp) @ [sl_target l]"
      using ok by (auto simp: step_ok_def moves_def)
    from False r(2) have "run_loop cfg graph n lq = Inr lp'" by simp
    from Suc.IH [OF this] obtain new where "rr_steps (lp_result lp') = rr_steps (lp_result lq) @ new"
      "rr_path (lp_result lp') = rr_path (lp_result lq) @ map sl_target new"
      "chained (lp_node lq) new (lp_node lp')" "list_all (followed graph) new" "length new \<le> n" by blast
    then show ?thesis using l by (intro exI [of _ "l # new"]) simp
  qed
qed

lemma configured_Inr:
  "configured cfg graph mt = Inr cfg' \<Longrightarrow> \<exists>b cs. cfg' = cfg\<lparr>rc_bound := b, rc_contracts := cs\<rparr>"
  by (auto simp: configured_def ebind_eq_Inr)

lemma suffix_slice: "suffix (slice_from i xs) xs"
  by (simp add: slice_from_def suffix_drop)

lemma window_seed_suffix: "window_seed b k seed st = (kept, st') \<Longrightarrow> suffix kept seed"
  by (auto simp: window_seed_def suffix_slice split: option.splits if_splits)

lemma initial_loop_parts:
  "\<exists>kept_path kept_steps st'. suffix kept_path seed_path \<and> suffix kept_steps seed_steps \<and>
     initial_loop cfg node st seed_path seed_steps w =
       \<lparr>lp_node = node, lp_state = st',
        lp_result = \<lparr>rr_path = kept_path @ [node], rr_steps = kept_steps, rr_stopped = '''', rr_pending = None, rr_cause = CAUSE_NONE\<rparr>,
        lp_world = w, lp_checkpoints = [], lp_decisions = []\<rparr>"
  by (auto simp: initial_loop_def Let_def dest!: window_seed_suffix split: prod.splits)

lemma run_Inr:
  assumes "run cfg graph max_steps start st mt seed_path seed_steps w = Inr lp"
  obtains b cs where
    "run_loop (cfg\<lparr>rc_bound := b, rc_contracts := cs\<rparr>) graph (nat max_steps)
       (initial_loop (cfg\<lparr>rc_bound := b, rc_contracts := cs\<rparr>) (case start of Some s \<Rightarrow> s | None \<Rightarrow> fg_start graph) st
         seed_path seed_steps w) = Inr lp"
  using assms configured_Inr [of cfg graph mt] by (auto simp: run_def ebind_eq_Inr)


text \<open>A flow with one deterministic edge, and a worker that counts its calls in the world.\<close>

definition demo_graph :: flow_graph where
  "demo_graph = \<lparr>fg_name = ''demo'', fg_start = ''a'',
     fg_nodes = [(''a'', \<lparr>fn_name = ''a'', fn_instruction = [], fn_edges = [(''b'', ''always'')], fn_annotations = []\<rparr>),
                 (''b'', \<lparr>fn_name = ''b'', fn_instruction = [], fn_edges = [], fn_annotations = []\<rparr>)],
     fg_meta = [], fg_fields = []\<rparr>"

definition demo_config :: "nat run_config" where
  "demo_config = \<lparr>rc_parse = (\<lambda>e. None), rc_str_of = (\<lambda>v. ''''),
     rc_worker = (\<lambda>w node instr st. (OutText ''done'', st, w + 1)),
     rc_router = (\<lambda>w t es instr. (Inl ValueError, w)),
     rc_human_floor = None, rc_type_gate = False, rc_contracts = [], rc_bound = None\<rparr>"

definition demo_run :: "nat loop_state result" where
  "demo_run = run demo_config demo_graph 25 None empty_state None [''z''] [] 0"

lemma demo_run_value:
  "case demo_run of
      Inr lp \<Rightarrow> rr_path (lp_result lp) = [''z'', ''a'', ''b''] \<and> rr_stopped (lp_result lp) = ''terminal'' \<and>
        map sl_target (rr_steps (lp_result lp)) = [''b''] \<and> lp_world lp = 1
    | Inl e \<Rightarrow> False"
  by code_simp


subsection \<open>The window changes no decision\<close>

text \<open>
  Two loop states agree up to the window when they differ at most in the transcript and in the count of
  what was dropped from it.
\<close>

definition unlogged :: "run_state \<Rightarrow> run_state" where
  "unlogged st = st\<lparr>st_transcript := [], st_dropped := []\<rparr>"

definition blank :: "'w loop_state \<Rightarrow> 'w loop_state" where
  "blank lp = lp\<lparr>lp_state := unlogged (lp_state lp)\<rparr>"

text \<open>A worker that neither reads nor restores what the window may drop.\<close>

definition worker_blind :: "'w run_config \<Rightarrow> bool" where
  "worker_blind cfg \<longleftrightarrow> (\<forall>w n i st st'. unlogged st = unlogged st' \<longrightarrow>
     (\<lambda>(out, s, w'). (out, unlogged s, w')) (rc_worker cfg w n i st) = (\<lambda>(out, s, w'). (out, unlogged s, w')) (rc_worker cfg w n i st'))"

abbreviation with_bound :: "int option \<Rightarrow> 'w run_config \<Rightarrow> 'w run_config" where
  "with_bound b cfg \<equiv> cfg\<lparr>rc_bound := b\<rparr>"

definition blank_step :: "('w loop_state \<times> bool) result \<Rightarrow> ('w loop_state \<times> bool) result" where
  "blank_step = map_sum id (map_prod blank id)"

lemma unlogged_eq_iff:
  "unlogged st = unlogged st' \<longleftrightarrow> st_visits st = st_visits st' \<and> st_errors st = st_errors st' \<and>
     st_guard_errors st = st_guard_errors st' \<and> st_outcomes st = st_outcomes st' \<and> run_state.more st = run_state.more st'"
  by (cases st; cases st') (simp add: unlogged_def)

lemma blank_eq_iff:
  "blank lp = blank lq \<longleftrightarrow> lp_node lp = lp_node lq \<and> unlogged (lp_state lp) = unlogged (lp_state lq) \<and>
     lp_result lp = lp_result lq \<and> lp_world lp = lp_world lq \<and> lp_checkpoints lp = lp_checkpoints lq \<and>
     lp_decisions lp = lp_decisions lq"
  by (cases lp; cases lq) (auto simp: blank_def)

lemma log_transcript_unlogged: "unlogged (log_transcript b e st) = unlogged st"
  by (simp add: log_transcript_def bound_transcript_def count_drop_def Let_def unlogged_def split: option.split)

lemma bound_transcript_unlogged: "unlogged (bound_transcript b st) = unlogged st"
  by (simp add: bound_transcript_def count_drop_def Let_def unlogged_def split: option.split)

lemma unlogged_cong:
  assumes "unlogged st = unlogged st'"
  shows "st_visits st = st_visits st'" "st_errors st = st_errors st'" "st_guard_errors st = st_guard_errors st'"
    "st_outcomes st = st_outcomes st'"
  using assms by (simp_all add: unlogged_eq_iff)

lemma noted_blank:
  assumes "blank lp = blank lq"
  shows "blank (noted (with_bound b cfg) tx fs lp) = blank (noted (with_bound b' cfg) tx fs lq)"
proof -
  have "unlogged (log_transcript b e (lp_state lp)) = unlogged (log_transcript b' e (lp_state lq))" for e
    using assms by (simp add: log_transcript_unlogged blank_eq_iff)
  then show ?thesis using assms by (simp add: noted_def Let_def blank_eq_iff unlogged_eq_iff)
qed

lemma stop_run_blank:
  "blank lp = blank lq \<Longrightarrow> blank (stop_run reason cause pend pnode lp) = blank (stop_run reason cause pend pnode lq)"
  by (simp add: blank_eq_iff loop_defs)

lemma advance_blank: "blank lp = blank lq \<Longrightarrow> blank (advance target tx info lp) = blank (advance target tx info lq)"
  by (simp add: blank_eq_iff loop_defs)

lemma handle_error_blank:
  assumes "blank lp = blank lq"
  shows "map_sum id blank (handle_error (with_bound b cfg) node etype msg lp)
    = map_sum id blank (handle_error (with_bound b' cfg) node etype msg lq)"
proof -
  note eq = assms [unfolded blank_eq_iff unlogged_eq_iff]
  show ?thesis using eq
    by (simp add: handle_error_def Let_def log_transcript_unlogged blank_eq_iff advance_def
        log_transcript_def bound_transcript_def count_drop_def unlogged_eq_iff
        split: option.split prod.split)
qed

lemma world_blank: "blank lp = blank lq \<Longrightarrow> blank (lp\<lparr>lp_world := w\<rparr>) = blank (lq\<lparr>lp_world := w\<rparr>)"
  by (simp add: blank_eq_iff)

lemma decided_blank:
  assumes "blank lp = blank lq"
  shows "blank (advance target tx info (lp\<lparr>lp_decisions := lp_decisions lp @ [decision_of (lp_node lp) tx fs sem d]\<rparr>))
    = blank (advance target tx info (lq\<lparr>lp_decisions := lp_decisions lq @ [decision_of (lp_node lq) tx fs sem d]\<rparr>))"
  by (rule advance_blank) (use assms in \<open>simp add: blank_eq_iff\<close>)

lemma route_semantic_blank:
  assumes "blank lp = blank lq"
  shows "blank_step (route_semantic (with_bound b cfg) node tx fs sem lp) = blank_step (route_semantic (with_bound b' cfg) node tx fs sem lq)"
proof -
  have n: "lp_node lp = lp_node lq" "lp_world lp = lp_world lq" using assms by (simp_all add: blank_eq_iff)
  obtain r w where d: "rc_router cfg (lp_world lq) tx sem (fn_instruction node) = (r, w)" by fastforce
  define fin where "fin lp d = advance (rd_target d) tx (InfoRouted d)
      (lp\<lparr>lp_decisions := lp_decisions lp @ [decision_of (lp_node lp) tx fs sem d]\<rparr>)" for lp :: "'a loop_state" and d
  have fin: "blank (fin (lp\<lparr>lp_world := w\<rparr>) d) = blank (fin (lq\<lparr>lp_world := w\<rparr>) d)" for d
    unfolding fin_def by (rule decided_blank [OF world_blank [OF assms]])
  have stop: "blank (stop_run reason cause pend pnode (lp\<lparr>lp_world := w\<rparr>)) = blank (stop_run reason cause pend pnode (lq\<lparr>lp_world := w\<rparr>))"
    for reason cause pend pnode by (rule stop_run_blank [OF world_blank [OF assms]])
  show ?thesis
    unfolding route_semantic_def Let_def fin_def [symmetric]
    using n by (cases r; cases "rc_human_floor cfg") (simp_all add: d fin stop blank_step_def ebind_def split: option.split sum.split)
qed

lemma route_blank:
  assumes "blank lp = blank lq"
  shows "blank_step (route (with_bound b cfg) node tx fs lp) = blank_step (route (with_bound b' cfg) node tx fs lq)"
proof -
  have n: "lp_node lp = lp_node lq" "st_visits (lp_state lp) = st_visits (lp_state lq)"
    using assms by (simp_all add: blank_eq_iff unlogged_eq_iff)
  have stop: "blank_step (Inr (stop_run reason cause pend pnode lp, x)) = blank_step (Inr (stop_run reason cause pend pnode lq, x))"
    for reason cause pend pnode x by (simp add: blank_step_def stop_run_blank [OF assms])
  have adv: "blank_step (Inr (advance target tx info lp, x)) = blank_step (Inr (advance target tx info lq, x))"
    for target info x by (simp add: blank_step_def advance_blank [OF assms])
  have "rc_parse (with_bound b cfg) = rc_parse (with_bound b' cfg)" by simp
  then show ?thesis
    unfolding route_def Let_def n
    by (cases "cause_of ''route:stuck''"; simp split: option.split; intro conjI allI impI adv stop route_semantic_blank assms)
qed

lemma handle_outcome_blank:
  assumes "blank lp = blank lq"
  shows "blank_step (handle_outcome (with_bound b cfg) node out lp) = blank_step (handle_outcome (with_bound b' cfg) node out lq)"
proof -
  obtain tx fs where n: "normalize (rc_str_of cfg) out = (tx, fs)" by (cases "normalize (rc_str_of cfg) out")
  have nodes: "lp_node lp = lp_node lq" "lp_result lp = lp_result lq" using assms by (simp_all add: blank_eq_iff)
  note same = noted_blank [OF assms, of b cfg tx fs b']
  have stop: "blank_step (Inr (stop_run reason cause pend pnode (noted (with_bound b cfg) tx fs lp), x))
      = blank_step (Inr (stop_run reason cause pend pnode (noted (with_bound b' cfg) tx fs lq), x))"
    for reason cause pend pnode x by (simp add: blank_step_def stop_run_blank [OF same])
  have bind: "blank_step (ebind r f) = blank_step (ebind r g)" if "\<And>c. blank_step (f c) = blank_step (g c)" for r :: "int result" and f g
    using that by (cases r) simp_all
  have norm: "normalize (rc_str_of (with_bound c cfg)) out = (tx, fs)" for c using n by simp
  show ?thesis
    unfolding handle_outcome_def Let_def norm prod.case noted_def [symmetric, unfolded Let_def]
    by (simp add: nodes; intro conjI impI bind stop route_blank [OF same])
qed

lemma run_step_blank:
  assumes "blank lp = blank lq" "worker_blind cfg"
  shows "blank_step (run_step (with_bound b cfg) graph lp) = blank_step (run_step (with_bound b' cfg) graph lq)"
proof (cases "map_of (fg_nodes graph) (lp_node lq)")
  case None
  then show ?thesis using assms(1) by (simp add: run_step_def blank_eq_iff)
next
  case (Some node)
  have n: "lp_node lp = lp_node lq" "lp_world lp = lp_world lq" "lp_result lp = lp_result lq"
    using assms(1) by (simp_all add: blank_eq_iff)
  then have s: "map_of (fg_nodes graph) (lp_node lp) = Some node" using Some by simp
  show ?thesis
  proof (cases "terminal node")
    case True
    then show ?thesis using Some s n by (simp add: run_step_def blank_step_def stop_run_blank [OF assms(1)])
  next
    case False
    obtain out st w where wp: "rc_worker cfg (lp_world lp) (lp_node lp) (fn_instruction node) (entered lp) = (out, st, w)"
      by (metis prod_cases3)
    obtain out' st' w' where wq: "rc_worker cfg (lp_world lq) (lp_node lq) (fn_instruction node) (entered lq) = (out', st', w')"
      by (metis prod_cases3)
    have "unlogged (entered lp) = unlogged (entered lq)"
      using assms(1) by (simp add: entered_def blank_eq_iff unlogged_eq_iff)
    then have "(\<lambda>(out, s, w'). (out, unlogged s, w')) (rc_worker cfg (lp_world lq) (lp_node lq) (fn_instruction node) (entered lp))
        = (\<lambda>(out, s, w'). (out, unlogged s, w')) (rc_worker cfg (lp_world lq) (lp_node lq) (fn_instruction node) (entered lq))"
      using assms(2) unfolding worker_blind_def by blast
    then have o: "out' = out" "unlogged st = unlogged st'" "w' = w" using wp wq n by simp_all
    have b: "blank (worked st w lp) = blank (worked st' w lq)"
      using assms(1) o(2) by (simp add: worked_def blank_eq_iff checkpoint_def)
    have "rc_worker (with_bound b cfg) (lp_world lp) (lp_node lp) (fn_instruction node) (entered lp) = (out, st, w)"
      "rc_worker (with_bound b' cfg) (lp_world lq) (lp_node lq) (fn_instruction node) (entered lq) = (out, st', w)"
      using wp wq o by simp_all
    note eqs = run_step_node [OF s False this(1)] run_step_node [OF Some False this(2)]
    show ?thesis
    proof (cases out)
      case (OutRaise etype msg)
      have "map_sum id blank (handle_error (with_bound b cfg) node etype msg (worked st w lp))
          = map_sum id blank (handle_error (with_bound b' cfg) node etype msg (worked st' w lq))" by (rule handle_error_blank [OF b])
      then show ?thesis
        by (cases "handle_error (with_bound b cfg) node etype msg (worked st w lp)";
            cases "handle_error (with_bound b' cfg) node etype msg (worked st' w lq)")
          (simp_all add: eqs OutRaise blank_step_def)
    qed (simp_all add: eqs handle_outcome_blank [OF b])
  qed
qed

lemma run_loop_blank:
  assumes "blank lp = blank lq" "worker_blind cfg"
  shows "map_sum id blank (run_loop (with_bound b cfg) graph n lp) = map_sum id blank (run_loop (with_bound b' cfg) graph n lq)"
  using assms(1)
proof (induction n arbitrary: lp lq)
  case 0
  then show ?case by (cases "cause_of ''route:max-steps''") (simp_all add: blank_eq_iff)
next
  case (Suc n)
  have "blank_step (run_step (with_bound b cfg) graph lp) = blank_step (run_step (with_bound b' cfg) graph lq)"
    by (rule run_step_blank [OF Suc.prems assms(2)])
  then show ?case
    by (cases "run_step (with_bound b cfg) graph lp"; cases "run_step (with_bound b' cfg) graph lq")
      (auto simp: blank_step_def split: prod.splits intro: Suc.IH [unfolded id_def])
qed

lemma initial_loop_blank: "blank (initial_loop (with_bound b cfg) node st [] [] w) = blank (initial_loop (with_bound b' cfg) node st [] [] w)"
proof -
  have seed: "window_seed c k [] s = ([], s)" for c k s by (simp add: window_seed_def split: option.split)
  show ?thesis by (simp add: initial_loop_def seed blank_eq_iff bound_transcript_unlogged)
qed

text \<open>
  C37. The transcript window cannot change a run: with a worker that does not look at what the window may
  drop, a fresh run under any bound (zero, that is none, included) and under any other bound ends in the
  same way, with the same path, steps, stop reason, pending request, cause, checkpoints, routing records
  and counters, or with the same exception; only the transcript and the count of dropped entries differ.
\<close>

theorem window_changes_no_decision:
  assumes "worker_blind cfg"
  shows "map_sum id blank (run cfg graph max_steps start st (Some k) [] [] w)
    = map_sum id blank (run cfg graph max_steps start st (Some k') [] [] w)"
proof -
  define cfg' where "cfg' = cfg\<lparr>rc_contracts := (if rc_type_gate cfg then derive_contract (rc_parse cfg) graph else [])\<rparr>"
  have conf: "configured cfg graph (Some b) = Inr (with_bound (Some b) cfg')" for b
    by (simp add: configured_def cfg'_def)
  have "rc_worker cfg' = rc_worker cfg" by (simp add: cfg'_def)
  then have "worker_blind cfg' = worker_blind cfg" unfolding worker_blind_def by (rule arg_cong)
  then have "worker_blind cfg'" using assms by (rule ssubst)
  then show ?thesis
    unfolding run_def conf ebind_simps by (rule run_loop_blank [OF initial_loop_blank])
qed

lemma demo_blind: "worker_blind demo_config"
  by (simp add: worker_blind_def demo_config_def)

theorem window_changes_no_decision_witness:
  "map_sum id blank (run demo_config demo_graph 25 None empty_state (Some 1) [] [] 0)
    = map_sum id blank (run demo_config demo_graph 25 None empty_state (Some 0) [] [] 0)"
  by (rule window_changes_no_decision [OF demo_blind])

subsection \<open>Reasons and causes\<close>

definition cause_agrees :: "run_result \<Rightarrow> bool" where
  "cause_agrees res \<longleftrightarrow>
     rr_stopped res \<in> {''terminal'', ''waiting''} \<and> rr_cause res = CAUSE_NONE \<or>
     map_of ENGINE_STOP_TO_CAUSE (rr_stopped res) = Some (rr_cause res) \<or>
     rr_stopped res = ''needs_human'' \<and> map_of NAMES ''route:below-human-floor'' = Some (rr_cause res)"

lemma cause_of_stop:
  "cause_of ''route:stuck'' = Inr c \<Longrightarrow> map_of ENGINE_STOP_TO_CAUSE ''stuck'' = Some c"
  "cause_of ''route:max-steps'' = Inr c \<Longrightarrow> map_of ENGINE_STOP_TO_CAUSE ''max_steps'' = Some c"
  "cause_of ''route:needs-human'' = Inr c \<Longrightarrow> map_of ENGINE_STOP_TO_CAUSE ''needs_human'' = Some c"
  "cause_of ''route:contract-violation'' = Inr c \<Longrightarrow> map_of ENGINE_STOP_TO_CAUSE ''contract_violation'' = Some c"
  by (simp_all add: cause_of_def ENGINE_STOP_TO_CAUSE_def split: option.splits)

definition cause_kept :: "'w loop_state \<Rightarrow> 'w loop_state \<times> bool \<Rightarrow> bool" where
  "cause_kept lp r \<longleftrightarrow> (if snd r then rr_cause (lp_result lp) = CAUSE_NONE \<longrightarrow> cause_agrees (lp_result (fst r))
     else rr_cause (lp_result (fst r)) = rr_cause (lp_result lp))"

lemma cause_kept_advance: "lp_result lq = lp_result lp \<Longrightarrow> cause_kept lp (advance target tx info lq, False)"
  by (simp add: cause_kept_def loop_defs)

lemma cause_kept_stop:
  "map_of ENGINE_STOP_TO_CAUSE reason = Some cause \<Longrightarrow> cause_kept lp (stop_run reason cause pend pnode lq, True)"
  "cause_of ''route:below-human-floor'' = Inr cause \<Longrightarrow> cause_kept lp (stop_run ''needs_human'' cause pend pnode lq, True)"
  "reason \<in> {''terminal'', ''waiting''} \<Longrightarrow> cause = rr_cause (lp_result lp) \<Longrightarrow> cause_kept lp (stop_run reason cause pend pnode lq, True)"
  by (auto simp: cause_kept_def cause_agrees_def loop_defs cause_of_def split: option.splits)

lemma cause_kept_same: "lp_result lp = lp_result lq \<Longrightarrow> cause_kept lp r = cause_kept lq r"
  by (simp add: cause_kept_def)

lemma route_semantic_cause:
  assumes "route_semantic cfg node tx fs sem lp = Inr r"
  shows "cause_kept lp r"
proof -
  obtain d w where d: "rc_router cfg (lp_world lp) tx sem (fn_instruction node) = (Inr d, w)"
    using assms by (auto simp: route_semantic_def split: prod.splits sum.splits)
  then consider (stop) cause pend pnode where "cause_of ''route:below-human-floor'' = Inr cause"
      "r = (stop_run ''needs_human'' cause pend pnode (lp\<lparr>lp_world := w\<rparr>), True)"
    | (go) ds where "r = (advance (rd_target d) tx (InfoRouted d) (lp\<lparr>lp_world := w, lp_decisions := ds\<rparr>), False)"
    using assms by (auto simp: route_semantic_def Let_def ebind_eq_Inr split: option.splits if_splits)
  then show ?thesis
    by cases (auto intro: cause_kept_stop(2) cause_kept_advance)
qed

lemma route_cause:
  assumes "route cfg node tx fs lp = Inr r"
  shows "cause_kept lp r"
proof -
  obtain visits where v: "map_of (st_visits (lp_state lp)) (lp_node lp) = Some visits"
    using assms by (auto simp: route_def Let_def split: option.splits)
  then consider (det) target cond where "r = (advance target tx (InfoDeterministic cond) lp, False)"
    | (sem) sem where "route_semantic cfg node tx fs sem lp = Inr r"
    | (stuck) cause where "cause_of ''route:stuck'' = Inr cause" "r = (stop_run ''stuck'' cause None (Some (lp_node lp)) lp, True)"
    using assms by (auto simp: route_def Let_def ebind_eq_Inr split: option.splits if_splits)
  then show ?thesis
    by cases (simp_all add: cause_kept_advance route_semantic_cause cause_kept_stop(1) cause_of_stop(1))
qed

lemma handle_outcome_cause:
  assumes "handle_outcome cfg node out lp = Inr r"
  shows "cause_kept lp r"
proof -
  obtain tx fs where n: "normalize (rc_str_of cfg) out = (tx, fs)" by (cases "normalize (rc_str_of cfg) out")
  have r: "cause_kept lp q" if "route cfg node tx fs (noted cfg tx fs lp) = Inr q" for q
    using route_cause [OF that] by (simp cong: cause_kept_same)
  show ?thesis
    using assms unfolding handle_outcome_def n Let_def prod.case noted_def [symmetric, unfolded Let_def]
    by (auto simp: ebind_eq_Inr intro: r cause_kept_stop(3) cause_kept_stop(1) cause_of_stop split: if_splits)
qed

lemma handle_error_cause: "handle_error cfg node etype msg lp = Inr lp' \<Longrightarrow> cause_kept lp (lp', False)"
  by (auto simp: handle_error_def Let_def intro: cause_kept_advance split: option.splits prod.splits)

lemma run_step_cause:
  assumes "run_step cfg graph lp = Inr r"
  shows "cause_kept lp r"
proof -
  obtain node where node: "map_of (fg_nodes graph) (lp_node lp) = Some node"
    using assms by (auto simp: run_step_def split: option.splits)
  show ?thesis
  proof (cases "terminal node")
    case True
    then show ?thesis using assms node by (auto simp: run_step_def intro: cause_kept_stop(3))
  next
    case False
    obtain out st w where wk: "rc_worker cfg (lp_world lp) (lp_node lp) (fn_instruction node) (entered lp) = (out, st, w)"
      by (metis prod_cases3)
    have "cause_kept (worked st w lp) r"
      using assms unfolding run_step_node [OF node False wk]
      by (cases out) (auto simp: ebind_eq_Inr handle_outcome_cause handle_error_cause)
    then show ?thesis by (simp cong: cause_kept_same)
  qed
qed

lemma run_loop_cause:
  "run_loop cfg graph n lp = Inr lp' \<Longrightarrow> rr_cause (lp_result lp) = CAUSE_NONE \<Longrightarrow> cause_agrees (lp_result lp')"
proof (induction n arbitrary: lp)
  case 0
  then show ?case by (auto simp: ebind_eq_Inr cause_agrees_def cause_of_stop(2))
next
  case (Suc n)
  then obtain lq stop where r: "run_step cfg graph lp = Inr (lq, stop)"
    "(if stop then Inr lq else run_loop cfg graph n lq) = Inr lp'" by (auto simp: ebind_eq_Inr)
  show ?case using run_step_cause [OF r(1)] r(2) Suc.prems(2) Suc.IH
    by (auto simp: cause_kept_def split: if_splits)
qed

text \<open>
  A run that returns says why it stopped, with the registered cause: the reason is terminal or waiting
  with no cause, one of the reasons of the registry's table with the table's cause, or a hand-off to a
  person with the below-floor cause.
\<close>

theorem run_reports_registered_cause:
  assumes "run cfg graph max_steps start st mt seed_path seed_steps w = Inr lp"
  shows "cause_agrees (lp_result lp)"
proof -
  from assms obtain b cs where r: "run_loop (cfg\<lparr>rc_bound := b, rc_contracts := cs\<rparr>) graph (nat max_steps)
      (initial_loop (cfg\<lparr>rc_bound := b, rc_contracts := cs\<rparr>) (case start of Some s \<Rightarrow> s | None \<Rightarrow> fg_start graph) st
        seed_path seed_steps w) = Inr lp" by (rule run_Inr)
  show ?thesis by (rule run_loop_cause [OF r]) (simp add: initial_loop_def Let_def split: prod.split)
qed

theorem run_reports_registered_cause_witness:
  "case demo_run of Inl e \<Rightarrow> False | Inr lp \<Rightarrow> cause_agrees (lp_result lp)"
proof (cases demo_run)
  case (Inr lp)
  from run_reports_registered_cause [OF this [unfolded demo_run_def]] show ?thesis by (simp add: Inr)
next
  case (Inl e)
  have False using demo_run_value unfolding Inl by simp
  then show ?thesis ..
qed

subsection \<open>Flows that end\<close>

text \<open>Stops that are not the step limit.\<close>

definition own_stop :: "'w loop_state \<times> bool \<Rightarrow> bool" where
  "own_stop r \<longleftrightarrow> (snd r \<longrightarrow> rr_stopped (lp_result (fst r)) \<in> {''terminal'', ''stuck'', ''needs_human'', ''waiting'', ''contract_violation''})"

lemma own_stop_simps [simp]:
  "own_stop (stop_run reason cause pend pnode lp, True) \<longleftrightarrow> reason \<in> {''terminal'', ''stuck'', ''needs_human'', ''waiting'', ''contract_violation''}"
  "own_stop (lp, False)"
  by (simp_all add: own_stop_def loop_defs)

lemma route_own_stop:
  assumes "route cfg node tx fs lp = Inr r"
  shows "own_stop r"
proof -
  have "own_stop q" if "route_semantic cfg node tx fs sem lp = Inr q" for sem q
    using that by (auto simp: route_semantic_def Let_def ebind_eq_Inr split: prod.splits sum.splits option.splits if_splits)
  then show ?thesis using assms by (auto simp: route_def Let_def ebind_eq_Inr split: option.splits if_splits)
qed

lemma handle_outcome_own_stop:
  assumes "handle_outcome cfg node out lp = Inr r"
  shows "own_stop r"
proof -
  obtain tx fs where n: "normalize (rc_str_of cfg) out = (tx, fs)" by (cases "normalize (rc_str_of cfg) out")
  show ?thesis
    using assms unfolding handle_outcome_def n Let_def prod.case
    by (auto simp: ebind_eq_Inr intro: route_own_stop split: if_splits)
qed

lemma run_step_own_stop:
  assumes "run_step cfg graph lp = Inr r"
  shows "own_stop r"
proof -
  obtain node where node: "map_of (fg_nodes graph) (lp_node lp) = Some node"
    using assms by (auto simp: run_step_def split: option.splits)
  show ?thesis
  proof (cases "terminal node")
    case True
    then show ?thesis using assms node by (auto simp: run_step_def)
  next
    case False
    obtain out st w where wk: "rc_worker cfg (lp_world lp) (lp_node lp) (fn_instruction node) (entered lp) = (out, st, w)"
      by (metis prod_cases3)
    show ?thesis
      using assms unfolding run_step_node [OF node False wk]
      by (cases out) (auto simp: ebind_eq_Inr handle_outcome_own_stop)
  qed
qed

text \<open>A rank that falls along every edge; the place of a node counted from the end, in a flow whose edges all lead on.\<close>

definition descends :: "(string \<Rightarrow> nat) \<Rightarrow> flow_graph \<Rightarrow> bool" where
  "descends rank graph \<longleftrightarrow> list_all (\<lambda>(n, node). list_all (\<lambda>e. rank (fst e) < rank n) (fn_edges node)) (fg_nodes graph)"

lemma descends_step:
  assumes "descends rank graph" "router_sound cfg" "run_step cfg graph lp = Inr (lq, False)"
  shows "rank (lp_node lq) < rank (lp_node lp)"
proof -
  obtain l where l: "followed graph l" "sl_node l = lp_node lp" "lp_node lq = sl_target l"
    using run_step_ok [OF assms(3,2)] by (auto simp: step_ok_def moves_def)
  then obtain node where "(lp_node lp, node) \<in> set (fg_nodes graph)" "lp_node lq \<in> fst ` set (fn_edges node)"
    by (auto simp: followed_def dest: map_of_SomeD)
  then show ?thesis using assms(1) by (fastforce simp: descends_def list_all_iff)
qed

lemma run_loop_enough:
  assumes "descends rank graph" "router_sound cfg"
  shows "rank (lp_node lp) < n \<Longrightarrow> rank (lp_node lp) < m \<Longrightarrow> run_loop cfg graph n lp = run_loop cfg graph m lp \<and>
    (\<forall>lp'. run_loop cfg graph n lp = Inr lp' \<longrightarrow> own_stop (lp', True))"
proof (induction n arbitrary: lp m)
  case (Suc n)
  obtain k where m: "m = Suc k" using Suc.prems(2) by (cases m) auto
  show ?case
  proof (cases "run_step cfg graph lp")
    case (Inr r)
    obtain lq stop where r: "r = (lq, stop)" by (cases r)
    show ?thesis
    proof (cases stop)
      case True
      then show ?thesis using run_step_own_stop [OF Inr] by (simp add: m Inr r)
    next
      case False
      then have "rank (lp_node lq) < rank (lp_node lp)" using descends_step [OF assms] Inr r by simp
      then show ?thesis using Suc.IH [of lq k] Suc.prems False by (simp add: m Inr r)
    qed
  qed (simp add: m)
qed simp

text \<open>
  C15. A flow whose edges all lead on ends by itself, whatever its workers and its router answer: once the step limit exceeds the rank of
  the start node it plays no part, any two such limits give the same run, and a run that returns stopped for a reason of its own.
\<close>

theorem descending_flow_terminates:
  assumes "descends rank graph" "router_sound cfg" "here = (case start of Some s \<Rightarrow> s | None \<Rightarrow> fg_start graph)"
    and "int (rank here) < max_steps" "int (rank here) < max_steps'"
  shows "run cfg graph max_steps start st mt seed_path seed_steps w = run cfg graph max_steps' start st mt seed_path seed_steps w \<and>
    (\<forall>lp. run cfg graph max_steps start st mt seed_path seed_steps w = Inr lp \<longrightarrow>
       rr_stopped (lp_result lp) \<in> {''terminal'', ''stuck'', ''needs_human'', ''waiting'', ''contract_violation''})"
proof (cases "configured cfg graph mt")
  case (Inr c)
  then obtain b cs where c: "c = cfg\<lparr>rc_bound := b, rc_contracts := cs\<rparr>" using configured_Inr [of cfg graph mt] by auto
  have s: "router_sound c" using assms(2) by (simp add: c router_sound_def)
  have h: "lp_node (initial_loop c here st seed_path seed_steps w) = here" by (simp add: initial_loop_def Let_def split: prod.split)
  have "rank here < nat max_steps" "rank here < nat max_steps'" using assms(4,5) by linarith+
  from run_loop_enough [OF assms(1) s, of "initial_loop c here st seed_path seed_steps w", unfolded h, OF this]
  show ?thesis unfolding assms(3) by (simp add: run_def Inr own_stop_def)
qed (simp add: run_def)

theorem descending_flow_terminates_witness:
  "run demo_config demo_graph 2 None empty_state None [''z''] [] 0 = run demo_config demo_graph 25 None empty_state None [''z''] [] 0"
proof -
  have d: "descends (\<lambda>n. if n = ''a'' then 1 else 0) demo_graph" by (simp add: descends_def demo_graph_def)
  have "router_sound demo_config" by (simp add: router_sound_def demo_config_def)
  from descending_flow_terminates [OF d this refl, of None 2 25] show ?thesis by (simp add: demo_graph_def)
qed

end
