(* ===== verification/MerkleAcc.thy ===== *)
theory MerkleAcc
  imports Merkle PyVal
begin

section \<open>The Merkle root as leaves arrive\<close>

text \<open>
  \<open>merkle_root\<close>, \<open>MerkleAccumulator\<close> and \<open>prefix_roots\<close> of \<open>src/prismpath/ledgers/root_statement.py\<close>.
  The peaks are a list with the top of the stack, the shortest peak, at its head. The interface between
  a root kept leaf by leaf and the root of the whole list is a locale, and \<open>prefix_roots\<close> is its client.
\<close>

function merkle_reduce :: "(string \<Rightarrow> string) \<Rightarrow> string list \<Rightarrow> string list" where
  "merkle_reduce sha layer = (if length layer > 1 then merkle_reduce sha (next_layer sha layer) else layer)"
  by pat_completeness auto
termination merkle_reduce
  by (relation "measure (\<lambda>(sha, layer). length layer)") auto

declare merkle_reduce.simps [simp del]

definition merkle_root :: "(string \<Rightarrow> string) \<Rightarrow> string list \<Rightarrow> string result" where
  "merkle_root sha leaves =
     (if leaves = [] then Inr '''' else ebind (emap fromhex leaves) (\<lambda>layer. Inr (hex_of (hd (merkle_reduce sha layer)))))"

type_synonym peaks = "(nat \<times> string) list"

record accumulator =
  ac_peaks :: peaks
  ac_count :: nat

definition acc_init :: accumulator where
  "acc_init = \<lparr>ac_peaks = [], ac_count = 0\<rparr>"

text \<open>The carry: while the top has the height of the new subtree, merge the two.\<close>

fun acc_carry :: "(string \<Rightarrow> string) \<Rightarrow> nat \<Rightarrow> string \<Rightarrow> peaks \<Rightarrow> peaks" where
  "acc_carry sha height node [] = [(height, node)]"
| "acc_carry sha height node ((h, peak) # ps) =
     (if h = height then acc_carry sha (height + 1) (node_hash sha (peak @ node)) ps else (height, node) # (h, peak) # ps)"

definition acc_add :: "(string \<Rightarrow> string) \<Rightarrow> accumulator \<Rightarrow> string \<Rightarrow> accumulator result" where
  "acc_add sha acc leaf_hex =
     ebind (fromhex leaf_hex) (\<lambda>node. Inr \<lparr>ac_peaks = acc_carry sha 0 node (ac_peaks acc), ac_count = ac_count acc + 1\<rparr>)"

text \<open>\<open>while height < taller\<close>: a short node is hashed with itself.\<close>

fun acc_raise :: "(string \<Rightarrow> string) \<Rightarrow> nat \<Rightarrow> string \<Rightarrow> string" where
  "acc_raise sha 0 node = node"
| "acc_raise sha (Suc k) node = acc_raise sha k (node_hash sha (node @ node))"

fun acc_fold :: "(string \<Rightarrow> string) \<Rightarrow> nat \<Rightarrow> string \<Rightarrow> peaks \<Rightarrow> string" where
  "acc_fold sha height node [] = node"
| "acc_fold sha height node ((taller, peak) # ps) =
     acc_fold sha (max height taller + 1) (node_hash sha (peak @ acc_raise sha (taller - height) node)) ps"

definition acc_root :: "(string \<Rightarrow> string) \<Rightarrow> accumulator \<Rightarrow> string" where
  "acc_root sha acc = (case ac_peaks acc of [] \<Rightarrow> '''' | (height, node) # ps \<Rightarrow> hex_of (acc_fold sha height node ps))"

fun acc_add_all :: "(string \<Rightarrow> string) \<Rightarrow> accumulator \<Rightarrow> string list \<Rightarrow> accumulator result" where
  "acc_add_all sha acc [] = Inr acc"
| "acc_add_all sha acc (leaf # leaves) = ebind (acc_add sha acc leaf) (\<lambda>acc. acc_add_all sha acc leaves)"

subsection \<open>The peaks of a list of leaves\<close>

fun pair_up :: "(string \<Rightarrow> string) \<Rightarrow> string list \<Rightarrow> string list" where
  "pair_up sha (x # y # zs) = node_hash sha (x @ y) # pair_up sha zs"
| "pair_up sha _ = []"

lemma length_pair_up [simp]: "length (pair_up sha xs) = length xs div 2"
  by (induction sha xs rule: pair_up.induct) auto

lemma pair_up_append: "even (length xs) \<Longrightarrow> pair_up sha (xs @ ys) = pair_up sha xs @ pair_up sha ys"
  by (induction sha xs rule: pair_up.induct) auto

lemma pair_up_odd: "odd (length xs) \<Longrightarrow> pair_up sha xs = pair_up sha (butlast xs)"
  by (induction sha xs rule: pair_up.induct) (auto simp: butlast_append)

lemma pair_up_index:
  "even (length ys) \<Longrightarrow> map (\<lambda>i. node_hash sha (ys ! (2 * i) @ ys ! (2 * i + 1))) [0..<length ys div 2] = pair_up sha ys"
proof (induction sha ys rule: pair_up.induct)
  case (1 sha x y zs)
  have "length (x # y # zs) div 2 = Suc (length zs div 2)" by simp
  then show ?case using 1 by (simp only: map_upt_Suc) simp
qed auto

lemma next_layer_pair_up: "next_layer sha xs = pair_up sha (pad_layer xs)"
proof -
  have "even (length (pad_layer xs))" by (simp add: length_pad_layer)
  from pair_up_index [OF this, of sha] show ?thesis by (simp add: next_layer_def Let_def)
qed

function peaks_of :: "(string \<Rightarrow> string) \<Rightarrow> nat \<Rightarrow> string list \<Rightarrow> peaks" where
  "peaks_of sha h xs = (if xs = [] then [] else
     (if odd (length xs) then [(h, last xs)] else []) @ peaks_of sha (Suc h) (pair_up sha xs))"
  by pat_completeness auto
termination peaks_of
  by (relation "measure (\<lambda>(sha, h, xs). length xs)") (auto simp: length_greater_0_conv [symmetric] simp del: length_greater_0_conv)

declare peaks_of.simps [simp del]

lemma peaks_of_Nil [simp]: "peaks_of sha h [] = []"
  by (simp add: peaks_of.simps)

lemma peaks_of_odd: "odd (length xs) \<Longrightarrow> peaks_of sha h xs = (h, last xs) # peaks_of sha (Suc h) (pair_up sha xs)"
  by (subst peaks_of.simps) auto

lemma peaks_of_even: "even (length xs) \<Longrightarrow> peaks_of sha h xs = peaks_of sha (Suc h) (pair_up sha xs)"
  by (subst peaks_of.simps) auto

lemma peaks_of_heights: "(k, n) \<in> set (peaks_of sha h xs) \<Longrightarrow> h \<le> k"
proof (induction sha h xs arbitrary: k n rule: peaks_of.induct)
  case (1 sha h xs)
  have ne: "xs \<noteq> []" using 1(2) by auto
  show ?case
  proof (cases "k = h")
    case False
    then have "(k, n) \<in> set (peaks_of sha (Suc h) (pair_up sha xs))"
      using 1(2) by (cases "odd (length xs)") (simp_all add: peaks_of_odd peaks_of_even)
    from 1(1) [OF ne this] show ?thesis by simp
  qed simp
qed

lemma peaks_of_nonempty: "xs \<noteq> [] \<Longrightarrow> peaks_of sha h xs \<noteq> []"
proof (induction sha h xs rule: peaks_of.induct)
  case (1 sha h xs)
  show ?case
  proof (cases "odd (length xs)")
    case False
    with 1(2) have "0 < length xs div 2" by (cases xs) auto
    then have "pair_up sha xs \<noteq> []" by (metis length_pair_up length_0_conv less_irrefl)
    then show ?thesis using 1 False by (simp add: peaks_of_even)
  qed (simp add: peaks_of_odd)
qed

subsection \<open>Adding a leaf\<close>

lemma carry_even:
  assumes "even (length xs)"
  shows "acc_carry sha h node (peaks_of sha h xs) = (h, node) # peaks_of sha h xs"
proof (cases "peaks_of sha h xs")
  case (Cons p ps)
  obtain k n where p: "p = (k, n)" by (cases p)
  have "(k, n) \<in> set (peaks_of sha (Suc h) (pair_up sha xs))" using Cons p by (simp add: peaks_of_even [OF assms, symmetric])
  then have "Suc h \<le> k" by (rule peaks_of_heights)
  then show ?thesis by (simp add: Cons p)
qed simp

lemma pair_up_snoc_odd: "odd (length xs) \<Longrightarrow> pair_up sha (xs @ [y]) = pair_up sha xs @ [node_hash sha (last xs @ y)]"
proof -
  assume odd: "odd (length xs)"
  then have ne: "xs \<noteq> []" by auto
  have "even (length (butlast xs))" using odd by simp
  then have "pair_up sha (butlast xs @ [last xs, y]) = pair_up sha (butlast xs) @ pair_up sha [last xs, y]" by (rule pair_up_append)
  then show ?thesis using pair_up_odd [OF odd] append_butlast_last_id [OF ne] by (metis append_Cons append_Nil append_assoc pair_up.simps(1,2))
qed

lemma carry_peaks: "acc_carry sha h node (peaks_of sha h xs) = peaks_of sha h (xs @ [node])"
proof (induction sha h xs arbitrary: node rule: peaks_of.induct)
  case (1 sha h xs)
  show ?case
  proof (cases "odd (length xs)")
    case True
    then have "xs \<noteq> []" by auto
    from 1 [OF this] show ?thesis using True
      by (simp add: peaks_of_odd peaks_of_even [of "xs @ [node]"] pair_up_snoc_odd)
  next
    case False
    then have "pair_up sha (xs @ [node]) = pair_up sha xs" by (simp add: pair_up_append)
    then show ?thesis using False carry_even [of xs sha h node] peaks_of_even [of xs sha h]
      by (simp add: peaks_of_odd)
  qed
qed

subsection \<open>Reading the root\<close>

lemma merkle_reduce_short: "\<not> 1 < length xs \<Longrightarrow> merkle_reduce sha xs = xs"
  by (subst merkle_reduce.simps) simp

lemma merkle_reduce_step: "1 < length xs \<Longrightarrow> merkle_reduce sha xs = merkle_reduce sha (next_layer sha xs)"
  by (subst merkle_reduce.simps) simp

lemma fold_above:
  assumes "ps \<noteq> []" "\<And>k n. (k, n) \<in> set ps \<Longrightarrow> h < k"
  shows "acc_fold sha h node ps = acc_fold sha (Suc h) (node_hash sha (node @ node)) ps"
proof (cases ps)
  case (Cons p qs)
  obtain k n where p: "p = (k, n)" by (cases p)
  then have "h < k" using assms(2) [of k n] Cons by simp
  then have "k - h = Suc (k - Suc h)" "max h k = max (Suc h) k" by simp_all
  then show ?thesis by (simp add: Cons p)
qed (use assms in simp)

lemma fold_peaks: "acc_fold sha h node (peaks_of sha h xs) = hd (merkle_reduce sha (xs @ [node]))"
proof (induction sha h xs arbitrary: node rule: peaks_of.induct)
  case (1 sha h xs)
  show ?case
  proof (cases "xs = []")
    case False
    have len: "1 < length (xs @ [node])" using False by (cases xs) auto
    show ?thesis
    proof (cases "odd (length xs)")
      case True
      have "next_layer sha (xs @ [node]) = pair_up sha xs @ [node_hash sha (last xs @ node)]"
      proof -
        have "pad_layer (xs @ [node]) = xs @ [node]" using True by (simp add: pad_layer_def)
        then show ?thesis using True by (simp add: next_layer_pair_up pair_up_snoc_odd)
      qed
      then show ?thesis using 1 [OF False] True by (simp add: peaks_of_odd merkle_reduce_step [OF len])
    next
      case even: False
      have "pad_layer (xs @ [node]) = xs @ [node, node]" using even by (simp add: pad_layer_def) presburger
      then have nl: "next_layer sha (xs @ [node]) = pair_up sha xs @ [node_hash sha (node @ node)]"
        using even by (simp add: next_layer_pair_up pair_up_append)
      have above: "acc_fold sha h node (peaks_of sha (Suc h) (pair_up sha xs))
          = acc_fold sha (Suc h) (node_hash sha (node @ node)) (peaks_of sha (Suc h) (pair_up sha xs))"
      proof (rule fold_above)
        show "peaks_of sha (Suc h) (pair_up sha xs) \<noteq> []"
          using peaks_of_nonempty [OF False, of sha h] even by (simp add: peaks_of_even)
        show "\<And>k n. (k, n) \<in> set (peaks_of sha (Suc h) (pair_up sha xs)) \<Longrightarrow> h < k"
          using peaks_of_heights by fastforce
      qed
      then show ?thesis using 1 [OF False] even by (simp add: peaks_of_even above merkle_reduce_step [OF len] nl)
    qed
  qed (simp add: merkle_reduce_short)
qed

definition top_of :: "(string \<Rightarrow> string) \<Rightarrow> peaks \<Rightarrow> string" where
  "top_of sha ps = (case ps of [] \<Rightarrow> '''' | (h, node) # qs \<Rightarrow> acc_fold sha h node qs)"

lemma top_peaks: "xs \<noteq> [] \<Longrightarrow> top_of sha (peaks_of sha h xs) = hd (merkle_reduce sha xs)"
proof (induction sha h xs rule: peaks_of.induct)
  case (1 sha h xs)
  show ?case
  proof (cases "odd (length xs)")
    case True
    have "even (length (butlast xs))" using True by simp
    then have "peaks_of sha (Suc h) (pair_up sha xs) = peaks_of sha h (butlast xs)"
      using pair_up_odd [OF True, of sha] by (simp add: peaks_of_even)
    then show ?thesis using True fold_peaks [of sha h "last xs" "butlast xs"] 1(2)
      by (simp add: peaks_of_odd top_of_def)
  next
    case False
    then have len: "1 < length xs" using 1(2) by (cases xs) auto
    then have ne: "pair_up sha xs \<noteq> []" using False by (cases xs rule: remdups_adj.cases) auto
    have "next_layer sha xs = pair_up sha xs" using False by (simp add: next_layer_pair_up pad_layer_def odd_iff_mod_2_eq_one)
    then show ?thesis using 1(1) [OF 1(2) ne] False by (simp add: peaks_of_even merkle_reduce_step [OF len])
  qed
qed

subsection \<open>The interface: a root kept leaf by leaf\<close>

text \<open>
  A provider starts empty, takes one leaf at a time, counts them, and answers with a root; it promises that
  after any leaves it has accepted its root is the root of the whole list.
\<close>

locale incremental_root =
  fixes start :: 'acc
    and add :: "'acc \<Rightarrow> string \<Rightarrow> 'acc result"
    and count :: "'acc \<Rightarrow> nat"
    and root :: "'acc \<Rightarrow> string"
    and whole :: "string list \<Rightarrow> string result"
    and holds :: "'acc \<Rightarrow> string list \<Rightarrow> bool"
  assumes start: "holds start []"
    and add: "holds acc leaves \<Longrightarrow> add acc leaf = Inr acc' \<Longrightarrow> holds acc' (leaves @ [leaf])"
    and count: "holds acc leaves \<Longrightarrow> count acc = length leaves"
    and root: "holds acc leaves \<Longrightarrow> whole leaves = Inr (root acc)"
begin

fun add_all :: "'acc \<Rightarrow> string list \<Rightarrow> 'acc result" where
  "add_all acc [] = Inr acc"
| "add_all acc (leaf # leaves) = ebind (add acc leaf) (\<lambda>acc. add_all acc leaves)"

lemma add_all_holds: "holds acc done \<Longrightarrow> add_all acc leaves = Inr acc' \<Longrightarrow> holds acc' (done @ leaves)"
proof (induction leaves arbitrary: acc "done")
  case (Cons leaf leaves)
  then obtain b where b: "add acc leaf = Inr b" "add_all b leaves = Inr acc'" by (auto simp: ebind_eq_Inr)
  from Cons.IH [OF add [OF Cons.prems(1) b(1)] b(2)] show ?case by simp
qed simp

lemma add_all_root: "add_all start leaves = Inr acc \<Longrightarrow> whole leaves = Inr (root acc) \<and> count acc = length leaves"
  using add_all_holds [OF start] root count by fastforce

end

definition acc_holds :: "(string \<Rightarrow> string) \<Rightarrow> accumulator \<Rightarrow> string list \<Rightarrow> bool" where
  "acc_holds sha acc leaves \<longleftrightarrow> (\<exists>ds. emap fromhex leaves = Inr ds \<and> ac_peaks acc = peaks_of sha 0 ds \<and> ac_count acc = length ds)"

lemma acc_holds_root: "acc_holds sha acc leaves \<Longrightarrow> merkle_root sha leaves = Inr (acc_root sha acc)"
proof -
  assume "acc_holds sha acc leaves"
  then obtain ds where ds: "emap fromhex leaves = Inr ds" "ac_peaks acc = peaks_of sha 0 ds" unfolding acc_holds_def by blast
  show ?thesis
  proof (cases "leaves = []")
    case True
    then show ?thesis using ds by (simp add: merkle_root_def acc_root_def)
  next
    case False
    then have ne: "ds \<noteq> []" using ds(1) by (metis emap_length length_0_conv)
    from peaks_of_nonempty [OF this, of sha 0] top_peaks [OF ne, of sha 0] ds(2)
    have "acc_root sha acc = hex_of (hd (merkle_reduce sha ds))"
      by (auto simp: acc_root_def top_of_def split: list.splits prod.splits)
    then show ?thesis using False ds(1) by (simp add: merkle_root_def)
  qed
qed

interpretation acc: incremental_root acc_init "acc_add sha" ac_count "acc_root sha" "merkle_root sha" "acc_holds sha"
  for sha
proof
  show "acc_holds sha acc_init []" by (simp add: acc_holds_def acc_init_def)
next
  fix acc leaves leaf acc'
  assume h: "acc_holds sha acc leaves" and a: "acc_add sha acc leaf = Inr acc'"
  from a obtain node where n: "fromhex leaf = Inr node"
    "acc' = \<lparr>ac_peaks = acc_carry sha 0 node (ac_peaks acc), ac_count = ac_count acc + 1\<rparr>"
    by (auto simp: acc_add_def ebind_eq_Inr)
  from h obtain ds where ds: "emap fromhex leaves = Inr ds" "ac_peaks acc = peaks_of sha 0 ds" "ac_count acc = length ds"
    unfolding acc_holds_def by blast
  have "emap fromhex (leaves @ [leaf]) = Inr (ds @ [node])" using ds(1) n(1) by (simp add: emap_append)
  then show "acc_holds sha acc' (leaves @ [leaf])" using n(2) ds carry_peaks [of sha 0 node ds] by (auto simp: acc_holds_def)
next
  fix acc leaves
  assume "acc_holds sha acc leaves"
  then show "ac_count acc = length leaves" unfolding acc_holds_def by (metis emap_length)
  from \<open>acc_holds sha acc leaves\<close> show "merkle_root sha leaves = Inr (acc_root sha acc)" by (rule acc_holds_root)
qed

lemma acc_add_all_eq: "acc_add_all sha acc leaves = acc.add_all sha acc leaves"
  by (induction sha acc leaves rule: acc_add_all.induct) (auto intro!: ebind_cong)

subsection \<open>The roots at many counts\<close>

text \<open>
  The counts are the JSON values found under \<open>leaves\<close>; those that are not integers of the log (a boolean is
  an integer) are left out. The wanted counts are visited in ascending order with one accumulator.
\<close>

fun wanted_count :: "nat \<Rightarrow> pyval \<Rightarrow> nat option" where
  "wanted_count n (PInt i) = (if 0 \<le> i \<and> i \<le> int n then Some (nat i) else None)"
| "wanted_count n (PBool b) = (if (if b then 1 else 0) \<le> n then Some (if b then 1 else 0) else None)"
| "wanted_count n _ = None"

definition wanted_counts :: "nat \<Rightarrow> pyval list \<Rightarrow> nat list" where
  "wanted_counts n counts = sorted_list_of_set (set (List.map_filter (wanted_count n) counts))"

fun prefix_loop :: "(string \<Rightarrow> string) \<Rightarrow> string list \<Rightarrow> accumulator \<Rightarrow> nat list \<Rightarrow> (nat \<times> string) list result" where
  "prefix_loop sha leaves acc [] = Inr []"
| "prefix_loop sha leaves acc (n # ns) =
     ebind (acc_add_all sha acc (drop (ac_count acc) (take n leaves))) (\<lambda>acc.
       ebind (prefix_loop sha leaves acc ns) (\<lambda>roots. Inr ((n, acc_root sha acc) # roots)))"

definition prefix_roots :: "(string \<Rightarrow> string) \<Rightarrow> string list \<Rightarrow> pyval list \<Rightarrow> (nat \<times> string) list result" where
  "prefix_roots sha leaves counts = prefix_loop sha leaves acc_init (wanted_counts (length leaves) counts)"

lemma wanted_counts_set: "n \<in> set (wanted_counts k counts) \<longleftrightarrow> (\<exists>c \<in> set counts. wanted_count k c = Some n)"
  by (force simp: wanted_counts_def List.map_filter_def)

lemma wanted_count_le: "wanted_count k c = Some n \<Longrightarrow> n \<le> k"
  by (cases c) (auto split: if_splits)

lemma prefix_loop_spec:
  assumes "acc_holds sha acc (take (ac_count acc) leaves)" "sorted (ac_count acc # ns)" "\<forall>n \<in> set ns. n \<le> length leaves"
    and "prefix_loop sha leaves acc ns = Inr roots"
  shows "map fst roots = ns \<and> (\<forall>(n, r) \<in> set roots. merkle_root sha (take n leaves) = Inr r)"
  using assms
proof (induction sha leaves acc ns arbitrary: roots rule: prefix_loop.induct)
  case (2 sha leaves acc n ns)
  from "2.prems"(4) obtain acc' rest where r: "acc_add_all sha acc (drop (ac_count acc) (take n leaves)) = Inr acc'"
    "prefix_loop sha leaves acc' ns = Inr rest" "roots = (n, acc_root sha acc') # rest" by (auto simp: ebind_eq_Inr)
  have "take (ac_count acc) leaves @ drop (ac_count acc) (take n leaves) = take n leaves"
    using "2.prems"(2) by (metis append_take_drop_id min.absorb1 sorted2 sorted_simps(2) take_take list.set_intros(1))
  then have h: "acc_holds sha acc' (take n leaves)"
    using acc.add_all_holds [OF "2.prems"(1), of "drop (ac_count acc) (take n leaves)" acc'] r(1)
    by (simp add: acc_add_all_eq)
  have c: "ac_count acc' = n" using acc.count [OF h] "2.prems"(3) by simp
  have "map fst rest = ns \<and> (\<forall>(n, r) \<in> set rest. merkle_root sha (take n leaves) = Inr r)"
    by (rule "2.IH" [OF r(1) _ _ _ r(2)]) (use h c "2.prems"(2,3) in auto)
  then show ?case using r(3) acc.root [OF h] by simp
qed simp

lemma acc_add_all_total: "list_all (\<lambda>l. \<exists>d. fromhex l = Inr d) leaves \<Longrightarrow> \<exists>acc'. acc_add_all sha acc leaves = Inr acc'"
proof (induction leaves arbitrary: acc)
  case (Cons l leaves)
  then obtain d where "fromhex l = Inr d" by auto
  then show ?case using Cons by (simp add: acc_add_def)
qed simp

lemma prefix_loop_total: "list_all (\<lambda>l. \<exists>d. fromhex l = Inr d) leaves \<Longrightarrow> \<exists>roots. prefix_loop sha leaves acc ns = Inr roots"
proof (induction ns arbitrary: acc)
  case (Cons n ns)
  have "list_all (\<lambda>l. \<exists>d. fromhex l = Inr d) (drop (ac_count acc) (take n leaves))"
    using Cons.prems by (auto simp: list_all_iff dest: in_set_dropD in_set_takeD)
  then obtain acc' where "acc_add_all sha acc (drop (ac_count acc) (take n leaves)) = Inr acc'" using acc_add_all_total by blast
  then show ?case using Cons.IH [OF Cons.prems, of acc'] by auto
qed simp

lemma reduce_layers: "hd (merkle_reduce sha ds) = hd (last (merkle_layers sha ds))"
proof (induction sha ds rule: merkle_reduce.induct)
  case (1 sha layer)
  show ?case
  proof (cases "1 < length layer")
    case True
    then show ?thesis using 1 by (simp add: merkle_reduce_step last_merkle_layers_step)
  next
    case False
    then show ?thesis by (simp add: merkle_reduce_short merkle_layers.simps [of sha layer])
  qed
qed

text \<open>
  C30. The accumulator is the Merkle tree: after any leaves it has taken, its root is the root that
  \<open>merkle_root\<close> computes over the whole list, which is the root of \<open>merkle_root_and_paths\<close>, and its count
  is their number; it takes every leaf that is hexadecimal.
\<close>

theorem accumulator_root_exact:
  assumes "acc_add_all sha acc_init leaves = Inr a"
  shows "merkle_root sha leaves = Inr (acc_root sha a) \<and> ac_count a = length leaves \<and>
    (leaves \<noteq> [] \<longrightarrow> (\<exists>paths. merkle_root_and_paths sha leaves = Inr (Some (acc_root sha a), paths)))"
proof -
  have m: "merkle_root sha leaves = Inr (acc_root sha a) \<and> ac_count a = length leaves"
    by (rule acc.add_all_root) (use assms in \<open>simp add: acc_add_all_eq\<close>)
  then show ?thesis
    by (auto simp: merkle_root_def merkle_root_and_paths_def Let_def ebind_eq_Inr reduce_layers)
qed

theorem accumulator_root_exact_witness:
  "case acc_add_all rev acc_init (map hex_of [''a'', ''b'', ''c'']) of Inl e \<Rightarrow> False
   | Inr a \<Rightarrow> merkle_root rev (map hex_of [''a'', ''b'', ''c'']) = Inr (acc_root rev a) \<and> acc_root rev a = hex_of ''ccab''"
proof (cases "acc_add_all rev acc_init (map hex_of [''a'', ''b'', ''c''])")
  case (Inl e)
  have "case acc_add_all rev acc_init (map hex_of [''a'', ''b'', ''c'']) of Inl e \<Rightarrow> False | Inr a \<Rightarrow> True" by code_simp
  then have False unfolding Inl by simp
  then show ?thesis ..
next
  case (Inr a)
  have "case acc_add_all rev acc_init (map hex_of [''a'', ''b'', ''c'']) of Inl e \<Rightarrow> False | Inr a \<Rightarrow> acc_root rev a = hex_of ''ccab''"
    by code_simp
  then have "acc_root rev a = hex_of ''ccab''" unfolding Inr by simp
  then show ?thesis unfolding Inr using accumulator_root_exact [OF Inr] by simp
qed

text \<open>
  The one pass over the leaves answers every count: for hexadecimal leaves \<open>prefix_roots\<close> returns, and
  its table holds exactly the counts asked for that lie in the log, each with the Merkle root over that
  many first leaves.
\<close>

theorem prefix_roots_exact:
  assumes "list_all (\<lambda>l. \<exists>d. fromhex l = Inr d) leaves"
  shows "\<exists>roots. prefix_roots sha leaves counts = Inr roots \<and>
    (\<forall>n. case map_of roots n of
        Some r \<Rightarrow> merkle_root sha (take n leaves) = Inr r \<and> (\<exists>c \<in> set counts. wanted_count (length leaves) c = Some n)
      | None \<Rightarrow> \<not> (\<exists>c \<in> set counts. wanted_count (length leaves) c = Some n))"
proof -
  let ?ns = "wanted_counts (length leaves) counts"
  obtain roots where r: "prefix_loop sha leaves acc_init ?ns = Inr roots" using prefix_loop_total [OF assms] by blast
  have h: "acc_holds sha acc_init (take (ac_count acc_init) leaves)" using acc.start by (simp add: acc_init_def)
  have s: "sorted (ac_count acc_init # ?ns)" by (simp add: acc_init_def wanted_counts_def)
  have l: "\<forall>n \<in> set ?ns. n \<le> length leaves" using wanted_count_le by (auto simp: wanted_counts_set)
  from prefix_loop_spec [OF h s l r] have keys: "map fst roots = ?ns"
    and vals: "\<And>n r. (n, r) \<in> set roots \<Longrightarrow> merkle_root sha (take n leaves) = Inr r" by auto
  have "case map_of roots n of
        Some r \<Rightarrow> merkle_root sha (take n leaves) = Inr r \<and> (\<exists>c \<in> set counts. wanted_count (length leaves) c = Some n)
      | None \<Rightarrow> \<not> (\<exists>c \<in> set counts. wanted_count (length leaves) c = Some n)" for n
  proof (cases "map_of roots n")
    case None
    then have "n \<notin> set (map fst roots)" by (simp add: map_of_eq_None_iff)
    then show ?thesis using None by (simp add: keys wanted_counts_set)
  next
    case (Some r)
    then have m: "(n, r) \<in> set roots" by (rule map_of_SomeD)
    then have "n \<in> set (map fst roots)" by force
    then show ?thesis using Some vals [OF m] by (simp add: keys wanted_counts_set)
  qed
  then show ?thesis using r by (auto simp: prefix_roots_def)
qed

theorem prefix_roots_exact_witness:
  "\<exists>roots. prefix_roots rev (map hex_of [''a'', ''b'', ''c'']) [PInt 2, PNone, PInt 7] = Inr roots \<and>
     (\<forall>n. case map_of roots n of
        Some r \<Rightarrow> merkle_root rev (take n (map hex_of [''a'', ''b'', ''c''])) = Inr r \<and>
          (\<exists>c \<in> set [PInt 2, PNone, PInt 7]. wanted_count (length (map hex_of [''a'', ''b'', ''c''])) c = Some n)
      | None \<Rightarrow> \<not> (\<exists>c \<in> set [PInt 2, PNone, PInt 7]. wanted_count (length (map hex_of [''a'', ''b'', ''c''])) c = Some n))"
  by (rule prefix_roots_exact) simp

end
