(* ===== verification/Canon.thy ===== *)
theory Canon
  imports PyVal PyNum Merkle
begin

section \<open>Canonical bytes\<close>

text \<open>
  \<open>src/prismpath/canon.py\<close>: the two canonical JSON encodings, the digests over them and the safe file
  name. \<open>json.dumps\<close> with sorted keys is the normal form of a value, its dictionaries sorted by key at
  every level, followed by a printer that takes the two separators; text is ASCII, every other character
  being escaped. The text of a float is a parameter \<open>frepr\<close>, the platform's shortest decimal that reads
  back as the same double; a theorem about values with floats says what it needs of it. Strings are the
  8-bit ones of the model, and bytes are strings too.
\<close>

fun sorted_items :: "string list \<Rightarrow> (string \<times> 'a) list \<Rightarrow> (string \<times> 'a) list" where
  "sorted_items ks d = List.map_filter (\<lambda>k. map_option (Pair k) (map_of d k)) ks"

text \<open>\<open>sort_keys=True\<close>.\<close>

fun canon_form :: "pyval \<Rightarrow> pyval" where
  "canon_form (PList vs) = PList (map canon_form vs)"
| "canon_form (PDict d) = PDict (let items = map (\<lambda>(k, v). (k, canon_form v)) d in sorted_items (str_sort (map fst items)) items)"
| "canon_form v = v"

definition hex4 :: "nat \<Rightarrow> string" where
  "hex4 n = [hex_digit (n div 4096 mod 16), hex_digit (n div 256 mod 16), hex_digit (n div 16 mod 16), hex_digit (n mod 16)]"

text \<open>\<open>ensure_ascii\<close>: a printable ASCII character stands for itself, except the quote and the backslash.\<close>

definition escape_char :: "char \<Rightarrow> string" where
  "escape_char c = (let n = (of_char c :: nat) in
     if n = 92 then [CHR 0x5C, CHR 0x5C]
     else if n = 34 then [CHR 0x5C, CHR 0x22]
     else if n = 10 then [CHR 0x5C, CHR ''n'']
     else if n = 13 then [CHR 0x5C, CHR ''r'']
     else if n = 9 then [CHR 0x5C, CHR ''t'']
     else if n = 12 then [CHR 0x5C, CHR ''f'']
     else if n = 8 then [CHR 0x5C, CHR ''b'']
     else if 32 \<le> n \<and> n \<le> 126 then [c]
     else CHR 0x5C # CHR ''u'' # hex4 n)"

definition quote :: "string \<Rightarrow> string" where
  "quote s = CHR 0x22 # concat (map escape_char s) @ [CHR 0x22]"

fun join :: "string \<Rightarrow> string list \<Rightarrow> string" where
  "join sep [] = []"
| "join sep [x] = x"
| "join sep (x # y # xs) = x @ sep @ join sep (y # xs)"

record json_style =
  js_item :: string
  js_key :: string

definition compact_style :: json_style where
  "compact_style = \<lparr>js_item = '','', js_key = '':''\<rparr>"

definition spaced_style :: json_style where
  "spaced_style = \<lparr>js_item = '', '', js_key = '': ''\<rparr>"

fun json_text :: "json_style \<Rightarrow> (pyfloat \<Rightarrow> string) \<Rightarrow> pyval \<Rightarrow> string" where
  "json_text style frepr PNone = ''null''"
| "json_text style frepr (PBool b) = (if b then ''true'' else ''false'')"
| "json_text style frepr (PInt i) = int_str i"
| "json_text style frepr (PFloat f) = frepr f"
| "json_text style frepr (PStr s) = quote s"
| "json_text style frepr (PList vs) = ''['' @ join (js_item style) (map (json_text style frepr) vs) @ '']''"
| "json_text style frepr (PDict d) =
     ''{'' @ join (js_item style) (map (\<lambda>(k, v). quote k @ js_key style @ json_text style frepr v) d) @ ''}''"

definition canonical_compact :: "(pyfloat \<Rightarrow> string) \<Rightarrow> pyval \<Rightarrow> string" where
  "canonical_compact frepr v = json_text compact_style frepr (canon_form v)"

definition canonical_spaced :: "(pyfloat \<Rightarrow> string) \<Rightarrow> pyval \<Rightarrow> string" where
  "canonical_spaced frepr v = json_text spaced_style frepr (canon_form v)"

definition sha256_hex :: "(string \<Rightarrow> string) \<Rightarrow> string \<Rightarrow> string" where
  "sha256_hex sha payload = hex_of (sha payload)"

definition sha256_prefixed :: "(string \<Rightarrow> string) \<Rightarrow> string \<Rightarrow> string" where
  "sha256_prefixed sha payload = ''sha256:'' @ sha256_hex sha payload"

definition manifest_hash :: "(string \<Rightarrow> string) \<Rightarrow> (pyfloat \<Rightarrow> string) \<Rightarrow> ctx \<Rightarrow> string" where
  "manifest_hash sha frepr m = sha256_hex sha (canonical_spaced frepr (PDict (filter (\<lambda>(k, v). k \<noteq> ''manifest_hash'') m)))"

definition safe_char :: "char \<Rightarrow> bool" where
  "safe_char c = (let n = (of_char c :: nat) in (48 \<le> n \<and> n \<le> 57) \<or> (65 \<le> n \<and> n \<le> 90) \<or> (97 \<le> n \<and> n \<le> 122)
     \<or> c \<in> {CHR ''_'', CHR ''.'', CHR ''-''})"

definition safe_name :: "string \<Rightarrow> string" where
  "safe_name name = (let s = map (\<lambda>c. if safe_char c then c else CHR ''_'') name in if s = [] then ''flow'' else s)"

subsection \<open>The encoding determines the value\<close>

text \<open>What the text of a float must be: distinct, and no other literal's.\<close>

definition plain_char :: "char \<Rightarrow> bool" where
  "plain_char c \<longleftrightarrow> c \<notin> {CHR '','', CHR '']'', CHR ''}''}"

definition float_text :: "(pyfloat \<Rightarrow> string) \<Rightarrow> bool" where
  "float_text frepr \<longleftrightarrow> inj frepr \<and>
     (\<forall>f. frepr f \<noteq> [] \<and> list_all plain_char (frepr f) \<and> hd (frepr f) \<notin> {CHR 0x22, CHR ''['', CHR ''{''} \<and>
          frepr f \<notin> {''null'', ''true'', ''false''} \<and> \<not> int_text (frepr f))"

definition style_ok :: "json_style \<Rightarrow> bool" where
  "style_ok style \<longleftrightarrow> js_item style \<noteq> [] \<and> hd (js_item style) = CHR '',''"

lemma style_ok_styles [simp]: "style_ok compact_style" "style_ok spaced_style"
  by (simp_all add: style_ok_def compact_style_def spaced_style_def)

text \<open>What may follow a value: nothing, a separator or a closing bracket.\<close>

definition closes :: "string \<Rightarrow> bool" where
  "closes r \<longleftrightarrow> r = [] \<or> \<not> plain_char (hd r)"

definition atom_text :: "pyval \<Rightarrow> bool" where
  "atom_text v \<longleftrightarrow> (case v of PStr _ \<Rightarrow> False | PList _ \<Rightarrow> False | PDict _ \<Rightarrow> False | _ \<Rightarrow> True)"

lemma takeWhile_closes: "list_all plain_char s \<Longrightarrow> closes r \<Longrightarrow> takeWhile plain_char (s @ r) = s"
  by (induction s) (cases r; auto simp: closes_def)+

lemma span_eq:
  assumes "s @ r = t @ q" "list_all plain_char s" "list_all plain_char t" "closes r" "closes q"
  shows "s = t \<and> r = q"
  using assms takeWhile_closes [of s r] takeWhile_closes [of t q] by auto

lemma plain_digit: "is_digit c \<Longrightarrow> plain_char c"
  by (auto simp: plain_char_def is_digit_def)

lemma int_str_plain_chars: "list_all plain_char (int_str i)"
  unfolding list_all_iff
proof
  fix c assume "c \<in> set (int_str i)"
  then have "is_digit c \<or> c = CHR ''-''" by (rule int_str_chars)
  then show "plain_char c" using plain_digit by (auto simp: plain_char_def)
qed

lemma atom_plain: "float_text frepr \<Longrightarrow> atom_text v \<Longrightarrow> list_all plain_char (json_text style frepr v)"
  by (cases v) (auto simp: atom_text_def float_text_def int_str_plain_chars plain_char_def)

lemma int_str_hd: "\<exists>c t. int_str i = c # t \<and> (is_digit c \<or> c = CHR ''-'')"
  using int_str_nonempty [of i] int_str_chars [of "hd (int_str i)" i] by (cases "int_str i") auto

lemma int_not_keyword: "int_str i \<notin> {''null'', ''true'', ''false''}"
  using int_str_hd [of i] by (auto simp: is_digit_def)

lemma atom_hd:
  "float_text frepr \<Longrightarrow> atom_text v \<Longrightarrow> \<exists>c t. json_text style frepr v = c # t \<and> c \<notin> {CHR 0x22, CHR ''['', CHR ''{''}"
  using int_str_hd by (cases v) (fastforce simp: atom_text_def float_text_def is_digit_def neq_Nil_conv dest: spec)+

lemma atom_inj:
  assumes "float_text frepr" "atom_text v" "atom_text w" "json_text style frepr v = json_text style frepr w"
  shows "v = w"
proof -
  have f: "frepr f \<noteq> ''null''" "frepr f \<noteq> ''true''" "frepr f \<noteq> ''false''" "frepr f \<noteq> int_str i" for f i
    using assms(1) unfolding float_text_def by (simp, simp, simp, metis int_text_int_str)
  have i: "int_str i \<noteq> ''null''" "int_str i \<noteq> ''true''" "int_str i \<noteq> ''false''" for i using int_not_keyword by auto
  show ?thesis
    using assms(2-4) injD [OF conjunct1 [OF assms(1) [unfolded float_text_def]]]
    by (cases v; cases w) (auto simp: atom_text_def f i f [symmetric] i [symmetric] dest: int_str_inj split: if_splits)
qed

definition read_escape :: "string \<Rightarrow> (char \<times> string) option" where
  "read_escape s = (case s of [] \<Rightarrow> None
     | c # t \<Rightarrow> if of_char c = (92::nat) then
         (case t of [] \<Rightarrow> None
          | d # u \<Rightarrow>
            if of_char d = (92::nat) then Some (CHR 0x5C, u)
            else if d = CHR 0x22 then Some (CHR 0x22, u)
            else if d = CHR ''n'' then Some (char_of (10::nat), u)
            else if d = CHR ''r'' then Some (char_of (13::nat), u)
            else if d = CHR ''t'' then Some (char_of (9::nat), u)
            else if d = CHR ''f'' then Some (char_of (12::nat), u)
            else if d = CHR ''b'' then Some (char_of (8::nat), u)
            else Some (char_of (16 * the (hex_val (u ! 2)) + the (hex_val (u ! 3)) :: nat), drop 4 u))
       else Some (c, t))"

lemma hex_digits_of: "n < 256 \<Longrightarrow> hex4 n = [CHR ''0'', CHR ''0'', hex_digit (n div 16), hex_digit (n mod 16)]"
  by (simp add: hex4_def hex_digit_def)

lemma char_of_eq: "of_char c = n \<Longrightarrow> c = char_of (n::nat)"
  by auto

lemma char_codes:
  "char_of (92::nat) = CHR 0x5C" "char_of (34::nat) = CHR 0x22" "char_of (10::nat) = CHR 0x0A" "char_of (13::nat) = CHR 0x0D"
  "char_of (9::nat) = CHR 0x09" "char_of (12::nat) = CHR 0x0C" "char_of (8::nat) = CHR 0x08"
  by code_simp+

lemma read_escape_char: "read_escape (escape_char c @ r) = Some (c, r)"
proof -
  let ?n = "of_char c :: nat"
  have n: "?n < 256" by simp
  consider "?n = 92" | "?n = 34" | "?n = 10" | "?n = 13" | "?n = 9" | "?n = 12" | "?n = 8"
    | (plain) "?n \<noteq> 92" "?n \<noteq> 34" "32 \<le> ?n \<and> ?n \<le> 126"
    | (hex) "?n \<notin> {92, 34, 10, 13, 9, 12, 8}" "\<not> (32 \<le> ?n \<and> ?n \<le> 126)"
    by (cases "32 \<le> ?n \<and> ?n \<le> 126") auto
  then show ?thesis
  proof cases
    case plain
    then show ?thesis by (simp add: escape_char_def Let_def read_escape_def)
  next
    case hex
    then have "escape_char c = CHR 0x5C # CHR ''u'' # hex4 ?n" by (simp add: escape_char_def Let_def)
    moreover have "?n div 16 < 16" "?n mod 16 < 16" using n by linarith+
    then have "16 * the (hex_val (hex_digit (?n div 16))) + the (hex_val (hex_digit (?n mod 16))) = ?n"
      by (simp add: hex_val_digit)
    then have "char_of (16 * the (hex_val (hex_digit (?n div 16))) + the (hex_val (hex_digit (?n mod 16))) :: nat) = c"
      by (simp only: char_of_char)
    ultimately show ?thesis by (simp add: hex_digits_of [OF n] read_escape_def)
  qed (drule char_of_eq, simp add: char_codes escape_char_def Let_def read_escape_def)+
qed

lemma escape_hd: "\<exists>d t. escape_char c = d # t \<and> d \<noteq> CHR 0x22"
  by (auto simp: escape_char_def Let_def)

lemma escape_inj: "escape_char c @ r = escape_char d @ q \<Longrightarrow> c = d \<and> r = q"
  by (metis read_escape_char option.inject prod.inject)

lemma quoted_inj:
  "concat (map escape_char s) @ CHR 0x22 # r = concat (map escape_char t) @ CHR 0x22 # q \<Longrightarrow> s = t \<and> r = q"
proof (induction s arbitrary: t)
  case Nil
  then show ?case
  proof (cases t)
    case (Cons d t')
    with Nil escape_hd [of d] show ?thesis by auto
  qed simp
next
  case (Cons c s)
  show ?case
  proof (cases t)
    case Nil
    with Cons.prems escape_hd [of c] show ?thesis by auto
  next
    case (Cons d t')
    with Cons.prems have "escape_char c @ concat (map escape_char s) @ CHR 0x22 # r
        = escape_char d @ concat (map escape_char t') @ CHR 0x22 # q" by simp
    from escape_inj [OF this] Cons.IH [of t'] Cons show ?thesis by simp
  qed
qed

lemma quote_inj: "quote s @ r = quote t @ q \<Longrightarrow> s = t \<and> r = q"
  using quoted_inj [of s r t q] by (simp add: quote_def)

lemma text_hd: "float_text frepr \<Longrightarrow> \<exists>c t. json_text style frepr v = c # t \<and> plain_char c"
  using atom_plain [of frepr v style] atom_hd [of frepr v style]
  by (cases "atom_text v"; cases v) (auto simp: atom_text_def quote_def plain_char_def)

lemma join_Cons: "join sep (x # xs) = x @ concat (map (\<lambda>y. sep @ y) xs)"
  by (induction sep xs arbitrary: x rule: join.induct) auto

lemma tail_closes:
  assumes "sep \<noteq> []" "hd sep = CHR '',''" "\<not> plain_char c"
  shows "closes (concat (map (\<lambda>y. sep @ f y) xs) @ c # r)"
  using assms by (cases xs; cases sep) (auto simp: closes_def plain_char_def)

lemma tail_inj:
  assumes sep: "sep \<noteq> []" "hd sep = CHR '',''" and c: "\<not> plain_char c" "c \<noteq> CHR '',''"
    and f: "\<And>x y r q. x \<in> set xs \<Longrightarrow> f x @ r = f y @ q \<Longrightarrow> closes r \<Longrightarrow> closes q \<Longrightarrow> x = y \<and> r = q"
  shows "concat (map (\<lambda>y. sep @ f y) xs) @ c # r = concat (map (\<lambda>y. sep @ f y) ys) @ c # q \<Longrightarrow> xs = ys \<and> r = q"
  using f
proof (induction xs arbitrary: ys)
  case Nil
  then show ?case using sep c by (cases ys; cases sep) auto
next
  case (Cons x xs)
  show ?case
  proof (cases ys)
    case Nil
    then show ?thesis using Cons.prems(1) sep c by (cases sep) auto
  next
    case ys: (Cons y ys')
    with Cons.prems(1) have "f x @ (concat (map (\<lambda>y. sep @ f y) xs) @ c # r) = f y @ (concat (map (\<lambda>y. sep @ f y) ys') @ c # q)" by simp
    from Cons.prems(2) [OF _ this tail_closes [OF sep c(1)] tail_closes [OF sep c(1)]]
    have e: "x = y" "concat (map (\<lambda>y. sep @ f y) xs) @ c # r = concat (map (\<lambda>y. sep @ f y) ys') @ c # q" by simp_all
    have "xs = ys' \<and> r = q" by (rule Cons.IH [OF e(2)]) (use Cons.prems(2) in auto)
    then show ?thesis using ys e(1) by simp
  qed
qed

lemma join_inj:
  assumes sep: "sep \<noteq> []" "hd sep = CHR '',''" and c: "\<not> plain_char c" "c \<noteq> CHR '',''"
    and f: "\<And>x y r q. x \<in> set xs \<Longrightarrow> f x @ r = f y @ q \<Longrightarrow> closes r \<Longrightarrow> closes q \<Longrightarrow> x = y \<and> r = q"
    and hd: "\<And>x. \<exists>a t. f x = a # t \<and> plain_char a"
    and eq: "join sep (map f xs) @ c # r = join sep (map f ys) @ c # q"
  shows "xs = ys \<and> r = q"
proof (cases xs)
  case Nil
  show ?thesis
  proof (cases ys)
    case ys: (Cons y ys')
    obtain a t where "f y = a # t" "plain_char a" using hd by blast
    then show ?thesis using eq c Nil ys by (auto simp: join_Cons)
  qed (use eq Nil in simp)
next
  case xs: (Cons x xs')
  show ?thesis
  proof (cases ys)
    case Nil
    obtain a t where "f x = a # t" "plain_char a" using hd by blast
    then show ?thesis using eq c Nil xs by (auto simp: join_Cons)
  next
    case ys: (Cons y ys')
    have "f x @ (concat (map (\<lambda>y. sep @ f y) xs') @ c # r) = f y @ (concat (map (\<lambda>y. sep @ f y) ys') @ c # q)"
      using eq by (simp add: xs ys join_Cons comp_def)
    from f [OF _ this tail_closes [OF sep c(1)] tail_closes [OF sep c(1)]] xs
    have e: "x = y" "concat (map (\<lambda>y. sep @ f y) xs') @ c # r = concat (map (\<lambda>y. sep @ f y) ys') @ c # q" by simp_all
    have "xs' = ys' \<and> r = q" by (rule tail_inj [OF sep c _ e(2)]) (use f xs in auto)
    then show ?thesis using xs ys e(1) by simp
  qed
qed

lemma atom_case:
  assumes "float_text frepr" "atom_text v" "json_text style frepr v @ r = json_text style frepr w @ q" "closes r" "closes q"
  shows "v = w \<and> r = q"
proof -
  from atom_hd [OF assms(1,2), of style] assms(3) have w: "atom_text w"
    by (cases w) (auto simp: atom_text_def quote_def)
  from span_eq [OF assms(3) atom_plain [OF assms(1,2)] atom_plain [OF assms(1) w] assms(4,5)]
    atom_inj [OF assms(1,2) w] show ?thesis by blast
qed

lemma string_kind:
  assumes "float_text frepr" "json_text style frepr w @ q = CHR 0x22 # t"
  shows "\<exists>s. w = PStr s"
proof (cases "atom_text w")
  case True
  from atom_hd [OF assms(1) this, of style] assms(2) show ?thesis by auto
next
  case False
  then show ?thesis using assms(2) by (cases w) (auto simp: atom_text_def)
qed

text \<open>An object ends where its brace closes, so what follows need not be a closing character.\<close>

lemma dict_text_inj:
  assumes ft: "float_text frepr" and st: "style_ok style"
    and ih: "\<And>x w r q. x \<in> set d \<Longrightarrow> json_text style frepr (snd x) @ r = json_text style frepr w @ q \<Longrightarrow> closes r \<Longrightarrow> closes q \<Longrightarrow>
      snd x = w \<and> r = q"
    and eq: "json_text style frepr (PDict d) @ r = json_text style frepr w @ q"
  shows "PDict d = w \<and> r = q"
proof -
  note sep = st [unfolded style_ok_def, THEN conjunct1] st [unfolded style_ok_def, THEN conjunct2]
  have c: "\<not> plain_char CHR ''}''" "CHR ''}'' \<noteq> CHR '',''" by (simp_all add: plain_char_def)
  from eq atom_hd [OF ft, of w style] obtain e where w: "w = PDict e"
    by (cases "atom_text w"; cases w) (auto simp: atom_text_def quote_def)
  let ?f = "\<lambda>kv. quote (fst kv) @ js_key style @ json_text style frepr (snd kv)"
  have eqn: "join (js_item style) (map ?f d) @ CHR ''}'' # r = join (js_item style) (map ?f e) @ CHR ''}'' # q"
    using eq w by (simp add: case_prod_unfold)
  have elem: "x = y \<and> s = p" if x: "x \<in> set d" and eq: "?f x @ s = ?f y @ p" and cl: "closes s" "closes p" for x y s p
  proof -
    have "quote (fst x) @ (js_key style @ json_text style frepr (snd x) @ s)
        = quote (fst y) @ (js_key style @ json_text style frepr (snd y) @ p)" using eq by simp
    from quote_inj [OF this]
    have k: "fst x = fst y" "json_text style frepr (snd x) @ s = json_text style frepr (snd y) @ p" by simp_all
    from ih [OF x this(2) cl] k(1) show ?thesis by (simp add: prod_eq_iff)
  qed
  have hd: "\<exists>a t. ?f x = a # t \<and> plain_char a" for x by (simp add: quote_def plain_char_def)
  have "d = e \<and> r = q" by (rule join_inj [where f = ?f, OF sep c elem hd eqn])
  with w show ?thesis by simp
qed

lemma json_text_inj_aux:
  assumes ft: "float_text frepr" and st: "style_ok style"
  shows "json_text style frepr v @ r = json_text style frepr w @ q \<Longrightarrow> closes r \<Longrightarrow> closes q \<Longrightarrow> v = w \<and> r = q"
proof (induction v arbitrary: w r q)
  case (PList vs)
  note sep = st [unfolded style_ok_def, THEN conjunct1] st [unfolded style_ok_def, THEN conjunct2]
  have c: "\<not> plain_char CHR '']''" "CHR '']'' \<noteq> CHR '',''" by (simp_all add: plain_char_def)
  from PList.prems(1) atom_hd [OF ft, of w style] obtain ws where w: "w = PList ws"
    by (cases "atom_text w"; cases w) (auto simp: atom_text_def quote_def)
  have "join (js_item style) (map (json_text style frepr) vs) @ CHR '']'' # r
      = join (js_item style) (map (json_text style frepr) ws) @ CHR '']'' # q" using PList.prems(1) w by simp
  from join_inj [OF sep c _ _ this] PList.IH text_hd [OF ft] w show ?case by blast
next
  case (PDict d)
  show ?case
  proof (rule dict_text_inj [OF ft st _ PDict.prems(1)])
    fix x u and t p :: string
    assume x: "x \<in> set d" and eq: "json_text style frepr (snd x) @ t = json_text style frepr u @ p" "closes t" "closes p"
    have "snd x \<in> Basic_BNFs.snds x" by (cases x) simp
    from PDict.IH [OF x this eq] show "snd x = u \<and> t = p" .
  qed
next
  case (PStr s)
  have "json_text style frepr w @ q = CHR 0x22 # concat (map escape_char s) @ CHR 0x22 # r"
    using PStr.prems(1) by (simp add: quote_def)
  from string_kind [OF ft this] obtain t where w: "w = PStr t" ..
  have "quote s @ r = quote t @ q" using PStr.prems(1) unfolding w json_text.simps .
  from quote_inj [OF this] w show ?case by simp
qed (rule atom_case [OF ft]; simp add: atom_text_def)+

lemma json_text_inj:
  assumes "float_text frepr" "style_ok style"
  shows "json_text style frepr v = json_text style frepr w \<longleftrightarrow> v = w"
  using json_text_inj_aux [OF assms, of v "[]" w "[]"] by (auto simp: closes_def)

lemma dict_prefix_free:
  assumes "float_text frepr" "style_ok style" "json_text style frepr (PDict d) @ r = json_text style frepr w @ q"
  shows "PDict d = w \<and> r = q"
  by (rule dict_text_inj [OF assms(1,2) _ assms(3)]) (rule json_text_inj_aux [OF assms(1,2)])

subsection \<open>Dictionaries\<close>

lemma map_of_sorted_items: "map_of (sorted_items ks d) k = (if k \<in> set ks then map_of d k else None)"
  by (induction ks) (auto simp: List.map_filter_simps split: option.splits)

lemma map_of_canon_items: "map_of (map (\<lambda>(k, v). (k, canon_form v)) d) k = map_option canon_form (map_of d k)"
  by (induction d) auto

lemma map_of_canon_pairs: "map_of (map (\<lambda>p. (fst p, canon_form (snd p))) d) k = map_option canon_form (map_of d k)"
  by (induction d) auto

definition canon_items :: "ctx \<Rightarrow> ctx" where
  "canon_items d = (let items = map (\<lambda>(k, v). (k, canon_form v)) d in sorted_items (str_sort (map fst items)) items)"

lemma canon_form_dict: "canon_form (PDict d) = PDict (canon_items d)"
  by (simp add: canon_items_def)

lemma map_of_canon: "map_of (canon_items d) k = map_option canon_form (map_of d k)"
proof -
  have "map_of d k = None" if "k \<notin> fst ` set d" using that by (simp add: map_of_eq_None_iff)
  then show ?thesis
    by (auto simp: canon_items_def Let_def map_of_sorted_items map_of_canon_pairs case_prod_unfold comp_def simp del: sorted_items.simps)
qed

lemma keys_sorted_items: "set ks \<subseteq> fst ` set d \<Longrightarrow> map fst (sorted_items ks d) = ks"
proof (induction ks)
  case (Cons k ks)
  then obtain v where "map_of d k = Some v" by (metis insert_subset list.simps(15) map_of_eq_None_iff not_None_eq)
  then show ?case using Cons by (simp add: List.map_filter_simps)
qed (simp add: List.map_filter_simps)

lemma keys_canon_items: "map fst (canon_items d) = str_sort (map fst d)"
  unfolding canon_items_def Let_def by (subst keys_sorted_items) (auto simp: case_prod_unfold comp_def image_image)

lemma alist_map_of: "distinct (map fst d) \<Longrightarrow> map (\<lambda>k. (k, the (map_of d k))) (map fst d) = d"
  unfolding map_map by (rule map_idI) (auto simp: map_of_eq_Some_iff)

lemma alist_eqI: "map fst d = map fst e \<Longrightarrow> distinct (map fst d) \<Longrightarrow> map_of d = map_of e \<Longrightarrow> d = e"
  using alist_map_of [of d] alist_map_of [of e] by simp

lemma canon_items_eq:
  assumes "distinct (map fst d)" "distinct (map fst e)"
  shows "canon_items d = canon_items e \<longleftrightarrow> (\<forall>k. map_option canon_form (map_of d k) = map_option canon_form (map_of e k))"
proof
  assume "canon_items d = canon_items e"
  then show "\<forall>k. map_option canon_form (map_of d k) = map_option canon_form (map_of e k)" by (metis map_of_canon)
next
  assume eq: "\<forall>k. map_option canon_form (map_of d k) = map_option canon_form (map_of e k)"
  then have "\<forall>k. (map_of d k = None) = (map_of e k = None)" by (metis map_option_is_None)
  then have "fst ` set d = fst ` set e" unfolding map_of_eq_None_iff by blast
  then have "set (str_sort (map fst d)) = set (str_sort (map fst e))" by simp
  moreover have "sorted_wrt str_le (str_sort (map fst d))" "sorted_wrt str_le (str_sort (map fst e))"
    "distinct (str_sort (map fst d))" "distinct (str_sort (map fst e))"
    using assms by (simp_all add: sorted_str_sort)
  ultimately have "str_sort (map fst d) = str_sort (map fst e)" by (metis sorted_wrt_str_le_unique)
  then show "canon_items d = canon_items e"
    using assms eq by (intro alist_eqI) (auto simp: keys_canon_items map_of_canon)
qed

text \<open>
  The canonical bytes of two dictionaries are equal exactly when they hold the same keys with values
  equal up to the order of nested dictionaries: the encoding ignores the order in which keys were set and
  nothing else, so a digest or a signature over it binds every field.
\<close>

theorem canonical_bytes_bind_fields:
  assumes "float_text frepr" "distinct (map fst d)" "distinct (map fst e)"
  shows "canonical_compact frepr (PDict d) = canonical_compact frepr (PDict e) \<longleftrightarrow>
    (\<forall>k. map_option canon_form (map_of d k) = map_option canon_form (map_of e k))"
  unfolding canonical_compact_def json_text_inj [OF assms(1) style_ok_styles(1)] canon_form_dict pyval.inject
  by (rule canon_items_eq [OF assms(2,3)])

lemma canonical_compact_eq:
  "float_text frepr \<Longrightarrow> canonical_compact frepr v = canonical_compact frepr w \<longleftrightarrow> canon_form v = canon_form w"
  unfolding canonical_compact_def by (rule json_text_inj) simp_all

lemma canonical_spaced_eq:
  "float_text frepr \<Longrightarrow> canonical_spaced frepr v = canonical_spaced frepr w \<longleftrightarrow> canon_form v = canon_form w"
  unfolding canonical_spaced_def by (rule json_text_inj) simp_all

lemma canon_form_scalar [simp]:
  "py_scalar v \<Longrightarrow> canon_form v = v"
  "canon_form v = PNone \<longleftrightarrow> v = PNone" "canon_form v = PBool b \<longleftrightarrow> v = PBool b" "canon_form v = PInt i \<longleftrightarrow> v = PInt i"
  "canon_form v = PStr s \<longleftrightarrow> v = PStr s" "canon_form v = PFloat f \<longleftrightarrow> v = PFloat f"
  by (cases v; simp)+

text \<open>A float text that meets the requirement: an \<open>f\<close> and a code of the value in the digits one and zero.\<close>

fun demo_float :: "pyfloat \<Rightarrow> string" where
  "demo_float (FFin r) = (let (a, b) = quotient_of r in ''fl'' @ int_str a @ ''/'' @ int_str b)"
| "demo_float FPosInf = ''inf''"
| "demo_float FNegInf = ''-inf''"
| "demo_float (FNaN n) = ''nan'' @ nat_str n"

lemma int_str_no_slash: "CHR ''/'' \<notin> set (int_str i)"
  using int_str_chars [of "CHR ''/''" i] by (auto simp: is_digit_def)

lemma demo_float_inj: "demo_float f = demo_float g \<Longrightarrow> f = g"
proof (cases f; cases g)
  fix r s assume eq: "demo_float f = demo_float g" and f: "f = FFin r" "g = FFin s"
  obtain a b where q: "quotient_of r = (a, b)" by fastforce
  obtain c d where p: "quotient_of s = (c, d)" by fastforce
  have "int_str a @ CHR ''/'' # int_str b = int_str c @ CHR ''/'' # int_str d" using eq f q p by simp
  then have "int_str a = int_str c \<and> int_str b = int_str d"
    by (simp add: append_Cons_eq_iff int_str_no_slash)
  then have "quotient_of r = quotient_of s" using q p int_str_inj by auto
  then show "f = g" using f quotient_of_inject by simp
qed (auto simp: Let_def split: prod.splits dest: nat_str_inj)

lemma plain_digits: "list_all is_digit s \<Longrightarrow> list_all plain_char s"
  by (auto simp: list_all_iff intro: plain_digit)

lemma demo_float_hd: "\<exists>t. demo_float f = CHR ''f'' # CHR ''l'' # t \<or> demo_float f = CHR ''i'' # t \<or> demo_float f = CHR ''-'' # t
    \<or> demo_float f = CHR ''n'' # CHR ''a'' # t"
  by (cases f) (auto simp: Let_def split: prod.split)

lemma demo_float_text: "float_text demo_float"
  unfolding float_text_def
proof (intro conjI allI)
  fix f
  show "list_all plain_char (demo_float f)"
    using plain_digits [OF nat_str_digits]
    by (cases f) (auto simp: Let_def int_str_plain_chars plain_char_def split: prod.split)
  show "\<not> int_text (demo_float f)"
    by (cases f) (auto simp: int_text_def unsigned_def all_digits_def is_digit_def Let_def split: prod.split)
  show "demo_float f \<noteq> []" "hd (demo_float f) \<notin> {CHR 0x22, CHR ''['', CHR ''{''}"
    "demo_float f \<notin> {''null'', ''true'', ''false''}" using demo_float_hd [of f] by auto
qed (auto intro!: injI demo_float_inj)

theorem canonical_bytes_bind_fields_witness:
  "canonical_compact demo_float (PDict [(''b'', PInt 2), (''a'', PFloat (FFin 1))])
    = canonical_compact demo_float (PDict [(''a'', PFloat (FFin 1)), (''b'', PInt 2)]) \<and>
   canonical_compact demo_float (PDict [(''a'', PInt 1)]) \<noteq> canonical_compact demo_float (PDict [(''a'', PInt 2)])"
  using canonical_bytes_bind_fields [OF demo_float_text, of "[(''b'', PInt 2), (''a'', PFloat (FFin 1))]" "[(''a'', PFloat (FFin 1)), (''b'', PInt 2)]"]
    canonical_bytes_bind_fields [OF demo_float_text, of "[(''a'', PInt 1)]" "[(''a'', PInt 2)]"] by auto

lemma key_value: "k \<in> fst ` set d \<Longrightarrow> \<exists>v. map_of d k = Some v"
  by (induction d) auto

lemma str_sort_sorted: "sorted_wrt str_le xs \<Longrightarrow> str_sort xs = xs"
proof (induction xs)
  case (Cons x xs)
  then show ?case by (cases xs) auto
qed simp

lemma sorted_items_map: "set ks \<subseteq> fst ` set d \<Longrightarrow> sorted_items ks d = map (\<lambda>k. (k, the (map_of d k))) ks"
proof (induction ks)
  case (Cons k ks)
  then obtain v where "map_of d k = Some v" by (metis insert_subset list.simps(15) map_of_eq_None_iff not_None_eq)
  then show ?case using Cons by (simp add: List.map_filter_simps)
qed (simp add: List.map_filter_simps)

lemma canon_items_map: "canon_items d = map (\<lambda>k. (k, canon_form (the (map_of d k)))) (str_sort (map fst d))"
proof -
  let ?e = "map (\<lambda>p. (fst p, canon_form (snd p))) d"
  have "the (map_of ?e k) = canon_form (the (map_of d k))" if kd: "k \<in> fst ` set d" for k
  proof -
    obtain v where "map_of d k = Some v" using key_value [OF kd] ..
    then show ?thesis by (simp add: map_of_canon_pairs)
  qed
  moreover have "canon_items d = map (\<lambda>k. (k, the (map_of ?e k))) (str_sort (map fst d))"
    unfolding canon_items_def Let_def case_prod_unfold
    by (subst sorted_items_map) (simp_all add: comp_def image_image)
  ultimately show ?thesis by simp
qed

lemma canon_form_idem [simp]: "canon_form (canon_form v) = canon_form v"
proof (induction v)
  case (PDict d)
  have "canon_form (canon_form (the (map_of d k))) = canon_form (the (map_of d k))" if kd: "k \<in> fst ` set d" for k
  proof -
    obtain w where "map_of d k = Some w" using key_value [OF kd] ..
    moreover from this have "(k, w) \<in> set d" by (rule map_of_SomeD)
    ultimately show ?thesis using PDict.IH [of "(k, w)" w] by simp
  qed
  moreover have "map fst (canon_items d) = str_sort (map fst d)" by (rule keys_canon_items)
  moreover have "str_sort (str_sort (map fst d)) = str_sort (map fst d)" by (rule str_sort_sorted [OF sorted_str_sort])
  ultimately have "canon_items (canon_items d) = canon_items d"
  proof -
    assume idem: "\<And>k. k \<in> fst ` set d \<Longrightarrow> canon_form (canon_form (the (map_of d k))) = canon_form (the (map_of d k))"
      and keys: "map fst (canon_items d) = str_sort (map fst d)" "str_sort (str_sort (map fst d)) = str_sort (map fst d)"
    have "the (map_of (canon_items d) k) = canon_form (the (map_of d k))" if kd: "k \<in> fst ` set d" for k
    proof -
      obtain v where "map_of d k = Some v" using key_value [OF kd] ..
      then show ?thesis by (simp add: map_of_canon)
    qed
    then show ?thesis unfolding canon_items_map [of "canon_items d"] keys using idem by (simp add: canon_items_map [of d])
  qed
  then show ?case unfolding canon_form_dict by simp
qed (auto simp: comp_def)

subsection \<open>One line\<close>

lemma escape_no_newline: "CHR 0x0A \<notin> set (escape_char c)"
proof -
  have h: "hex_digit n \<noteq> CHR 0x0A" if "n < 16" for n
  proof -
    have "n \<in> set [0..<16]" using that by simp
    moreover have "list_all (\<lambda>n. hex_digit n \<noteq> CHR 0x0A) [0..<16]" by code_simp
    ultimately show ?thesis by (simp add: list_all_iff)
  qed
  have "CHR 0x0A \<notin> set (hex4 m)" for m using h by (auto simp: hex4_def dest: sym)
  moreover have "of_char c = (10::nat) \<or> c \<noteq> CHR 0x0A" by auto
  ultimately show ?thesis by (auto simp: escape_char_def Let_def)
qed

lemma int_str_no_newline: "CHR 0x0A \<notin> set (int_str i)"
  using int_str_chars [of "CHR 0x0A" i] by (auto simp: is_digit_def)

lemma set_join: "set (join sep xs) \<subseteq> set sep \<union> (\<Union>x \<in> set xs. set x)"
  by (induction sep xs rule: join.induct) auto

lemma json_text_no_newline:
  assumes "\<forall>f. CHR 0x0A \<notin> set (frepr f)" "CHR 0x0A \<notin> set (js_item style)" "CHR 0x0A \<notin> set (js_key style)"
  shows "CHR 0x0A \<notin> set (json_text style frepr v)"
proof (induction v)
  case (PList vs)
  then show ?case using assms set_join [of "js_item style" "map (json_text style frepr) vs"] by auto
next
  case (PDict d)
  have q: "CHR 0x0A \<notin> set (quote s)" for s using escape_no_newline by (auto simp: quote_def)
  have "CHR 0x0A \<notin> set (json_text style frepr (snd p))" if "p \<in> set d" for p
    by (rule PDict.IH [OF that]) (cases p; simp)
  then have "CHR 0x0A \<notin> set x" if "x \<in> set (map (\<lambda>(k, v). quote k @ js_key style @ json_text style frepr v) d)" for x
    using that q assms by fastforce
  then have "CHR 0x0A \<notin> (\<Union>x \<in> set (map (\<lambda>(k, v). quote k @ js_key style @ json_text style frepr v) d). set x)" by blast
  then have "CHR 0x0A \<notin> set (join (js_item style) (map (\<lambda>(k, v). quote k @ js_key style @ json_text style frepr v) d))"
    using assms(2) set_join [of "js_item style" "map (\<lambda>(k, v). quote k @ js_key style @ json_text style frepr v) d"] by blast
  then show ?case by simp
qed (use assms int_str_no_newline escape_no_newline in \<open>auto simp: quote_def\<close>)

lemma canonical_spaced_one_line: "\<forall>f. CHR 0x0A \<notin> set (frepr f) \<Longrightarrow> CHR 0x0A \<notin> set (canonical_spaced frepr v)"
  unfolding canonical_spaced_def by (rule json_text_no_newline) (simp_all add: spaced_style_def)

lemma demo_float_one_line: "CHR 0x0A \<notin> set (demo_float f)"
proof -
  have "CHR 0x0A \<notin> set (nat_str n)" for n using nat_str_digits [of n] by (auto simp: list_all_iff is_digit_def)
  then show ?thesis using int_str_no_newline by (cases f) (auto simp: Let_def split: prod.split)
qed

end
