(* ===== verification/RootStatement.thy ===== *)
theory RootStatement
  imports MerkleAcc Canon
begin

section \<open>Root statements\<close>

text \<open>
  The rest of \<open>src/prismpath/ledgers/root_statement.py\<close>: statements, the signer that appends them to a
  file, the reader, the verifier of a chain and the check of one receipt. A statement is a dictionary. Ed25519
  is a parameter, a signing function of the private key and a verification predicate; so are SHA-256,
  the text of a float and the JSON reader \<open>loads\<close>, which gives no value where \<open>json.loads\<close> raises ValueError.
  A file is its text, or nothing when it does not exist.
\<close>

definition STATEMENT_FORMAT :: string where "STATEMENT_FORMAT = ''prismpath-root-statement/1''"

definition SIGNING_DOMAIN :: string where "SIGNING_DOMAIN = ''prismpath-root-statement/1'' @ [CHR 0x00]"

definition LOG_AUDIT :: string where "LOG_AUDIT = ''audit-log''"

definition BODY_FIELDS :: "string list" where
  "BODY_FIELDS = [''format'', ''log'', ''seq'', ''root'', ''leaves'', ''prev'', ''time'', ''trigger'', ''key_id'', ''public_key'', ''policy'']"

definition FATAL_FINDINGS :: "string list" where
  "FATAL_FINDINGS = [''bad_format'', ''key_id_mismatch'', ''bad_signature'', ''unpinned_key'', ''authority_key'',
     ''chain_broken'', ''leaf_count_regressed'', ''log_truncated'', ''root_mismatch'', ''no_statements'']"

definition SIGNED :: string where "SIGNED = ''signed''"
definition SIGNED_UNPINNED :: string where "SIGNED_UNPINNED = ''signed-unpinned''"
definition UNSIGNED :: string where "UNSIGNED = ''unsigned''"
definition INVALID :: string where "INVALID = ''invalid''"

text \<open>The platform: the hash, the text of a float, the JSON reader and the verification of a signature.\<close>

record platform =
  pf_sha :: "string \<Rightarrow> string"
  pf_float :: "pyfloat \<Rightarrow> string"
  pf_loads :: "string \<Rightarrow> pyval option"
  pf_verify :: "string \<Rightarrow> string \<Rightarrow> string \<Rightarrow> bool"

definition key_id_of :: "platform \<Rightarrow> string \<Rightarrow> string" where
  "key_id_of pf public_raw = sha256_hex (pf_sha pf) public_raw"

definition fingerprint :: "string \<Rightarrow> string" where
  "fingerprint key_id = take 16 key_id"

record instance_key =
  ik_sign :: "string \<Rightarrow> string"
  ik_public :: string

definition ik_key_id :: "platform \<Rightarrow> instance_key \<Rightarrow> string" where
  "ik_key_id pf k = key_id_of pf (ik_public k)"

definition check_separation :: "platform \<Rightarrow> instance_key option \<Rightarrow> string list \<Rightarrow> unit result" where
  "check_separation pf key authority_key_ids =
     (case key of None \<Rightarrow> Inr () | Some k \<Rightarrow> if ik_key_id pf k \<in> set authority_key_ids then Inl ValueError else Inr ())"

definition endswith :: "string \<Rightarrow> string \<Rightarrow> bool" where
  "endswith s suf = (length suf \<le> length s \<and> drop (length s - length suf) s = suf)"

definition statements_path_for :: "string \<Rightarrow> string" where
  "statements_path_for log_path =
     (if endswith log_path ''.jsonl'' then take (length log_path - length ''.jsonl'') log_path @ ''.roots.jsonl''
      else log_path @ ''.roots.jsonl'')"

text \<open>\<open>load_public\<close> after the file was read.\<close>

definition load_public :: "string \<Rightarrow> string result" where
  "load_public raw = (if length raw \<noteq> 32 then Inl ValueError else Inr raw)"

definition signed_bytes :: "platform \<Rightarrow> ctx \<Rightarrow> string result" where
  "signed_bytes pf st =
     ebind (emap (\<lambda>k. case map_of st k of None \<Rightarrow> Inl KeyError | Some v \<Rightarrow> Inr (k, v)) BODY_FIELDS)
       (\<lambda>body. Inr (SIGNING_DOMAIN @ canonical_compact (pf_float pf) (PDict body)))"

definition statement_hash :: "platform \<Rightarrow> ctx \<Rightarrow> string" where
  "statement_hash pf st = sha256_hex (pf_sha pf) (canonical_compact (pf_float pf) (PDict st))"

text \<open>\<open>time or _now()\<close> has been decided by the caller.\<close>

definition statement_body ::
    "platform \<Rightarrow> instance_key \<Rightarrow> string \<Rightarrow> int \<Rightarrow> string \<Rightarrow> int \<Rightarrow> string \<Rightarrow> string \<Rightarrow> pyval \<Rightarrow> string \<Rightarrow> ctx" where
  "statement_body pf key log_name seq root_hex leaves prev trigger policy time =
     [(''format'', PStr STATEMENT_FORMAT), (''log'', PStr log_name), (''seq'', PInt seq), (''root'', PStr root_hex),
      (''leaves'', PInt leaves), (''prev'', PStr prev), (''time'', PStr time), (''trigger'', PStr trigger),
      (''key_id'', PStr (ik_key_id pf key)), (''public_key'', PStr (hex_of (ik_public key))), (''policy'', policy)]"

definition make_statement ::
    "platform \<Rightarrow> instance_key \<Rightarrow> string \<Rightarrow> int \<Rightarrow> string \<Rightarrow> int \<Rightarrow> string \<Rightarrow> string \<Rightarrow> pyval \<Rightarrow> string \<Rightarrow> ctx result" where
  "make_statement pf key log_name seq root_hex leaves prev trigger policy time =
     (let body = statement_body pf key log_name seq root_hex leaves prev trigger policy time in
      ebind (signed_bytes pf body) (\<lambda>bytes. Inr (body @ [(''sig'', PStr (hex_of (ik_sign key bytes)))])))"

subsection \<open>Reading the file\<close>

type_synonym finding = ctx

definition finding_name :: "finding \<Rightarrow> string" where
  "finding_name f = (case map_of f ''finding'' of Some (PStr s) \<Rightarrow> s | _ \<Rightarrow> '''')"

definition raw_lines :: "string \<Rightarrow> string list" where
  "raw_lines content = (let ls = split_char (CHR 0x0A) content in if ls \<noteq> [] \<and> last ls = [] then butlast ls else ls)"

text \<open>The loop over the lines; \<open>n\<close> is their number, \<open>i\<close> the index of the first.\<close>

fun read_lines :: "platform \<Rightarrow> nat \<Rightarrow> nat \<Rightarrow> string list \<Rightarrow> ctx list \<times> finding list" where
  "read_lines pf n i [] = ([], [])"
| "read_lines pf n i (line # lines) =
     (let (sts, fs) = read_lines pf n (i + 1) lines in
      case pf_loads pf line of
        Some (PDict record) \<Rightarrow> (record # sts, fs)
      | _ \<Rightarrow> if i = n - 1
          then (sts, [(''finding'', PStr ''interrupted_statement''), (''line'', PInt (int i + 1))] # fs)
          else ([] # sts, [(''finding'', PStr ''bad_format''), (''line'', PInt (int i + 1))] # fs))"

definition read_statements :: "platform \<Rightarrow> string option \<Rightarrow> ctx list \<times> finding list" where
  "read_statements pf content = (case content of None \<Rightarrow> ([], [])
     | Some c \<Rightarrow> let ls = raw_lines c in read_lines pf (length ls) 0 ls)"

subsection \<open>The signer\<close>

record signer =
  sg_key :: instance_key
  sg_log :: string
  sg_file :: "string option"
  sg_seq :: int
  sg_prev :: string

text \<open>The lines kept when a torn final line is found.\<close>

definition kept_lines :: "string \<Rightarrow> string list" where
  "kept_lines content = (let lines = split_char (CHR 0x0A) content in
     if last lines = [] then filter (\<lambda>l. l \<noteq> []) (butlast lines) else butlast lines)"

definition open_signer :: "platform \<Rightarrow> instance_key \<Rightarrow> string \<Rightarrow> string option \<Rightarrow> signer" where
  "open_signer pf key log_name content =
     (let (statements, findings) = read_statements pf content;
          content = (if list_ex (\<lambda>f. finding_name f = ''interrupted_statement'') findings
            then map_option (\<lambda>c. concat (map (\<lambda>line. line @ [CHR 0x0A]) (kept_lines c))) content else content) in
      \<lparr>sg_key = key, sg_log = log_name, sg_file = content, sg_seq = int (length statements),
       sg_prev = (if statements = [] then '''' else statement_hash pf (last statements))\<rparr>)"

definition sign_root ::
    "platform \<Rightarrow> signer \<Rightarrow> string \<Rightarrow> int \<Rightarrow> string \<Rightarrow> pyval \<Rightarrow> string \<Rightarrow> (ctx \<times> signer) result" where
  "sign_root pf sg root_hex leaves trigger policy time =
     ebind (make_statement pf (sg_key sg) (sg_log sg) (sg_seq sg) root_hex leaves (sg_prev sg) trigger policy time) (\<lambda>st.
       Inr (st, sg\<lparr>sg_file := Some ((case sg_file sg of None \<Rightarrow> '''' | Some c \<Rightarrow> c)
                     @ canonical_spaced (pf_float pf) (PDict st) @ [CHR 0x0A]),
                   sg_seq := sg_seq sg + 1, sg_prev := statement_hash pf st\<rparr>))"

subsection \<open>Verifying a chain\<close>

text \<open>\<open>isinstance(v, int)\<close>: a boolean is an integer.\<close>

fun int_val :: "pyval \<Rightarrow> int option" where
  "int_val (PInt i) = Some i"
| "int_val (PBool b) = Some (if b then 1 else 0)"
| "int_val _ = None"

fun str_val :: "pyval \<Rightarrow> string option" where
  "str_val (PStr s) = Some s"
| "str_val _ = None"

definition st_get :: "ctx \<Rightarrow> string \<Rightarrow> pyval" where
  "st_get st k = ctx_get st k"

definition st_str :: "ctx \<Rightarrow> string \<Rightarrow> string" where
  "st_str st k = (case str_val (st_get st k) of None \<Rightarrow> '''' | Some s \<Rightarrow> s)"

definition st_int :: "ctx \<Rightarrow> string \<Rightarrow> int" where
  "st_int st k = (case int_val (st_get st k) of None \<Rightarrow> 0 | Some i \<Rightarrow> i)"

definition hex_bytes :: "pyval \<Rightarrow> string option" where
  "hex_bytes v = (case v of PStr s \<Rightarrow> (case fromhex s of Inr b \<Rightarrow> Some b | Inl e \<Rightarrow> None) | _ \<Rightarrow> None)"

definition well_formed :: "ctx \<Rightarrow> string \<Rightarrow> bool" where
  "well_formed st log_name =
     (if \<not> py_eq (st_get st ''format'') (PStr STATEMENT_FORMAT) \<or> \<not> py_eq (st_get st ''log'') (PStr log_name) then False
      else if list_ex (\<lambda>k. map_of st k = None) (BODY_FIELDS @ [''sig'']) then False
      else if \<not> (int_val (st_get st ''seq'') \<noteq> None \<and> int_val (st_get st ''leaves'') \<noteq> None \<and> str_val (st_get st ''root'') \<noteq> None
             \<and> str_val (st_get st ''prev'') \<noteq> None \<and> str_val (st_get st ''key_id'') \<noteq> None) then False
      else (case (hex_bytes (st_get st ''public_key''), hex_bytes (st_get st ''sig'')) of
          (Some pub, Some sig) \<Rightarrow> length pub = 32 \<and> length sig = 64
        | _ \<Rightarrow> False))"

text \<open>\<open>_verify_signature\<close>: a missing field raises KeyError, which the call does not catch.\<close>

definition verify_signature :: "platform \<Rightarrow> ctx \<Rightarrow> bool result" where
  "verify_signature pf st =
     (case (hex_bytes (st_get st ''public_key''), hex_bytes (st_get st ''sig'')) of
        (Some pub, Some sig) \<Rightarrow> ebind (signed_bytes pf st) (\<lambda>bytes. Inr (pf_verify pf pub sig bytes))
      | _ \<Rightarrow> Inr False)"

record chain_state =
  cs_findings :: "finding list"
  cs_prev_hash :: string
  cs_prev_leaves :: int
  cs_mismatch :: "int option"
  cs_keys :: "string list"

definition add_finding :: "string \<Rightarrow> ctx \<Rightarrow> chain_state \<Rightarrow> chain_state" where
  "add_finding name data cs = cs\<lparr>cs_findings := cs_findings cs @ [(''finding'', PStr name) # data]\<rparr>"

definition check_signature :: "platform \<Rightarrow> ctx \<Rightarrow> chain_state \<Rightarrow> chain_state result" where
  "check_signature pf st cs =
     (let seq = st_get st ''seq'' in
      if hex_bytes (st_get st ''public_key'') \<noteq> None \<and>
         key_id_of pf (the (hex_bytes (st_get st ''public_key''))) = st_str st ''key_id''
      then ebind (verify_signature pf st) (\<lambda>ok. Inr (if ok then cs else add_finding ''bad_signature'' [(''statement'', seq)] cs))
      else Inr (add_finding ''key_id_mismatch'' [(''statement'', seq)] cs))"

definition check_pinned :: "string list \<Rightarrow> ctx \<Rightarrow> chain_state \<Rightarrow> chain_state" where
  "check_pinned pinned_ids st cs =
     (let key_id = st_str st ''key_id'' in
      if pinned_ids \<noteq> [] \<and> key_id \<notin> set pinned_ids
      then add_finding ''unpinned_key'' [(''statement'', st_get st ''seq''), (''key'', PStr (fingerprint key_id))] cs else cs)"

definition check_authority :: "string list \<Rightarrow> ctx \<Rightarrow> chain_state \<Rightarrow> chain_state" where
  "check_authority authority st cs =
     (let key_id = st_str st ''key_id'' in
      if key_id \<in> set authority
      then add_finding ''authority_key'' [(''statement'', st_get st ''seq''), (''key'', PStr (fingerprint key_id))] cs else cs)"

definition remember_key :: "ctx \<Rightarrow> chain_state \<Rightarrow> chain_state" where
  "remember_key st cs = (let key_id = st_str st ''key_id'' in
     if key_id \<notin> set (cs_keys cs) then cs\<lparr>cs_keys := cs_keys cs @ [key_id]\<rparr> else cs)"

definition check_key :: "platform \<Rightarrow> string list \<Rightarrow> string list \<Rightarrow> ctx \<Rightarrow> chain_state \<Rightarrow> chain_state result" where
  "check_key pf pinned_ids authority st cs =
     ebind (check_signature pf st cs) (\<lambda>cs. Inr (remember_key st (check_authority authority st (check_pinned pinned_ids st cs))))"

definition check_link :: "nat \<Rightarrow> ctx \<Rightarrow> chain_state \<Rightarrow> chain_state" where
  "check_link index st cs =
     (if st_int st ''seq'' \<noteq> int index \<or> st_str st ''prev'' \<noteq> cs_prev_hash cs
      then add_finding ''chain_broken'' [(''statement'', st_get st ''seq''), (''position'', PInt (int index))] cs else cs)"

definition check_cover :: "(int \<Rightarrow> string) \<Rightarrow> nat \<Rightarrow> ctx \<Rightarrow> chain_state \<Rightarrow> chain_state" where
  "check_cover root_at total_leaves st cs =
     (let leaves = st_int st ''leaves'';
          cs = (if leaves < cs_prev_leaves cs
            then add_finding ''leaf_count_regressed'' [(''statement'', st_get st ''seq''), (''leaves'', st_get st ''leaves''), (''before'', PInt (cs_prev_leaves cs))] cs
            else cs) in
      if leaves > int total_leaves
      then add_finding ''log_truncated'' [(''statement'', st_get st ''seq''), (''signed_leaves'', st_get st ''leaves''), (''log_leaves'', PInt (int total_leaves))] cs
      else if root_at leaves \<noteq> st_str st ''root''
      then (let m = (case cs_mismatch cs of None \<Rightarrow> min (cs_prev_leaves cs) leaves | Some m \<Rightarrow> m) in
        (add_finding ''root_mismatch'' [(''statement'', st_get st ''seq''), (''leaf_range'', PList [PInt m, PInt (leaves - 1)])] cs)\<lparr>cs_mismatch := Some m\<rparr>)
      else cs)"

definition check_statement ::
    "platform \<Rightarrow> string \<Rightarrow> string list \<Rightarrow> string list \<Rightarrow> (int \<Rightarrow> string) \<Rightarrow> nat \<Rightarrow> nat \<Rightarrow> ctx \<Rightarrow> chain_state \<Rightarrow> chain_state result" where
  "check_statement pf log_name pinned_ids authority root_at total_leaves index st cs =
     (if st = [] then Inr (cs\<lparr>cs_prev_hash := ''''\<rparr>)
      else if \<not> well_formed st log_name
      then Inr ((add_finding ''bad_format'' [(''statement'', PInt (int index))] cs)\<lparr>cs_prev_hash := statement_hash pf st\<rparr>)
      else ebind (check_key pf pinned_ids authority st cs) (\<lambda>cs.
        Inr ((check_cover root_at total_leaves st (check_link index st cs))
          \<lparr>cs_prev_hash := statement_hash pf st, cs_prev_leaves := st_int st ''leaves''\<rparr>)))"

fun check_all ::
    "platform \<Rightarrow> string \<Rightarrow> string list \<Rightarrow> string list \<Rightarrow> (int \<Rightarrow> string) \<Rightarrow> nat \<Rightarrow> nat \<Rightarrow> ctx list \<Rightarrow> chain_state \<Rightarrow> chain_state result" where
  "check_all pf log_name pinned_ids authority root_at total_leaves index [] cs = Inr cs"
| "check_all pf log_name pinned_ids authority root_at total_leaves index (st # sts) cs =
     ebind (check_statement pf log_name pinned_ids authority root_at total_leaves index st cs) (\<lambda>cs.
       check_all pf log_name pinned_ids authority root_at total_leaves (index + 1) sts cs)"

record chain_report =
  cr_status :: string
  cr_statements :: nat
  cr_signed_leaves :: pyval
  cr_log_leaves :: nat
  cr_unsigned_tail :: "int option"
  cr_keys :: "string list"
  cr_pinned :: bool
  cr_last :: "string option"
  cr_findings :: "finding list"

text \<open>
  \<open>max(0, total_leaves - signed_leaves)\<close>: a value that is no number raises TypeError; for a float, which
  no writer of statements produces, the figure is not modelled and is None.
\<close>

fun unsigned_tail :: "nat \<Rightarrow> pyval \<Rightarrow> int option result" where
  "unsigned_tail n (PInt i) = Inr (Some (max 0 (int n - i)))"
| "unsigned_tail n (PBool b) = Inr (Some (max 0 (int n - (if b then 1 else 0))))"
| "unsigned_tail n (PFloat f) = Inr None"
| "unsigned_tail n _ = Inl TypeError"

definition verify_chain ::
    "platform \<Rightarrow> ctx list \<Rightarrow> finding list \<Rightarrow> (int \<Rightarrow> string) \<Rightarrow> nat \<Rightarrow> string \<Rightarrow> string list \<Rightarrow> string list \<Rightarrow> chain_report result" where
  "verify_chain pf statements read_findings root_at total_leaves log_name pinned authority =
     (let pinned_ids = map (key_id_of pf) pinned in
      ebind (check_all pf log_name pinned_ids authority root_at total_leaves 0 statements
          \<lparr>cs_findings = read_findings, cs_prev_hash = '''', cs_prev_leaves = 0, cs_mismatch = None, cs_keys = []\<rparr>) (\<lambda>cs.
      let findings = cs_findings cs @ (if pinned_ids \<noteq> [] \<and> statements = [] then [[(''finding'', PStr ''no_statements'')]] else []);
          status = (if list_ex (\<lambda>f. finding_name f \<in> set FATAL_FINDINGS) findings then INVALID
                    else if statements = [] then UNSIGNED
                    else if pinned_ids \<noteq> [] then SIGNED else SIGNED_UNPINNED);
          last_st = find (\<lambda>st. st \<noteq> []) (rev statements);
          signed_leaves = (case last_st of None \<Rightarrow> PInt 0 | Some st \<Rightarrow> (case map_of st ''leaves'' of None \<Rightarrow> PInt 0 | Some v \<Rightarrow> v)) in
      ebind (if statements \<noteq> [] then unsigned_tail total_leaves signed_leaves else Inr (Some (int total_leaves))) (\<lambda>tail.
        Inr \<lparr>cr_status = status, cr_statements = length statements, cr_signed_leaves = signed_leaves,
             cr_log_leaves = total_leaves, cr_unsigned_tail = tail, cr_keys = map fingerprint (cs_keys cs),
             cr_pinned = (pinned_ids \<noteq> []), cr_last = map_option (statement_hash pf) last_st, cr_findings = findings\<rparr>)))"

subsection \<open>What a chain that verifies says\<close>

definition clean :: "chain_state \<Rightarrow> bool" where
  "clean cs \<longleftrightarrow> \<not> list_ex (\<lambda>f. finding_name f \<in> set FATAL_FINDINGS) (cs_findings cs)"

lemma fatal_names [simp]:
  "''bad_format'' \<in> set FATAL_FINDINGS" "''key_id_mismatch'' \<in> set FATAL_FINDINGS" "''bad_signature'' \<in> set FATAL_FINDINGS"
  "''unpinned_key'' \<in> set FATAL_FINDINGS" "''authority_key'' \<in> set FATAL_FINDINGS" "''chain_broken'' \<in> set FATAL_FINDINGS"
  "''leaf_count_regressed'' \<in> set FATAL_FINDINGS" "''log_truncated'' \<in> set FATAL_FINDINGS" "''root_mismatch'' \<in> set FATAL_FINDINGS"
  "''no_statements'' \<in> set FATAL_FINDINGS" "''interrupted_statement'' \<notin> set FATAL_FINDINGS"
  by (simp_all add: FATAL_FINDINGS_def)

lemma finding_name_Cons [simp]: "finding_name ((''finding'', PStr name) # data) = name"
  by (simp add: finding_name_def)

lemma clean_add_finding [simp]: "clean (add_finding name data cs) \<longleftrightarrow> clean cs \<and> name \<notin> set FATAL_FINDINGS"
  by (auto simp: clean_def add_finding_def)

lemma clean_update [simp]:
  "clean (cs\<lparr>cs_prev_hash := h\<rparr>) = clean cs" "clean (cs\<lparr>cs_prev_leaves := l\<rparr>) = clean cs"
  "clean (cs\<lparr>cs_mismatch := m\<rparr>) = clean cs" "clean (cs\<lparr>cs_keys := ks\<rparr>) = clean cs"
  by (simp_all add: clean_def)

lemma add_finding_sel [simp]:
  "cs_prev_hash (add_finding n d cs) = cs_prev_hash cs" "cs_prev_leaves (add_finding n d cs) = cs_prev_leaves cs"
  "cs_mismatch (add_finding n d cs) = cs_mismatch cs" "cs_keys (add_finding n d cs) = cs_keys cs"
  by (simp_all add: add_finding_def)

text \<open>A statement in place: well formed, signed by its own accepted key, linked, covering the log.\<close>

definition in_place ::
    "platform \<Rightarrow> string \<Rightarrow> string list \<Rightarrow> string list \<Rightarrow> (int \<Rightarrow> string) \<Rightarrow> nat \<Rightarrow> nat \<Rightarrow> string \<Rightarrow> int \<Rightarrow> ctx \<Rightarrow> bool" where
  "in_place pf log_name pinned_ids authority root_at total_leaves index prev_hash prev_leaves st \<longleftrightarrow>
     well_formed st log_name \<and> st_int st ''seq'' = int index \<and> st_str st ''prev'' = prev_hash \<and>
     prev_leaves \<le> st_int st ''leaves'' \<and> st_int st ''leaves'' \<le> int total_leaves \<and>
     root_at (st_int st ''leaves'') = st_str st ''root'' \<and>
     (\<exists>pub. hex_bytes (st_get st ''public_key'') = Some pub \<and> key_id_of pf pub = st_str st ''key_id'') \<and>
     verify_signature pf st = Inr True \<and>
     (pinned_ids \<noteq> [] \<longrightarrow> st_str st ''key_id'' \<in> set pinned_ids) \<and> st_str st ''key_id'' \<notin> set authority"

lemma check_key_clean:
  assumes "check_key pf pinned_ids authority st cs = Inr cs'"
  shows "clean cs' \<longleftrightarrow> clean cs \<and>
      (\<exists>pub. hex_bytes (st_get st ''public_key'') = Some pub \<and> key_id_of pf pub = st_str st ''key_id'') \<and>
      verify_signature pf st = Inr True \<and>
      (pinned_ids \<noteq> [] \<longrightarrow> st_str st ''key_id'' \<in> set pinned_ids) \<and> st_str st ''key_id'' \<notin> set authority"
    and "cs_prev_hash cs' = cs_prev_hash cs" "cs_prev_leaves cs' = cs_prev_leaves cs" "cs_mismatch cs' = cs_mismatch cs"
proof -
  obtain c where c: "check_signature pf st cs = Inr c"
    "cs' = remember_key st (check_authority authority st (check_pinned pinned_ids st c))"
    using assms by (auto simp: check_key_def ebind_eq_Inr)
  have k: "clean c \<longleftrightarrow> clean cs \<and>
      (\<exists>pub. hex_bytes (st_get st ''public_key'') = Some pub \<and> key_id_of pf pub = st_str st ''key_id'') \<and>
      verify_signature pf st = Inr True"
    and sel: "cs_prev_hash c = cs_prev_hash cs" "cs_prev_leaves c = cs_prev_leaves cs" "cs_mismatch c = cs_mismatch cs"
    using c(1) by (cases "verify_signature pf st"; auto simp: check_signature_def Let_def split: if_splits)+
  show "clean cs' \<longleftrightarrow> clean cs \<and>
      (\<exists>pub. hex_bytes (st_get st ''public_key'') = Some pub \<and> key_id_of pf pub = st_str st ''key_id'') \<and>
      verify_signature pf st = Inr True \<and>
      (pinned_ids \<noteq> [] \<longrightarrow> st_str st ''key_id'' \<in> set pinned_ids) \<and> st_str st ''key_id'' \<notin> set authority"
    unfolding c(2) using k by (auto simp: remember_key_def check_authority_def check_pinned_def Let_def)
  show "cs_prev_hash cs' = cs_prev_hash cs" "cs_prev_leaves cs' = cs_prev_leaves cs" "cs_mismatch cs' = cs_mismatch cs"
    unfolding c(2) using sel by (simp_all add: remember_key_def check_authority_def check_pinned_def Let_def)
qed

lemma check_cover_clean:
  "clean (check_cover root_at total_leaves st cs) \<longleftrightarrow> clean cs \<and> cs_prev_leaves cs \<le> st_int st ''leaves'' \<and>
     st_int st ''leaves'' \<le> int total_leaves \<and> root_at (st_int st ''leaves'') = st_str st ''root''"
  by (auto simp: check_cover_def Let_def not_less)

lemma check_statement_clean:
  assumes "check_statement pf log_name pinned_ids authority root_at total_leaves index st cs = Inr cs'" "st \<noteq> []"
  shows "clean cs' \<longleftrightarrow> clean cs \<and>
      in_place pf log_name pinned_ids authority root_at total_leaves index (cs_prev_hash cs) (cs_prev_leaves cs) st"
    and "clean cs' \<Longrightarrow> cs_prev_hash cs' = statement_hash pf st \<and> cs_prev_leaves cs' = st_int st ''leaves''"
proof -
  show "clean cs' \<longleftrightarrow> clean cs \<and>
      in_place pf log_name pinned_ids authority root_at total_leaves index (cs_prev_hash cs) (cs_prev_leaves cs) st"
  proof (cases "well_formed st log_name")
    case False
    then show ?thesis using assms by (auto simp: check_statement_def in_place_def)
  next
    case True
    then obtain ck where ck: "check_key pf pinned_ids authority st cs = Inr ck"
      "cs' = (check_cover root_at total_leaves st (check_link index st ck))
          \<lparr>cs_prev_hash := statement_hash pf st, cs_prev_leaves := st_int st ''leaves''\<rparr>"
      using assms by (auto simp: check_statement_def ebind_eq_Inr)
    have "clean (check_link index st ck) \<longleftrightarrow> clean ck \<and> st_int st ''seq'' = int index \<and> st_str st ''prev'' = cs_prev_hash ck"
      "cs_prev_leaves (check_link index st ck) = cs_prev_leaves ck" by (auto simp: check_link_def)
    then show ?thesis using ck(2) check_key_clean [OF ck(1)] True by (auto simp: in_place_def check_cover_clean)
  qed
  show "clean cs' \<Longrightarrow> cs_prev_hash cs' = statement_hash pf st \<and> cs_prev_leaves cs' = st_int st ''leaves''"
    using assms by (auto simp: check_statement_def ebind_eq_Inr split: if_splits)
qed

fun chain_ok ::
    "platform \<Rightarrow> string \<Rightarrow> string list \<Rightarrow> string list \<Rightarrow> (int \<Rightarrow> string) \<Rightarrow> nat \<Rightarrow> nat \<Rightarrow> string \<Rightarrow> int \<Rightarrow> ctx list \<Rightarrow> bool" where
  "chain_ok pf log_name pinned_ids authority root_at total_leaves index prev_hash prev_leaves [] = True"
| "chain_ok pf log_name pinned_ids authority root_at total_leaves index prev_hash prev_leaves (st # sts) \<longleftrightarrow>
     in_place pf log_name pinned_ids authority root_at total_leaves index prev_hash prev_leaves st \<and>
     chain_ok pf log_name pinned_ids authority root_at total_leaves (index + 1) (statement_hash pf st) (st_int st ''leaves'') sts"

lemma check_all_clean:
  assumes "check_all pf log_name pinned_ids authority root_at total_leaves index sts cs = Inr cs'" "[] \<notin> set sts"
  shows "clean cs' \<longleftrightarrow> clean cs \<and>
      chain_ok pf log_name pinned_ids authority root_at total_leaves index (cs_prev_hash cs) (cs_prev_leaves cs) sts"
  using assms
proof (induction sts arbitrary: index cs)
  case (Cons st sts)
  then obtain c where c: "check_statement pf log_name pinned_ids authority root_at total_leaves index st cs = Inr c"
    "check_all pf log_name pinned_ids authority root_at total_leaves (index + 1) sts c = Inr cs'" by (auto simp: ebind_eq_Inr)
  have "st \<noteq> []" using Cons.prems(2) by auto
  from Cons.IH [OF c(2)] Cons.prems(2) check_statement_clean [OF c(1) this] show ?case by auto
qed simp

lemma chain_ok_nth:
  "chain_ok pf log_name pinned_ids authority root_at total_leaves index prev_hash prev_leaves sts \<longleftrightarrow>
   (\<forall>i < length sts. in_place pf log_name pinned_ids authority root_at total_leaves (index + i)
      (if i = 0 then prev_hash else statement_hash pf (sts ! (i - 1)))
      (if i = 0 then prev_leaves else st_int (sts ! (i - 1)) ''leaves'') (sts ! i))"
proof (induction sts arbitrary: index prev_hash prev_leaves)
  case (Cons st sts)
  have "(\<forall>i < length (st # sts). P i) \<longleftrightarrow> P 0 \<and> (\<forall>i < length sts. P (Suc i))" for P :: "nat \<Rightarrow> bool"
    by (simp add: All_less_Suc2)
  then show ?case by (auto simp: Cons nth_Cons' intro: arg_cong)
qed simp

lemma check_all_total: "\<exists>cs'. check_all pf log_name pinned_ids authority root_at total_leaves index sts cs = Inr cs'"
proof (induction sts arbitrary: index cs)
  case (Cons st sts)
  have sb: "\<exists>b. signed_bytes pf st = Inr b" if wf: "well_formed st log_name"
  proof -
    have "\<exists>y. (case map_of st k of None \<Rightarrow> Inl KeyError | Some v \<Rightarrow> Inr (k, v)) = Inr y" if k: "k \<in> set BODY_FIELDS" for k
      using wf k by (auto simp: well_formed_def list_ex_iff split: if_splits option.splits)
    then have "\<exists>body. emap (\<lambda>k. case map_of st k of None \<Rightarrow> Inl KeyError | Some v \<Rightarrow> Inr (k, v)) BODY_FIELDS = Inr body"
      by (rule emap_total)
    then show ?thesis by (auto simp: signed_bytes_def)
  qed
  have "\<exists>b. verify_signature pf st = Inr b" if wf: "well_formed st log_name"
    using sb [OF wf] by (auto simp: verify_signature_def split: option.splits)
  then have "\<exists>c. check_statement pf log_name pinned_ids authority root_at total_leaves index st cs = Inr c"
    by (fastforce simp: check_statement_def check_key_def check_signature_def Let_def)
  then show ?case using Cons.IH by fastforce
qed simp


subsection \<open>Two defects of the verifier\<close>

text \<open>
  A statements file that holds the empty object and nothing else verifies as signed under a pinned key:
  the reader accepts the object as a statement, the loop passes over it as a line that could not be read,
  and the file does not count as one without statements.
\<close>

theorem empty_object_passes_as_signed:
  assumes "pf_loads pf ''{}'' = Some (PDict [])" "pinned \<noteq> []"
  shows "case read_statements pf (Some ''{}'') of (sts, fs) \<Rightarrow>
    (case verify_chain pf sts fs root_at n log_name pinned authority of
       Inl e \<Rightarrow> False
     | Inr rep \<Rightarrow> cr_status rep = SIGNED \<and> cr_findings rep = [] \<and> cr_unsigned_tail rep = Some (int n))"
proof -
  have "raw_lines ''{}'' = [''{}'']" by code_simp
  then have "read_statements pf (Some ''{}'') = ([[]], [])"
    using assms(1) by (simp add: read_statements_def)
  then show ?thesis using assms(2) by (simp add: verify_chain_def check_statement_def)
qed

text \<open>
  A final statement of the wrong shape whose \<open>leaves\<close> is no number makes the verifier raise TypeError
  instead of reporting the log as invalid.
\<close>

theorem verify_chain_raises_on_malformed:
  assumes "map_of st ''leaves'' = Some v" "num_of v = None"
  shows "verify_chain pf [st] fs root_at n log_name pinned authority = Inl TypeError"
proof -
  have ne: "st \<noteq> []" using assms(1) by auto
  obtain cs where cs: "check_all pf log_name (map (key_id_of pf) pinned) authority root_at n 0 [st]
      \<lparr>cs_findings = fs, cs_prev_hash = '''', cs_prev_leaves = 0, cs_mismatch = None, cs_keys = []\<rparr> = Inr cs"
    using check_all_total by blast
  have "unsigned_tail n v = Inl TypeError" using assms(2) by (cases v) auto
  then show ?thesis unfolding verify_chain_def Let_def cs ebind_simps using assms(1) ne by simp
qed

definition demo_platform :: platform where
  "demo_platform = \<lparr>pf_sha = (\<lambda>s. take 4 (rev s)), pf_float = demo_float,
     pf_loads = (\<lambda>s. if s = ''{}'' then Some (PDict []) else None), pf_verify = (\<lambda>pub sig msg. sig = replicate 64 CHR ''s'')\<rparr>"

theorem empty_object_passes_as_signed_witness:
  "case read_statements demo_platform (Some ''{}'') of (sts, fs) \<Rightarrow>
    (case verify_chain demo_platform sts fs (\<lambda>n. '''') 7 LOG_AUDIT [''k''] [] of
       Inl e \<Rightarrow> False
     | Inr rep \<Rightarrow> cr_status rep = SIGNED \<and> cr_findings rep = [] \<and> cr_unsigned_tail rep = Some (int 7))"
  by (rule empty_object_passes_as_signed) (simp_all add: demo_platform_def)

theorem verify_chain_raises_on_malformed_witness:
  "verify_chain demo_platform [[(''leaves'', PStr ''x'')]] [] (\<lambda>n. '''') 7 LOG_AUDIT [''k''] [] = Inl TypeError"
  by (rule verify_chain_raises_on_malformed [where v = "PStr ''x''"]) simp_all

subsection \<open>What the signer writes verifies\<close>

text \<open>A request to sign: the root, the number of leaves, the trigger, the policy and the time.\<close>

type_synonym sign_request = "string \<times> int \<times> string \<times> pyval \<times> string"

fun sign_all :: "platform \<Rightarrow> signer \<Rightarrow> sign_request list \<Rightarrow> (ctx list \<times> signer) result" where
  "sign_all pf sg [] = Inr ([], sg)"
| "sign_all pf sg ((r, n, trigger, policy, time) # reqs) =
     ebind (sign_root pf sg r n trigger policy time) (\<lambda>(st, sg).
       ebind (sign_all pf sg reqs) (\<lambda>(sts, sg). Inr (st # sts, sg)))"

definition body_pairs :: "platform \<Rightarrow> instance_key \<Rightarrow> string \<Rightarrow> int \<Rightarrow> string \<Rightarrow> int \<Rightarrow> string \<Rightarrow> string \<Rightarrow> pyval \<Rightarrow> string \<Rightarrow> string" where
  "body_pairs pf key log_name seq r n prev trigger policy time =
     SIGNING_DOMAIN @ canonical_compact (pf_float pf) (PDict (statement_body pf key log_name seq r n prev trigger policy time))"

lemma make_statement_eq:
  "make_statement pf key log_name seq r n prev trigger policy time =
     Inr (statement_body pf key log_name seq r n prev trigger policy time
       @ [(''sig'', PStr (hex_of (ik_sign key (body_pairs pf key log_name seq r n prev trigger policy time))))])"
  by (simp add: make_statement_def Let_def signed_bytes_def statement_body_def BODY_FIELDS_def body_pairs_def)

text \<open>The Ed25519 contract of one key: its signatures verify, with the lengths the scheme fixes.\<close>

definition key_ok :: "platform \<Rightarrow> instance_key \<Rightarrow> bool" where
  "key_ok pf key \<longleftrightarrow> length (ik_public key) = 32 \<and>
     (\<forall>m. length (ik_sign key m) = 64 \<and> pf_verify pf (ik_public key) (ik_sign key m) m)"

lemma signed_bytes_canon: "signed_bytes pf (canon_items st) = signed_bytes pf st"
proof (cases "\<forall>k \<in> set BODY_FIELDS. map_of st k \<noteq> None")
  case True
  define body where "body = map (\<lambda>k. (k, the (map_of st k))) BODY_FIELDS"
  have "emap (\<lambda>k. case map_of st k of None \<Rightarrow> Inl KeyError | Some v \<Rightarrow> Inr (k, v)) BODY_FIELDS = Inr body"
    unfolding body_def using True by (intro emap_Inr_map) auto
  moreover have "emap (\<lambda>k. case map_of (canon_items st) k of None \<Rightarrow> Inl KeyError | Some v \<Rightarrow> Inr (k, v)) BODY_FIELDS
      = Inr (map (\<lambda>p. (fst p, canon_form (snd p))) body)"
    unfolding body_def map_map comp_def fst_conv snd_conv using True by (intro emap_Inr_map) (auto simp: map_of_canon)
  moreover have "canon_form (PDict (map (\<lambda>p. (fst p, canon_form (snd p))) body)) = canon_form (PDict body)"
    by (simp add: comp_def case_prod_unfold)
  ultimately show ?thesis by (simp add: signed_bytes_def canonical_compact_def del: canon_form.simps)
next
  case False
  have "emap (\<lambda>k. case map_of d k of None \<Rightarrow> Inl KeyError | Some v \<Rightarrow> Inr (k, v)) ks = Inl KeyError"
    if "\<not> (\<forall>k \<in> set ks. map_of d k \<noteq> None)" for d :: ctx and ks
    using that
  proof (induction ks)
    case (Cons k ks)
    show ?case
    proof (cases "map_of d k")
      case (Some v)
      then have "\<not> (\<forall>k \<in> set ks. map_of d k \<noteq> None)" using Cons.prems by auto
      from Cons.IH [OF this] Some show ?thesis by simp
    qed simp
  qed simp
  from this [of BODY_FIELDS st] this [of BODY_FIELDS "canon_items st"] False show ?thesis
    by (simp add: signed_bytes_def map_of_canon)
qed

lemma statement_hash_canon: "statement_hash pf (canon_items st) = statement_hash pf st"
  by (simp add: statement_hash_def canonical_compact_def canon_form_dict [symmetric] del: canon_form.simps)

lemma st_get_canon: "st_get (canon_items st) k = canon_form (st_get st k)"
  by (simp add: st_get_def ctx_get_def map_of_canon split: option.split)

lemma signed_in_place:
  assumes "key_ok pf key" "st = statement_body pf key log_name (int i) r n prev trigger policy time
       @ [(''sig'', PStr (hex_of (ik_sign key (body_pairs pf key log_name (int i) r n prev trigger policy time))))]"
    and "prev_leaves \<le> n" "n \<le> int total_leaves" "root_at n = r"
    and "ids = [] \<or> ik_key_id pf key \<in> set ids" "ik_key_id pf key \<notin> set authority"
  shows "in_place pf log_name ids authority root_at total_leaves i prev prev_leaves (canon_items st)"
    and "st_int (canon_items st) ''leaves'' = n"
proof -
  let ?sig = "ik_sign key (body_pairs pf key log_name (int i) r n prev trigger policy time)"
  have get: "st_get st ''format'' = PStr STATEMENT_FORMAT" "st_get st ''log'' = PStr log_name" "st_get st ''seq'' = PInt (int i)"
    "st_get st ''root'' = PStr r" "st_get st ''leaves'' = PInt n" "st_get st ''prev'' = PStr prev"
    "st_get st ''key_id'' = PStr (ik_key_id pf key)" "st_get st ''public_key'' = PStr (hex_of (ik_public key))"
    "st_get st ''sig'' = PStr (hex_of ?sig)"
    by (simp_all add: assms(2) st_get_def ctx_get_def statement_body_def)
  have keys: "map_of st k \<noteq> None" if "k \<in> set (BODY_FIELDS @ [''sig''])" for k
    using that by (auto simp: assms(2) statement_body_def BODY_FIELDS_def)
  have "signed_bytes pf st = Inr (body_pairs pf key log_name (int i) r n prev trigger policy time)"
    by (simp add: assms(2) signed_bytes_def statement_body_def BODY_FIELDS_def body_pairs_def)
  then have "verify_signature pf (canon_items st) = Inr True"
    using assms(1) by (simp add: verify_signature_def st_get_canon get hex_bytes_def signed_bytes_canon key_ok_def)
  moreover have "well_formed (canon_items st) log_name"
    using keys assms(1) by (auto simp: well_formed_def st_get_canon get hex_bytes_def list_ex_iff map_of_canon key_ok_def)
  ultimately show "in_place pf log_name ids authority root_at total_leaves i prev prev_leaves (canon_items st)"
    using assms(1,3-7) by (auto simp: in_place_def st_int_def st_str_def st_get_canon get hex_bytes_def ik_key_id_def)
  show "st_int (canon_items st) ''leaves'' = n" by (simp add: st_int_def st_get_canon get)
qed

fun covers :: "(int \<Rightarrow> string) \<Rightarrow> nat \<Rightarrow> int \<Rightarrow> sign_request list \<Rightarrow> bool" where
  "covers root_at total_leaves prev_leaves [] = True"
| "covers root_at total_leaves prev_leaves ((r, n, trigger, policy, time) # reqs) \<longleftrightarrow>
     prev_leaves \<le> n \<and> n \<le> int total_leaves \<and> root_at n = r \<and> covers root_at total_leaves n reqs"

definition line_of :: "platform \<Rightarrow> ctx \<Rightarrow> string" where
  "line_of pf st = canonical_spaced (pf_float pf) (PDict st)"

lemma sign_root_eq:
  "sign_root pf sg r n trigger policy time =
     (let st = statement_body pf (sg_key sg) (sg_log sg) (sg_seq sg) r n (sg_prev sg) trigger policy time
        @ [(''sig'', PStr (hex_of (ik_sign (sg_key sg) (body_pairs pf (sg_key sg) (sg_log sg) (sg_seq sg) r n (sg_prev sg) trigger policy time))))] in
      Inr (st, sg\<lparr>sg_file := Some ((case sg_file sg of None \<Rightarrow> '''' | Some c \<Rightarrow> c) @ line_of pf st @ [CHR 0x0A]),
                  sg_seq := sg_seq sg + 1, sg_prev := statement_hash pf st\<rparr>))"
  by (simp add: sign_root_def make_statement_eq line_of_def Let_def)

lemma sign_all_total: "\<exists>sts sg'. sign_all pf sg reqs = Inr (sts, sg')"
proof (induction reqs arbitrary: sg)
  case (Cons req reqs)
  obtain r n trigger policy time where req: "req = (r, n, trigger, policy, time)" by (cases req)
  obtain st sg1 where "sign_root pf sg r n trigger policy time = Inr (st, sg1)" by (simp add: sign_root_eq Let_def)
  moreover obtain sts sg' where "sign_all pf sg1 reqs = Inr (sts, sg')" using Cons.IH by blast
  ultimately show ?case by (simp add: req)
qed simp

lemma sign_all_chain:
  assumes "key_ok pf (sg_key sg)" "ids = [] \<or> ik_key_id pf (sg_key sg) \<in> set ids" "ik_key_id pf (sg_key sg) \<notin> set authority"
    and "covers root_at total_leaves prev_leaves reqs" "sg_seq sg = int i" "sign_all pf sg reqs = Inr (sts, sg')"
  shows "chain_ok pf (sg_log sg) ids authority root_at total_leaves i (sg_prev sg) prev_leaves (map canon_items sts) \<and>
    [] \<notin> set (map canon_items sts) \<and>
    (reqs \<noteq> [] \<longrightarrow> sg_file sg' = Some ((case sg_file sg of None \<Rightarrow> '''' | Some c \<Rightarrow> c)
       @ concat (map (\<lambda>st. line_of pf st @ [CHR 0x0A]) sts))) \<and> length sts = length reqs"
  using assms
proof (induction reqs arbitrary: sg i prev_leaves sts)
  case (Cons req reqs)
  obtain r n trigger policy time where req: "req = (r, n, trigger, policy, time)" by (cases req)
  define st where "st = statement_body pf (sg_key sg) (sg_log sg) (sg_seq sg) r n (sg_prev sg) trigger policy time
        @ [(''sig'', PStr (hex_of (ik_sign (sg_key sg) (body_pairs pf (sg_key sg) (sg_log sg) (sg_seq sg) r n (sg_prev sg) trigger policy time))))]"
  define sg1 where "sg1 = sg\<lparr>sg_file := Some ((case sg_file sg of None \<Rightarrow> '''' | Some c \<Rightarrow> c) @ line_of pf st @ [CHR 0x0A]),
                  sg_seq := sg_seq sg + 1, sg_prev := statement_hash pf st\<rparr>"
  have "sign_root pf sg r n trigger policy time = Inr (st, sg1)" by (simp add: sign_root_eq st_def sg1_def Let_def)
  then obtain rest where rest: "sts = st # rest" "sign_all pf sg1 reqs = Inr (rest, sg')"
    using Cons.prems(6) by (auto simp: req ebind_eq_Inr)
  have cov: "prev_leaves \<le> n" "n \<le> int total_leaves" "root_at n = r" "covers root_at total_leaves n reqs"
    using Cons.prems(4) by (simp_all add: req)
  have st: "st = statement_body pf (sg_key sg) (sg_log sg) (int i) r n (sg_prev sg) trigger policy time
        @ [(''sig'', PStr (hex_of (ik_sign (sg_key sg) (body_pairs pf (sg_key sg) (sg_log sg) (int i) r n (sg_prev sg) trigger policy time))))]"
    by (simp add: st_def Cons.prems(5))
  note place = signed_in_place [where root_at = root_at and total_leaves = total_leaves, OF Cons.prems(1) st cov(1-3) Cons.prems(2,3)]
  have "canon_items st \<noteq> []"
    using arg_cong [OF keys_canon_items [of st], of length] by (auto simp: st_def statement_body_def)
  moreover have "chain_ok pf (sg_log sg1) ids authority root_at total_leaves (i + 1) (sg_prev sg1) n (map canon_items rest) \<and>
      [] \<notin> set (map canon_items rest) \<and> (reqs \<noteq> [] \<longrightarrow> sg_file sg' = Some ((case sg_file sg1 of None \<Rightarrow> '''' | Some c \<Rightarrow> c)
       @ concat (map (\<lambda>st. line_of pf st @ [CHR 0x0A]) rest))) \<and> length rest = length reqs"
    by (rule Cons.IH [OF _ _ _ cov(4) _ rest(2)]) (use Cons.prems in \<open>simp_all add: sg1_def\<close>)
  moreover have "reqs = [] \<Longrightarrow> sg' = sg1" using rest(2) by simp
  ultimately show ?case using place
    by (cases "reqs = []") (auto simp: rest(1) sg1_def statement_hash_canon)
qed simp

lemma split_lines:
  "\<forall>l \<in> set ls. CHR 0x0A \<notin> set l \<Longrightarrow> split_char (CHR 0x0A) (concat (map (\<lambda>l. l @ [CHR 0x0A]) ls)) = ls @ [[]]"
proof (induction ls)
  case (Cons l ls)
  have "CHR 0x0A \<notin> set l \<Longrightarrow> split_char (CHR 0x0A) (l @ CHR 0x0A # s) = l # split_char (CHR 0x0A) s" for s
    by (induction l) auto
  then show ?case using Cons by simp
qed simp

lemma read_lines_all:
  "\<forall>st \<in> set sts. pf_loads pf (line_of pf st) = Some (PDict (canon_items st)) \<Longrightarrow>
   read_lines pf n i (map (line_of pf) sts) = (map canon_items sts, [])"
  by (induction sts arbitrary: i) auto

lemma find_last: "xs \<noteq> [] \<Longrightarrow> [] \<notin> set xs \<Longrightarrow> find (\<lambda>st. st \<noteq> []) (rev xs) = Some (last xs)"
  by (cases xs rule: rev_cases) auto

lemma verify_signed:
  assumes "chain_ok pf log_name ids authority root_at n 0 '''' 0 sts" "[] \<notin> set sts" "sts \<noteq> []"
    and "ids = map (key_id_of pf) pinned" "pinned \<noteq> []"
  shows "\<exists>rep. verify_chain pf sts [] root_at n log_name pinned authority = Inr rep \<and> cr_status rep = SIGNED \<and>
    cr_unsigned_tail rep = Some (int n - st_int (last sts) ''leaves'') \<and> cr_statements rep = length sts"
proof -
  obtain cs where cs: "check_all pf log_name ids authority root_at n 0 sts
      \<lparr>cs_findings = [], cs_prev_hash = '''', cs_prev_leaves = 0, cs_mismatch = None, cs_keys = []\<rparr> = Inr cs"
    using check_all_total by blast
  have "clean cs" using check_all_clean [OF cs assms(2)] assms(1) by (simp add: clean_def)
  moreover have lst: "find (\<lambda>st. st \<noteq> []) (rev sts) = Some (last sts)" by (rule find_last [OF assms(3,2)])
  moreover have "unsigned_tail n (case map_of (last sts) ''leaves'' of None \<Rightarrow> PInt 0 | Some v \<Rightarrow> v)
      = Inr (Some (int n - st_int (last sts) ''leaves''))"
  proof -
    have "length sts - 1 < length sts" using assms(3) by (cases sts) auto
    then have "\<exists>i h p. in_place pf log_name ids authority root_at n i h p (last sts)"
      using assms(1) unfolding chain_ok_nth last_conv_nth [OF assms(3)] by blast
    then have wf: "well_formed (last sts) log_name" and le: "st_int (last sts) ''leaves'' \<le> int n" by (auto simp: in_place_def)
    from wf obtain k where "int_val (st_get (last sts) ''leaves'') = Some k" by (auto simp: well_formed_def split: if_splits)
    then show ?thesis using le
      by (cases "st_get (last sts) ''leaves''") (auto simp: st_get_def ctx_get_def st_int_def split: option.splits)
  qed
  ultimately show ?thesis using cs assms(3-5)
    by (auto simp: verify_chain_def Let_def clean_def)
qed

text \<open>
  C17. What the signer writes, the verifier accepts: statements signed in turn into a fresh file for roots the
  log has, over counts that never fall, are read back from the file and verify as signed under the pinned
  instance key, without a finding; provided the key meets the Ed25519 contract and is no authority key, the
  text of a float holds no line break, and the JSON reader gives back what the writer printed.
\<close>

theorem signed_log_verifies:
  assumes "key_ok pf key" "ik_key_id pf key \<notin> set authority" "reqs \<noteq> []" "covers root_at n 0 reqs"
    and "sign_all pf (open_signer pf key log_name None) reqs = Inr (sts, sg)"
    and "\<forall>f. CHR 0x0A \<notin> set (pf_float pf f)"
    and "\<forall>st \<in> set sts. pf_loads pf (line_of pf st) = Some (PDict (canon_items st))"
  shows "case read_statements pf (sg_file sg) of (read, fs) \<Rightarrow> fs = [] \<and> length read = length reqs \<and>
    (\<exists>rep. verify_chain pf read fs root_at n log_name [ik_public key] authority = Inr rep \<and> cr_status rep = SIGNED)"
proof -
  let ?sg = "open_signer pf key log_name None"
  have op: "sg_key ?sg = key" "sg_log ?sg = log_name" "sg_seq ?sg = int 0" "sg_prev ?sg = ''''" "sg_file ?sg = None"
    by (simp_all add: open_signer_def read_statements_def)
  have "chain_ok pf (sg_log ?sg) [ik_key_id pf key] authority root_at n 0 (sg_prev ?sg) 0 (map canon_items sts) \<and>
    [] \<notin> set (map canon_items sts) \<and>
    (reqs \<noteq> [] \<longrightarrow> sg_file sg = Some ((case sg_file ?sg of None \<Rightarrow> '''' | Some c \<Rightarrow> c)
       @ concat (map (\<lambda>st. line_of pf st @ [CHR 0x0A]) sts))) \<and> length sts = length reqs"
    by (rule sign_all_chain [OF _ _ _ assms(4) op(3) assms(5)]) (use assms op in simp_all)
  then have chain: "chain_ok pf log_name [ik_key_id pf key] authority root_at n 0 '''' 0 (map canon_items sts)"
    and ne: "[] \<notin> set (map canon_items sts)" and len: "length sts = length reqs"
    and written: "sg_file sg = Some (concat (map (\<lambda>l. l @ [CHR 0x0A]) (map (line_of pf) sts)))"
    using assms(3) by (simp_all add: op comp_def)
  have nl: "\<forall>l \<in> set (map (line_of pf) sts). CHR 0x0A \<notin> set l"
    using canonical_spaced_one_line [OF assms(6)] by (auto simp: line_of_def)
  have "raw_lines (concat (map (\<lambda>l. l @ [CHR 0x0A]) (map (line_of pf) sts))) = map (line_of pf) sts"
    unfolding raw_lines_def split_lines [OF nl] by simp
  then have read: "read_statements pf (sg_file sg) = (map canon_items sts, [])"
    using assms(7) by (simp add: written read_statements_def read_lines_all del: map_map)
  have "map canon_items sts \<noteq> []" using assms(3) len by auto
  from verify_signed [OF chain ne this, of "[ik_public key]"] show ?thesis
    unfolding read using len by (auto simp: ik_key_id_def)
qed

definition demo_key :: instance_key where
  "demo_key = \<lparr>ik_sign = (\<lambda>m. replicate 64 CHR ''s''), ik_public = replicate 32 CHR ''p''\<rparr>"

definition demo_statement :: ctx where
  "demo_statement = statement_body demo_platform demo_key LOG_AUDIT 0 '''' 0 '''' ''append'' PNone ''now''
     @ [(''sig'', PStr (hex_of (replicate 64 CHR ''s'')))]"

definition demo_signing :: platform where
  "demo_signing = demo_platform\<lparr>pf_loads :=
     (\<lambda>s. if s = line_of demo_platform demo_statement then Some (PDict (canon_items demo_statement)) else None)\<rparr>"

lemma demo_key_ok: "key_ok demo_signing demo_key"
  by (simp add: key_ok_def demo_signing_def demo_platform_def demo_key_def)

lemma demo_same:
  "line_of demo_signing = line_of demo_platform" "key_id_of demo_signing = key_id_of demo_platform"
  "ik_key_id demo_signing = ik_key_id demo_platform"
  by (simp_all add: fun_eq_iff line_of_def key_id_of_def ik_key_id_def demo_signing_def)

lemma demo_signed:
  "sign_all demo_signing (open_signer demo_signing demo_key LOG_AUDIT None) [('''', 0, ''append'', PNone, ''now'')]
     = Inr ([demo_statement], snd (projr (sign_all demo_signing (open_signer demo_signing demo_key LOG_AUDIT None)
         [('''', 0, ''append'', PNone, ''now'')])))"
proof -
  let ?sg = "open_signer demo_signing demo_key LOG_AUDIT None"
  have "sg_key ?sg = demo_key" "sg_log ?sg = LOG_AUDIT" "sg_seq ?sg = 0" "sg_prev ?sg = ''''"
    by (simp_all add: open_signer_def read_statements_def)
  then show ?thesis by (simp add: sign_root_eq Let_def demo_statement_def demo_key_def statement_body_def demo_same)
qed

theorem signed_log_verifies_witness:
  "case read_statements demo_signing (sg_file (snd (projr (sign_all demo_signing (open_signer demo_signing demo_key LOG_AUDIT None)
         [('''', 0, ''append'', PNone, ''now'')])))) of (read, fs) \<Rightarrow> fs = [] \<and> length read = 1 \<and>
    (\<exists>rep. verify_chain demo_signing read fs (\<lambda>n. '''') 0 LOG_AUDIT [ik_public demo_key] [] = Inr rep \<and> cr_status rep = SIGNED)"
proof -
  have one: "\<forall>f. CHR 0x0A \<notin> set (pf_float demo_signing f)"
    using demo_float_one_line by (simp add: demo_signing_def demo_platform_def)
  have rd: "\<forall>st \<in> set [demo_statement]. pf_loads demo_signing (line_of demo_signing st) = Some (PDict (canon_items st))"
    unfolding demo_same by (simp add: demo_signing_def)
  have "covers (\<lambda>n. '''') 0 0 [('''', 0, ''append'', PNone, ''now'')]" by simp
  from signed_log_verifies [where authority = "[]", OF demo_key_ok _ _ this demo_signed one rd] show ?thesis by simp
qed

lemma demo_in_place:
  "in_place demo_signing LOG_AUDIT [ik_key_id demo_signing demo_key] [] (\<lambda>n. '''') 0 0 '''' 0 (canon_items demo_statement)"
proof -
  have "demo_statement = statement_body demo_signing demo_key LOG_AUDIT (int 0) '''' 0 '''' ''append'' PNone ''now''
       @ [(''sig'', PStr (hex_of (ik_sign demo_key (body_pairs demo_signing demo_key LOG_AUDIT (int 0) '''' 0 '''' ''append'' PNone ''now''))))]"
    by (simp add: demo_statement_def demo_key_def statement_body_def demo_same)
  from signed_in_place(1) [where root_at = "\<lambda>n. ''''" and total_leaves = 0, OF demo_key_ok this, of 0 "[ik_key_id demo_signing demo_key]" "[]"]
  show ?thesis by simp
qed


end
