(* ===== verification/AuditLog.thy ===== *)
theory AuditLog
  imports RootStatement
begin

section \<open>Receipt bundles and the audit log\<close>

text \<open>
  The receipt bundles of \<open>src/prismpath/ledgers/root_statement.py\<close> and the log of
  \<open>src/prismpath/ledgers/audit_log.py\<close>. The log is a record of what it holds in memory together with the two
  files beside it, the events and the root statements. A write that the file system refuses is an argument
  of the operation; an operation that can fail after it has changed the log returns the log and the result.
\<close>

subsection \<open>One receipt, offline\<close>

definition slice_to :: "int \<Rightarrow> 'a list \<Rightarrow> 'a list" where
  "slice_to n xs = take (nat (if n < 0 then max 0 (int (length xs) + n) else n)) xs"

definition item_at :: "'a list \<Rightarrow> int \<Rightarrow> 'a result" where
  "item_at xs i = (let j = (if i < 0 then int (length xs) + i else i) in
     if 0 \<le> j \<and> j < int (length xs) then Inr (xs ! nat j) else Inl IndexError)"

definition path_value :: "inclusion_path \<Rightarrow> pyval" where
  "path_value path = PList (map (\<lambda>(side, sib). PList [PStr side, PStr sib]) path)"

definition receipt_bundle :: "platform \<Rightarrow> pyval \<Rightarrow> string list \<Rightarrow> int \<Rightarrow> ctx list \<Rightarrow> ctx result" where
  "receipt_bundle pf event leaves index statements =
     (case find (\<lambda>st. st \<noteq> [] \<and> int_val (st_get st ''leaves'') \<noteq> None \<and> index < st_int st ''leaves'') statements of
        None \<Rightarrow> Inl LookupError
      | Some covering \<Rightarrow>
        ebind (merkle_root_and_paths (pf_sha pf) (slice_to (st_int covering ''leaves'') leaves)) (\<lambda>(root_hex, paths).
        ebind (item_at leaves index) (\<lambda>leaf. ebind (item_at paths index) (\<lambda>path.
          Inr [(''receipt'', event), (''index'', PInt index), (''leaf'', PStr leaf), (''path'', path_value path),
               (''statement'', PDict covering)]))))"

text \<open>The side and the sibling of a step, when it has their shape.\<close>

definition path_step :: "pyval \<Rightarrow> (string \<times> string) option" where
  "path_step v = (case v of
     PList [PStr side, PStr sib] \<Rightarrow> if side \<in> {''L'', ''R''} \<and> hex_bytes (PStr sib) \<noteq> None then Some (side, sib) else None
   | _ \<Rightarrow> None)"

fun is_dict :: "pyval \<Rightarrow> bool" where
  "is_dict (PDict d) = True"
| "is_dict _ = False"

fun is_list :: "pyval \<Rightarrow> bool" where
  "is_list (PList xs) = True"
| "is_list _ = False"

fun the_dict :: "pyval \<Rightarrow> ctx" where
  "the_dict (PDict d) = d"
| "the_dict _ = []"

fun the_list :: "pyval \<Rightarrow> pyval list" where
  "the_list (PList xs) = xs"
| "the_list _ = []"

text \<open>\<open>isinstance(v, kind)\<close> and not a boolean, for the five fields in the order the code looks at them.\<close>

definition bundle_problem :: "pyval \<Rightarrow> string option" where
  "bundle_problem bundle =
     (if \<not> is_dict bundle then Some ''a bundle is a JSON object''
      else let b = the_dict bundle in
        if \<not> is_dict (st_get b ''receipt'') then Some ''missing or malformed field: receipt''
        else if (case st_get b ''index'' of PInt i \<Rightarrow> False | _ \<Rightarrow> True) then Some ''missing or malformed field: index''
        else if str_val (st_get b ''leaf'') = None then Some ''missing or malformed field: leaf''
        else if \<not> is_list (st_get b ''path'') then Some ''missing or malformed field: path''
        else if \<not> is_dict (st_get b ''statement'') then Some ''missing or malformed field: statement''
        else if hex_bytes (st_get b ''leaf'') = None \<or> list_ex (\<lambda>s. path_step s = None) (the_list (st_get b ''path''))
        then Some ''malformed inclusion path or hashes'' else None)"

record bundle_checks =
  bc_leaf :: bool
  bc_index :: bool
  bc_inclusion :: bool
  bc_well_formed :: bool
  bc_covered :: bool
  bc_key_id :: bool
  bc_signature :: bool
  bc_pinned :: "bool option"

record bundle_report =
  br_ok :: bool
  br_status :: string
  br_checks :: "bundle_checks option"
  br_problem :: "string option"
  br_key :: pyval

text \<open>\<open>key_id[:16]\<close> of any value: a string or a list is cut, anything else raises TypeError.\<close>

fun fingerprint_value :: "pyval \<Rightarrow> pyval result" where
  "fingerprint_value (PStr s) = Inr (PStr (fingerprint s))"
| "fingerprint_value (PList xs) = Inr (PList (take 16 xs))"
| "fingerprint_value _ = Inl TypeError"

text \<open>\<open>statement.get("key_id") in pinned_ids\<close>: a list or a dictionary cannot be looked up in a set.\<close>

definition pinned_check :: "string list \<Rightarrow> pyval \<Rightarrow> bool option result" where
  "pinned_check pinned_ids v =
     (if pinned_ids = [] then Inr None
      else case v of PList _ \<Rightarrow> Inl TypeError | PDict _ \<Rightarrow> Inl TypeError
        | PStr s \<Rightarrow> Inr (Some (s \<in> set pinned_ids)) | _ \<Rightarrow> Inr (Some False))"

definition run_checks :: "platform \<Rightarrow> ctx \<Rightarrow> string list \<Rightarrow> bundle_checks result" where
  "run_checks pf b pinned_ids =
     (let st = the_dict (st_get b ''statement''); wf = well_formed st LOG_AUDIT;
          key_ok = wf \<and> key_id_of pf (the (hex_bytes (st_get st ''public_key''))) = st_str st ''key_id'' in
      ebind (verify_leaf (pf_sha pf) (st_str b ''leaf'') (List.map_filter path_step (the_list (st_get b ''path'')))
          (case map_of st ''root'' of None \<Rightarrow> Some '''' | Some v \<Rightarrow> str_val v)) (\<lambda>inclusion.
      ebind (if key_ok then verify_signature pf st else Inr False) (\<lambda>sig.
      ebind (pinned_check pinned_ids (st_get st ''key_id'')) (\<lambda>pin.
        Inr \<lparr>bc_leaf = (sha256_hex (pf_sha pf) (canonical_compact (pf_float pf) (st_get b ''receipt'')) = st_str b ''leaf''),
             bc_index = py_eq (ctx_get (the_dict (st_get b ''receipt'')) ''idx'') (st_get b ''index''),
             bc_inclusion = inclusion, bc_well_formed = wf,
             bc_covered = (wf \<and> 0 \<le> st_int b ''index'' \<and> st_int b ''index'' < st_int st ''leaves''),
             bc_key_id = key_ok, bc_signature = sig, bc_pinned = pin\<rparr>))))"

definition verify_receipt_bundle :: "platform \<Rightarrow> pyval \<Rightarrow> string list \<Rightarrow> bundle_report result" where
  "verify_receipt_bundle pf bundle pinned =
     (case bundle_problem bundle of
        Some problem \<Rightarrow> Inr \<lparr>br_ok = False, br_status = INVALID, br_checks = None, br_problem = Some problem, br_key = PStr ''''\<rparr>
      | None \<Rightarrow>
        (let b = the_dict bundle; pinned_ids = map (key_id_of pf) pinned; st = the_dict (st_get b ''statement'') in
         ebind (run_checks pf b pinned_ids) (\<lambda>c.
         let ok = (bc_leaf c \<and> bc_index c \<and> bc_inclusion c \<and> bc_well_formed c \<and> bc_covered c \<and> bc_key_id c \<and> bc_signature c
                   \<and> bc_pinned c \<noteq> Some False) in
         ebind (fingerprint_value (case map_of st ''key_id'' of None \<Rightarrow> PStr '''' | Some v \<Rightarrow> v)) (\<lambda>key.
           Inr \<lparr>br_ok = ok, br_status = (if ok then (if pinned_ids \<noteq> [] then SIGNED else SIGNED_UNPINNED) else INVALID),
                br_checks = Some c, br_problem = None, br_key = key\<rparr>))))"

text \<open>The authority keys an audit log names; \<open>str_of\<close> is \<open>str\<close> on a value that is not text.\<close>

definition authority_key_ids_in :: "(pyval \<Rightarrow> string) \<Rightarrow> pyval list \<Rightarrow> string list" where
  "authority_key_ids_in str_of events =
     rev (remdups (rev (List.map_filter (\<lambda>ev.
       let data = ctx_get (the_dict ev) ''data''; key = ctx_get (the_dict data) ''key_id'' in
       if is_dict data \<and> py_eq (ctx_get (the_dict ev) ''action'') (PStr ''swap'') \<and> truthy key
       then Some (case key of PStr s \<Rightarrow> s | _ \<Rightarrow> str_of key) else None) events)))"

subsection \<open>The log\<close>

record audit_log =
  al_path :: "string option"
  al_key :: "instance_key option"
  al_sign_appends :: bool
  al_statements_path :: "string option"
  al_signer :: "signer option"
  al_events :: "pyval list"
  al_leaves :: "string list"
  al_skipped :: "nat list"
  al_acc :: accumulator
  al_file :: "string option"
  al_roots_file :: "string option"

definition leaf_hex :: "platform \<Rightarrow> pyval \<Rightarrow> string" where
  "leaf_hex pf ev = sha256_hex (pf_sha pf) (canonical_compact (pf_float pf) ev)"

text \<open>Lines of a text file: the three line ends are read as one.\<close>

fun universal_newlines :: "string \<Rightarrow> string" where
  "universal_newlines [] = []"
| "universal_newlines [c] = (if c = CHR 0x0D then [CHR 0x0A] else [c])"
| "universal_newlines (c # d # s) =
     (if c = CHR 0x0D then CHR 0x0A # (if d = CHR 0x0A then universal_newlines s else universal_newlines (d # s))
      else c # universal_newlines (d # s))"

definition file_lines :: "string \<Rightarrow> string list" where
  "file_lines content = split_char (CHR 0x0A) (universal_newlines content)"

text \<open>The lines of the file in turn: an event, nothing for a blank line, or the number of a line that is not JSON.\<close>

fun load_lines :: "platform \<Rightarrow> nat \<Rightarrow> string list \<Rightarrow> pyval list \<times> nat list" where
  "load_lines pf n [] = ([], [])"
| "load_lines pf n (line # lines) =
     (let (evs, skipped) = load_lines pf (n + 1) lines; l = strip line in
      if l = [] then (evs, skipped)
      else case pf_loads pf l of Some ev \<Rightarrow> (ev # evs, skipped) | None \<Rightarrow> (evs, n # skipped))"

definition loaded :: "platform \<Rightarrow> string option \<Rightarrow> string option \<Rightarrow> pyval list \<times> nat list" where
  "loaded pf path content = (case (path, content) of
     (Some p, Some c) \<Rightarrow> if p \<noteq> [] then load_lines pf 1 (file_lines c) else ([], []) | _ \<Rightarrow> ([], []))"

definition open_log ::
    "platform \<Rightarrow> string option \<Rightarrow> instance_key option \<Rightarrow> bool \<Rightarrow> string option \<Rightarrow> string option \<Rightarrow> string option \<Rightarrow> audit_log result" where
  "open_log pf path key sign_appends statements_path content roots_content =
     (let (evs, skipped) = loaded pf path content;
          leaves = map (leaf_hex pf) evs in
      ebind (acc_add_all (pf_sha pf) acc_init leaves) (\<lambda>acc.
        Inr \<lparr>al_path = path, al_key = key, al_sign_appends = sign_appends,
             al_statements_path = (if (case statements_path of Some s \<Rightarrow> s \<noteq> [] | None \<Rightarrow> False) then statements_path
               else case path of Some p \<Rightarrow> if p \<noteq> [] then Some (statements_path_for p) else None | None \<Rightarrow> None),
             al_signer = None, al_events = evs, al_leaves = leaves, al_skipped = skipped, al_acc = acc,
             al_file = content, al_roots_file = roots_content\<rparr>))"

definition signing :: "audit_log \<Rightarrow> bool" where
  "signing al = (al_key al \<noteq> None \<and> al_statements_path al \<noteq> None \<and> al_statements_path al \<noteq> Some '''')"

text \<open>
  \<open>_sign_locked\<close>: \<open>policy\<close> is what the caller or \<open>policy_of\<close> gave, \<open>time\<close> the clock, \<open>ok\<close> whether the file takes
  the line. The signer, which holds the file it appends to, is opened at the first statement.
\<close>

definition sign_locked ::
    "platform \<Rightarrow> audit_log \<Rightarrow> string \<Rightarrow> pyval \<Rightarrow> string \<Rightarrow> bool \<Rightarrow> audit_log \<times> ctx option result" where
  "sign_locked pf al trigger policy time ok =
     (case al_key al of
        Some key \<Rightarrow>
          if \<not> signing al \<or> al_leaves al = [] then (al, Inr None)
          else
            (let sg = (case al_signer al of Some sg \<Rightarrow> sg | None \<Rightarrow> open_signer pf key LOG_AUDIT (al_roots_file al));
                 al = al\<lparr>al_signer := Some sg, al_roots_file := sg_file sg\<rparr> in
             case (if ac_count (al_acc al) \<noteq> length (al_leaves al) then acc_add_all (pf_sha pf) acc_init (al_leaves al)
                   else Inr (al_acc al)) of
               Inl e \<Rightarrow> (al, Inl e)
             | Inr acc \<Rightarrow>
               (let al = al\<lparr>al_acc := acc\<rparr> in
                case sign_root pf sg (acc_root (pf_sha pf) acc) (int (length (al_leaves al))) trigger policy time of
                  Inl e \<Rightarrow> (al, Inl e)
                | Inr (st, sg) \<Rightarrow>
                  if ok then (al\<lparr>al_signer := Some sg, al_roots_file := sg_file sg\<rparr>, Inr (Some st))
                  else (al, Inl StatementWriteError)))
      | None \<Rightarrow> (al, Inr None))"

definition event_of :: "nat \<Rightarrow> pyval \<Rightarrow> string \<Rightarrow> string \<Rightarrow> pyval \<Rightarrow> pyval" where
  "event_of index ts actor action data =
     PDict [(''idx'', PInt (int index)), (''id'', PStr (nat_str index)), (''ts'', ts), (''actor'', PStr actor),
            (''action'', PStr action), (''data'', data)]"

text \<open>The clock, the policy in force and what the two files do with their writes, for one append.\<close>

record append_env =
  ae_ts :: pyval
  ae_time :: string
  ae_policy :: pyval
  ae_file_ok :: bool
  ae_roots_ok :: bool

definition has_path :: "audit_log \<Rightarrow> bool" where
  "has_path al = (al_path al \<noteq> None \<and> al_path al \<noteq> Some '''')"

definition commit_event :: "platform \<Rightarrow> audit_log \<Rightarrow> pyval \<Rightarrow> accumulator \<Rightarrow> audit_log" where
  "commit_event pf al event acc =
     al\<lparr>al_file := (if has_path al then Some ((case al_file al of None \<Rightarrow> '''' | Some c \<Rightarrow> c)
          @ json_text spaced_style (pf_float pf) event @ [CHR 0x0A]) else al_file al),
        al_events := al_events al @ [event], al_leaves := al_leaves al @ [leaf_hex pf event], al_acc := acc\<rparr>"

definition log_append :: "platform \<Rightarrow> append_env \<Rightarrow> audit_log \<Rightarrow> string \<Rightarrow> string \<Rightarrow> pyval \<Rightarrow> audit_log \<times> pyval result" where
  "log_append pf env al actor action data =
     (let event = event_of (length (al_events al)) (ae_ts env) actor action data in
      if has_path al \<and> \<not> ae_file_ok env then (al, Inl AuditWriteError)
      else case acc_add (pf_sha pf) (al_acc al) (leaf_hex pf event) of
          Inl e \<Rightarrow> (commit_event pf al event (al_acc al), Inl e)
        | Inr acc \<Rightarrow>
          (let al = commit_event pf al event acc in
           if al_sign_appends al \<and> al_key al \<noteq> None
           then (case sign_locked pf al ''append'' (ae_policy env) (ae_time env) (ae_roots_ok env) of
               (al, Inl e) \<Rightarrow> (al, Inl e) | (al, Inr _) \<Rightarrow> (al, Inr event))
           else (al, Inr event)))"

definition log_checkpoint :: "platform \<Rightarrow> append_env \<Rightarrow> audit_log \<Rightarrow> string \<Rightarrow> audit_log \<times> ctx option result" where
  "log_checkpoint pf env al trigger = sign_locked pf al trigger (ae_policy env) (ae_time env) (ae_roots_ok env)"

subsection \<open>Reading the log\<close>

definition log_root_at :: "platform \<Rightarrow> audit_log \<Rightarrow> int \<Rightarrow> string result" where
  "log_root_at pf al n = merkle_root (pf_sha pf) (slice_to n (al_leaves al))"

definition verify_statements :: "platform \<Rightarrow> (pyval \<Rightarrow> string) \<Rightarrow> audit_log \<Rightarrow> string list \<Rightarrow> chain_report result" where
  "verify_statements pf str_of al pinned =
     (let (statements, findings) = read_statements pf (if al_statements_path al = None then None else al_roots_file al);
          findings = findings @ (if al_skipped al \<noteq> []
            then [[(''finding'', PStr ''bad_format''), (''log_lines'', PList (map (PInt \<circ> int) (al_skipped al)))]] else []) in
      ebind (prefix_roots (pf_sha pf) (al_leaves al) (map (\<lambda>st. st_get st ''leaves'') statements)) (\<lambda>roots.
        verify_chain pf statements findings
          (\<lambda>n. if n < 0 then '''' else case map_of roots (nat n) of None \<Rightarrow> '''' | Some r \<Rightarrow> r)
          (length (al_leaves al)) LOG_AUDIT pinned (authority_key_ids_in str_of (al_events al))))"

definition current_root :: "platform \<Rightarrow> audit_log \<Rightarrow> string result" where
  "current_root pf al = ebind (merkle_root_and_paths (pf_sha pf) (al_leaves al)) (\<lambda>(root_hex, paths).
     Inr (case root_hex of None \<Rightarrow> '''' | Some r \<Rightarrow> r))"

definition verify_log :: "platform \<Rightarrow> audit_log \<Rightarrow> bool result" where
  "verify_log pf al =
     (if al_skipped al \<noteq> [] then Inr False
      else if al_leaves al = [] then Inr True
      else ebind (merkle_root_and_paths (pf_sha pf) (al_leaves al)) (\<lambda>(root_hex, paths).
        ebind (emap (\<lambda>(leaf, path). verify_leaf (pf_sha pf) leaf path root_hex) (zip (al_leaves al) paths)) (\<lambda>oks. Inr (list_all id oks))))"

definition verify_persisted :: "platform \<Rightarrow> audit_log \<Rightarrow> bool" where
  "verify_persisted pf al =
     (case (al_path al, al_file al) of
        (Some p, Some c) \<Rightarrow> p \<noteq> [] \<and> (case load_lines pf 1 (file_lines c) of (evs, skipped) \<Rightarrow>
          skipped = [] \<and> map (leaf_hex pf) evs = al_leaves al)
      | _ \<Rightarrow> False)"

definition log_prove :: "platform \<Rightarrow> audit_log \<Rightarrow> int \<Rightarrow> (inclusion_path \<times> string list) result" where
  "log_prove pf al i = ebind (merkle_root_and_paths (pf_sha pf) (al_leaves al)) (\<lambda>(root_hex, paths).
     if 0 \<le> i \<and> i < int (length paths) then Inr (paths ! nat i, (case root_hex of None \<Rightarrow> [] | Some r \<Rightarrow> if r = [] then [] else [r]))
     else Inl IndexError)"

definition verify_inclusion :: "platform \<Rightarrow> string \<Rightarrow> inclusion_path \<Rightarrow> string \<Rightarrow> bool result" where
  "verify_inclusion pf leaf path root_hex =
     (if root_hex = [] then Inr False else verify_leaf (pf_sha pf) leaf path (Some root_hex))"

record anchor_record =
  an_kind :: string
  an_hash :: string
  an_root :: pyval
  an_leaves :: pyval
  an_log_leaves :: nat
  an_unsigned_tail :: "int option"
  an_statement :: "pyval option"
  an_key :: "string option"

definition anchor_target :: "platform \<Rightarrow> (pyval \<Rightarrow> string) \<Rightarrow> audit_log \<Rightarrow> anchor_record result" where
  "anchor_target pf str_of al =
     (if al_events al = [] \<or> al_skipped al \<noteq> [] then Inl AnchorRefused
      else let statements = fst (read_statements pf (if al_statements_path al = None then None else al_roots_file al)); n = length (al_leaves al) in
        if statements = [] then ebind (current_root pf al) (\<lambda>r.
          Inr \<lparr>an_kind = ''merkle-root'', an_hash = r, an_root = PStr r, an_leaves = PInt (int n), an_log_leaves = n,
               an_unsigned_tail = Some 0, an_statement = None, an_key = None\<rparr>)
        else ebind (verify_statements pf str_of al []) (\<lambda>rep.
          if cr_status rep = INVALID then Inl AnchorRefused
          else case find (\<lambda>st. st \<noteq> []) (rev statements) of
              None \<Rightarrow> Inl StopIteration
            | Some st \<Rightarrow> Inr \<lparr>an_kind = ''root-statement'', an_hash = statement_hash pf st, an_root = st_get st ''root'',
                an_leaves = st_get st ''leaves'', an_log_leaves = n, an_unsigned_tail = cr_unsigned_tail rep,
                an_statement = Some (st_get st ''seq''), an_key = (if cr_keys rep = [] then None else Some (last (cr_keys rep)))\<rparr>))"

definition holds_anchor :: "platform \<Rightarrow> audit_log \<Rightarrow> anchor_record \<Rightarrow> bool result" where
  "holds_anchor pf al anchor =
     (if an_kind anchor = ''root-statement''
      then Inr (list_ex (\<lambda>st. st \<noteq> [] \<and> statement_hash pf st = an_hash anchor)
        (fst (read_statements pf (if al_statements_path al = None then None else al_roots_file al))))
      else case int_val (an_leaves anchor) of
          None \<Rightarrow> Inr False
        | Some n \<Rightarrow> if 0 < n \<and> n \<le> int (length (al_leaves al)) then ebind (log_root_at pf al n) (\<lambda>r. Inr (r = an_hash anchor)) else Inr False)"

definition log_receipt_bundle :: "platform \<Rightarrow> audit_log \<Rightarrow> int \<Rightarrow> ctx result" where
  "log_receipt_bundle pf al index =
     (if \<not> (0 \<le> index \<and> index < int (length (al_events al))) then Inl IndexError
      else receipt_bundle pf (al_events al ! nat index) (al_leaves al) index
        (fst (read_statements pf (if al_statements_path al = None then None else al_roots_file al))))"

end
