(* ===== verification/AuditSound.thy ===== *)
theory AuditSound
  imports AuditLog "HOL-Library.Sublist"
begin

section \<open>What the audit log promises\<close>

text \<open>
  Every operation keeps the log's leaves, accumulator and events together; an append that fails to persist
  changes nothing; a log signed at every append verifies, from its two files alone, as signed with nothing
  unsigned.
\<close>

subsection \<open>The invariant in memory\<close>

definition log_ok :: "platform \<Rightarrow> audit_log \<Rightarrow> bool" where
  "log_ok pf al \<longleftrightarrow> al_leaves al = map (leaf_hex pf) (al_events al) \<and> acc_holds (pf_sha pf) (al_acc al) (al_leaves al)"

lemma leaf_hex_fromhex [simp]: "fromhex (leaf_hex pf ev) = Inr (pf_sha pf (canonical_compact (pf_float pf) ev))"
  by (simp add: leaf_hex_def sha256_hex_def)

lemma leaves_are_hex: "log_ok pf al \<Longrightarrow> list_all (\<lambda>l. \<exists>d. fromhex l = Inr d) (al_leaves al)"
  by (simp add: log_ok_def list_all_iff)

lemma acc_holds_start: "acc_holds sha acc_init []"
  by (rule acc.start)

lemma acc_add_leaf: "\<exists>acc'. acc_add (pf_sha pf) acc (leaf_hex pf ev) = Inr acc'"
  by (simp add: acc_add_def)

lemma acc_add_all_holds: "acc_add_all sha acc_init leaves = Inr acc \<Longrightarrow> acc_holds sha acc leaves"
  using acc.add_all_holds [OF acc.start, of sha leaves acc] by (simp add: acc_add_all_eq)

lemma open_log_ok: "open_log pf path key sa sp content roots = Inr al \<Longrightarrow> log_ok pf al"
  by (auto simp: open_log_def Let_def log_ok_def ebind_eq_Inr acc_add_all_holds split: prod.splits)

lemma open_log_total: "\<exists>al. open_log pf path key sa sp content roots = Inr al"
proof -
  obtain evs skipped where l: "loaded pf path content = (evs, skipped)" by fastforce
  have "list_all (\<lambda>l. \<exists>d. fromhex l = Inr d) (map (leaf_hex pf) evs)" by (simp add: list_all_iff)
  from acc_add_all_total [OF this] obtain acc where "acc_add_all (pf_sha pf) acc_init (map (leaf_hex pf) evs) = Inr acc" by blast
  then show ?thesis unfolding open_log_def l Let_def prod.case by simp
qed

lemma sign_locked_ok:
  assumes "log_ok pf al" "sign_locked pf al trigger policy time ok = (al', r)"
  shows "log_ok pf al'" "al_events al' = al_events al" "al_leaves al' = al_leaves al" "al_file al' = al_file al"
    "al_path al' = al_path al" "al_skipped al' = al_skipped al"
proof -
  obtain n where "ac_count (al_acc al) = length (al_leaves al)"
    using assms(1) acc.count unfolding log_ok_def by blast
  then have "al_events al' = al_events al \<and> al_leaves al' = al_leaves al \<and> al_acc al' = al_acc al \<and> al_file al' = al_file al \<and>
      al_path al' = al_path al \<and> al_skipped al' = al_skipped al"
    using assms(2) by (auto simp: sign_locked_def Let_def split: option.splits if_splits sum.splits prod.splits)
  then show "log_ok pf al'" "al_events al' = al_events al" "al_leaves al' = al_leaves al" "al_file al' = al_file al"
    "al_path al' = al_path al" "al_skipped al' = al_skipped al" using assms(1) unfolding log_ok_def by metis+
qed

lemma commit_event_simps [simp]:
  "al_events (commit_event pf al ev acc) = al_events al @ [ev]" "al_leaves (commit_event pf al ev acc) = al_leaves al @ [leaf_hex pf ev]"
  "al_acc (commit_event pf al ev acc) = acc" "al_key (commit_event pf al ev acc) = al_key al"
  "al_sign_appends (commit_event pf al ev acc) = al_sign_appends al" "al_signer (commit_event pf al ev acc) = al_signer al"
  "al_path (commit_event pf al ev acc) = al_path al" "al_skipped (commit_event pf al ev acc) = al_skipped al"
  "al_statements_path (commit_event pf al ev acc) = al_statements_path al" "al_roots_file (commit_event pf al ev acc) = al_roots_file al"
  by (simp_all add: commit_event_def)

lemma log_append_cases:
  assumes "log_append pf env al actor action data = (al', r)" "ev = event_of (length (al_events al)) (ae_ts env) actor action data"
  obtains (refused) "has_path al" "\<not> ae_file_ok env" "al' = al" "r = Inl AuditWriteError"
  | (plain) acc where "acc_add (pf_sha pf) (al_acc al) (leaf_hex pf ev) = Inr acc" "has_path al \<Longrightarrow> ae_file_ok env"
      "\<not> (al_sign_appends al \<and> al_key al \<noteq> None)" "al' = commit_event pf al ev acc" "r = Inr ev"
  | (signed) acc r' where "acc_add (pf_sha pf) (al_acc al) (leaf_hex pf ev) = Inr acc" "has_path al \<Longrightarrow> ae_file_ok env"
      "al_sign_appends al" "al_key al \<noteq> None"
      "sign_locked pf (commit_event pf al ev acc) ''append'' (ae_policy env) (ae_time env) (ae_roots_ok env) = (al', r')"
      "r = (case r' of Inl e \<Rightarrow> Inl e | Inr s \<Rightarrow> Inr ev)"
proof -
  obtain acc where acc: "acc_add (pf_sha pf) (al_acc al) (leaf_hex pf ev) = Inr acc" using acc_add_leaf by blast
  note eq = assms(1) [unfolded log_append_def Let_def assms(2) [symmetric]]
  show ?thesis
  proof (cases "has_path al \<and> \<not> ae_file_ok env")
    case True
    then have h: "has_path al" and nf: "\<not> ae_file_ok env" by simp_all
    have "(al, Inl AuditWriteError) = (al', r)" using eq unfolding if_P [OF True] .
    then have e: "al' = al" "r = Inl AuditWriteError" by simp_all
    show ?thesis by (rule refused [OF h nf e])
  next
    case ok: False
    then have w: "has_path al \<Longrightarrow> ae_file_ok env" by simp
    show ?thesis
    proof (cases "al_sign_appends al \<and> al_key al \<noteq> None")
      case True
      obtain a r' where s: "sign_locked pf (commit_event pf al ev acc) ''append'' (ae_policy env) (ae_time env) (ae_roots_ok env) = (a, r')"
        by fastforce
      have "(case r' of Inl e \<Rightarrow> (a, Inl e) | Inr x \<Rightarrow> (a, Inr ev)) = (al', r)"
        using eq unfolding if_not_P [OF ok] acc sum.case commit_event_simps if_P [OF True] s prod.case .
      then have e: "a = al'" "r = (case r' of Inl e \<Rightarrow> Inl e | Inr s \<Rightarrow> Inr ev)" by (cases r'; simp)+
      show ?thesis by (rule signed [OF acc w conjunct1 [OF True] conjunct2 [OF True] s [unfolded e(1)] e(2)])
    next
      case False
      have "(commit_event pf al ev acc, Inr ev) = (al', r)"
        using eq unfolding if_not_P [OF ok] acc sum.case commit_event_simps if_not_P [OF False] .
      then have e: "al' = commit_event pf al ev acc" "r = Inr ev" by simp_all
      show ?thesis by (rule plain [OF acc w False e])
    qed
  qed
qed

lemma commit_event_ok:
  assumes "log_ok pf al" "acc_add (pf_sha pf) (al_acc al) (leaf_hex pf ev) = Inr acc"
  shows "log_ok pf (commit_event pf al ev acc)"
  using assms acc.add unfolding log_ok_def by auto

text \<open>The outcome of an append: the log is valid again, and it has the event when the append returns it.\<close>

lemma log_append_outcome:
  assumes "log_ok pf al" "log_append pf env al actor action data = (al', r)"
  shows "log_ok pf al'" "al_events al' = al_events al \<or> al_events al' = al_events al @ [event_of (length (al_events al)) (ae_ts env) actor action data]"
    "r = Inr v \<Longrightarrow> v = event_of (length (al_events al)) (ae_ts env) actor action data \<and> al_events al' = al_events al @ [v]"
proof -
  let ?ev = "event_of (length (al_events al)) (ae_ts env) actor action data"
  have "log_ok pf al' \<and> (al_events al' = al_events al \<or> al_events al' = al_events al @ [?ev]) \<and>
      (\<forall>v. r = Inr v \<longrightarrow> v = ?ev \<and> al_events al' = al_events al @ [v])"
    using assms(2) refl [of ?ev]
  proof (cases rule: log_append_cases)
    case refused
    then show ?thesis using assms(1) by simp
  next
    case (plain acc)
    then show ?thesis using commit_event_ok [OF assms(1) plain(1)] by simp
  next
    case (signed acc r')
    note ok = sign_locked_ok [OF commit_event_ok [OF assms(1) signed(1)] signed(5)]
    then show ?thesis using signed(6) by (cases r') simp_all
  qed
  then show "log_ok pf al'" "al_events al' = al_events al \<or> al_events al' = al_events al @ [?ev]"
    "r = Inr v \<Longrightarrow> v = ?ev \<and> al_events al' = al_events al @ [v]" by simp_all
qed

subsection \<open>The interface of an evidence log\<close>

text \<open>
  What a client relies on: an append keeps the log valid, adds at most one entry at the end, and has added the
  value it returns.
\<close>

locale evidence_log =
  fixes valid :: "'l \<Rightarrow> bool" and entries :: "'l \<Rightarrow> 'v list" and add :: "'e \<Rightarrow> 'l \<Rightarrow> 'l \<times> ('x + 'v)"
  assumes valid_add: "valid l \<Longrightarrow> add x l = (l', r) \<Longrightarrow> valid l'"
    and add_grows: "valid l \<Longrightarrow> add x l = (l', r) \<Longrightarrow> entries l' = entries l \<or> (\<exists>v. entries l' = entries l @ [v])"
    and add_recorded: "valid l \<Longrightarrow> add x l = (l', Inr v) \<Longrightarrow> entries l' = entries l @ [v]"
begin

lemma history_kept: "valid l \<Longrightarrow> add x l = (l', r) \<Longrightarrow> prefix (entries l) (entries l')"
  using add_grows [of l x l' r] by auto

lemma all_kept:
  "valid l \<Longrightarrow> l' = fold (\<lambda>x l. fst (add x l)) xs l \<Longrightarrow> valid l' \<and> prefix (entries l) (entries l')"
proof (induction xs arbitrary: l)
  case (Cons x xs)
  obtain l1 r where l1: "add x l = (l1, r)" by (cases "add x l")
  have "valid l' \<and> prefix (entries l1) (entries l')" using Cons.IH [OF valid_add [OF Cons.prems(1) l1]] Cons.prems(2) l1 by simp
  then show ?case using history_kept [OF Cons.prems(1) l1] prefix_order.trans by blast
qed simp

end

interpretation audit: evidence_log "log_ok pf" al_events "\<lambda>(env, actor, action, data) al. log_append pf env al actor action data"
  for pf :: platform
proof
  fix l l' :: audit_log and r :: "pyval result" and x :: "append_env \<times> string \<times> string \<times> pyval" and v :: pyval
  assume ok: "log_ok pf l"
  obtain env actor action data where x: "x = (env, actor, action, data)" by (cases x)
  show "log_ok pf l'" if "(case x of (env, actor, action, data) \<Rightarrow> \<lambda>al. log_append pf env al actor action data) l = (l', r)"
    using log_append_outcome(1) [OF ok] that x by simp
  show "al_events l' = al_events l \<or> (\<exists>v. al_events l' = al_events l @ [v])"
    if "(case x of (env, actor, action, data) \<Rightarrow> \<lambda>al. log_append pf env al actor action data) l = (l', r)"
    using log_append_outcome(2) [OF ok, of env actor action data l' r] that x by auto
  show "al_events l' = al_events l @ [v]"
    if "(case x of (env, actor, action, data) \<Rightarrow> \<lambda>al. log_append pf env al actor action data) l = (l', Inr v)"
    using log_append_outcome(3) [OF ok] that x by auto
qed


definition demo_env :: append_env where
  "demo_env = \<lparr>ae_ts = PInt 5, ae_time = ''now'', ae_policy = PNone, ae_file_ok = True, ae_roots_ok = True\<rparr>"

definition demo_log :: audit_log where
  "demo_log = \<lparr>al_path = Some ''a.jsonl'', al_key = None, al_sign_appends = False, al_statements_path = None, al_signer = None,
     al_events = [], al_leaves = [], al_skipped = [], al_acc = acc_init, al_file = None, al_roots_file = None\<rparr>"

lemma demo_log_ok: "log_ok demo_platform demo_log"
  by (simp add: log_ok_def demo_log_def acc_holds_start)


lemma canonical_spaced_brace: "\<exists>t. canonical_spaced fl (PDict d) = CHR ''{'' # t"
  by (simp add: canonical_spaced_def)

subsection \<open>Two defects of the offline checks\<close>

text \<open>
  A receipt bundle of the right shape whose statement carries a number as its key id is not reported as
  invalid: the check raises TypeError on it, whatever the receipt and whether or not keys are pinned.
\<close>

theorem bundle_with_numeric_key_raises:
  assumes "fromhex leaf = Inr d"
  shows "verify_receipt_bundle pf (PDict [(''receipt'', PDict rc), (''index'', PInt i), (''leaf'', PStr leaf), (''path'', PList []),
     (''statement'', PDict [(''key_id'', PInt k)])]) pinned = Inl TypeError"
proof -
  let ?b = "[(''receipt'', PDict rc), (''index'', PInt i), (''leaf'', PStr leaf), (''path'', PList []),
     (''statement'', PDict [(''key_id'', PInt k)])]"
  have "\<not> well_formed [(''key_id'', PInt k)] LOG_AUDIT"
    by (simp add: well_formed_def st_get_def ctx_get_def)
  moreover have "bundle_problem (PDict ?b) = None"
    using assms by (simp add: bundle_problem_def st_get_def ctx_get_def hex_bytes_def)
  moreover have "\<exists>c. run_checks pf ?b (map (key_id_of pf) pinned) = Inr c"
    using assms calculation(1) by (simp add: run_checks_def st_get_def ctx_get_def st_str_def verify_leaf_def pinned_check_def List.map_filter_def)
  ultimately show ?thesis
    by (auto simp: verify_receipt_bundle_def Let_def st_get_def ctx_get_def)
qed

theorem bundle_with_numeric_key_raises_witness:
  "verify_receipt_bundle demo_platform (PDict [(''receipt'', PDict []), (''index'', PInt 0), (''leaf'', PStr ''ab''), (''path'', PList []),
     (''statement'', PDict [(''key_id'', PInt 7)])]) [''k''] = Inl TypeError"
proof -
  have "fromhex ''ab'' = Inr [CHR 0xAB]" by code_simp
  then show ?thesis by (rule bundle_with_numeric_key_raises)
qed

text \<open>
  A signer opened on a statements file whose only line is unreadable but ends in a line break keeps the line:
  the statement it signs next is written after it, and the reader then finds a malformed statement at the
  head of the file, where the signer meant to drop it.
\<close>

theorem torn_line_with_break_is_kept:
  assumes "l \<noteq> []" "CHR 0x0A \<notin> set l" "pf_loads pf l = None" "\<forall>f. CHR 0x0A \<notin> set (pf_float pf f)"
    and "sign_root pf (open_signer pf key log_name (Some (l @ [CHR 0x0A]))) r n trigger policy time = Inr (st, sg)"
    and "pf_loads pf (line_of pf st) = Some (PDict (canon_items st))"
  shows "read_statements pf (sg_file sg) = ([[], canon_items st], [[(''finding'', PStr ''bad_format''), (''line'', PInt 1)]]) \<and>
    map_of st ''seq'' = Some (PInt 0)"
proof -
  have split: "split_char (CHR 0x0A) (concat (map (\<lambda>l. l @ [CHR 0x0A]) [l])) = [l, []]" by (subst split_lines) (use assms(2) in simp_all)
  have kept: "kept_lines (l @ [CHR 0x0A]) = [l]" using split assms(1) by (simp add: kept_lines_def)
  have "read_statements pf (Some (l @ [CHR 0x0A])) = ([], [[(''finding'', PStr ''interrupted_statement''), (''line'', PInt 1)]])"
    using split assms(3) by (simp add: read_statements_def raw_lines_def)
  then have sg0: "open_signer pf key log_name (Some (l @ [CHR 0x0A])) = \<lparr>sg_key = key, sg_log = log_name,
      sg_file = Some (l @ [CHR 0x0A]), sg_seq = 0, sg_prev = ''''\<rparr>"
    by (simp add: open_signer_def kept finding_name_def)
  have fl: "sg_file sg = Some (concat (map (\<lambda>l. l @ [CHR 0x0A]) [l, line_of pf st]))"
    and "map_of st ''seq'' = Some (PInt 0)"
    using assms(5) unfolding sg0 sign_root_eq Let_def by (auto simp: statement_body_def)
  have "\<forall>x \<in> set [l, line_of pf st]. CHR 0x0A \<notin> set x"
    using assms(2) canonical_spaced_one_line [OF assms(4)] by (simp add: line_of_def)
  from split_lines [OF this] have "raw_lines (concat (map (\<lambda>l. l @ [CHR 0x0A]) [l, line_of pf st])) = [l, line_of pf st]"
    by (simp add: raw_lines_def)
  then show "read_statements pf (sg_file sg) = ([[], canon_items st], [[(''finding'', PStr ''bad_format''), (''line'', PInt 1)]]) \<and>
    map_of st ''seq'' = Some (PInt 0)"
    using \<open>map_of st ''seq'' = Some (PInt 0)\<close> unfolding fl read_statements_def option.case by (simp add: assms(3,6))
qed

theorem torn_line_with_break_is_kept_witness:
  "\<exists>sg. sign_root demo_signing (open_signer demo_signing demo_key LOG_AUDIT (Some (''x'' @ [CHR 0x0A]))) '''' 0 ''append'' PNone ''now''
      = Inr (demo_statement, sg) \<and>
    read_statements demo_signing (sg_file sg)
      = ([[], canon_items demo_statement], [[(''finding'', PStr ''bad_format''), (''line'', PInt 1)]])"
proof -
  let ?sg = "open_signer demo_signing demo_key LOG_AUDIT (Some (''x'' @ [CHR 0x0A]))"
  have x: "pf_loads demo_signing ''x'' = None"
    using canonical_spaced_brace [of "pf_float demo_platform" demo_statement] by (auto simp: demo_signing_def line_of_def)
  have one: "\<forall>f. CHR 0x0A \<notin> set (pf_float demo_signing f)"
    using demo_float_one_line by (simp add: demo_signing_def demo_platform_def)
  have rd: "pf_loads demo_signing (line_of demo_signing demo_statement) = Some (PDict (canon_items demo_statement))"
    unfolding demo_same by (simp add: demo_signing_def)
  have "raw_lines (''x'' @ [CHR 0x0A]) = [''x'']" by code_simp
  then have "sg_key ?sg = demo_key" "sg_log ?sg = LOG_AUDIT" "sg_seq ?sg = 0" "sg_prev ?sg = ''''"
    using x by (simp_all add: open_signer_def read_statements_def)
  then obtain sg where s: "sign_root demo_signing ?sg '''' 0 ''append'' PNone ''now'' = Inr (demo_statement, sg)"
    by (simp add: sign_root_eq Let_def demo_statement_def demo_key_def statement_body_def demo_same)
  from torn_line_with_break_is_kept [OF _ _ x one s rd] s show ?thesis by simp
qed

end
