(* ===== verification/PptImage.thy ===== *)
theory PptImage
  imports PyVal PyNum "HOL-Library.Word"
begin

unbundle bit_operations_syntax

section \<open>The table image\<close>

text \<open>
  The binary table image of a flow: its records and the checks of
  \<open>src/prismpath/hotswap/policy_pack.py\<close> (\<open>read_ppt_header\<close>, \<open>validate_image\<close>, \<open>wcet_cycles\<close>), and the reference
  interpreter \<open>src/prismpath-hw/interp.c\<close>, whose registers and atom constants are 32-bit words compared
  as signed integers. Bytes are strings of 8-bit characters; \<open>struct.pack\<close> and \<open>struct.unpack_from\<close>
  raise StructError when a number does not fit its field or the buffer ends before it.
\<close>

subsection \<open>\<open>struct\<close>\<close>

fun le_bytes :: "nat \<Rightarrow> nat \<Rightarrow> string" where
  "le_bytes 0 n = []"
| "le_bytes (Suc k) n = char_of (n mod 256) # le_bytes k (n div 256)"

fun le_value :: "string \<Rightarrow> nat" where
  "le_value [] = 0"
| "le_value (c # cs) = of_char c + 256 * le_value cs"

definition pack_uint :: "nat \<Rightarrow> int \<Rightarrow> string result" where
  "pack_uint k n = (if 0 \<le> n \<and> n < 256 ^ k then Inr (le_bytes k (nat n)) else Inl StructError)"

definition pack_i32 :: "int \<Rightarrow> string result" where
  "pack_i32 n = (if - (2 ^ 31) \<le> n \<and> n < 2 ^ 31 then Inr (le_bytes 4 (unat (word_of_int n :: 32 word))) else Inl StructError)"

definition unpack_uint :: "nat \<Rightarrow> string \<Rightarrow> nat \<Rightarrow> nat result" where
  "unpack_uint k data off = (if off + k \<le> length data then Inr (le_value (take k (drop off data))) else Inl StructError)"

definition unpack_i32 :: "string \<Rightarrow> nat \<Rightarrow> 32 word result" where
  "unpack_i32 data off = ebind (unpack_uint 4 data off) (\<lambda>n. Inr (word_of_nat n))"

subsection \<open>The header\<close>

definition MAGIC :: nat where "MAGIC = 0x4D545050"
definition FORMAT_VERSION :: nat where "FORMAT_VERSION = 1"
definition HEADER_SIZE :: nat where "HEADER_SIZE = 28"
definition ATOM_SIZE :: nat where "ATOM_SIZE = 8"
definition NODE_SIZE :: nat where "NODE_SIZE = 4"
definition EDGE_SIZE :: nat where "EDGE_SIZE = 6"
definition WORD_SIZE :: nat where "WORD_SIZE = 2"
definition OPS :: "nat list" where "OPS = [0, 1, 2, 3, 4, 5, 6]"
definition TYPES :: "nat list" where "TYPES = [0, 1, 2, 3]"
definition PROG_OPCODES :: "nat list" where "PROG_OPCODES = [0x8000, 0x8001, 0x8002, 0x8003, 0x8004]"
definition FLAG_NODE_ATTR :: nat where "FLAG_NODE_ATTR = 0x0001"
definition FLAG_MIGRATE_BY_NAME :: nat where "FLAG_MIGRATE_BY_NAME = 0x0002"
definition FLAG_NODE_NAMES :: nat where "FLAG_NODE_NAMES = 0x0004"
definition FLAG_STATEFUL :: nat where "FLAG_STATEFUL = 0x0008"

record ppt_header =
  ph_fields :: nat
  ph_interns :: nat
  ph_atoms :: nat
  ph_nodes :: nat
  ph_edges :: nat
  ph_prog_words :: nat
  ph_start :: nat
  ph_visits_idx :: nat
  ph_max_steps :: nat
  ph_max_stack :: nat
  ph_flags :: nat
  ph_safe_node :: nat
  ph_migrate_by_name :: bool
  ph_stateful :: bool

text \<open>The twelve 16-bit words after the magic number.\<close>

definition header_words :: "string \<Rightarrow> nat list result" where
  "header_words data = emap (\<lambda>i. unpack_uint 2 data (4 + 2 * i)) [0..<12]"

definition read_ppt_header :: "string \<Rightarrow> string + ppt_header" where
  "read_ppt_header data =
     (if length data < HEADER_SIZE then Inl ''image:truncated-header''
      else case (unpack_uint 4 data 0, header_words data) of
          (Inr magic, Inr [version, n_fields, n_interns, n_atoms, n_nodes, n_edges, prog_len, start, visits_idx,
              max_steps, max_stack, flagword]) \<Rightarrow>
            if magic \<noteq> MAGIC then Inl ''image:bad-magic''
            else if version \<noteq> FORMAT_VERSION then Inl ''image:bad-version''
            else Inr \<lparr>ph_fields = n_fields, ph_interns = n_interns, ph_atoms = n_atoms, ph_nodes = n_nodes, ph_edges = n_edges,
              ph_prog_words = prog_len, ph_start = start, ph_visits_idx = visits_idx, ph_max_steps = max_steps,
              ph_max_stack = max_stack, ph_flags = flagword AND 0x00FF, ph_safe_node = (flagword div 256) AND 0xFF,
              ph_migrate_by_name = (flagword AND FLAG_MIGRATE_BY_NAME \<noteq> 0), ph_stateful = (flagword AND FLAG_STATEFUL \<noteq> 0)\<rparr>
        | _ \<Rightarrow> Inl ''image:truncated-header'')"

subsection \<open>The records\<close>

record ppt_atom =
  pa_field :: nat
  pa_op :: nat
  pa_ty :: nat
  pa_val :: "32 word"

definition atom_at :: "string \<Rightarrow> nat \<Rightarrow> ppt_atom result" where
  "atom_at data off =
     ebind (unpack_uint 2 data off) (\<lambda>f. ebind (unpack_uint 1 data (off + 2)) (\<lambda>op.
     ebind (unpack_uint 1 data (off + 3)) (\<lambda>ty. ebind (unpack_i32 data (off + 4)) (\<lambda>v.
       Inr \<lparr>pa_field = f, pa_op = op, pa_ty = ty, pa_val = v\<rparr>))))"

definition node_at :: "string \<Rightarrow> nat \<Rightarrow> (nat \<times> nat) result" where
  "node_at data off = ebind (unpack_uint 2 data off) (\<lambda>a. ebind (unpack_uint 2 data (off + 2)) (\<lambda>b. Inr (a, b)))"

definition edge_at :: "string \<Rightarrow> nat \<Rightarrow> (nat \<times> nat \<times> nat) result" where
  "edge_at data off = ebind (unpack_uint 2 data off) (\<lambda>a. ebind (unpack_uint 2 data (off + 2)) (\<lambda>b.
     ebind (unpack_uint 2 data (off + 4)) (\<lambda>c. Inr (a, b, c))))"

definition records :: "(string \<Rightarrow> nat \<Rightarrow> 'a result) \<Rightarrow> nat \<Rightarrow> string \<Rightarrow> nat \<Rightarrow> nat \<Rightarrow> 'a list result" where
  "records rd width data off n = emap (\<lambda>i. rd data (off + width * i)) [0..<n]"

definition nodes_off :: "ppt_header \<Rightarrow> nat" where
  "nodes_off h = HEADER_SIZE + ATOM_SIZE * ph_atoms h"

definition edges_off :: "ppt_header \<Rightarrow> nat" where
  "edges_off h = nodes_off h + NODE_SIZE * ph_nodes h"

definition prog_off :: "ppt_header \<Rightarrow> nat" where
  "prog_off h = edges_off h + EDGE_SIZE * ph_edges h"

definition attrs_off :: "ppt_header \<Rightarrow> nat" where
  "attrs_off h = prog_off h + WORD_SIZE * ph_prog_words h"

subsection \<open>The check of an image\<close>

definition DEFAULT_CAPS :: "(string \<times> int) list" where
  "DEFAULT_CAPS = [(''atoms'', 1024), (''nodes'', 256), (''edges'', 1024), (''prog_words'', 4096), (''max_steps'', 25), (''max_stack'', 16)]"

definition capped_counts :: "ppt_header \<Rightarrow> (string \<times> nat) list" where
  "capped_counts h = [(''atoms'', ph_atoms h), (''nodes'', ph_nodes h), (''edges'', ph_edges h), (''prog_words'', ph_prog_words h),
     (''max_steps'', ph_max_steps h), (''max_stack'', ph_max_stack h)]"

definition image_length :: "ppt_header \<Rightarrow> nat" where
  "image_length h = attrs_off h + (if ph_flags h AND FLAG_NODE_ATTR \<noteq> 0 then WORD_SIZE * ph_nodes h else 0)
     + (if ph_flags h AND FLAG_NODE_NAMES \<noteq> 0 then 4 * ph_nodes h else 0)"

text \<open>\<open>if caps:\<close> each count is compared with its cap; a cap that is no number raises TypeError.\<close>

definition cap_reasons :: "ppt_header \<Rightarrow> ctx option \<Rightarrow> string list result" where
  "cap_reasons h caps = (case caps of None \<Rightarrow> Inr [] | Some cs \<Rightarrow>
     if cs = [] then Inr []
     else ebind (emap (\<lambda>(key, n). let cap = (case map_of cs key of Some v \<Rightarrow> v | None \<Rightarrow> PInt (the (map_of DEFAULT_CAPS key))) in
         case py_order OGt (PInt (int n)) cap of
           None \<Rightarrow> Inl TypeError
         | Some over \<Rightarrow> Inr (if over then [''image:caps-exceeded:'' @ key] else [])) (capped_counts h))
       (\<lambda>rs. Inr (concat rs)))"

definition atom_reasons :: "ppt_header \<Rightarrow> nat \<times> ppt_atom \<Rightarrow> string list" where
  "atom_reasons h ia = (let (i, a) = ia in
     (if pa_op a \<notin> set OPS then [''image:unknown-op:atom'' @ nat_str i] else []) @
     (if pa_ty a \<notin> set TYPES then [''image:unknown-type:atom'' @ nat_str i] else []) @
     (if pa_field a \<ge> ph_fields h then [''image:field-index-oob:atom'' @ nat_str i] else []))"

definition edge_reasons :: "ppt_header \<Rightarrow> nat \<times> nat \<times> nat \<times> nat \<Rightarrow> string list" where
  "edge_reasons h ie = (let (i, target, po, pc) = ie in
     (if target \<ge> ph_nodes h then [''image:edge-target-oob:edge'' @ nat_str i] else []) @
     (if po + pc > ph_prog_words h then [''image:edge-prog-oob:edge'' @ nat_str i] else []))"

definition word_reasons :: "ppt_header \<Rightarrow> nat \<times> nat \<Rightarrow> string list" where
  "word_reasons h iw = (let (i, w) = iw in
     (if w \<ge> 0x8000 \<and> w \<notin> set PROG_OPCODES then [''image:unknown-opcode:word'' @ nat_str i] else []) @
     (if w < 0x8000 \<and> w \<ge> ph_atoms h then [''image:atom-index-oob:word'' @ nat_str i] else []))"

definition attr_reasons :: "nat \<times> nat \<Rightarrow> string list" where
  "attr_reasons iw = (let (i, w) = iw in if w > 0x3F then [''image:node-attr-oob:node'' @ nat_str i] else [])"

text \<open>The structural walk once the length is right.\<close>

definition walk_reasons :: "string \<Rightarrow> ppt_header \<Rightarrow> string list result" where
  "walk_reasons data h =
     ebind (records atom_at ATOM_SIZE data HEADER_SIZE (ph_atoms h)) (\<lambda>atoms.
     ebind (records edge_at EDGE_SIZE data (edges_off h) (ph_edges h)) (\<lambda>edges.
     ebind (records (unpack_uint 2) WORD_SIZE data (prog_off h) (ph_prog_words h)) (\<lambda>words.
     ebind (if ph_flags h AND FLAG_NODE_ATTR \<noteq> 0 then records (unpack_uint 2) WORD_SIZE data (attrs_off h) (ph_nodes h) else Inr [])
       (\<lambda>attrs.
       Inr (concat (map (atom_reasons h) (enumerate 0 atoms)) @ concat (map (edge_reasons h) (enumerate 0 edges)) @
            concat (map (word_reasons h) (enumerate 0 words)) @ concat (map attr_reasons (enumerate 0 attrs)))))))"

definition validate_image :: "string \<Rightarrow> ctx option \<Rightarrow> (bool \<times> string list) result" where
  "validate_image data caps =
     (case read_ppt_header data of
        Inl reason \<Rightarrow> Inr (False, [reason])
      | Inr h \<Rightarrow>
        (let safe = (if ph_safe_node h \<noteq> 0 \<and> ph_safe_node h \<ge> ph_nodes h then [''image:safe-node-oob''] else []) in
         if length data \<noteq> image_length h then Inr (False, safe @ [''image:length-mismatch''])
         else ebind (cap_reasons h caps) (\<lambda>cap. ebind (walk_reasons data h) (\<lambda>walk.
           let reasons = safe @ cap @ walk in Inr (reasons = [], reasons)))))"

text \<open>\<open>edge_pcnt[eoff:eoff + ecnt]\<close> is a slice, cut at the end of the list.\<close>

definition node_cycles :: "nat list \<Rightarrow> nat \<times> nat \<Rightarrow> nat" where
  "node_cycles pcnt rec = (let (eoff, ecnt) = rec in sum_list (map (\<lambda>w. 2 + max w 1) (take ecnt (drop eoff pcnt))) + 2)"

definition wcet_cycles :: "string \<Rightarrow> nat result" where
  "wcet_cycles data =
     (case read_ppt_header data of
        Inl reason \<Rightarrow> Inl ValueError
      | Inr h \<Rightarrow>
        ebind (records node_at NODE_SIZE data (nodes_off h) (ph_nodes h)) (\<lambda>nodes.
        ebind (records edge_at EDGE_SIZE data (edges_off h) (ph_edges h)) (\<lambda>edges.
          Inr (foldl (\<lambda>worst rec. max worst (node_cycles (map (snd \<circ> snd) edges) rec)) 0 nodes))))"

subsection \<open>The reference interpreter\<close>

text \<open>
  What C leaves undefined, a read outside a table or below the stack, is an error of its own here.
  The stack has its top at the head.
\<close>

datatype machine_error = StackOverflow | StackUnderflow | BadOpcode | BadRead

definition TY_NONE :: nat where "TY_NONE = 0"
definition TY_BOOL :: nat where "TY_BOOL = 1"
definition TY_INT :: nat where "TY_INT = 2"
definition TY_STR :: nat where "TY_STR = 3"
definition OP_EQ :: nat where "OP_EQ = 0"
definition OP_NE :: nat where "OP_NE = 1"
definition OP_LT :: nat where "OP_LT = 2"
definition OP_LE :: nat where "OP_LE = 3"
definition OP_GT :: nat where "OP_GT = 4"
definition OP_GE :: nat where "OP_GE = 5"
definition OP_TRUTHY :: nat where "OP_TRUTHY = 6"
definition OPC_NOT :: nat where "OPC_NOT = 0x8000"
definition OPC_AND :: nat where "OPC_AND = 0x8001"
definition OPC_OR :: nat where "OPC_OR = 0x8002"
definition OPC_TRUE :: nat where "OPC_TRUE = 0x8003"
definition OPC_FALSE :: nat where "OPC_FALSE = 0x8004"
definition STACK_MAX :: nat where "STACK_MAX = 64"

type_synonym register = "nat \<times> 32 word"

definition numeric_ty :: "nat \<Rightarrow> bool" where
  "numeric_ty ty = (ty = TY_BOOL \<or> ty = TY_INT)"

definition eval_atom :: "ppt_atom \<Rightarrow> register \<Rightarrow> bool" where
  "eval_atom a reg =
     (let (rty, rval) = reg; op = pa_op a; lnum = numeric_ty rty; rnum = numeric_ty (pa_ty a) in
      if op = OP_EQ \<or> op = OP_NE then
        (let eq = (if lnum \<and> rnum then rval = pa_val a
                   else if rty = TY_STR \<and> pa_ty a = TY_STR then rval = pa_val a
                   else rty = TY_NONE \<and> pa_ty a = TY_NONE) in
         if op = OP_EQ then eq else \<not> eq)
      else if op \<in> {OP_LT, OP_LE, OP_GT, OP_GE} then
        (if \<not> (lnum \<and> rnum) then False
         else if op = OP_LT then sint rval < sint (pa_val a)
         else if op = OP_LE then sint rval \<le> sint (pa_val a)
         else if op = OP_GT then sint rval > sint (pa_val a)
         else sint rval \<ge> sint (pa_val a))
      else if op = OP_TRUTHY then (if rty = TY_NONE then False else rval \<noteq> 0)
      else False)"

definition atom_result :: "ppt_atom list \<Rightarrow> register list \<Rightarrow> nat \<Rightarrow> machine_error + bool" where
  "atom_result atoms regs w =
     (if w < length atoms \<and> pa_field (atoms ! w) < length regs then Inr (eval_atom (atoms ! w) (regs ! pa_field (atoms ! w)))
      else Inl BadRead)"

definition stack_push :: "nat \<Rightarrow> bool \<Rightarrow> bool list \<Rightarrow> machine_error + bool list" where
  "stack_push limit b stack = (if length stack \<ge> limit then Inl StackOverflow else Inr (b # stack))"

definition exec_word :: "nat \<Rightarrow> ppt_atom list \<Rightarrow> register list \<Rightarrow> nat \<Rightarrow> bool list \<Rightarrow> machine_error + bool list" where
  "exec_word limit atoms regs w stack =
     (if w < 0x8000 then
        (if length stack \<ge> limit then Inl StackOverflow
         else ebind (atom_result atoms regs w) (\<lambda>b. Inr (b # stack)))
      else if w = OPC_NOT then (case stack of a # s \<Rightarrow> Inr ((\<not> a) # s) | _ \<Rightarrow> Inl StackUnderflow)
      else if w = OPC_AND then (case stack of b # a # s \<Rightarrow> Inr ((a \<and> b) # s) | _ \<Rightarrow> Inl StackUnderflow)
      else if w = OPC_OR then (case stack of b # a # s \<Rightarrow> Inr ((a \<or> b) # s) | _ \<Rightarrow> Inl StackUnderflow)
      else if w = OPC_TRUE then stack_push limit True stack
      else if w = OPC_FALSE then stack_push limit False stack
      else Inl BadOpcode)"

fun exec_words :: "nat \<Rightarrow> ppt_atom list \<Rightarrow> register list \<Rightarrow> nat list \<Rightarrow> bool list \<Rightarrow> machine_error + bool list" where
  "exec_words limit atoms regs [] stack = Inr stack"
| "exec_words limit atoms regs (w # ws) stack =
     ebind (exec_word limit atoms regs w stack) (\<lambda>stack. exec_words limit atoms regs ws stack)"

definition eval_prog :: "nat \<Rightarrow> ppt_atom list \<Rightarrow> register list \<Rightarrow> nat list \<Rightarrow> machine_error + bool" where
  "eval_prog limit atoms regs words =
     ebind (exec_words limit atoms regs words []) (\<lambda>stack. Inr (if stack = [] then False else last stack))"

text \<open>The register file of one evaluation: the node, then the type and the value of each field.\<close>

definition register_at :: "string \<Rightarrow> nat \<Rightarrow> register result" where
  "register_at data off = ebind (unpack_uint 4 data off) (\<lambda>ty. ebind (unpack_i32 data (off + 4)) (\<lambda>v. Inr (ty, v)))"

definition read_regs :: "nat \<Rightarrow> string \<Rightarrow> (nat \<times> register list) option" where
  "read_regs n_fields data =
     (if length data \<noteq> 4 + 8 * n_fields then None
      else case (unpack_uint 2 data 0, records register_at 8 data 4 n_fields) of
          (Inr node, Inr regs) \<Rightarrow> Some (node, regs) | _ \<Rightarrow> None)"

record ppt_tables =
  pt_header :: ppt_header
  pt_atoms :: "ppt_atom list"
  pt_nodes :: "(nat \<times> nat) list"
  pt_edges :: "(nat \<times> nat \<times> nat) list"
  pt_prog :: "nat list"

text \<open>\<open>load_image\<close>: a bad or truncated image ends the program; here it is None.\<close>

definition load_tables :: "string \<Rightarrow> ppt_tables option" where
  "load_tables data =
     (case read_ppt_header data of
        Inl reason \<Rightarrow> None
      | Inr h \<Rightarrow>
        if length data < attrs_off h + (if ph_flags h AND FLAG_NODE_ATTR \<noteq> 0 then WORD_SIZE * ph_nodes h else 0) then None
        else (case (records atom_at ATOM_SIZE data HEADER_SIZE (ph_atoms h), records node_at NODE_SIZE data (nodes_off h) (ph_nodes h),
                    records edge_at EDGE_SIZE data (edges_off h) (ph_edges h),
                    records (unpack_uint 2) WORD_SIZE data (prog_off h) (ph_prog_words h)) of
            (Inr atoms, Inr nodes, Inr edges, Inr prog) \<Rightarrow>
              Some \<lparr>pt_header = h, pt_atoms = atoms, pt_nodes = nodes, pt_edges = edges, pt_prog = prog\<rparr>
          | _ \<Rightarrow> None))"

text \<open>\<open>evaluate\<close>: the number and the target of the first edge whose program is true.\<close>

fun first_edge :: "ppt_tables \<Rightarrow> register list \<Rightarrow> nat \<Rightarrow> nat \<Rightarrow> nat \<Rightarrow> machine_error + (nat \<times> nat) option" where
  "first_edge t regs off i 0 = Inr None"
| "first_edge t regs off i (Suc k) =
     (if off + i < length (pt_edges t)
      then (case pt_edges t ! (off + i) of (target, po, pc) \<Rightarrow>
        if po + pc \<le> length (pt_prog t)
        then ebind (eval_prog STACK_MAX (pt_atoms t) regs (take pc (drop po (pt_prog t)))) (\<lambda>b.
          if b then Inr (Some (i, target)) else first_edge t regs off (i + 1) k)
        else Inl BadRead)
      else Inl BadRead)"

definition evaluate_node :: "ppt_tables \<Rightarrow> nat \<Rightarrow> register list \<Rightarrow> machine_error + (nat \<times> nat) option" where
  "evaluate_node t node regs =
     (if node < length (pt_nodes t) then (case pt_nodes t ! node of (eoff, ecnt) \<Rightarrow> first_edge t regs eoff 0 ecnt)
      else Inl BadRead)"

end
