(* ===== verification/PptCompile.thy ===== *)
theory PptCompile
  imports PptImage LevelM
begin

section \<open>The table compiler\<close>

text \<open>
  \<open>src/prismpath-hw/ppt_compile.py\<close>: conditions and flows of the Level M fragment compiled to table
  images. The image under construction is a record passed from call to call; the two dictionaries number
  fields and strings in the order they are met, and the position of an atom in the list is its number.
  Numbers are Python integers until \<open>serialize\<close> packs them.
\<close>

type_synonym atom_key = "nat \<times> nat \<times> nat \<times> int"
type_synonym table_edge = "nat \<times> string \<times> nat list"

record table_image =
  ti_max_steps :: int
  ti_fields :: "(string, nat) pydict"
  ti_intern :: "(string, nat) pydict"
  ti_atoms :: "atom_key list"
  ti_nodes :: "(string \<times> table_edge list) list"
  ti_node_colors :: "nat list"
  ti_stateful :: bool
  ti_migrate_by_name :: bool
  ti_safe_node :: "nat option"
  ti_start :: nat
  ti_skipped :: "(string \<times> string \<times> string) list"

definition new_image :: "int \<Rightarrow> table_image" where
  "new_image max_steps = \<lparr>ti_max_steps = max_steps, ti_fields = [], ti_intern = [('''', 0)], ti_atoms = [], ti_nodes = [],
     ti_node_colors = [], ti_stateful = False, ti_migrate_by_name = False, ti_safe_node = None, ti_start = 0, ti_skipped = []\<rparr>"

subsection \<open>Scalars, fields and atoms\<close>

definition I32_MIN :: int where "I32_MIN = - (2 ^ 31)"
definition I32_MAX :: int where "I32_MAX = 2 ^ 31 - 1"
definition VISITS_NONE :: nat where "VISITS_NONE = 0xFFFF"

definition encode_scalar :: "pyval \<Rightarrow> (string, nat) pydict \<Rightarrow> ((nat \<times> int) \<times> (string, nat) pydict) result" where
  "encode_scalar v intern =
     (case v of
        PNone \<Rightarrow> Inr ((TY_NONE, 0), intern)
      | PBool b \<Rightarrow> Inr ((TY_BOOL, if b then 1 else 0), intern)
      | PInt i \<Rightarrow> if \<not> (I32_MIN \<le> i \<and> i \<le> I32_MAX) then Inl (SubsetError ''int-out-of-i32'') else Inr ((TY_INT, i), intern)
      | PFloat f \<Rightarrow> Inl (SubsetError ''float-value'')
      | PStr s \<Rightarrow> (let intern = (if map_of intern s = None then intern @ [(s, length intern)] else intern) in
          Inr ((TY_STR, int (the (map_of intern s))), intern))
      | _ \<Rightarrow> Inl (SubsetError ''non-scalar-value''))"

text \<open>\<open>setdefault(name, len(fields))\<close>.\<close>

definition field_index :: "string \<Rightarrow> table_image \<Rightarrow> nat \<times> table_image" where
  "field_index name img = (case map_of (ti_fields img) name of
     Some i \<Rightarrow> (i, img)
   | None \<Rightarrow> (length (ti_fields img), img\<lparr>ti_fields := ti_fields img @ [(name, length (ti_fields img))]\<rparr>))"

fun position :: "'a \<Rightarrow> 'a list \<Rightarrow> nat option" where
  "position x [] = None"
| "position x (y # ys) = (if x = y then Some 0 else map_option Suc (position x ys))"

definition atom_index :: "atom_key \<Rightarrow> table_image \<Rightarrow> nat \<times> table_image" where
  "atom_index key img = (case position key (ti_atoms img) of
     Some i \<Rightarrow> (i, img)
   | None \<Rightarrow> (length (ti_atoms img), img\<lparr>ti_atoms := ti_atoms img @ [key]\<rparr>))"

definition scalar_atom :: "nat \<Rightarrow> nat \<Rightarrow> pyval \<Rightarrow> table_image \<Rightarrow> (nat \<times> table_image) result" where
  "scalar_atom fidx op v img =
     ebind (encode_scalar v (ti_intern img)) (\<lambda>((ty, val), intern).
       Inr (atom_index (fidx, op, ty, val) (img\<lparr>ti_intern := intern\<rparr>)))"

subsection \<open>Programs\<close>

fun ast_op :: "cmpop \<Rightarrow> nat option" where
  "ast_op CEq = Some OP_EQ"
| "ast_op CNotEq = Some OP_NE"
| "ast_op CLt = Some OP_LT"
| "ast_op CLtE = Some OP_LE"
| "ast_op CGt = Some OP_GT"
| "ast_op CGtE = Some OP_GE"
| "ast_op _ = None"

definition flip :: "nat \<Rightarrow> nat" where
  "flip op = (if op = OP_LT then OP_GT else if op = OP_LE then OP_GE else if op = OP_GT then OP_LT
     else if op = OP_GE then OP_LE else op)"

fun const_attr :: "ast \<Rightarrow> pyval result" where
  "const_attr (AConst v) = Inr v"
| "const_attr _ = Inl AttributeError"

fun name_id :: "ast \<Rightarrow> string result" where
  "name_id (AName x) = Inr x"
| "name_id _ = Inl AttributeError"

fun prog_members :: "nat \<Rightarrow> bool \<Rightarrow> ast list \<Rightarrow> table_image \<Rightarrow> (nat list \<times> table_image) result" where
  "prog_members fidx first [] img = Inr ([], img)"
| "prog_members fidx first (e # es) img =
     ebind (const_attr e) (\<lambda>v. ebind (scalar_atom fidx OP_EQ v img) (\<lambda>(w, img).
     ebind (prog_members fidx False es img) (\<lambda>(ws, img). Inr (w # (if first then [] else [OPC_OR]) @ ws, img))))"

definition prog_membership :: "ast \<Rightarrow> cmpop \<Rightarrow> ast \<Rightarrow> table_image \<Rightarrow> (nat list \<times> table_image) result" where
  "prog_membership left op right img =
     ebind (name_id left) (\<lambda>x.
     let (fidx, img) = field_index x img in
     (case collection right of
        None \<Rightarrow> Inl AttributeError
      | Some es \<Rightarrow>
        ebind (if es = [] then Inr ([OPC_FALSE], img) else prog_members fidx True es img) (\<lambda>(prog, img).
          Inr (prog @ (if op = CNotIn then [OPC_NOT] else []), img))))"

definition prog_compare :: "ast \<Rightarrow> cmpop \<Rightarrow> ast \<Rightarrow> table_image \<Rightarrow> (nat list \<times> table_image) result" where
  "prog_compare left op right img =
     (if op = CIn \<or> op = CNotIn then prog_membership left op right img
      else case ast_op op of
          None \<Rightarrow> Inl (SubsetError (''not-level-m:disallowed-op-'' @ cmpop_name op))
        | Some opc \<Rightarrow>
          if is_name left
          then ebind (name_id left) (\<lambda>x. let (fidx, img) = field_index x img in
            ebind (const_attr right) (\<lambda>v. ebind (scalar_atom fidx opc v img) (\<lambda>(w, img). Inr ([w], img))))
          else ebind (name_id right) (\<lambda>x. let (fidx, img) = field_index x img in
            ebind (const_attr left) (\<lambda>v. ebind (scalar_atom fidx (flip opc) v img) (\<lambda>(w, img). Inr ([w], img)))))"

fun prog_expr :: "ast \<Rightarrow> table_image \<Rightarrow> (nat list \<times> table_image) result"
  and prog_operands :: "nat \<Rightarrow> bool \<Rightarrow> ast list \<Rightarrow> table_image \<Rightarrow> (nat list \<times> table_image) result" where
  "prog_expr (AName x) img =
     (let (fidx, img) = field_index x img; (w, img) = atom_index (fidx, OP_TRUTHY, TY_NONE, 0) img in Inr ([w], img))"
| "prog_expr (AUnary UNot n) img = ebind (prog_expr n img) (\<lambda>(prog, img). Inr (prog @ [OPC_NOT], img))"
| "prog_expr (ABoolOp b vs) img = prog_operands (if b = BAnd then OPC_AND else OPC_OR) True vs img"
| "prog_expr (ACompare left (op # ops) (right # rs)) img = prog_compare left op right img"
| "prog_expr n img = Inl (SubsetError ''not-level-m'')"
| "prog_operands opc first [] img = Inr ([], img)"
| "prog_operands opc first (v # vs) img =
     ebind (prog_expr v img) (\<lambda>(p, img). ebind (prog_operands opc False vs img) (\<lambda>(q, img).
       Inr (p @ (if first then [] else [opc]) @ q, img)))"

definition compile_condition :: "pyparse \<Rightarrow> string \<Rightarrow> table_image \<Rightarrow> (nat list \<times> table_image) result" where
  "compile_condition parse cond img =
     (if \<not> is_deterministic cond then Inl (SubsetError ''non-deterministic-edge'')
      else let expr = expr_of cond in
        if py_lower expr \<in> set ALWAYS then Inr ([OPC_TRUE], img)
        else if py_lower expr \<in> set NEVER then Inr ([OPC_FALSE], img)
        else if check_predicate parse cond \<noteq> [] then Inl (SubsetError ''not-level-m:disallowed-or-unparseable'')
        else case parse expr of
            None \<Rightarrow> Inl ValueError
          | Some body \<Rightarrow>
            (let tree = desugar_chains (fold_unary_signs body) in
             case classify tree of
               Some reason \<Rightarrow> Inl (SubsetError (''not-level-m:'' @ reason))
             | None \<Rightarrow> prog_expr tree img))"

subsection \<open>The light of a node\<close>

definition LED_COLORS :: "(string \<times> nat) list" where
  "LED_COLORS = [(''red'', 0x01), (''green'', 0x02), (''blue'', 0x04), (''yellow'', 0x03), (''amber'', 0x03),
     (''cyan'', 0x06), (''magenta'', 0x05), (''purple'', 0x05), (''white'', 0x07), (''off'', 0x00), (''none'', 0x00)]"

text \<open>The match of \<open>RGB\s+LEDs?\s+(\w+)\<close> at the head of the text; the word after it.\<close>

definition led_match_here :: "string \<Rightarrow> string option" where
  "led_match_here s =
     (if \<not> startswith (py_lower s) ''rgb'' then None
      else let r = drop 3 s; a = lstrip r in
        if a = r \<or> \<not> startswith (py_lower a) ''led'' then None
        else let t = drop 3 a; u = (if startswith (py_lower t) ''s'' then drop 1 t else t); w = lstrip u; word = takeWhile word_char w in
          if w = u \<or> word = [] then None else Some word)"

fun led_search :: "string \<Rightarrow> string option" where
  "led_search [] = None"
| "led_search (c # s) = (case led_match_here (c # s) of Some w \<Rightarrow> Some w | None \<Rightarrow> led_search s)"

definition parse_led_color :: "string \<Rightarrow> nat" where
  "parse_led_color instruction = (case led_search instruction of
     None \<Rightarrow> 0
   | Some w \<Rightarrow> (case map_of LED_COLORS (py_lower w) of None \<Rightarrow> 0 | Some n \<Rightarrow> n))"

subsection \<open>Flows\<close>

definition index_of :: "string \<Rightarrow> string list \<Rightarrow> nat option" where
  "index_of name names = position name names"

fun compile_edges :: "pyparse \<Rightarrow> string list \<Rightarrow> string \<Rightarrow> edge list \<Rightarrow> table_image \<Rightarrow> (table_edge list \<times> table_image) result" where
  "compile_edges parse names here [] img = Inr ([], img)"
| "compile_edges parse names here ((target, cond) # es) img =
     (if is_error cond \<or> is_event cond
      then compile_edges parse names here es (img\<lparr>ti_skipped := ti_skipped img @ [(here, target, cond)]\<rparr>)
      else if is_semantic cond then Inl (SubsetError ''semantic-edge'')
      else case index_of target names of
          None \<Rightarrow> Inl (SubsetError ''dangling-target'')
        | Some i \<Rightarrow>
          ebind (compile_condition parse cond img) (\<lambda>(prog, img).
          ebind (compile_edges parse names here es img) (\<lambda>(rest, img). Inr ((i, cond, prog) # rest, img))))"

fun compile_nodes :: "pyparse \<Rightarrow> flow_graph \<Rightarrow> string list \<Rightarrow> string list \<Rightarrow> table_image \<Rightarrow> table_image result" where
  "compile_nodes parse graph names [] img = Inr img"
| "compile_nodes parse graph names (name # rest) img =
     (case map_of (fg_nodes graph) name of
        None \<Rightarrow> Inl KeyError
      | Some node \<Rightarrow>
        ebind (compile_edges parse names name (fn_edges node) img) (\<lambda>(nedges, img).
          compile_nodes parse graph names rest
            (img\<lparr>ti_nodes := ti_nodes img @ [(name, nedges)],
                 ti_node_colors := ti_node_colors img @ [parse_led_color (fn_instruction node)]\<rparr>)))"

text \<open>The declarations of a stateful flow, from the front matter.\<close>

definition meta_text :: "flow_graph \<Rightarrow> string \<Rightarrow> string" where
  "meta_text graph k = strip (case map_of (fg_meta graph) k of None \<Rightarrow> '''' | Some v \<Rightarrow> v)"

definition declare_mode :: "flow_graph \<Rightarrow> string list \<Rightarrow> table_image \<Rightarrow> table_image result" where
  "declare_mode graph names img =
     (if py_lower (meta_text graph ''stateful'') \<notin> {''true'', ''yes'', ''1''} then Inr img
      else if meta_text graph ''safe'' = [] then Inl (SubsetError ''stateful-safe-undeclared'')
      else case index_of (meta_text graph ''safe'') names of
          None \<Rightarrow> Inl (SubsetError ''dangling-safe-node'')
        | Some i \<Rightarrow> (let migration = py_lower (meta_text graph ''migration'') in
            if migration \<notin> {''by-name'', ''reset-to''} then Inl (SubsetError ''stateful-migration-undeclared'')
            else Inr (img\<lparr>ti_stateful := True, ti_safe_node := Some i, ti_migrate_by_name := (migration = ''by-name'')\<rparr>)))"

definition compiled_names :: "flow_graph \<Rightarrow> string list" where
  "compiled_names graph = filter (\<lambda>name. name \<in> set (reachable graph)) (map fst (fg_nodes graph))"

definition compile_flow :: "pyparse \<Rightarrow> flow_graph \<Rightarrow> int \<Rightarrow> table_image result" where
  "compile_flow parse graph max_steps =
     (let names = compiled_names graph in
      case index_of (fg_start graph) names of
        None \<Rightarrow> Inl (SubsetError ''bad-start'')
      | Some i \<Rightarrow> ebind (compile_nodes parse graph names names (new_image max_steps)) (\<lambda>img.
          declare_mode graph names (img\<lparr>ti_start := i\<rparr>)))"

definition compile_predicate :: "pyparse \<Rightarrow> string \<Rightarrow> table_image result" where
  "compile_predicate parse cond =
     ebind (compile_condition parse cond (new_image 1)) (\<lambda>(prog, img).
       Inr (img\<lparr>ti_nodes := [(''p'', [(1, cond, prog)]), (''t'', [])], ti_start := 0\<rparr>))"

subsection \<open>Serialization\<close>

fun depth_loop :: "int \<Rightarrow> int \<Rightarrow> nat list \<Rightarrow> int \<times> int" where
  "depth_loop depth peak [] = (depth, peak)"
| "depth_loop depth peak (w # ws) =
     (let depth = (if w < 0x8000 \<or> w \<in> {OPC_TRUE, OPC_FALSE} then depth + 1
                   else if w \<in> {OPC_AND, OPC_OR} then depth - 1 else depth) in
      depth_loop depth (max peak depth) ws)"

definition stack_depth :: "nat list \<Rightarrow> int result" where
  "stack_depth prog = (let (depth, peak) = depth_loop 0 0 prog in if depth \<noteq> 1 then Inl ValueError else Inr peak)"

text \<open>The program blob, the edge records and the node records of the nodes, and the deepest stack.\<close>

record layout =
  la_prog :: "nat list"
  la_edges :: "(nat \<times> nat \<times> nat) list"
  la_nodes :: "(nat \<times> nat) list"
  la_stack :: int

fun lay_edges :: "table_edge list \<Rightarrow> layout \<Rightarrow> layout result" where
  "lay_edges [] la = Inr la"
| "lay_edges ((target, cond, prog) # es) la =
     ebind (stack_depth prog) (\<lambda>d.
       lay_edges es (la\<lparr>la_edges := la_edges la @ [(target, length (la_prog la), length prog)], la_prog := la_prog la @ prog,
                        la_stack := max (la_stack la) d\<rparr>))"

fun lay_nodes :: "(string \<times> table_edge list) list \<Rightarrow> layout \<Rightarrow> layout result" where
  "lay_nodes [] la = Inr la"
| "lay_nodes ((name, es) # ns) la =
     ebind (lay_edges es (la\<lparr>la_nodes := la_nodes la @ [(length (la_edges la), length es)]\<rparr>)) (lay_nodes ns)"

definition node_colors :: "table_image \<Rightarrow> nat list" where
  "node_colors img = take (length (ti_nodes img)) (ti_node_colors img @ replicate (length (ti_nodes img)) 0)"

definition image_flags :: "table_image \<Rightarrow> nat" where
  "image_flags img =
     ((if list_ex (\<lambda>c. c \<noteq> 0) (node_colors img) then FLAG_NODE_ATTR else 0)
      OR (if ti_stateful img then FLAG_STATEFUL else 0)
      OR (if ti_migrate_by_name img then FLAG_MIGRATE_BY_NAME else 0)
      OR (case ti_safe_node img of None \<Rightarrow> 0 | Some n \<Rightarrow> push_bit 8 (n AND 0xFF)))"

definition pack_all :: "string result list \<Rightarrow> string result" where
  "pack_all ps = ebind (emap id ps) (\<lambda>bs. Inr (concat bs))"

definition pack_header :: "table_image \<Rightarrow> layout \<Rightarrow> string result" where
  "pack_header img la =
     pack_all (pack_uint 4 (int MAGIC) # map (pack_uint 2)
       [1, int (length (ti_fields img)), int (length (ti_intern img)), int (length (ti_atoms img)), int (length (ti_nodes img)),
        int (length (la_edges la)), int (length (la_prog la)), int (ti_start img),
        int (case map_of (ti_fields img) ''visits'' of None \<Rightarrow> VISITS_NONE | Some i \<Rightarrow> i),
        ti_max_steps img, la_stack la, int (image_flags img)])"

fun pack_atom :: "atom_key \<Rightarrow> string result" where
  "pack_atom (f, op, ty, val) = pack_all [pack_uint 2 (int f), pack_uint 1 (int op), pack_uint 1 (int ty), pack_i32 val]"

fun pack_node :: "nat \<times> nat \<Rightarrow> string result" where
  "pack_node (a, b) = pack_all [pack_uint 2 (int a), pack_uint 2 (int b)]"

fun pack_edge :: "nat \<times> nat \<times> nat \<Rightarrow> string result" where
  "pack_edge (a, b, c) = pack_all [pack_uint 2 (int a), pack_uint 2 (int b), pack_uint 2 (int c)]"

definition serialize :: "table_image \<Rightarrow> string result" where
  "serialize img =
     ebind (lay_nodes (ti_nodes img) \<lparr>la_prog = [], la_edges = [], la_nodes = [], la_stack = 1\<rparr>) (\<lambda>la.
       pack_all (pack_header img la # map pack_atom (ti_atoms img) @ map pack_node (la_nodes la) @ map pack_edge (la_edges la)
         @ map (pack_uint 2 \<circ> int) (la_prog la)
         @ (if image_flags img AND FLAG_NODE_ATTR \<noteq> 0 then map (\<lambda>c. pack_uint 2 (int (c AND 0xFFFF))) (node_colors img) else [])))"

definition debug_wcet :: "table_image \<Rightarrow> nat" where
  "debug_wcet img = (if ti_nodes img = [] then 2
     else Max (set (map (\<lambda>(name, es). sum_list (map (\<lambda>(t, c, prog). 2 + max (length prog) 1) es) + 2) (ti_nodes img))))"

subsection \<open>Registers and scripts\<close>

text \<open>The fields in the order of their registers, and the scalars a row of registers holds.\<close>

definition by_register :: "table_image \<Rightarrow> string list" where
  "by_register img = map fst (sort_key snd (ti_fields img))"

fun encode_row :: "string list \<Rightarrow> ctx \<Rightarrow> (string, nat) pydict \<Rightarrow> ((nat \<times> int) list \<times> (string, nat) pydict) result" where
  "encode_row [] c intern = Inr ([], intern)"
| "encode_row (f # fs) c intern =
     ebind (encode_scalar (ctx_get c f) intern) (\<lambda>(r, intern). ebind (encode_row fs c intern) (\<lambda>(rs, intern). Inr (r # rs, intern)))"

fun pack_register :: "nat \<times> int \<Rightarrow> string result" where
  "pack_register (ty, val) = pack_all [pack_i32 (int ty), pack_i32 val]"

definition encode_regs :: "table_image \<Rightarrow> ctx \<Rightarrow> int \<Rightarrow> string result" where
  "encode_regs img c node_idx =
     ebind (encode_row (by_register img) c (ti_intern img)) (\<lambda>(rs, intern).
       pack_all (pack_uint 4 node_idx # map pack_register rs))"

definition script_fields :: "(pyval \<Rightarrow> string) \<Rightarrow> pyval \<Rightarrow> ctx result" where
  "script_fields str_of out =
     ebind (case out of
          PDict d \<Rightarrow> if map_of d ''__raise__'' \<noteq> None then Inl (SubsetError ''script-raises'') else Inr d
        | _ \<Rightarrow> Inr [(''text'', PStr (str_of out))])
       (\<lambda>fs. if truthy (ctx_get fs ''needs_human'') \<or> truthy (ctx_get fs ''wait'') \<or> ctx_get fs ''spawn'' \<noteq> PNone
         then Inl (SubsetError ''script-suspends'') else Inr fs)"

fun encode_outcomes ::
    "(pyval \<Rightarrow> string) \<Rightarrow> string list \<Rightarrow> pyval list \<Rightarrow> (string, nat) pydict \<Rightarrow> ((nat \<times> int) list \<times> (string, nat) pydict) result" where
  "encode_outcomes str_of fs [] intern = Inr ([], intern)"
| "encode_outcomes str_of fs (out # outs) intern =
     ebind (script_fields str_of out) (\<lambda>c. ebind (encode_row fs c intern) (\<lambda>(rs, intern).
     ebind (encode_outcomes str_of fs outs intern) (\<lambda>(rest, intern). Inr (rs @ rest, intern))))"

fun encode_nodes ::
    "(pyval \<Rightarrow> string) \<Rightarrow> string list \<Rightarrow> (string, pyval list) pydict \<Rightarrow> string list \<Rightarrow> (string, nat) pydict \<Rightarrow> string result list result" where
  "encode_nodes str_of fs script [] intern = Inr []"
| "encode_nodes str_of fs script (name # names) intern =
     (let outs = (case map_of script name of None \<Rightarrow> [PDict [(''text'', PStr name)]] | Some outs \<Rightarrow> outs) in
      ebind (encode_outcomes str_of fs outs intern) (\<lambda>(rs, intern).
      ebind (encode_nodes str_of fs script names intern) (\<lambda>rest.
        Inr (pack_uint 4 (int (length outs)) # map pack_register rs @ rest))))"

definition encode_script :: "(pyval \<Rightarrow> string) \<Rightarrow> table_image \<Rightarrow> (string, pyval list) pydict \<Rightarrow> string result" where
  "encode_script str_of img script =
     ebind (encode_nodes str_of (by_register img) script (map fst (ti_nodes img)) (ti_intern img)) (\<lambda>ps.
       pack_all (pack_uint 4 (int (length (ti_nodes img))) # ps))"

end
