(* ===== verification/PptSound.thy ===== *)
theory PptSound
  imports PptCompile "HOL-Library.Sublist"
begin

section \<open>A compiled condition decides as the engine does\<close>

text \<open>
  The correctness of the table compiler, in two steps. The truth of a Level M tree is read off without the
  depth counter of the evaluator, and agrees with it; a compiled program pushes exactly that truth, in
  every later image that extends the one it was compiled into and for every row of registers encoded
  against that image.
\<close>

subsection \<open>Numbered dictionaries\<close>

definition numbered :: "(string, nat) pydict \<Rightarrow> bool" where
  "numbered d \<longleftrightarrow> distinct (map fst d) \<and> map snd d = [0..<length d]"

lemma numbered_Nil [simp]: "numbered []"
  by (simp add: numbered_def)

lemma numbered_snoc: "numbered d \<Longrightarrow> map_of d k = None \<Longrightarrow> numbered (d @ [(k, length d)])"
  by (auto simp: numbered_def map_of_eq_None_iff)

lemma numbered_map_of: "numbered d \<Longrightarrow> map_of d k = Some i \<longleftrightarrow> i < length d \<and> fst (d ! i) = k"
proof -
  assume n: "numbered d"
  then have snd: "j < length d \<Longrightarrow> snd (d ! j) = j" for j
    unfolding numbered_def by (metis add_0 length_map map_nth nth_map nth_upt)
  have "map_of d k = Some i \<longleftrightarrow> (k, i) \<in> set d" using n by (simp add: numbered_def)
  also have "\<dots> \<longleftrightarrow> (\<exists>j < length d. d ! j = (k, i))" by (simp add: in_set_conv_nth)
  also have "\<dots> \<longleftrightarrow> i < length d \<and> fst (d ! i) = k"
  proof
    assume "\<exists>j < length d. d ! j = (k, i)"
    then obtain j where "j < length d" "d ! j = (k, i)" by blast
    with snd [of j] show "i < length d \<and> fst (d ! i) = k" by simp
  next
    assume "i < length d \<and> fst (d ! i) = k"
    with snd [of i] show "\<exists>j < length d. d ! j = (k, i)" by (intro exI [of _ i]) (auto intro: prod_eqI)
  qed
  finally show ?thesis .
qed

lemma numbered_lt: "numbered d \<Longrightarrow> map_of d k = Some i \<Longrightarrow> i < length d"
  by (simp add: numbered_map_of)

lemma numbered_inj: "numbered d \<Longrightarrow> map_of d j = Some i \<Longrightarrow> map_of d k = Some i \<Longrightarrow> j = k"
  by (simp add: numbered_map_of)

lemma map_of_prefix: "prefix d d' \<Longrightarrow> map_of d k = Some i \<Longrightarrow> map_of d' k = Some i"
  by (auto simp: prefix_def map_add_Some_iff)

subsection \<open>Scalars as registers\<close>

fun scalar_rep :: "(string, nat) pydict \<Rightarrow> pyval \<Rightarrow> nat \<times> int \<Rightarrow> bool" where
  "scalar_rep d PNone r = (r = (TY_NONE, 0))"
| "scalar_rep d (PBool b) r = (r = (TY_BOOL, if b then 1 else 0))"
| "scalar_rep d (PInt i) r = (r = (TY_INT, i))"
| "scalar_rep d (PStr s) r = (\<exists>i. map_of d s = Some i \<and> r = (TY_STR, int i))"
| "scalar_rep d _ r = False"

definition in_i32 :: "int \<Rightarrow> bool" where
  "in_i32 i \<longleftrightarrow> - (2 ^ 31) \<le> i \<and> i < 2 ^ 31"

lemma scalar_rep_prefix: "scalar_rep d v r \<Longrightarrow> prefix d d' \<Longrightarrow> scalar_rep d' v r"
  by (cases v) (auto dest: map_of_prefix)

lemma encode_scalar_rep:
  assumes "encode_scalar v d = Inr (r, d')" "numbered d"
  shows "scalar_rep d' v r" "numbered d'" "prefix d d'"
proof -
  have "scalar_rep d' v r \<and> numbered d' \<and> prefix d d'"
    using assms numbered_snoc [OF assms(2)]
    by (cases v) (auto simp: encode_scalar_def Let_def split: if_splits)
  then show "scalar_rep d' v r" "numbered d'" "prefix d d'" by auto
qed

lemma sint_i32: "in_i32 i \<Longrightarrow> sint (word_of_int i :: 32 word) = i"
  by (simp add: in_i32_def sint_sbintrunc' signed_take_bit_int_eq_self)

lemma word_i32_eq: "in_i32 i \<Longrightarrow> in_i32 j \<Longrightarrow> (word_of_int i = (word_of_int j :: 32 word)) = (i = j)"
  using sint_i32 by metis

text \<open>What an atom with operation \<open>op\<close> and constant \<open>v\<close> says of a value.\<close>

definition op_holds :: "nat \<Rightarrow> pyval \<Rightarrow> pyval \<Rightarrow> bool" where
  "op_holds op a v \<longleftrightarrow>
     (if op = OP_EQ then py_eq a v else if op = OP_NE then \<not> py_eq a v
      else if op = OP_LT then py_order OLt a v = Some True else if op = OP_LE then py_order OLtE a v = Some True
      else if op = OP_GT then py_order OGt a v = Some True else if op = OP_GE then py_order OGtE a v = Some True
      else truthy a)"

lemmas op_codes = OP_EQ_def OP_NE_def OP_LT_def OP_LE_def OP_GT_def OP_GE_def OP_TRUTHY_def
lemmas ty_codes = TY_NONE_def TY_BOOL_def TY_INT_def TY_STR_def

definition is_str :: "pyval \<Rightarrow> bool" where
  "is_str v \<longleftrightarrow> (\<exists>s. v = PStr s)"

text \<open>The two constants whose order is by number.\<close>

fun num_val :: "pyval \<Rightarrow> int option" where
  "num_val (PBool b) = Some (if b then 1 else 0)"
| "num_val (PInt i) = Some i"
| "num_val _ = None"

lemma rep_num: "scalar_rep d v (ty, i) \<Longrightarrow> numeric_ty ty \<longleftrightarrow> num_val v \<noteq> None"
  by (cases v) (auto simp: numeric_ty_def ty_codes)

lemma rep_num_val: "scalar_rep d v (ty, i) \<Longrightarrow> num_val v = Some j \<Longrightarrow> i = j"
  by (cases v) auto

lemma num_val_eq:
  "num_val a = Some i \<Longrightarrow> num_val b = Some j \<Longrightarrow> py_eq a b = (i = j)"
  "num_val a = Some i \<Longrightarrow> num_val b = Some j \<Longrightarrow> py_order op a b = Some (ord_of op (i < j) (j < i))"
proof -
  assume a: "num_val a = Some i" "num_val b = Some j"
  then have n: "num_of a = Some (FFin (of_int i))" "num_of b = Some (FFin (of_int j))"
    by (cases a; auto; fail) (use a in \<open>cases b; auto\<close>)
  show "py_eq a b = (i = j)" using py_eq_num(1) [OF n] by simp
  show "py_order op a b = Some (ord_of op (i < j) (j < i))" using py_order_num(1) [OF n] by (simp add: float_order_def)
qed

lemma order_non_num:
  assumes "scalar_rep d a r" "scalar_rep d v q" "num_val a = None \<or> num_val v = None" "\<not> is_str v"
  shows "py_order op a v = None"
  using assms by (subst py_order.simps) (cases a; cases v; auto simp: is_str_def)

lemma eval_atom_rep:
  assumes d: "numbered d" "map_of d '''' = Some 0"
    and a: "scalar_rep d a (ta, va)" "in_i32 va" and v: "scalar_rep d v (tv, vv)" "in_i32 vv"
    and op: "op \<in> {OP_EQ, OP_NE, OP_LT, OP_LE, OP_GT, OP_GE, OP_TRUTHY}" "is_str v \<longrightarrow> op = OP_EQ \<or> op = OP_NE \<or> op = OP_TRUTHY"
  shows "eval_atom \<lparr>pa_field = f, pa_op = op, pa_ty = tv, pa_val = word_of_int vv\<rparr> (ta, word_of_int va) = op_holds op a v"
proof -
  note weq = word_i32_eq [OF a(2) v(2)]
  have eq: "(if numeric_ty ta \<and> numeric_ty tv then va = vv else if ta = TY_STR \<and> tv = TY_STR then va = vv else ta = TY_NONE \<and> tv = TY_NONE)
      = py_eq a v"
  proof (cases "numeric_ty ta \<and> numeric_ty tv")
    case True
    then obtain i j where n: "num_val a = Some i" "num_val v = Some j" using rep_num [OF a(1)] rep_num [OF v(1)] by auto
    then show ?thesis using True num_val_eq(1) [OF n] rep_num_val [OF a(1) n(1)] rep_num_val [OF v(1) n(2)] by simp
  next
    case False
    then show ?thesis using a v numbered_inj [OF d(1)]
      by (cases a; cases v) (auto simp: numeric_ty_def ty_codes py_eq_num)
  qed
  have ord: "(numeric_ty ta \<and> numeric_ty tv \<and> ord_of o' (va < vv) (vv < va)) = (py_order o' a v = Some True)"
    if "\<not> is_str v" for o'
  proof (cases "numeric_ty ta \<and> numeric_ty tv")
    case True
    then obtain i j where n: "num_val a = Some i" "num_val v = Some j" using rep_num [OF a(1)] rep_num [OF v(1)] by auto
    then show ?thesis using True num_val_eq(2) [OF n] rep_num_val [OF a(1) n(1)] rep_num_val [OF v(1) n(2)] by simp
  next
    case False
    then have "num_val a = None \<or> num_val v = None" using rep_num [OF a(1)] rep_num [OF v(1)] by auto
    from order_non_num [OF a(1) v(1) this that] show ?thesis using False by auto
  qed
  have truth: "(if ta = TY_NONE then False else (word_of_int va :: 32 word) \<noteq> 0) = truthy a"
  proof -
    have z: "(word_of_int va = (0 :: 32 word)) = (va = 0)"
      using word_i32_eq [OF a(2), of 0] by (simp add: in_i32_def)
    show ?thesis using a(1) numbered_inj [OF d(1)] d(2) unfolding z by (cases a) (auto simp: ty_codes)
  qed
  consider "op = OP_EQ" | "op = OP_NE" | "op = OP_TRUTHY" | "op \<in> {OP_LT, OP_LE, OP_GT, OP_GE}" "\<not> is_str v"
    using op by (auto simp: op_codes)
  then show ?thesis
  proof cases
    case 4
    note o = ord [OF 4(2), of OLt] ord [OF 4(2), of OLtE] ord [OF 4(2), of OGt] ord [OF 4(2), of OGtE]
    from 4(1) consider "op = OP_LT" | "op = OP_LE" | "op = OP_GT" | "op = OP_GE" by blast
    then show ?thesis
      by cases (auto simp: eval_atom_def op_holds_def op_codes sint_i32 [OF a(2)] sint_i32 [OF v(2)] not_less o [symmetric])
  next
    case 3
    then show ?thesis using truth by (simp add: eval_atom_def op_holds_def op_codes)
  qed (use eq in \<open>auto simp: eval_atom_def op_holds_def op_codes weq numeric_ty_def ty_codes split: if_splits\<close>)
qed

lemma const_cases: "scalar_const (AConst v) \<Longrightarrow> (num_of v = None \<and> (v = PNone \<or> is_str v)) \<or> (\<exists>f. num_of v = Some f)"
  by (cases v) (auto simp: is_str_def)

lemma eq_const_sym: "scalar_const (AConst v) \<Longrightarrow> py_eq a v = py_eq v a"
proof -
  assume v: "scalar_const (AConst v)"
  show ?thesis
  proof (cases "num_of v")
    case None
    then show ?thesis using v by (cases v) auto
  next
    case (Some f)
    then show ?thesis using float_eq_sym by (cases "num_of a") (auto simp: py_eq_num)
  qed
qed

lemma order_const_flip:
  assumes "scalar_const (AConst v)" "\<not> is_str v" "(o1, o2) \<in> {(OLt, OGt), (OLtE, OGtE), (OGt, OLt), (OGtE, OLtE)}"
  shows "py_order o1 a v = py_order o2 v a"
proof (cases "num_of v")
  case None
  then show ?thesis using assms by (cases v) (auto simp: is_str_def)
next
  case (Some f)
  then show ?thesis using assms(3) by (cases "num_of a") (auto simp: py_order_num float_order_def)
qed

lemma op_holds_flip:
  assumes "scalar_const (AConst v)" "op \<in> {OP_EQ, OP_NE, OP_LT, OP_LE, OP_GT, OP_GE}" "is_str v \<longrightarrow> op = OP_EQ \<or> op = OP_NE"
  shows "op_holds (flip op) a v = op_holds op v a"
  using assms(2,3) eq_const_sym [OF assms(1)] order_const_flip [OF assms(1)]
  by (auto simp: op_holds_def flip_def op_codes)

subsection \<open>The truth of a Level M tree\<close>

fun operand :: "ctx \<Rightarrow> ast \<Rightarrow> pyval" where
  "operand c (AConst v) = v"
| "operand c (AName x) = ctx_get c x"
| "operand c (AList es) = PList (map (operand c) es)"
| "operand c (ATuple es) = PList (map (operand c) es)"
| "operand c _ = PNone"

fun lm_truth :: "ctx \<Rightarrow> ast \<Rightarrow> bool" where
  "lm_truth c (AUnary UNot n) = (\<not> lm_truth c n)"
| "lm_truth c (ABoolOp b vs) = (if b = BAnd then list_all (lm_truth c) vs else list_ex (lm_truth c) vs)"
| "lm_truth c (ACompare l (op # ops) (r # rs)) = (py_compare op (operand c l) (operand c r) = Inr True)"
| "lm_truth c n = truthy (operand c n)"

fun plain_operand :: "ast \<Rightarrow> bool" where
  "plain_operand (AConst v) = True"
| "plain_operand (AName x) = True"
| "plain_operand (AList es) = list_all is_const es"
| "plain_operand (ATuple es) = list_all is_const es"
| "plain_operand _ = False"

lemma consts_operand:
  assumes "list_all is_const es" "emap (ev c d) es = Inr vs"
  shows "vs = map (operand c) es"
proof (rule nth_equalityI)
  show "length vs = length (map (operand c) es)" using assms(2) by (simp add: emap_Inr_iff)
  fix i assume "i < length vs"
  then have i: "i < length es" "ev c d (es ! i) = Inr (vs ! i)" using assms(2) by (simp_all add: emap_Inr_iff)
  then have "is_const (es ! i)" using assms(1) by (simp add: list_all_length)
  then show "vs ! i = map (operand c) es ! i" using i by (cases "es ! i") (auto simp: ev_node split: if_splits)
qed

lemma ev_operand: "plain_operand n \<Longrightarrow> ev c d n = Inr v \<Longrightarrow> v = operand c n"
  by (cases n) (auto simp: ev_node ebind_eq_Inr dest: consts_operand split: if_splits)

lemma scalar_is_const: "scalar_const n \<Longrightarrow> is_const n"
  by (cases n) auto

lemma classified_operands:
  assumes "atom_reason (ACompare l [op] (r # rs)) = None"
  shows "plain_operand l" "plain_operand r" "op \<notin> {CIs, CIsNot}"
proof -
  have name: "is_name n \<Longrightarrow> plain_operand n" for n by (cases n) auto
  have const: "scalar_const n \<Longrightarrow> plain_operand n" for n by (cases n) auto
  have coll: "collection n = Some es \<Longrightarrow> list_all (\<lambda>e. collection e = None \<and> scalar_const e) es \<Longrightarrow> plain_operand n" for n es
    by (cases n) (auto simp: list_all_iff scalar_is_const)
  have "plain_operand l \<and> plain_operand r \<and> op \<notin> {CIs, CIsNot}"
    using assms name const coll unfolding atom_reason_None by fastforce
  then show "plain_operand l" "plain_operand r" "op \<notin> {CIs, CIsNot}" by auto
qed

lemma ev_chain_truth:
  "ev_chain c d lv ops cs = Inr v \<Longrightarrow> length ops = length cs \<Longrightarrow> lv = operand c l \<Longrightarrow>
   \<forall>p \<in> set (chain_pairs l ops cs). atom_reason p = None \<Longrightarrow>
   truthy v = (\<forall>p \<in> set (chain_pairs l ops cs). lm_truth c p)"
proof (induction ops cs arbitrary: l lv rule: list_induct2')
  case (4 op ops r cs)
  have pr: "chain_pairs l (op # ops) (r # cs) = ACompare l [op] [r] # chain_pairs r ops cs"
    by (simp add: chain_pairs_Cons)
  have cl: "plain_operand r" using 4 classified_operands(2) unfolding pr by fastforce
  from 4(2) obtain rv ok where ev: "ev c (Suc d) r = Inr rv" "py_compare op lv rv = Inr ok"
    and v: "if ok then ev_chain c d rv ops cs = Inr v else v = PBool False"
    by (auto simp: ebind_eq_Inr split: if_splits)
  have rv: "rv = operand c r" by (rule ev_operand [OF cl ev(1)])
  show ?case
  proof (cases ok)
    case True
    then have "truthy v = (\<forall>p \<in> set (chain_pairs r ops cs). lm_truth c p)"
      using 4 v rv unfolding pr by (intro 4(1)) auto
    then show ?thesis using True ev(2) rv 4(4) by (simp add: pr)
  next
    case False
    then show ?thesis using v ev(2) rv 4(4) by (simp add: pr)
  qed
qed (auto simp: chain_pairs_def)

lemma ev_lm_truth:
  "ev c d n = Inr v \<Longrightarrow> ast_wf n \<Longrightarrow> classify (desugar_chains n) = None \<Longrightarrow> lm_truth c (desugar_chains n) = truthy v"
proof (induction n arbitrary: d v rule: desugar_chains.induct)
  case (1 b vs)
  then obtain ws where ws: "emap (ev c (Suc d)) vs = Inr ws"
    "v = PBool (if b = BAnd then list_all truthy ws else list_ex truthy ws)"
    by (auto simp: ev_node ebind_eq_Inr split: if_splits)
  have "lm_truth c (desugar_chains (vs ! i)) = truthy (ws ! i)" if "i < length vs" for i
    by (rule 1(1)) (use that ws(1) 1(3,4) in \<open>auto simp: emap_Inr_iff list_all_length first_some_None\<close>)
  moreover have "length ws = length vs" using ws(1) by (simp add: emap_Inr_iff)
  ultimately have "list_all (\<lambda>x. lm_truth c (desugar_chains x)) vs = list_all truthy ws"
    "list_ex (\<lambda>x. lm_truth c (desugar_chains x)) vs = list_ex truthy ws"
    by (auto simp: list_all_length list_ex_length)
  then show ?case using ws(2) by (simp add: list.pred_map list_ex_iff list_all_iff comp_def)
next
  case (2 n)
  then show ?case by (auto simp: ev_node ebind_eq_Inr split: if_splits)
next
  case (3 l ops cs)
  then obtain lv where lv: "ev c (Suc d) l = Inr lv" "ev_chain c d lv ops cs = Inr v"
    by (auto simp: ev_node ebind_eq_Inr split: if_splits)
  have len: "length ops = length cs" using 3(2) by simp
  show ?case
  proof (cases "length ops > 1")
    case True
    then have all: "\<forall>p \<in> set (chain_pairs l ops cs). atom_reason p = None"
      using 3(3) by (auto simp: first_some_None chain_pairs_def)
    obtain op ops' r cs' where ops: "ops = op # ops'" "cs = r # cs'" using True len by (cases ops; cases cs) auto
    have "plain_operand l" using all classified_operands(1) [of l op r "[]"] by (simp add: ops chain_pairs_Cons)
    from ev_chain_truth [OF lv(2) len ev_operand [OF this lv(1)] all] True
    show ?thesis by (simp add: list_all_iff)
  next
    case False
    with 3(3) len obtain op r where ops: "ops = [op]" "cs = [r]"
      by (cases ops; cases cs; auto)
    have all: "\<forall>p \<in> set (chain_pairs l ops cs). atom_reason p = None"
      using 3(3) by (simp add: ops chain_pairs_def)
    then have "plain_operand l" using classified_operands(1) [of l op r "[]"] by (simp add: ops chain_pairs_Cons)
    from ev_chain_truth [OF lv(2) len ev_operand [OF this lv(1)] all]
    show ?thesis by (simp add: ops chain_pairs_def)
  qed
qed (auto simp: ev_node split: if_splits)

subsection \<open>Images under construction\<close>

definition atom_ok :: "nat \<Rightarrow> atom_key \<Rightarrow> bool" where
  "atom_ok n k \<longleftrightarrow> (case k of (f, op, ty, val) \<Rightarrow> f < n \<and> op \<in> set OPS \<and> ty \<in> set TYPES)"

definition img_ok :: "table_image \<Rightarrow> bool" where
  "img_ok img \<longleftrightarrow> numbered (ti_fields img) \<and> numbered (ti_intern img) \<and> map_of (ti_intern img) '''' = Some 0 \<and>
     list_all (atom_ok (length (ti_fields img))) (ti_atoms img)"

definition extends :: "table_image \<Rightarrow> table_image \<Rightarrow> bool" where
  "extends img img' \<longleftrightarrow> prefix (ti_fields img) (ti_fields img') \<and> prefix (ti_intern img) (ti_intern img') \<and>
     prefix (ti_atoms img) (ti_atoms img')"

lemma extends_refl [simp]: "extends img img"
  by (simp add: extends_def)

lemma extends_trans: "extends a b \<Longrightarrow> extends b c \<Longrightarrow> extends a c"
  unfolding extends_def by (meson prefix_order.trans)

lemma img_ok_new [simp]: "img_ok (new_image n)"
  by (simp add: img_ok_def new_image_def numbered_def)

lemma img_ok_update [simp]:
  "img_ok (img\<lparr>ti_nodes := a\<rparr>) = img_ok img" "img_ok (img\<lparr>ti_node_colors := b\<rparr>) = img_ok img"
  "img_ok (img\<lparr>ti_skipped := d\<rparr>) = img_ok img" "img_ok (img\<lparr>ti_start := e\<rparr>) = img_ok img"
  "img_ok (img\<lparr>ti_stateful := f\<rparr>) = img_ok img" "img_ok (img\<lparr>ti_safe_node := g\<rparr>) = img_ok img"
  "img_ok (img\<lparr>ti_migrate_by_name := h\<rparr>) = img_ok img"
  by (simp_all add: img_ok_def atom_ok_def)

lemma extends_update [simp]:
  "extends img (img'\<lparr>ti_nodes := a\<rparr>) = extends img img'" "extends img (img'\<lparr>ti_node_colors := b\<rparr>) = extends img img'"
  "extends img (img'\<lparr>ti_skipped := d\<rparr>) = extends img img'" "extends img (img'\<lparr>ti_start := e\<rparr>) = extends img img'"
  "extends img (img'\<lparr>ti_stateful := f\<rparr>) = extends img img'" "extends img (img'\<lparr>ti_safe_node := g\<rparr>) = extends img img'"
  "extends img (img'\<lparr>ti_migrate_by_name := h\<rparr>) = extends img img'"
  "extends (img\<lparr>ti_skipped := d\<rparr>) img' = extends img img'" "extends (img\<lparr>ti_nodes := a\<rparr>) img' = extends img img'"
  "extends (img\<lparr>ti_node_colors := b\<rparr>) img' = extends img img'"
  by (simp_all add: extends_def)

lemma field_index_ok:
  assumes "field_index x img = (i, img')" "img_ok img"
  shows "img_ok img'" "extends img img'" "map_of (ti_fields img') x = Some i"
proof -
  have f: "numbered (ti_fields img)" using assms(2) by (simp add: img_ok_def)
  show "img_ok img'" "extends img img'" "map_of (ti_fields img') x = Some i"
    using assms numbered_snoc [OF f, of x]
    by (auto simp: field_index_def img_ok_def extends_def atom_ok_def list_all_iff map_add_def split: option.splits) fastforce
qed

lemma position_Some: "position x xs = Some i \<Longrightarrow> i < length xs \<and> xs ! i = x"
  by (induction xs arbitrary: i) (auto split: if_splits)

lemma atom_index_ok:
  assumes "atom_index k img = (i, img')" "img_ok img" "atom_ok (length (ti_fields img)) k"
  shows "img_ok img'" "extends img img'" "i < length (ti_atoms img')" "ti_atoms img' ! i = k"
  using assms by (auto simp: atom_index_def img_ok_def extends_def atom_ok_def dest: position_Some split: option.splits)

lemma scalar_atom_ok:
  assumes "scalar_atom f op v img = Inr (w, img')" "img_ok img" "f < length (ti_fields img)" "op \<in> set OPS"
  shows "img_ok img'" "extends img img'" "w < length (ti_atoms img')" "ti_fields img' = ti_fields img"
    "\<exists>r. ti_atoms img' ! w = (f, op, fst r, snd r) \<and> scalar_rep (ti_intern img') v r"
proof -
  obtain ty val d where e: "encode_scalar v (ti_intern img) = Inr ((ty, val), d)"
    and a: "atom_index (f, op, ty, val) (img\<lparr>ti_intern := d\<rparr>) = (w, img')"
    using assms(1) by (auto simp: scalar_atom_def ebind_eq_Inr)
  have n: "numbered (ti_intern img)" "map_of (ti_intern img) '''' = Some 0" using assms(2) by (auto simp: img_ok_def)
  note r = encode_scalar_rep [OF e n(1)]
  have ty: "ty \<in> set TYPES" using r(1) by (cases v) (auto simp: TYPES_def ty_codes)
  have mid: "img_ok (img\<lparr>ti_intern := d\<rparr>)" "extends img (img\<lparr>ti_intern := d\<rparr>)"
    using assms(2) r map_of_prefix [OF r(3) n(2)] by (auto simp: img_ok_def extends_def atom_ok_def)
  have k: "atom_ok (length (ti_fields (img\<lparr>ti_intern := d\<rparr>))) (f, op, ty, val)" using assms(3,4) ty by (simp add: atom_ok_def)
  note out = atom_index_ok [OF a mid(1) k]
  have same: "ti_intern img' = d" "ti_fields img' = ti_fields img" using a by (auto simp: atom_index_def split: option.splits)
  show "img_ok img'" "extends img img'" "w < length (ti_atoms img')" "ti_fields img' = ti_fields img"
    "\<exists>r. ti_atoms img' ! w = (f, op, fst r, snd r) \<and> scalar_rep (ti_intern img') v r"
    using out extends_trans [OF mid(2) out(2)] r(1) same by auto
qed

subsection \<open>Running a compiled program\<close>

definition loaded_atoms :: "atom_key list \<Rightarrow> ppt_atom list" where
  "loaded_atoms ks = map (\<lambda>(f, op, ty, val). \<lparr>pa_field = f, pa_op = op, pa_ty = ty, pa_val = word_of_int val\<rparr>) ks"

definition loaded_regs :: "(nat \<times> int) list \<Rightarrow> register list" where
  "loaded_regs rs = map (\<lambda>(ty, val). (ty, word_of_int val)) rs"

text \<open>A finished image, and a row of registers encoded against it, as the packed formats admit them.\<close>

definition admitted :: "table_image \<Rightarrow> ctx \<Rightarrow> (nat \<times> int) list \<Rightarrow> bool" where
  "admitted I c rs \<longleftrightarrow> img_ok I \<and> length (ti_atoms I) \<le> 0x8000 \<and> list_all (\<lambda>(f, op, ty, val). in_i32 val) (ti_atoms I) \<and>
     list_all (\<lambda>(ty, val). in_i32 val) rs \<and> (\<exists>d. encode_row (by_register I) c (ti_intern I) = Inr (rs, d))"

lemma encode_row_rep:
  assumes "encode_row fs c d = Inr (rs, d')" "numbered d"
  shows "numbered d'" "prefix d d'" "length rs = length fs" "\<forall>i < length fs. scalar_rep d' (ctx_get c (fs ! i)) (rs ! i)"
proof -
  have "numbered d' \<and> prefix d d' \<and> length rs = length fs \<and> (\<forall>i < length fs. scalar_rep d' (ctx_get c (fs ! i)) (rs ! i))"
    using assms
  proof (induction fs arbitrary: d rs)
    case (Cons f fs)
    then obtain r d1 rs' where e: "encode_scalar (ctx_get c f) d = Inr (r, d1)" and rs: "rs = r # rs'"
      and row: "encode_row fs c d1 = Inr (rs', d')" by (auto simp: ebind_eq_Inr)
    note s = encode_scalar_rep [OF e Cons.prems(2)]
    note ih = Cons.IH [OF row s(2)]
    have "scalar_rep d' (ctx_get c ((f # fs) ! i)) (rs ! i)" if "i < length (f # fs)" for i
      using that ih scalar_rep_prefix [OF s(1)] rs by (cases i) auto
    then show ?case using ih s(3) rs by (auto intro: prefix_order.trans)
  qed simp
  then show "numbered d'" "prefix d d'" "length rs = length fs" "\<forall>i < length fs. scalar_rep d' (ctx_get c (fs ! i)) (rs ! i)"
    by auto
qed

lemma by_register_fields: "numbered (ti_fields img) \<Longrightarrow> by_register img = map fst (ti_fields img)"
  by (simp add: by_register_def numbered_def sort_key_id_if_sorted)

lemma atom_result_holds:
  assumes "admitted I c rs" "extends img I" "map_of (ti_fields img) x = Some f" "w < length (ti_atoms img)"
    and "ti_atoms img ! w = (f, op, fst r, snd r)" "scalar_rep (ti_intern img) v r"
    and "op \<in> set OPS" "is_str v \<longrightarrow> op = OP_EQ \<or> op = OP_NE \<or> op = OP_TRUTHY"
  shows "atom_result (loaded_atoms (ti_atoms I)) (loaded_regs rs) w = Inr (op_holds op (ctx_get c x) v)"
proof -
  obtain d where ok: "img_ok I" and row: "encode_row (by_register I) c (ti_intern I) = Inr (rs, d)"
    and i32: "list_all (\<lambda>(f, op, ty, val). in_i32 val) (ti_atoms I)" "list_all (\<lambda>(ty, val). in_i32 val) rs"
    using assms(1) by (auto simp: admitted_def)
  have n: "numbered (ti_fields I)" "numbered (ti_intern I)" "map_of (ti_intern I) '''' = Some 0" using ok by (auto simp: img_ok_def)
  note rep = encode_row_rep [OF row n(2)]
  have pre: "prefix (ti_fields img) (ti_fields I)" "prefix (ti_intern img) (ti_intern I)" "prefix (ti_atoms img) (ti_atoms I)"
    using assms(2) by (auto simp: extends_def)
  have w: "w < length (ti_atoms I)" "ti_atoms I ! w = (f, op, fst r, snd r)"
    using assms(4,5) pre(3) by (auto simp: prefix_def nth_append)
  have fI: "f < length (ti_fields I)" "fst (ti_fields I ! f) = x"
    using map_of_prefix [OF pre(1) assms(3)] numbered_map_of [OF n(1)] by auto
  have len: "length rs = length (ti_fields I)" using rep(3) by (simp add: by_register_fields [OF n(1)])
  have reg: "scalar_rep d (ctx_get c x) (rs ! f)"
    using rep(4) fI by (auto simp: by_register_fields [OF n(1)])
  have con: "scalar_rep d v r" using scalar_rep_prefix [OF scalar_rep_prefix [OF assms(6) pre(2)] rep(2)] .
  have r1: "in_i32 (snd r)" using i32(1) w by (cases r) (auto simp: list_all_length)
  have r2: "in_i32 (snd (rs ! f))" using i32(2) fI(1) len by (auto simp: list_all_length split: prod.splits) (metis prod.collapse)
  have op: "op \<in> {OP_EQ, OP_NE, OP_LT, OP_LE, OP_GT, OP_GE, OP_TRUTHY}" using assms(7) by (auto simp: OPS_def op_codes)
  obtain ta va where ta: "rs ! f = (ta, va)" by fastforce
  have d0: "map_of d '''' = Some 0" by (rule map_of_prefix [OF rep(2) n(3)])
  have "eval_atom \<lparr>pa_field = f, pa_op = op, pa_ty = fst r, pa_val = word_of_int (snd r)\<rparr> (ta, word_of_int va) = op_holds op (ctx_get c x) v"
    by (rule eval_atom_rep [OF rep(1) d0 _ _ _ r1 op assms(8)]) (use reg con r2 ta in auto)
  then show ?thesis using w fI(1) len ta by (cases r) (simp add: atom_result_def loaded_atoms_def loaded_regs_def)
qed

subsection \<open>The height of the stack\<close>

definition delta :: "nat \<Rightarrow> int" where
  "delta w = (if w < 0x8000 \<or> w \<in> {OPC_TRUE, OPC_FALSE} then 1 else if w \<in> {OPC_AND, OPC_OR} then - 1 else 0)"

definition net :: "nat list \<Rightarrow> int" where
  "net prog = sum_list (map delta prog)"

fun rise :: "nat list \<Rightarrow> int" where
  "rise [] = 0"
| "rise (w # ws) = max 0 (delta w + rise ws)"

lemma net_simps [simp]: "net [] = 0" "net (w # ws) = delta w + net ws" "net (p @ q) = net p + net q"
  by (simp_all add: net_def)

lemma rise_nonneg [simp]: "0 \<le> rise p"
  by (cases p) auto

lemma rise_append: "rise (p @ q) = max (rise p) (net p + rise q)"
  by (induction p) auto

lemma net_le_rise: "net p \<le> rise p"
  using rise_append [of p "[]"] by simp

lemma depth_loop_rise: "depth \<le> peak \<Longrightarrow> depth_loop depth peak prog = (depth + net prog, max peak (depth + rise prog))"
proof (induction prog arbitrary: depth peak)
  case (Cons w prog)
  have "(if w < 0x8000 \<or> w \<in> {OPC_TRUE, OPC_FALSE} then depth + 1
      else if w \<in> {OPC_AND, OPC_OR} then depth - 1 else depth) = depth + delta w" by (simp add: delta_def)
  then have "depth_loop depth peak (w # prog) = depth_loop (depth + delta w) (max peak (depth + delta w)) prog"
    by (simp only: depth_loop.simps Let_def)
  also have "\<dots> = (depth + delta w + net prog, max (max peak (depth + delta w)) (depth + delta w + rise prog))"
    by (rule Cons.IH) simp
  also have "max (max peak (depth + delta w)) (depth + delta w + rise prog) = max peak (depth + rise (w # prog))"
    using Cons.prems rise_nonneg [of prog] unfolding rise.simps by linarith
  finally show ?case by (simp only: net_simps add.assoc)
qed simp

lemma stack_depth_rise: "stack_depth prog = (if net prog = 1 then Inr (rise prog) else Inl ValueError)"
  by (simp add: stack_depth_def depth_loop_rise)

lemma opcode_delta [simp]:
  "delta OPC_NOT = 0" "delta OPC_AND = - 1" "delta OPC_OR = - 1" "delta OPC_TRUE = 1" "delta OPC_FALSE = 1"
  "w < 0x8000 \<Longrightarrow> delta w = 1"
  by (simp_all add: delta_def OPC_NOT_def OPC_AND_def OPC_OR_def OPC_TRUE_def OPC_FALSE_def)

lemma exec_append:
  "exec_words limit A R (p @ q) stack = ebind (exec_words limit A R p stack) (exec_words limit A R q)"
proof (induction p arbitrary: stack)
  case (Cons w p)
  then show ?case by (cases "exec_word limit A R w stack") auto
qed simp

lemma exec_opcode [simp]:
  "exec_word limit A R OPC_NOT (a # s) = Inr ((\<not> a) # s)"
  "exec_word limit A R OPC_AND (b # a # s) = Inr ((a \<and> b) # s)"
  "exec_word limit A R OPC_OR (b # a # s) = Inr ((a \<or> b) # s)"
  "length s < limit \<Longrightarrow> exec_word limit A R OPC_TRUE s = Inr (True # s)"
  "length s < limit \<Longrightarrow> exec_word limit A R OPC_FALSE s = Inr (False # s)"
  by (simp_all add: exec_word_def stack_push_def OPC_NOT_def OPC_AND_def OPC_OR_def OPC_TRUE_def OPC_FALSE_def)

text \<open>
  A program computes a truth when, in every admitted image over the one it was compiled into, it pushes
  that truth on any stack that has room; a tail combines a truth already on the stack.
\<close>

definition computes :: "table_image \<Rightarrow> nat list \<Rightarrow> (ctx \<Rightarrow> bool) \<Rightarrow> bool" where
  "computes img prog P \<longleftrightarrow> net prog = 1 \<and> (\<forall>I c rs limit stack. extends img I \<longrightarrow> admitted I c rs \<longrightarrow>
     int (length stack) + rise prog \<le> int limit \<longrightarrow>
     exec_words limit (loaded_atoms (ti_atoms I)) (loaded_regs rs) prog stack = Inr (P c # stack))"

definition combines :: "table_image \<Rightarrow> nat list \<Rightarrow> (ctx \<Rightarrow> bool \<Rightarrow> bool) \<Rightarrow> bool" where
  "combines img prog F \<longleftrightarrow> net prog = 0 \<and> (\<forall>I c rs limit b stack. extends img I \<longrightarrow> admitted I c rs \<longrightarrow>
     int (length stack) + 1 + rise prog \<le> int limit \<longrightarrow>
     exec_words limit (loaded_atoms (ti_atoms I)) (loaded_regs rs) prog (b # stack) = Inr (F c b # stack))"

lemma computes_extends: "computes img prog P \<Longrightarrow> extends img img' \<Longrightarrow> computes img' prog P"
  unfolding computes_def using extends_trans by blast

lemma combines_extends: "combines img prog F \<Longrightarrow> extends img img' \<Longrightarrow> combines img' prog F"
  unfolding combines_def using extends_trans by blast

lemma computes_cong: "computes img prog P \<Longrightarrow> (\<And>c. P c = Q c) \<Longrightarrow> computes img prog Q"
  by (simp add: computes_def)

lemma computes_atom:
  assumes "map_of (ti_fields img) x = Some f" "w < length (ti_atoms img)"
    and "ti_atoms img ! w = (f, op, fst r, snd r)" "scalar_rep (ti_intern img) v r"
    and "op \<in> set OPS" "is_str v \<longrightarrow> op = OP_EQ \<or> op = OP_NE \<or> op = OP_TRUTHY" "length (ti_atoms img) \<le> 0x8000"
  shows "computes img [w] (\<lambda>c. op_holds op (ctx_get c x) v)"
  unfolding computes_def
proof (intro conjI allI impI)
  have w: "w < 0x8000" using assms(2,7) by simp
  then show "net [w] = 1" by simp
  fix I c rs limit and stack :: "bool list"
  assume a: "extends img I" "admitted I c rs" "int (length stack) + rise [w] \<le> int limit"
  from atom_result_holds [OF a(2,1) assms(1-6)] a(3) w
  show "exec_words limit (loaded_atoms (ti_atoms I)) (loaded_regs rs) [w] stack = Inr (op_holds op (ctx_get c x) v # stack)"
    by (simp add: exec_word_def)
qed

lemma computes_not: "computes img p P \<Longrightarrow> computes img (p @ [OPC_NOT]) (\<lambda>c. \<not> P c)"
  unfolding computes_def by (auto simp: exec_append rise_append)

lemma computes_const: "computes img [OPC_TRUE] (\<lambda>c. True)" "computes img [OPC_FALSE] (\<lambda>c. False)"
  by (auto simp: computes_def)

lemma combines_Nil: "combines img [] (\<lambda>c b. b)"
  by (simp add: combines_def)

text \<open>The two binary opcodes as functions.\<close>

definition bop :: "nat \<Rightarrow> bool \<Rightarrow> bool \<Rightarrow> bool" where
  "bop opc a b = (if opc = OPC_AND then a \<and> b else a \<or> b)"

lemma exec_bop: "opc = OPC_AND \<or> opc = OPC_OR \<Longrightarrow> exec_word limit A R opc (b # a # s) = Inr (bop opc a b # s)"
  using exec_opcode(2,3) by (auto simp: bop_def OPC_AND_def OPC_OR_def)

lemma combines_Cons:
  assumes "computes img p P" "combines img q F" "opc = OPC_AND \<or> opc = OPC_OR"
  shows "combines img (p @ opc # q) (\<lambda>c b. F c (bop opc b (P c)))"
proof -
  have d: "delta opc = - 1" using assms(3) by auto
  have r: "rise (p @ opc # q) = max (rise p) (1 + max 0 (- 1 + rise q))"
    using assms(1) d by (simp add: rise_append computes_def)
  show ?thesis
    using assms(1,2) r d by (auto simp: combines_def computes_def exec_append exec_bop [OF assms(3)])
qed

lemma computes_combines: "computes img p P \<Longrightarrow> combines img q F \<Longrightarrow> computes img (p @ q) (\<lambda>c. F c (P c))"
  by (auto simp: combines_def computes_def exec_append rise_append)

subsection \<open>The compiler's programs\<close>

lemma extends_atoms: "extends img img' \<Longrightarrow> length (ti_atoms img') \<le> n \<Longrightarrow> length (ti_atoms img) \<le> n"
  unfolding extends_def by (meson le_trans prefix_length_le)

lemma extends_field: "extends img img' \<Longrightarrow> map_of (ti_fields img) x = Some i \<Longrightarrow> map_of (ti_fields img') x = Some i"
  unfolding extends_def by (blast intro: map_of_prefix)

lemma field_lt: "img_ok img \<Longrightarrow> map_of (ti_fields img) x = Some f \<Longrightarrow> f < length (ti_fields img)"
  by (auto simp: img_ok_def numbered_lt)

lemma scalar_atom_computes:
  assumes "scalar_atom f op v img = Inr (w, img')" "img_ok img" "map_of (ti_fields img) x = Some f" "op \<in> set OPS"
    and "is_str v \<longrightarrow> op = OP_EQ \<or> op = OP_NE" "length (ti_atoms img') \<le> 0x8000"
  shows "img_ok img'" "extends img img'" "computes img' [w] (\<lambda>c. op_holds op (ctx_get c x) v)"
proof -
  note s = scalar_atom_ok [OF assms(1,2) field_lt [OF assms(2,3)] assms(4)]
  obtain r where r: "ti_atoms img' ! w = (f, op, fst r, snd r)" "scalar_rep (ti_intern img') v r" using s(5) by blast
  show "img_ok img'" "extends img img'" using s by auto
  show "computes img' [w] (\<lambda>c. op_holds op (ctx_get c x) v)"
    by (rule computes_atom [OF _ s(3) r assms(4) _ assms(6)]) (use s(4) assms(3,5) in auto)
qed

lemma members_computes:
  assumes "prog_members f first es img = Inr (prog, img')" "img_ok img" "map_of (ti_fields img) x = Some f"
    and "list_all scalar_const es" "length (ti_atoms img') \<le> 0x8000"
  shows "img_ok img' \<and> extends img img' \<and>
    (if first then es \<noteq> [] \<longrightarrow> computes img' prog (\<lambda>c. list_ex (\<lambda>e. py_eq (ctx_get c x) (operand c e)) es)
     else combines img' prog (\<lambda>c b. b \<or> list_ex (\<lambda>e. py_eq (ctx_get c x) (operand c e)) es))"
  using assms
proof (induction es arbitrary: first img prog)
  case Nil
  then show ?case using combines_Nil by simp
next
  case (Cons e es)
  obtain v where e: "e = AConst v" using Cons.prems(4) scalar_is_const [of e] by (cases e) auto
  obtain w img1 ws where w: "scalar_atom f OP_EQ v img = Inr (w, img1)"
    and ws: "prog_members f False es img1 = Inr (ws, img')" and prog: "prog = w # (if first then [] else [OPC_OR]) @ ws"
    using Cons.prems(1) by (auto simp: e ebind_eq_Inr)
  have len1: "length (ti_atoms img1) \<le> 0x8000" if "extends img1 img'" using extends_atoms [OF that Cons.prems(5)] .
  have ok1: "img_ok img1" "extends img img1"
    using scalar_atom_ok [OF w Cons.prems(2) field_lt [OF Cons.prems(2,3)]] by (auto simp: OPS_def op_codes)
  have ih: "img_ok img' \<and> extends img1 img' \<and> combines img' ws (\<lambda>c b. b \<or> list_ex (\<lambda>e. py_eq (ctx_get c x) (operand c e)) es)"
    using Cons.IH [OF ws ok1(1) extends_field [OF ok1(2) Cons.prems(3)]] Cons.prems(4,5) by simp
  have "computes img1 [w] (\<lambda>c. op_holds OP_EQ (ctx_get c x) v)"
    by (rule scalar_atom_computes [OF w Cons.prems(2,3)]) (use len1 ih in \<open>auto simp: OPS_def op_codes\<close>)
  then have c: "computes img' [w] (\<lambda>c. op_holds OP_EQ (ctx_get c x) v)" using computes_extends ih by blast
  have "combines img' ([w] @ OPC_OR # ws) (\<lambda>c b. bop OPC_OR b (op_holds OP_EQ (ctx_get c x) v)
      \<or> list_ex (\<lambda>e. py_eq (ctx_get c x) (operand c e)) es)"
    by (rule combines_Cons [OF c]) (use ih in auto)
  moreover have "computes img' ([w] @ ws) (\<lambda>c. op_holds OP_EQ (ctx_get c x) v \<or> list_ex (\<lambda>e. py_eq (ctx_get c x) (operand c e)) es)"
    by (rule computes_combines [OF c]) (use ih in auto)
  moreover have "bop OPC_OR b d = (b \<or> d)" for b d by (simp add: bop_def OPC_AND_def OPC_OR_def)
  ultimately show ?case using ih extends_trans [OF ok1(2)] prog by (auto simp: e op_holds_def disj_assoc)
qed

lemma membership_truth:
  assumes "op = CIn \<or> op = CNotIn" "collection r = Some es" "list_all scalar_const es"
  shows "lm_truth c (ACompare (AName x) (op # ops) (r # rs))
     = ((op = CNotIn) \<noteq> list_ex (\<lambda>e. py_eq (ctx_get c x) (operand c e)) es)"
proof -
  have r: "operand c r = PList (map (operand c) es)" using assms(2) by (cases r) auto
  have "py_same (operand c e) a = py_eq a (operand c e)" if mem: "e \<in> set es" for e a
  proof -
    from mem assms(3) have sc: "scalar_const e" by (simp add: list_all_iff)
    then obtain v where e: "e = AConst v" by (cases e) auto
    have "same_nan v a = False" using sc by (cases v; cases a) (auto simp: e)
    then show ?thesis using eq_const_sym [of v a] sc by (simp add: e py_same_def)
  qed
  then have "list_ex (\<lambda>y. py_same y (ctx_get c x)) (map (operand c) es) = list_ex (\<lambda>e. py_eq (ctx_get c x) (operand c e)) es"
    by (simp add: list_ex_iff)
  then show ?thesis using assms(1) by (auto simp: r)
qed

lemma compare_truth:
  assumes "ast_op op = Some opc" "op \<notin> {CIn, CNotIn}"
  shows "(py_compare op a b = Inr True) = op_holds opc a b"
  using assms by (cases op) (auto simp: op_holds_def op_codes)

lemma ast_op_codes: "ast_op op = Some opc \<Longrightarrow> opc \<in> {OP_EQ, OP_NE, OP_LT, OP_LE, OP_GT, OP_GE} \<and>
    (order_cmp op \<longleftrightarrow> opc \<noteq> OP_EQ \<and> opc \<noteq> OP_NE)"
  by (cases op) (auto simp: order_cmp_def op_codes)

lemma codes_OPS: "opc \<in> {OP_EQ, OP_NE, OP_LT, OP_LE, OP_GT, OP_GE} \<Longrightarrow> opc \<in> set OPS \<and> flip opc \<in> set OPS \<and>
    (flip opc = OP_EQ \<longleftrightarrow> opc = OP_EQ) \<and> (flip opc = OP_NE \<longleftrightarrow> opc = OP_NE)"
  by (auto simp: OPS_def op_codes flip_def)

lemma compare_computes:
  assumes "prog_compare l op r img = Inr (prog, img')" "img_ok img" "atom_reason (ACompare l [op] (r # rs)) = None"
    and "length (ti_atoms img') \<le> 0x8000"
  shows "img_ok img' \<and> extends img img' \<and> computes img' prog (\<lambda>c. lm_truth c (ACompare l [op] (r # rs)))"
proof -
  from assms(3) consider
      (member) es where "op = CIn \<or> op = CNotIn" "is_name l" "collection r = Some es" "list_all scalar_const es"
    | (left) "op \<notin> {CIn, CNotIn, CIs, CIsNot}" "is_name l" "scalar_const r" "\<not> (order_cmp op \<and> is_str_const r)"
    | (right) "op \<notin> {CIn, CNotIn, CIs, CIsNot}" "\<not> is_name l" "is_name r" "scalar_const l" "\<not> (order_cmp op \<and> is_str_const l)"
    unfolding atom_reason_None by (auto simp: list_all_iff) (cases l; auto)+
  then show ?thesis
  proof cases
    case member
    obtain x where x: "l = AName x" using member(2) by (cases l) auto
    obtain f img1 where f: "field_index x img = (f, img1)" by fastforce
    note i1 = field_index_ok [OF f assms(2)]
    obtain p where p: "(if es = [] then Inr ([OPC_FALSE], img1) else prog_members f True es img1) = Inr (p, img')"
      and prog: "prog = p @ (if op = CNotIn then [OPC_NOT] else [])"
      using assms(1) member(1,3) by (auto simp: prog_compare_def prog_membership_def x f ebind_eq_Inr Let_def split: if_splits)
    let ?L = "\<lambda>c. list_ex (\<lambda>e. py_eq (ctx_get c x) (operand c e)) es"
    have c: "img_ok img' \<and> extends img1 img' \<and> computes img' p ?L"
    proof (cases "es = []")
      case True
      then show ?thesis using p i1(1) computes_const(2) by simp
    next
      case False
      then show ?thesis using p members_computes [OF _ i1(1,3) member(4) assms(4), of True p] by simp
    qed
    have "computes img' prog (\<lambda>c. (op = CNotIn) \<noteq> ?L c)"
    proof (cases "op = CNotIn")
      case True
      then show ?thesis using c computes_not [of img' p ?L] prog by simp
    next
      case False
      then show ?thesis using c prog by simp
    qed
    then show ?thesis using c extends_trans [OF i1(2)] membership_truth [OF member(1,3,4)] unfolding x
      by (auto intro: computes_cong)
  next
    case left
    obtain x v where x: "l = AName x" "r = AConst v" using left(2,3) scalar_is_const [of r] by (cases l; cases r) auto
    obtain f img1 where f: "field_index x img = (f, img1)" by fastforce
    note i1 = field_index_ok [OF f assms(2)]
    obtain opc where opc: "ast_op op = Some opc" using left(1) by (cases op) auto
    obtain w where w: "scalar_atom f opc v img1 = Inr (w, img')" and prog: "prog = [w]"
      using assms(1) left(1) by (auto simp: prog_compare_def x f opc ebind_eq_Inr)
    note codes = ast_op_codes [OF opc]
    have str: "is_str v \<longrightarrow> opc = OP_EQ \<or> opc = OP_NE" using left(4) codes x by (auto simp: is_str_def)
    note s = scalar_atom_computes [OF w i1(1,3) _ str assms(4)]
    have "opc \<in> set OPS" using codes codes_OPS by blast
    from s [OF this] show ?thesis using extends_trans [OF i1(2)] compare_truth [OF opc] left(1) unfolding x prog
      by (auto intro: computes_cong)
  next
    case right
    obtain x v where x: "r = AName x" "l = AConst v" using right(3,4) scalar_is_const [of l] by (cases l; cases r) auto
    obtain f img1 where f: "field_index x img = (f, img1)" by fastforce
    note i1 = field_index_ok [OF f assms(2)]
    obtain opc where opc: "ast_op op = Some opc" using right(1) by (cases op) auto
    obtain w where w: "scalar_atom f (flip opc) v img1 = Inr (w, img')" and prog: "prog = [w]"
      using assms(1) right(1) by (auto simp: prog_compare_def x f opc ebind_eq_Inr)
    note codes = ast_op_codes [OF opc]
    have str: "is_str v \<longrightarrow> opc = OP_EQ \<or> opc = OP_NE" using right(5) codes x by (auto simp: is_str_def)
    have str': "is_str v \<longrightarrow> flip opc = OP_EQ \<or> flip opc = OP_NE" using str codes_OPS codes by blast
    note s = scalar_atom_computes [OF w i1(1,3) _ str' assms(4)]
    have ops: "flip opc \<in> set OPS" using codes codes_OPS by blast
    have sc: "scalar_const (AConst v)" using right(4) x by simp
    have fl: "op_holds (flip opc) a v = op_holds opc v a" for a
      by (rule op_holds_flip [OF sc _ str]) (use codes in blast)
    from s [OF ops] show ?thesis using extends_trans [OF i1(2)] compare_truth [OF opc] right(1) fl unfolding x prog
      by (auto intro: computes_cong)
  qed
qed

text \<open>A boolean operation has operands, as Python's parser has it.\<close>

fun bool_wf :: "ast \<Rightarrow> bool" where
  "bool_wf (ABoolOp b vs) = (vs \<noteq> [] \<and> list_all bool_wf vs)"
| "bool_wf (AUnary u n) = bool_wf n"
| "bool_wf n = True"

lemma bool_wf_fold: "bool_wf n \<Longrightarrow> bool_wf (fold_unary_signs n)"
proof (induction n rule: fold_unary_signs.induct)
  case (4 u n)
  then show ?case by (cases "(u, fold_unary_signs n)" rule: fold_here.cases) auto
qed (auto simp: list_all_iff)

lemma bool_wf_desugar: "bool_wf n \<Longrightarrow> ast_wf n \<Longrightarrow> bool_wf (desugar_chains n)"
proof (induction n rule: desugar_chains.induct)
  case (3 l ops cs)
  have "chain_pairs l ops cs \<noteq> []" if "length ops > 1"
    using that 3(2) by (cases ops; cases cs) (auto simp: chain_pairs_Cons)
  then show ?case by (auto simp: list_all_iff dest!: set_chain_pairs)
qed (auto simp: list_all_iff)

text \<open>What every program keeps, whatever it computes: the tables grow, and a word names an atom or an opcode.\<close>

definition words_ok :: "table_image \<Rightarrow> nat list \<Rightarrow> bool" where
  "words_ok img prog \<longleftrightarrow> list_all (\<lambda>w. w < length (ti_atoms img) \<or> w \<in> set PROG_OPCODES) prog"

lemma words_ok_extends: "words_ok img prog \<Longrightarrow> extends img img' \<Longrightarrow> words_ok img' prog"
  unfolding words_ok_def extends_def list_all_iff by (meson less_le_trans prefix_length_le)

lemma words_ok_simps [simp]:
  "words_ok img []" "words_ok img (p @ q) \<longleftrightarrow> words_ok img p \<and> words_ok img q"
  "words_ok img (w # p) \<longleftrightarrow> (w < length (ti_atoms img) \<or> w \<in> set PROG_OPCODES) \<and> words_ok img p"
  by (auto simp: words_ok_def)

lemma opcodes_in [simp]: "OPC_NOT \<in> set PROG_OPCODES" "OPC_AND \<in> set PROG_OPCODES" "OPC_OR \<in> set PROG_OPCODES"
  "OPC_TRUE \<in> set PROG_OPCODES" "OPC_FALSE \<in> set PROG_OPCODES"
  by (simp_all add: PROG_OPCODES_def OPC_NOT_def OPC_AND_def OPC_OR_def OPC_TRUE_def OPC_FALSE_def)

definition grows :: "table_image \<Rightarrow> nat list \<Rightarrow> table_image \<Rightarrow> bool" where
  "grows img prog img' \<longleftrightarrow> img_ok img' \<and> extends img img' \<and> words_ok img' prog"

lemma scalar_atom_grows:
  "scalar_atom f op v img = Inr (w, img') \<Longrightarrow> img_ok img \<Longrightarrow> map_of (ti_fields img) x = Some f \<Longrightarrow> op \<in> set OPS \<Longrightarrow>
   grows img [w] img'"
  using scalar_atom_ok [of f op v img w img'] field_lt [of img x f] by (auto simp: grows_def)

lemma grows_trans: "grows a p b \<Longrightarrow> grows b q c \<Longrightarrow> grows a (p @ q) c"
  using extends_trans words_ok_extends by (auto simp: grows_def)

lemma members_grows:
  "prog_members f first es img = Inr (prog, img') \<Longrightarrow> img_ok img \<Longrightarrow> map_of (ti_fields img) x = Some f \<Longrightarrow> grows img prog img'"
proof (induction es arbitrary: first img prog)
  case (Cons e es)
  then obtain v w img1 ws where w: "scalar_atom f OP_EQ v img = Inr (w, img1)"
    and ws: "prog_members f False es img1 = Inr (ws, img')" and prog: "prog = w # (if first then [] else [OPC_OR]) @ ws"
    by (auto simp: ebind_eq_Inr)
  have g: "grows img [w] img1" by (rule scalar_atom_grows [OF w Cons.prems(2,3)]) (simp add: OPS_def op_codes)
  then have "grows img1 ws img'"
    using Cons.IH [OF ws _ extends_field [OF _ Cons.prems(3)]] by (simp add: grows_def)
  from grows_trans [OF g this] show ?case by (auto simp: prog grows_def)
qed (simp add: grows_def)

lemma field_grows: "field_index x img = (i, img') \<Longrightarrow> img_ok img \<Longrightarrow> grows img [] img'"
  using field_index_ok [of x img i img'] by (simp add: grows_def)

lemma membership_steps:
  assumes "prog_compare l op r img = Inr (prog, img')" "op = CIn \<or> op = CNotIn"
  obtains x f img1 es p where "field_index x img = (f, img1)"
    "(if es = [] then Inr ([OPC_FALSE], img1) else prog_members f True es img1) = Inr (p, img')"
    "prog = p @ (if op = CNotIn then [OPC_NOT] else [])"
proof -
  have mem: "prog_membership l op r img = Inr (prog, img')" using assms by (auto simp: prog_compare_def)
  then obtain x where x: "name_id l = Inr x" by (auto simp: prog_membership_def ebind_eq_Inr)
  obtain f img1 where f: "field_index x img = (f, img1)" by fastforce
  from mem obtain es where es: "collection r = Some es" by (auto simp: prog_membership_def x f split: option.splits)
  from mem obtain p where p: "(if es = [] then Inr ([OPC_FALSE], img1) else prog_members f True es img1) = Inr (p, img')"
    and prog: "prog = p @ (if op = CNotIn then [OPC_NOT] else [])"
    by (auto simp: prog_membership_def x f es ebind_eq_Inr simp del: prog_members.simps)
  show thesis by (rule that [OF f p prog])
qed

lemma comparison_steps:
  assumes "prog_compare l op r img = Inr (prog, img')" "\<not> (op = CIn \<or> op = CNotIn)"
  obtains x f img1 opc v w where "field_index x img = (f, img1)" "scalar_atom f opc v img1 = Inr (w, img')" "prog = [w]" "opc \<in> set OPS"
proof -
  obtain opc where opc: "ast_op op = Some opc" using assms by (auto simp: prog_compare_def split: option.splits)
  obtain x o' k where x: "name_id (if is_name l then l else r) = Inr x" and o': "o' = opc \<or> o' = flip opc"
    and k: "(case field_index x img of (f, img) \<Rightarrow> ebind (const_attr (if is_name l then r else l)) (\<lambda>v.
      ebind (scalar_atom f o' v img) (\<lambda>(w, img). Inr ([w], img)))) = Inr (prog, img')"
    using assms opc by (auto simp: prog_compare_def ebind_eq_Inr [of "name_id _"] Let_def split: if_splits)
  obtain f img1 where f: "field_index x img = (f, img1)" by fastforce
  from k obtain v w where w: "scalar_atom f o' v img1 = Inr (w, img')" and prog: "prog = [w]"
    by (auto simp: f ebind_eq_Inr)
  have "o' \<in> set OPS" using o' ast_op_codes [OF opc] codes_OPS [of opc] by blast
  from that [OF f w prog this] show thesis .
qed

lemma compare_grows:
  assumes "prog_compare l op r img = Inr (prog, img')" "img_ok img"
  shows "grows img prog img'"
proof (cases "op = CIn \<or> op = CNotIn")
  case True
  from membership_steps [OF assms(1) True] obtain x f img1 es p where f: "field_index x img = (f, img1)"
    and p: "(if es = [] then Inr ([OPC_FALSE], img1) else prog_members f True es img1) = Inr (p, img')"
    and prog: "prog = p @ (if op = CNotIn then [OPC_NOT] else [])" .
  note i1 = field_index_ok [OF f assms(2)]
  have "grows img1 p img'"
    using p members_grows [OF _ i1(1,3), of True es p] i1(1) by (auto simp: grows_def split: if_splits)
  from grows_trans [OF field_grows [OF f assms(2)] this] show ?thesis by (auto simp: prog grows_def)
next
  case False
  from comparison_steps [OF assms(1) False] obtain x f img1 opc v w where f: "field_index x img = (f, img1)"
    and w: "scalar_atom f opc v img1 = Inr (w, img')" and prog: "prog = [w]" and ops: "opc \<in> set OPS" .
  note i1 = field_index_ok [OF f assms(2)]
  from grows_trans [OF field_grows [OF f assms(2)] scalar_atom_grows [OF w i1(1,3) ops]]
  show ?thesis by (simp add: prog)
qed

lemma prog_grows:
  "prog_expr n img = Inr (prog, img') \<Longrightarrow> img_ok img \<Longrightarrow> grows img prog img'"
  "prog_operands opc first vs img = Inr (prog, img') \<Longrightarrow> img_ok img \<Longrightarrow> opc = OPC_AND \<or> opc = OPC_OR \<Longrightarrow> grows img prog img'"
proof (induction n img and opc first vs img arbitrary: prog img' and prog img' rule: prog_expr_prog_operands.induct)
  case (1 x img)
  obtain f img1 where f: "field_index x img = (f, img1)" by fastforce
  note i1 = field_index_ok [OF f 1(2)]
  obtain w img2 where w: "atom_index (f, OP_TRUTHY, TY_NONE, 0) img1 = (w, img2)" by fastforce
  have "atom_ok (length (ti_fields img1)) (f, OP_TRUTHY, TY_NONE, 0)"
    using field_lt [OF i1(1,3)] by (simp add: atom_ok_def OPS_def TYPES_def op_codes ty_codes)
  note i2 = atom_index_ok [OF w i1(1) this]
  show ?case using 1(1) f w i2 extends_trans [OF i1(2) i2(2)] by (auto simp: grows_def)
next
  case (2 n img)
  then show ?case by (fastforce simp: ebind_eq_Inr grows_def)
next
  case (3 b vs img)
  then show ?case by (cases b) (auto simp: OPC_AND_def OPC_OR_def)
next
  case (4 l op ops r rs img)
  then show ?case using compare_grows by simp
next
  case (6 opc first img)
  then show ?case by (simp add: grows_def)
next
  case (7 opc first v vs img)
  obtain p img1 q where p: "prog_expr v img = Inr (p, img1)" and q: "prog_operands opc False vs img1 = Inr (q, img')"
    and prog: "prog = p @ (if first then [] else [opc]) @ q" using 7(3) by (auto simp: ebind_eq_Inr)
  have g: "grows img p img1" by (rule 7(1) [OF p 7(4)])
  have "grows img1 q img'" using 7(2) [OF p refl q _ 7(5)] g by (simp add: grows_def)
  from grows_trans [OF g this] show ?case using 7(5) by (auto simp: prog grows_def)
qed auto

lemma prog_computes:
  "prog_expr n img = Inr (prog, img') \<Longrightarrow> img_ok img \<Longrightarrow> classify n = None \<Longrightarrow> bool_wf n \<Longrightarrow>
    length (ti_atoms img') \<le> 0x8000 \<Longrightarrow> img_ok img' \<and> extends img img' \<and> computes img' prog (\<lambda>c. lm_truth c n)"
  "prog_operands opc first vs img = Inr (prog, img') \<Longrightarrow> img_ok img \<Longrightarrow> \<forall>v \<in> set vs. classify v = None \<and> bool_wf v \<Longrightarrow>
    length (ti_atoms img') \<le> 0x8000 \<Longrightarrow> opc = OPC_AND \<or> opc = OPC_OR \<Longrightarrow> img_ok img' \<and> extends img img' \<and>
    (if first then vs \<noteq> [] \<longrightarrow> computes img' prog (\<lambda>c. if opc = OPC_AND then list_all (lm_truth c) vs else list_ex (lm_truth c) vs)
     else combines img' prog (\<lambda>c b. if opc = OPC_AND then b \<and> list_all (lm_truth c) vs else b \<or> list_ex (lm_truth c) vs))"
proof (induction n img and opc first vs img arbitrary: prog img' and prog img' rule: prog_expr_prog_operands.induct)
  case (1 x img)
  obtain f img1 where f: "field_index x img = (f, img1)" by fastforce
  note i1 = field_index_ok [OF f 1(2)]
  obtain w img2 where w: "atom_index (f, OP_TRUTHY, TY_NONE, 0) img1 = (w, img2)" by fastforce
  have eq: "prog = [w]" "img' = img2" using 1(1) f w by auto
  have "atom_ok (length (ti_fields img1)) (f, OP_TRUTHY, TY_NONE, 0)"
    using field_lt [OF i1(1,3)] by (simp add: atom_ok_def OPS_def TYPES_def op_codes ty_codes)
  note i2 = atom_index_ok [OF w i1(1) this]
  have "map_of (ti_fields img2) x = Some f" by (rule extends_field [OF i2(2) i1(3)])
  moreover have "scalar_rep (ti_intern img2) PNone (TY_NONE, 0)" by simp
  ultimately have "computes img2 [w] (\<lambda>c. op_holds OP_TRUTHY (ctx_get c x) PNone)"
    using computes_atom [of img2 x f w OP_TRUTHY "(TY_NONE, 0)" PNone] i2(3,4) 1(5) eq by (simp add: OPS_def op_codes)
  then have "computes img2 [w] (\<lambda>c. lm_truth c (AName x))" by (rule computes_cong) (simp add: op_holds_def op_codes)
  then show ?case using eq i2 extends_trans [OF i1(2) i2(2)] by simp
next
  case (2 n img)
  then show ?case by (fastforce simp: ebind_eq_Inr dest: computes_not)
next
  case (3 b vs img)
  have "img_ok img' \<and> extends img img' \<and> (vs \<noteq> [] \<longrightarrow> computes img' prog (\<lambda>c. if (if b = BAnd then OPC_AND else OPC_OR) = OPC_AND
      then list_all (lm_truth c) vs else list_ex (lm_truth c) vs))"
    using 3(1) [of prog img'] 3(2-6) by (simp add: first_some_None list_all_iff)
  then show ?case using 3(5) by (cases b) (auto simp: OPC_AND_def OPC_OR_def intro: computes_cong)
next
  case (4 l op ops r rs img)
  have ops: "ops = []" using 4(3) by (cases ops) auto
  then show ?case using compare_computes [of l op r img prog img' rs] 4 by simp
next
  case (6 opc first img)
  then show ?case using combines_Nil [of img] by (auto simp: combines_def)
next
  case (7 opc first v vs img)
  obtain p img1 q where p: "prog_expr v img = Inr (p, img1)" and q: "prog_operands opc False vs img1 = Inr (q, img')"
    and prog: "prog = p @ (if first then [] else [opc]) @ q" using 7(3) by (auto simp: ebind_eq_Inr)
  have hyp: "classify v = None" "bool_wf v" "\<forall>v \<in> set vs. classify v = None \<and> bool_wf v" using 7(5) by auto
  have ext: "extends img1 img' \<Longrightarrow> length (ti_atoms img1) \<le> 0x8000" using extends_atoms 7(6) by blast
  have tail: "img_ok img1 \<Longrightarrow> img_ok img' \<and> extends img1 img' \<and>
      combines img' q (\<lambda>c b. if opc = OPC_AND then b \<and> list_all (lm_truth c) vs else b \<or> list_ex (lm_truth c) vs)"
    using 7(2) [OF p refl q _ hyp(3) 7(6,7)] by simp
  have "grows img1 q img'" if "img_ok img1" by (rule prog_grows(2) [OF q that 7(7)])
  then have ok1: "img_ok img1" "extends img1 img'" using prog_grows(1) [OF p 7(4)] by (auto simp: grows_def)
  have head: "img_ok img1 \<and> extends img img1 \<and> computes img1 p (\<lambda>c. lm_truth c v)"
    by (rule 7(1) [OF p 7(4) hyp(1,2) ext [OF ok1(2)]])
  have c: "computes img' p (\<lambda>c. lm_truth c v)" using head tail computes_extends by blast
  have "computes img' (p @ q) (\<lambda>c. if opc = OPC_AND then lm_truth c v \<and> list_all (lm_truth c) vs
      else lm_truth c v \<or> list_ex (lm_truth c) vs)"
    by (rule computes_combines [OF c]) (use tail head in blast)
  moreover have "combines img' (p @ opc # q) (\<lambda>c b. if opc = OPC_AND then bop opc b (lm_truth c v) \<and> list_all (lm_truth c) vs
      else bop opc b (lm_truth c v) \<or> list_ex (lm_truth c) vs)"
    by (rule combines_Cons [OF c _ 7(7)]) (use tail head in blast)
  moreover have "(\<lambda>c b. if opc = OPC_AND then bop opc b (lm_truth c v) \<and> list_all (lm_truth c) vs
      else bop opc b (lm_truth c v) \<or> list_ex (lm_truth c) vs)
    = (\<lambda>c b. if opc = OPC_AND then b \<and> list_all (lm_truth c) (v # vs) else b \<or> list_ex (lm_truth c) (v # vs))"
    by (auto simp: fun_eq_iff bop_def)
  ultimately show ?case using head tail extends_trans [of img img1 img'] prog
    by (cases first) (auto cong: if_cong)
qed auto

definition parser_bool :: "pyparse \<Rightarrow> bool" where
  "parser_bool parse \<longleftrightarrow> (\<forall>e tree. parse e = Some tree \<longrightarrow> bool_wf tree)"

lemma grows_const: "img_ok img \<Longrightarrow> grows img [OPC_TRUE] img" "img_ok img \<Longrightarrow> grows img [OPC_FALSE] img"
  by (simp_all add: grows_def)

lemma condition_grows:
  "compile_condition parse cond img = Inr (prog, img') \<Longrightarrow> img_ok img \<Longrightarrow> grows img prog img'"
  by (auto simp: compile_condition_def Let_def grows_const dest: prog_grows(1) split: if_splits option.splits)

lemma condition_computes:
  assumes "compile_condition parse cond img = Inr (prog, img')" "img_ok img" "parser_wf parse" "parser_bool parse"
    and "length (ti_atoms img') \<le> 0x8000"
  shows "is_deterministic cond" "\<exists>P. computes img' prog P \<and> (\<forall>c. eval_condition parse cond c = Inr (P c))"
proof -
  show det: "is_deterministic cond" using assms(1) by (simp add: compile_condition_def split: if_splits)
  show "\<exists>P. computes img' prog P \<and> (\<forall>c. eval_condition parse cond c = Inr (P c))"
  proof (cases "is_keyword (expr_of cond)")
    case True
    then have "computes img' prog (\<lambda>c. py_lower (expr_of cond) \<in> set ALWAYS)"
      using assms(1) det computes_const by (auto simp: compile_condition_def is_keyword_def Let_def split: if_splits)
    then show ?thesis using keyword_evaluates [OF True] by blast
  next
    case False
    then have chk: "check_predicate parse cond = []"
      using assms(1) det by (auto simp: compile_condition_def is_keyword_def Let_def split: if_splits)
    obtain tree where t: "parse (expr_of cond) = Some tree" "ast_wf (fold_unary_signs tree)"
      and ev: "\<forall>c. \<exists>v. ev c 0 (fold_unary_signs tree) = Inr v \<and> eval_condition parse cond c = Inr (truthy v)"
      using checked_tree [OF assms(3) chk False det] by blast
    let ?n = "fold_unary_signs tree"
    have cl: "classify (desugar_chains ?n) = None" and p: "prog_expr (desugar_chains ?n) img = Inr (prog, img')"
      using assms(1) det False chk t(1) by (auto simp: compile_condition_def is_keyword_def Let_def split: option.splits if_splits)
    have "bool_wf (desugar_chains ?n)"
      using assms(4) t by (auto simp: parser_bool_def intro: bool_wf_desugar bool_wf_fold)
    from prog_computes(1) [OF p assms(2) cl this assms(5)]
    have "computes img' prog (\<lambda>c. lm_truth c (desugar_chains ?n))" by blast
    moreover have "eval_condition parse cond c = Inr (lm_truth c (desugar_chains ?n))" for c
    proof -
      obtain v where "ev c 0 ?n = Inr v" "eval_condition parse cond c = Inr (truthy v)" using ev by blast
      then show ?thesis using ev_lm_truth [OF _ t(2) cl] by simp
    qed
    ultimately show ?thesis by blast
  qed
qed

text \<open>
  A compiled condition decides as the engine does: over any context whose fields the registers can hold, the
  reference interpreter returns, for the program of a condition, the truth value the engine's evaluator
  gives the condition; it never leaves its tables, and the stack depth the compiler reports is enough.
\<close>

theorem compiled_condition_decides:
  assumes "parser_wf parse" "parser_bool parse" "img_ok img" "compile_condition parse cond img = Inr (prog, img')"
    and "extends img' I" "admitted I c rs" "stack_depth prog = Inr d" "d \<le> int limit"
  shows "\<exists>b. eval_condition parse cond c = Inr b \<and>
    eval_prog limit (loaded_atoms (ti_atoms I)) (loaded_regs rs) prog = Inr b"
proof -
  have "length (ti_atoms img') \<le> 0x8000" using extends_atoms [OF assms(5)] assms(6) by (simp add: admitted_def)
  from condition_computes(2) [OF assms(4,3,1,2) this]
  obtain P where P: "computes img' prog P" "eval_condition parse cond c = Inr (P c)" by blast
  moreover have "rise prog \<le> int limit" using assms(7,8) by (simp add: stack_depth_rise split: if_splits)
  ultimately show ?thesis using assms(5,6) by (simp add: computes_def eval_prog_def)
qed

end
