(* ===== verification/PptFlow.thy ===== *)
theory PptFlow
  imports PptSound Engine
begin

section \<open>From a flow to the bytes of its image, and back\<close>

text \<open>
  What \<open>serialize\<close> writes, the loader reads: the records of a packed section come back in their order. From
  it follow that the image of a compiled flow passes the check every endpoint makes, and that the
  interpreter, run on the bytes of the image and of the registers, takes the edge the engine takes.
\<close>

subsection \<open>Numbers\<close>

lemma length_le_bytes [simp]: "length (le_bytes k n) = k"
  by (induction k arbitrary: n) auto

lemma le_value_bytes: "n < 256 ^ k \<Longrightarrow> le_value (le_bytes k n) = n"
proof (induction k arbitrary: n)
  case (Suc k)
  then have "n div 256 < 256 ^ k" by (simp add: less_mult_imp_div_less mult.commute)
  with Suc.IH [OF this] show ?case by (simp add: of_char_of)
qed simp

lemma unpack_at: "length s = k \<Longrightarrow> unpack_uint k (a @ s @ b) (length a) = Inr (le_value s)"
  by (simp add: unpack_uint_def)

text \<open>What packing \<open>x\<close> writes has the width of the record and is read back as \<open>y\<close>, wherever it stands.\<close>

definition reads_back :: "('a \<Rightarrow> string result) \<Rightarrow> (string \<Rightarrow> nat \<Rightarrow> 'b result) \<Rightarrow> nat \<Rightarrow> 'a \<Rightarrow> 'b \<Rightarrow> bool" where
  "reads_back pk rd width x y \<longleftrightarrow> (\<forall>s. pk x = Inr s \<longrightarrow> length s = width \<and> (\<forall>a b. rd (a @ s @ b) (length a) = Inr y))"

lemma uint_reads_back: "reads_back (pack_uint k \<circ> int) (unpack_uint k) k n n"
  by (auto simp: reads_back_def pack_uint_def unpack_at le_value_bytes of_nat_less_iff [symmetric] simp del: of_nat_less_iff split: if_splits)

lemma pack_uint_at:
  assumes "pack_uint k n = Inr s"
  shows "length s = k" "unpack_uint k (a @ s @ b) (length a) = Inr (nat n)"
proof -
  from assms have n: "0 \<le> n" "n < 256 ^ k" and s: "s = le_bytes k (nat n)" by (auto simp: pack_uint_def split: if_splits)
  show "length s = k" by (simp add: s)
  have "nat n < 256 ^ k" using n by (simp add: nat_less_iff)
  then show "unpack_uint k (a @ s @ b) (length a) = Inr (nat n)" by (simp add: s unpack_at le_value_bytes)
qed

lemma pack_i32_at:
  assumes "pack_i32 n = Inr s"
  shows "length s = 4" "unpack_uint 4 (a @ s @ b) (length a) = Inr (unat (word_of_int n :: 32 word))"
    "unpack_i32 (a @ s @ b) (length a) = Inr (word_of_int n)" "in_i32 n"
proof -
  from assms have s: "s = le_bytes 4 (unat (word_of_int n :: 32 word))" and n: "in_i32 n"
    by (auto simp: pack_i32_def in_i32_def split: if_splits)
  show "in_i32 n" by (rule n)
  show "length s = 4" by (simp add: s)
  have "unat (word_of_int n :: 32 word) < 2 ^ 32" using unsigned_less [of "word_of_int n :: 32 word", where ?'a = nat] by simp
  then show u: "unpack_uint 4 (a @ s @ b) (length a) = Inr (unat (word_of_int n :: 32 word))"
    by (simp add: s unpack_at le_value_bytes)
  then show "unpack_i32 (a @ s @ b) (length a) = Inr (word_of_int n)" by (simp add: unpack_i32_def)
qed

subsection \<open>Sections\<close>

lemma pack_all_Nil [simp]: "pack_all [] = Inr []"
  by (simp add: pack_all_def)

lemma pack_all_Cons: "pack_all (p # ps) = Inr bs \<longleftrightarrow> (\<exists>s t. p = Inr s \<and> pack_all ps = Inr t \<and> bs = s @ t)"
  by (auto simp: pack_all_def ebind_eq_Inr)

lemma pack_all_append: "pack_all (ps @ qs) = Inr bs \<longleftrightarrow> (\<exists>s t. pack_all ps = Inr s \<and> pack_all qs = Inr t \<and> bs = s @ t)"
  by (induction ps arbitrary: bs) (auto simp: pack_all_Cons; metis append.assoc)+

lemma section_at:
  assumes "pack_all (map pk xs) = Inr s" "\<forall>x \<in> set xs. reads_back pk rd width x (f x)"
  shows "length s = width * length xs \<and> (\<forall>i < length xs. rd (a @ s @ b) (length a + width * i) = Inr (f (xs ! i)))"
  using assms
proof (induction xs arbitrary: s a)
  case (Cons x xs)
  then obtain s1 s2 where s: "pk x = Inr s1" "pack_all (map pk xs) = Inr s2" "s = s1 @ s2" by (auto simp: pack_all_Cons)
  have r: "length s1 = width" "rd (a @ s1 @ s2 @ b) (length a) = Inr (f x)"
    using Cons.prems(2) s(1) by (auto simp: reads_back_def)
  have ih: "length s2 = width * length xs"
    "\<forall>i < length xs. rd ((a @ s1) @ s2 @ b) (length (a @ s1) + width * i) = Inr (f (xs ! i))"
    using Cons.IH [OF s(2), of "a @ s1"] Cons.prems(2) by auto
  have "rd (a @ s @ b) (length a + width * i) = Inr (f ((x # xs) ! i))" if "i < length (x # xs)" for i
    using that r ih(2) by (cases i) (auto simp: s(3) algebra_simps)
  then show ?case using r ih(1) s(3) by simp
qed simp

lemma section_records:
  assumes "pack_all (map pk xs) = Inr s" "\<forall>x \<in> set xs. reads_back pk rd width x (f x)" "off = length a" "n = length xs"
  shows "records rd width (a @ s @ b) off n = Inr (map f xs)"
  using section_at [OF assms(1,2)] assms(3,4) by (simp add: records_def emap_Inr_iff)

lemma section_length:
  "pack_all (map pk xs) = Inr s \<Longrightarrow> \<forall>x \<in> set xs. reads_back pk rd width x (f x) \<Longrightarrow> length s = width * length xs"
  using section_at by blast

text \<open>A field further into a record.\<close>

lemma field_at:
  assumes "pack_uint k (int n) = Inr s" "length p = j"
  shows "unpack_uint k (a @ p @ s @ b) (length a + j) = Inr n"
  using pack_uint_at(2) [OF assms(1), of "a @ p" b] assms(2) by simp

fun load_atom :: "atom_key \<Rightarrow> ppt_atom" where
  "load_atom (f, op, ty, val) = \<lparr>pa_field = f, pa_op = op, pa_ty = ty, pa_val = word_of_int val\<rparr>"

lemma loaded_atoms_map: "loaded_atoms ks = map load_atom ks"
  by (auto simp: loaded_atoms_def)

lemma atom_reads_back: "reads_back pack_atom atom_at 8 k (load_atom k) \<and> (\<forall>s. pack_atom k = Inr s \<longrightarrow> in_i32 (snd (snd (snd k))))"
proof -
  obtain f op ty val where k: "k = (f, op, ty, val)" by (cases k)
  have "length s = 8 \<and> (\<forall>a b. atom_at (a @ s @ b) (length a) = Inr (load_atom k)) \<and> in_i32 val" if "pack_atom k = Inr s" for s
  proof -
    from that obtain s1 s2 s3 s4 where s: "pack_uint 2 (int f) = Inr s1" "pack_uint 1 (int op) = Inr s2" "pack_uint 1 (int ty) = Inr s3"
      "pack_i32 val = Inr s4" "s = s1 @ s2 @ s3 @ s4" by (auto simp: k pack_all_Cons)
    note l = pack_uint_at(1) [OF s(1)] pack_uint_at(1) [OF s(2)] pack_uint_at(1) [OF s(3)] pack_i32_at(1) [OF s(4)]
    have "atom_at (a @ s @ b) (length a) = Inr (load_atom k)" for a b
      using field_at [OF s(1), of "[]" 0 a "s2 @ s3 @ s4 @ b"] field_at [OF s(2), of s1 2 a "s3 @ s4 @ b"]
        field_at [OF s(3), of "s1 @ s2" 3 a "s4 @ b"] pack_i32_at(3) [OF s(4), of "a @ s1 @ s2 @ s3" b] l
      by (simp add: atom_at_def s(5) k)
    then show ?thesis using l pack_i32_at(4) [OF s(4)] s(5) by simp
  qed
  then show ?thesis by (auto simp: reads_back_def k)
qed

lemma node_reads_back: "reads_back pack_node node_at 4 p p"
proof -
  obtain m n where p: "p = (m, n)" by (cases p)
  have "length s = 4 \<and> (\<forall>a b. node_at (a @ s @ b) (length a) = Inr p)" if "pack_node p = Inr s" for s
  proof -
    from that obtain s1 s2 where s: "pack_uint 2 (int m) = Inr s1" "pack_uint 2 (int n) = Inr s2" "s = s1 @ s2"
      by (auto simp: p pack_all_Cons)
    note l = pack_uint_at(1) [OF s(1)] pack_uint_at(1) [OF s(2)]
    have "node_at (a @ s @ b) (length a) = Inr p" for a b
      using field_at [OF s(1), of "[]" 0 a "s2 @ b"] field_at [OF s(2), of s1 2 a b] l by (simp add: node_at_def s(3) p)
    then show ?thesis using l s(3) by simp
  qed
  then show ?thesis by (simp add: reads_back_def)
qed

lemma edge_reads_back: "reads_back pack_edge edge_at 6 p p"
proof -
  obtain k m n where p: "p = (k, m, n)" by (cases p)
  have "length s = 6 \<and> (\<forall>a b. edge_at (a @ s @ b) (length a) = Inr p)" if "pack_edge p = Inr s" for s
  proof -
    from that obtain s1 s2 s3 where s: "pack_uint 2 (int k) = Inr s1" "pack_uint 2 (int m) = Inr s2" "pack_uint 2 (int n) = Inr s3"
      "s = s1 @ s2 @ s3" by (auto simp: p pack_all_Cons)
    note l = pack_uint_at(1) [OF s(1)] pack_uint_at(1) [OF s(2)] pack_uint_at(1) [OF s(3)]
    have "edge_at (a @ s @ b) (length a) = Inr p" for a b
      using field_at [OF s(1), of "[]" 0 a "s2 @ s3 @ b"] field_at [OF s(2), of s1 2 a "s3 @ b"] field_at [OF s(3), of "s1 @ s2" 4 a b] l
      by (simp add: edge_at_def s(4) p)
    then show ?thesis using l s(4) by simp
  qed
  then show ?thesis by (simp add: reads_back_def)
qed

lemma register_reads_back:
  "fst p < 4 \<Longrightarrow> reads_back pack_register register_at 8 p (fst p, word_of_int (snd p)) \<and> (\<forall>s. pack_register p = Inr s \<longrightarrow> in_i32 (snd p))"
proof -
  assume ty4: "fst p < 4"
  obtain ty v where p: "p = (ty, v)" by (cases p)
  have "length s = 8 \<and> (\<forall>a b. register_at (a @ s @ b) (length a) = Inr (ty, word_of_int v)) \<and> in_i32 v" if "pack_register p = Inr s" for s
  proof -
    from that obtain s1 s2 where s: "pack_i32 (int ty) = Inr s1" "pack_i32 v = Inr s2" "s = s1 @ s2" by (auto simp: p pack_all_Cons)
    note l = pack_i32_at(1) [OF s(1)] pack_i32_at(1) [OF s(2)]
    have "unat (word_of_int (int ty) :: 32 word) = ty"
      using ty4 by (simp add: p unat_of_nat)
    then have "register_at (a @ s @ b) (length a) = Inr (ty, word_of_int v)" for a b
      using pack_i32_at(2) [OF s(1), of a "s2 @ b"] pack_i32_at(3) [OF s(2), of "a @ s1" b] l by (simp add: register_at_def s(3))
    then show ?thesis using l s(3) pack_i32_at(4) [OF s(2)] by simp
  qed
  then show ?thesis by (simp add: reads_back_def p)
qed

subsection \<open>The layout of the programs\<close>

definition slice_at :: "nat list \<Rightarrow> nat \<Rightarrow> nat list \<Rightarrow> bool" where
  "slice_at blob po prog \<longleftrightarrow> (\<exists>a b. blob = a @ prog @ b \<and> length a = po)"

lemma slice_at_append: "slice_at blob po prog \<Longrightarrow> slice_at (blob @ extra) po prog"
  unfolding slice_at_def by (metis append_assoc)

lemma slice_at_take: "slice_at blob po prog \<Longrightarrow> po + length prog \<le> length blob \<and> take (length prog) (drop po blob) = prog"
  by (auto simp: slice_at_def)

lemma slice_at_end: "slice_at (blob @ prog) (length blob) prog"
  unfolding slice_at_def by (intro exI [of _ blob] exI [of _ "[]"]) simp

text \<open>An edge record stands for a compiled edge, and the stack of the layout holds its program.\<close>

definition laid :: "nat list \<Rightarrow> int \<Rightarrow> table_edge \<Rightarrow> nat \<times> nat \<times> nat \<Rightarrow> bool" where
  "laid blob stack e rec \<longleftrightarrow> (case e of (target, cond, prog) \<Rightarrow> \<exists>po. rec = (target, po, length prog) \<and> slice_at blob po prog \<and>
     net prog = 1 \<and> rise prog \<le> stack)"

lemma laid_grow: "laid blob stack e rec \<Longrightarrow> stack \<le> stack' \<Longrightarrow> laid (blob @ extra) stack' e rec"
  by (auto simp: laid_def dest: slice_at_append)

lemma laid_all_grow: "list_all2 (laid blob stack) es recs \<Longrightarrow> stack \<le> stack' \<Longrightarrow> list_all2 (laid (blob @ extra) stack') es recs"
  by (erule list_all2_mono) (rule laid_grow)

lemma lay_edges_laid:
  "lay_edges es la = Inr la' \<Longrightarrow> \<exists>recs blob. la_edges la' = la_edges la @ recs \<and> la_prog la' = la_prog la @ blob \<and>
     la_nodes la' = la_nodes la \<and> la_stack la \<le> la_stack la' \<and> list_all2 (laid (la_prog la') (la_stack la')) es recs"
proof (induction es la rule: lay_edges.induct)
  case (2 target cond prog es la)
  then have n: "net prog = 1" by (auto simp: stack_depth_rise split: if_splits)
  define la1 where "la1 = la\<lparr>la_edges := la_edges la @ [(target, length (la_prog la), length prog)], la_prog := la_prog la @ prog,
      la_stack := max (la_stack la) (rise prog)\<rparr>"
  have l: "lay_edges es la1 = Inr la'" using 2(2) n by (simp add: stack_depth_rise la1_def)
  obtain recs blob where ih: "la_edges la' = la_edges la1 @ recs" "la_prog la' = la_prog la1 @ blob" "la_nodes la' = la_nodes la1"
    "la_stack la1 \<le> la_stack la'" "list_all2 (laid (la_prog la') (la_stack la')) es recs"
    using 2(1) [of "rise prog"] l n by (auto simp: stack_depth_rise la1_def)
  have "laid (la_prog la1) (la_stack la1) (target, cond, prog) (target, length (la_prog la), length prog)"
    using n slice_at_end by (simp add: laid_def la1_def)
  from laid_grow [OF this ih(4), of blob] ih show ?case by (auto simp: la1_def)
qed simp

definition node_laid :: "nat list \<Rightarrow> int \<Rightarrow> (nat \<times> nat \<times> nat) list \<Rightarrow> string \<times> table_edge list \<Rightarrow> nat \<times> nat \<Rightarrow> bool" where
  "node_laid blob stack edges node rec \<longleftrightarrow> (\<exists>a recs b. edges = a @ recs @ b \<and> rec = (length a, length (snd node)) \<and>
     list_all2 (laid blob stack) (snd node) recs)"

lemma lay_nodes_laid:
  "lay_nodes ns la = Inr la' \<Longrightarrow> \<exists>recs extra blob. la_nodes la' = la_nodes la @ recs \<and> la_edges la' = la_edges la @ extra \<and>
     la_prog la' = la_prog la @ blob \<and> la_stack la \<le> la_stack la' \<and>
     list_all2 (node_laid (la_prog la') (la_stack la') (la_edges la')) ns recs \<and>
     list_all2 (laid (la_prog la') (la_stack la')) (concat (map snd ns)) extra"
proof (induction ns la rule: lay_nodes.induct)
  case (2 name es ns la)
  define la0 where "la0 = la\<lparr>la_nodes := la_nodes la @ [(length (la_edges la), length es)]\<rparr>"
  obtain la1 where e: "lay_edges es la0 = Inr la1" and n: "lay_nodes ns la1 = Inr la'"
    using 2(2) by (auto simp: la0_def ebind_eq_Inr)
  obtain recs blob where ih1: "la_edges la1 = la_edges la0 @ recs" "la_prog la1 = la_prog la0 @ blob"
     "la_nodes la1 = la_nodes la0" "la_stack la0 \<le> la_stack la1" "list_all2 (laid (la_prog la1) (la_stack la1)) es recs"
    using lay_edges_laid [OF e] by blast
  obtain nrecs extra blob2 where ih2: "la_nodes la' = la_nodes la1 @ nrecs" "la_edges la' = la_edges la1 @ extra"
     "la_prog la' = la_prog la1 @ blob2" "la_stack la1 \<le> la_stack la'"
     "list_all2 (node_laid (la_prog la') (la_stack la') (la_edges la')) ns nrecs"
     "list_all2 (laid (la_prog la') (la_stack la')) (concat (map snd ns)) extra"
    using 2(1) [OF e [unfolded la0_def] n] by blast
  have laid': "list_all2 (laid (la_prog la') (la_stack la')) es recs"
    using laid_all_grow [OF ih1(5) ih2(4), of blob2] ih2(3) by simp
  have "node_laid (la_prog la') (la_stack la') (la_edges la') (name, es) (length (la_edges la), length es)"
    unfolding node_laid_def using laid' ih1(1) ih2(2)
    by (intro exI [of _ "la_edges la"] exI [of _ recs] exI [of _ extra]) (simp add: la0_def)
  moreover have "list_all2 (laid (la_prog la') (la_stack la')) (es @ concat (map snd ns)) (recs @ extra)"
    using laid' ih2(6) by (rule list_all2_appendI)
  ultimately show ?case using ih1 ih2
    by (intro exI [of _ "(length (la_edges la), length es) # nrecs"] exI [of _ "recs @ extra"] exI [of _ "blob @ blob2"]) (simp add: la0_def)
qed simp

subsection \<open>Reading an image back\<close>

lemma word_reads_back: "reads_back (pack_uint k) (unpack_uint k) k n (nat n)"
  using pack_uint_at [of k n] by (simp add: reads_back_def)

definition header_values :: "table_image \<Rightarrow> layout \<Rightarrow> int list" where
  "header_values img la =
     [1, int (length (ti_fields img)), int (length (ti_intern img)), int (length (ti_atoms img)), int (length (ti_nodes img)),
      int (length (la_edges la)), int (length (la_prog la)), int (ti_start img),
      int (case map_of (ti_fields img) ''visits'' of None \<Rightarrow> VISITS_NONE | Some i \<Rightarrow> i),
      ti_max_steps img, la_stack la, int (image_flags img)]"

definition header_of :: "table_image \<Rightarrow> layout \<Rightarrow> ppt_header" where
  "header_of img la = \<lparr>ph_fields = length (ti_fields img), ph_interns = length (ti_intern img), ph_atoms = length (ti_atoms img),
     ph_nodes = length (ti_nodes img), ph_edges = length (la_edges la), ph_prog_words = length (la_prog la), ph_start = ti_start img,
     ph_visits_idx = (case map_of (ti_fields img) ''visits'' of None \<Rightarrow> VISITS_NONE | Some i \<Rightarrow> i),
     ph_max_steps = nat (ti_max_steps img), ph_max_stack = nat (la_stack la), ph_flags = image_flags img AND 0xFF,
     ph_safe_node = (image_flags img div 256) AND 0xFF, ph_migrate_by_name = (image_flags img AND FLAG_MIGRATE_BY_NAME \<noteq> 0),
     ph_stateful = (image_flags img AND FLAG_STATEFUL \<noteq> 0)\<rparr>"

lemma header_sel [simp]:
  "ph_fields (header_of img la) = length (ti_fields img)" "ph_atoms (header_of img la) = length (ti_atoms img)"
  "ph_nodes (header_of img la) = length (ti_nodes img)" "ph_edges (header_of img la) = length (la_edges la)"
  "ph_prog_words (header_of img la) = length (la_prog la)" "ph_max_stack (header_of img la) = nat (la_stack la)"
  "ph_flags (header_of img la) = image_flags img AND 0xFF" "ph_safe_node (header_of img la) = (image_flags img div 256) AND 0xFF"
  by (simp_all add: header_of_def)

lemma header_back:
  assumes "pack_header img la = Inr hs"
  shows "length hs = 28" "read_ppt_header (hs @ rest) = Inr (header_of img la)"
proof -
  obtain s1 s2 where s: "pack_uint 4 (int MAGIC) = Inr s1" "pack_all (map (pack_uint 2) (header_values img la)) = Inr s2" "hs = s1 @ s2"
    using assms unfolding pack_header_def header_values_def by (auto simp: pack_all_Cons simp del: list.map)
  have l1: "length s1 = 4" by (rule pack_uint_at(1) [OF s(1)])
  have l2: "length s2 = 24"
    using section_length [OF s(2), of "unpack_uint 2" 2 nat] word_reads_back by (simp add: header_values_def)
  then show len: "length hs = 28" using l1 s(3) by simp
  have m: "unpack_uint 4 (hs @ rest) 0 = Inr MAGIC" using pack_uint_at(2) [OF s(1), of "[]" "s2 @ rest"] s(3) by simp
  have "records (unpack_uint 2) 2 (s1 @ s2 @ rest) 4 12 = Inr (map nat (header_values img la))"
    by (rule section_records [OF s(2)]) (use word_reads_back l1 in \<open>auto simp: header_values_def\<close>)
  then have "header_words (hs @ rest) = Inr (map nat (header_values img la))" by (simp add: records_def header_words_def s(3))
  then show "read_ppt_header (hs @ rest) = Inr (header_of img la)"
    using m len by (simp add: read_ppt_header_def HEADER_SIZE_def header_values_def header_of_def FORMAT_VERSION_def)
qed

text \<open>The sections of a serialized image, each read back from the whole of the bytes.\<close>

definition has_attrs :: "table_image \<Rightarrow> bool" where
  "has_attrs img \<longleftrightarrow> image_flags img AND FLAG_NODE_ATTR \<noteq> 0"

definition attr_list :: "table_image \<Rightarrow> nat list" where
  "attr_list img = (if has_attrs img then map (\<lambda>c. c AND 0xFFFF) (node_colors img) else [])"

definition first_layout :: layout where
  "first_layout = \<lparr>la_prog = [], la_edges = [], la_nodes = [], la_stack = 1\<rparr>"

lemma serialized_sections:
  assumes "serialize img = Inr bytes"
  obtains la where "lay_nodes (ti_nodes img) first_layout = Inr la"
    "read_ppt_header bytes = Inr (header_of img la)" "28 \<le> length bytes"
    "records atom_at 8 bytes 28 (length (ti_atoms img)) = Inr (loaded_atoms (ti_atoms img))"
    "list_all (\<lambda>(f, op, ty, val). in_i32 val) (ti_atoms img)"
    "records node_at 4 bytes (28 + 8 * length (ti_atoms img)) (length (la_nodes la)) = Inr (la_nodes la)"
    "records edge_at 6 bytes (28 + 8 * length (ti_atoms img) + 4 * length (la_nodes la)) (length (la_edges la)) = Inr (la_edges la)"
    "records (unpack_uint 2) 2 bytes (28 + 8 * length (ti_atoms img) + 4 * length (la_nodes la) + 6 * length (la_edges la))
       (length (la_prog la)) = Inr (la_prog la)"
    "records (unpack_uint 2) 2 bytes (28 + 8 * length (ti_atoms img) + 4 * length (la_nodes la) + 6 * length (la_edges la)
       + 2 * length (la_prog la)) (length (attr_list img)) = Inr (attr_list img)"
    "length bytes = 28 + 8 * length (ti_atoms img) + 4 * length (la_nodes la) + 6 * length (la_edges la)
       + 2 * length (la_prog la) + 2 * length (attr_list img)"
proof -
  have at: "map (\<lambda>c. pack_uint 2 (int (c AND 0xFFFF))) cs = map (pack_uint 2 \<circ> int) (map (\<lambda>c. c AND 0xFFFF) cs)" for cs :: "nat list" by simp
  obtain la hs sa sn se sw sc where la: "lay_nodes (ti_nodes img) first_layout = Inr la" and hs: "pack_header img la = Inr hs"
    and sa: "pack_all (map pack_atom (ti_atoms img)) = Inr sa" and sn: "pack_all (map pack_node (la_nodes la)) = Inr sn"
    and se: "pack_all (map pack_edge (la_edges la)) = Inr se" and sw: "pack_all (map (pack_uint 2 \<circ> int) (la_prog la)) = Inr sw"
    and sc: "pack_all (map (pack_uint 2 \<circ> int) (attr_list img)) = Inr sc" and bytes: "bytes = hs @ sa @ sn @ se @ sw @ sc"
    using assms unfolding serialize_def first_layout_def [symmetric] attr_list_def has_attrs_def at
    by (auto simp: ebind_eq_Inr pack_all_Cons pack_all_append simp del: map_map split: if_splits)
  have ra: "\<forall>k \<in> set (ti_atoms img). reads_back pack_atom atom_at 8 k (load_atom k)" using atom_reads_back by blast
  have rn: "\<forall>k \<in> set (la_nodes la). reads_back pack_node node_at 4 k (id k)" using node_reads_back by simp
  have re: "\<forall>k \<in> set (la_edges la). reads_back pack_edge edge_at 6 k (id k)" using edge_reads_back by simp
  have rw: "\<forall>k \<in> set ks. reads_back (pack_uint 2 \<circ> int) (unpack_uint 2) 2 k (id k)" for ks using uint_reads_back by simp
  note lens = header_back(1) [OF hs] section_length [OF sa ra] section_length [OF sn rn] section_length [OF se re]
    section_length [OF sw rw] section_length [OF sc rw]
  have i32: "list_all (\<lambda>(f, op, ty, val). in_i32 val) (ti_atoms img)"
  proof -
    have "\<exists>s. pack_atom k = Inr s" if "k \<in> set (ti_atoms img)" for k
      using sa that by (auto simp: pack_all_def ebind_eq_Inr emap_Inr_iff in_set_conv_nth)
    then show ?thesis using atom_reads_back by (fastforce simp: list_all_iff)
  qed
  show thesis
  proof (rule that [OF la _ _ _ i32])
    show "read_ppt_header bytes = Inr (header_of img la)" unfolding bytes by (rule header_back(2) [OF hs])
    show "28 \<le> length bytes" using lens by (simp add: bytes)
    show "records atom_at 8 bytes 28 (length (ti_atoms img)) = Inr (loaded_atoms (ti_atoms img))"
      unfolding bytes loaded_atoms_map by (rule section_records [OF sa ra]) (use lens in simp_all)
    show "records node_at 4 bytes (28 + 8 * length (ti_atoms img)) (length (la_nodes la)) = Inr (la_nodes la)"
      using section_records [OF sn rn, of _ "hs @ sa" _ "se @ sw @ sc"] lens by (simp add: bytes)
    show "records edge_at 6 bytes (28 + 8 * length (ti_atoms img) + 4 * length (la_nodes la)) (length (la_edges la)) = Inr (la_edges la)"
      using section_records [OF se re, of _ "hs @ sa @ sn" _ "sw @ sc"] lens by (simp add: bytes add.assoc)
    show "records (unpack_uint 2) 2 bytes (28 + 8 * length (ti_atoms img) + 4 * length (la_nodes la) + 6 * length (la_edges la))
       (length (la_prog la)) = Inr (la_prog la)"
      using section_records [OF sw rw, of _ "hs @ sa @ sn @ se" _ sc] lens by (simp add: bytes add.assoc)
    show "records (unpack_uint 2) 2 bytes (28 + 8 * length (ti_atoms img) + 4 * length (la_nodes la) + 6 * length (la_edges la)
       + 2 * length (la_prog la)) (length (attr_list img)) = Inr (attr_list img)"
      using section_records [OF sc rw, of _ "hs @ sa @ sn @ se @ sw" _ "[]"] lens by (simp add: bytes add.assoc)
    show "length bytes = 28 + 8 * length (ti_atoms img) + 4 * length (la_nodes la) + 6 * length (la_edges la)
       + 2 * length (la_prog la) + 2 * length (attr_list img)" using lens by (simp add: bytes)
  qed
qed

subsection \<open>What compiling a condition leaves alone\<close>

definition frame :: "table_image \<Rightarrow> int \<times> (string \<times> table_edge list) list \<times> nat list \<times> bool \<times> bool \<times> nat option \<times> nat" where
  "frame img = (ti_max_steps img, ti_nodes img, ti_node_colors img, ti_stateful img, ti_migrate_by_name img, ti_safe_node img, ti_start img)"

lemma frame_steps:
  "field_index x img = (i, img') \<Longrightarrow> frame img' = frame img"
  "atom_index k img = (i, img') \<Longrightarrow> frame img' = frame img"
  "scalar_atom f op v img = Inr (i, img') \<Longrightarrow> frame img' = frame img"
  by (auto simp: field_index_def atom_index_def scalar_atom_def ebind_eq_Inr frame_def split: option.splits)

lemma frame_members: "prog_members f first es img = Inr (prog, img') \<Longrightarrow> frame img' = frame img"
proof (induction es arbitrary: first img prog)
  case (Cons e es)
  then show ?case by (fastforce simp: ebind_eq_Inr dest: frame_steps)
qed simp

lemma frame_compare:
  assumes "prog_compare l op r img = Inr (prog, img')"
  shows "frame img' = frame img"
proof (cases "op = CIn \<or> op = CNotIn")
  case True
  from membership_steps [OF assms True] obtain x f img1 es p where f: "field_index x img = (f, img1)"
    and p: "(if es = [] then Inr ([OPC_FALSE], img1) else prog_members f True es img1) = Inr (p, img')" .
  then have "frame img' = frame img1" using frame_members by (cases "es = []") auto
  then show ?thesis using frame_steps(1) [OF f] by simp
next
  case False
  from comparison_steps [OF assms False] obtain x f img1 opc v w where "field_index x img = (f, img1)"
    "scalar_atom f opc v img1 = Inr (w, img')" .
  then show ?thesis using frame_steps(1) [of x img f img1] frame_steps(3) [of f opc v img1 w img'] by simp
qed

lemma frame_prog:
  "prog_expr n img = Inr (prog, img') \<Longrightarrow> frame img' = frame img"
  "prog_operands opc first vs img = Inr (prog, img') \<Longrightarrow> frame img' = frame img"
proof (induction n img and opc first vs img arbitrary: prog img' and prog img' rule: prog_expr_prog_operands.induct)
  case (1 x img)
  then show ?case by (auto simp: Let_def case_prod_unfold) (metis frame_steps(1,2) prod.collapse)
next
  case (4 l op ops r rs img)
  then show ?case using frame_compare by simp
next
  case (7 opc first v vs img)
  then show ?case by (fastforce simp: ebind_eq_Inr)
qed (auto simp: ebind_eq_Inr)

lemma frame_condition: "compile_condition parse cond img = Inr (prog, img') \<Longrightarrow> frame img' = frame img"
  by (auto simp: compile_condition_def Let_def dest: frame_prog(1) split: if_splits option.splits)

subsection \<open>The nodes of a compiled flow\<close>

text \<open>The edges that are the table's: the error and event tiers are the host's.\<close>

definition table_tier :: "edge \<Rightarrow> bool" where
  "table_tier e \<longleftrightarrow> \<not> is_error (snd e) \<and> \<not> is_event (snd e)"

definition edge_compiled :: "pyparse \<Rightarrow> string list \<Rightarrow> table_image \<Rightarrow> edge \<Rightarrow> table_edge \<Rightarrow> bool" where
  "edge_compiled parse names img e te \<longleftrightarrow> (case te of (i, cond, prog) \<Rightarrow> cond = snd e \<and> position (fst e) names = Some i \<and>
     is_deterministic cond \<and> words_ok img prog \<and>
     (parser_wf parse \<and> parser_bool parse \<and> length (ti_atoms img) \<le> 0x8000 \<longrightarrow>
       (\<exists>P. computes img prog P \<and> (\<forall>c. eval_condition parse cond c = Inr (P c)))))"

lemma edge_compiled_extends: "edge_compiled parse names img e te \<Longrightarrow> extends img img' \<Longrightarrow> edge_compiled parse names img' e te"
  unfolding edge_compiled_def by (auto dest: words_ok_extends computes_extends extends_atoms)

lemma compile_edges_ok:
  "compile_edges parse names here es img = Inr (tes, img') \<Longrightarrow> img_ok img \<Longrightarrow>
   img_ok img' \<and> extends img img' \<and> frame img' = frame img \<and> list_all2 (edge_compiled parse names img') (filter table_tier es) tes"
proof (induction parse names here es img arbitrary: tes rule: compile_edges.induct)
  case (2 parse names here target cond es img)
  show ?case
  proof (cases "is_error cond \<or> is_event cond")
    case True
    then show ?thesis using 2 by (auto simp: table_tier_def frame_def)
  next
    case False
    from 2(3) False obtain i prog img1 rest where i: "position target names = Some i"
      and p: "compile_condition parse cond img = Inr (prog, img1)" and r: "compile_edges parse names here es img1 = Inr (rest, img')"
      and tes: "tes = (i, cond, prog) # rest" and sem: "\<not> is_semantic cond"
      by (auto simp: ebind_eq_Inr index_of_def split: if_splits option.splits)
    have det: "is_deterministic cond" using sem False by (simp add: is_semantic_def)
    have g: "img_ok img1" "extends img img1" "words_ok img1 prog" using condition_grows [OF p 2(4)] by (auto simp: grows_def)
    have "edge_compiled parse names img1 (target, cond) (i, cond, prog)"
      using condition_computes(2) [OF p 2(4)] i g(3) det by (simp add: edge_compiled_def)
    moreover have "img_ok img' \<and> extends img1 img' \<and> frame img' = frame img1 \<and>
        list_all2 (edge_compiled parse names img') (filter table_tier es) rest"
      using 2(2) [OF _ _ _ p] False sem i r g(1) by (auto simp: index_of_def)
    moreover have "table_tier (target, cond)" using False by (simp add: table_tier_def)
    ultimately show ?thesis using tes frame_condition [OF p] extends_trans [OF g(2)] edge_compiled_extends by auto
  qed
qed simp

definition node_compiled :: "pyparse \<Rightarrow> flow_graph \<Rightarrow> string list \<Rightarrow> table_image \<Rightarrow> string \<Rightarrow> string \<times> table_edge list \<Rightarrow> bool" where
  "node_compiled parse graph names img name entry \<longleftrightarrow> fst entry = name \<and> (\<exists>node. map_of (fg_nodes graph) name = Some node \<and>
     list_all2 (edge_compiled parse names img) (filter table_tier (fn_edges node)) (snd entry))"

lemma node_compiled_extends:
  "node_compiled parse graph names img name entry \<Longrightarrow> extends img img' \<Longrightarrow> node_compiled parse graph names img' name entry"
  unfolding node_compiled_def by (auto elim!: list_all2_mono edge_compiled_extends)

text \<open>The parts of the frame that compiling nodes leaves alone.\<close>

definition declared :: "table_image \<Rightarrow> int \<times> bool \<times> bool \<times> nat option \<times> nat" where
  "declared img = (ti_max_steps img, ti_stateful img, ti_migrate_by_name img, ti_safe_node img, ti_start img)"

lemma frame_eq: "frame img' = frame img \<longleftrightarrow> ti_nodes img' = ti_nodes img \<and> ti_node_colors img' = ti_node_colors img \<and> declared img' = declared img"
  by (auto simp: frame_def declared_def)

lemma compile_nodes_ok:
  "compile_nodes parse graph names todo img = Inr img' \<Longrightarrow> img_ok img \<Longrightarrow>
   img_ok img' \<and> extends img img' \<and> declared img' = declared img \<and>
   (\<exists>ns. ti_nodes img' = ti_nodes img @ ns \<and> list_all2 (node_compiled parse graph names img') todo ns) \<and>
   (\<exists>cs. ti_node_colors img' = ti_node_colors img @ cs \<and> (\<forall>c \<in> set cs. \<exists>s. c = parse_led_color s))"
proof (induction parse graph names todo img rule: compile_nodes.induct)
  case (2 parse graph names name rest img)
  obtain node tes img1 where node: "map_of (fg_nodes graph) name = Some node"
    and e: "compile_edges parse names name (fn_edges node) img = Inr (tes, img1)"
    and r: "compile_nodes parse graph names rest (img1\<lparr>ti_nodes := ti_nodes img1 @ [(name, tes)],
        ti_node_colors := ti_node_colors img1 @ [parse_led_color (fn_instruction node)]\<rparr>) = Inr img'"
    using 2(2) by (auto simp: ebind_eq_Inr split: option.splits)
  note eo = compile_edges_ok [OF e 2(3)]
  have fr: "ti_nodes img1 = ti_nodes img" "ti_node_colors img1 = ti_node_colors img" "declared img1 = declared img"
    using eo frame_eq by auto
  let ?img2 = "img1\<lparr>ti_nodes := ti_nodes img1 @ [(name, tes)], ti_node_colors := ti_node_colors img1 @ [parse_led_color (fn_instruction node)]\<rparr>"
  have ok2: "img_ok ?img2" using eo by simp
  obtain ns cs where ih: "img_ok img'" "extends ?img2 img'" "declared img' = declared ?img2"
    "ti_nodes img' = ti_nodes ?img2 @ ns" "list_all2 (node_compiled parse graph names img') rest ns"
    "ti_node_colors img' = ti_node_colors ?img2 @ cs" "\<forall>c \<in> set cs. \<exists>s. c = parse_led_color s"
    using 2(1) [OF node e refl r ok2] by blast
  have ext: "extends img1 img'" using ih(2) by simp
  have "node_compiled parse graph names img' name (name, tes)"
    using eo node list_all2_mono [OF _ edge_compiled_extends [OF _ ext]] by (auto simp: node_compiled_def)
  moreover have "declared img' = declared img" using ih(3) fr(3) by (simp add: declared_def)
  ultimately show ?case using ih fr extends_trans [OF _ ext] eo by auto
qed (auto simp: declared_def)

lemma position_lt: "position x xs = Some i \<Longrightarrow> i < length xs"
  by (simp add: position_Some)

lemma compile_flow_ok:
  assumes "compile_flow parse graph ms = Inr img"
  shows "img_ok img" "list_all2 (node_compiled parse graph (compiled_names graph) img) (compiled_names graph) (ti_nodes img)"
    "\<forall>c \<in> set (ti_node_colors img). \<exists>s. c = parse_led_color s" "position (fg_start graph) (compiled_names graph) = Some (ti_start img)"
    "\<forall>n. ti_safe_node img = Some n \<longrightarrow> n < length (compiled_names graph)" "ti_max_steps img = ms"
proof -
  let ?names = "compiled_names graph"
  obtain i img1 where i: "position (fg_start graph) ?names = Some i"
    and n: "compile_nodes parse graph ?names ?names (new_image ms) = Inr img1"
    and d: "declare_mode graph ?names (img1\<lparr>ti_start := i\<rparr>) = Inr img"
    using assms by (auto simp: compile_flow_def Let_def ebind_eq_Inr index_of_def split: option.splits)
  note o = compile_nodes_ok [OF n img_ok_new]
  have new: "ti_nodes (new_image ms) = []" "ti_node_colors (new_image ms) = []" "declared (new_image ms) = (ms, False, False, None, 0)"
    by (simp_all add: new_image_def declared_def)
  have fin: "img_ok img \<and> extends img1 img \<and> ti_nodes img = ti_nodes img1 \<and> ti_node_colors img = ti_node_colors img1 \<and>
      ti_start img = i \<and> ti_max_steps img = ms \<and> (\<forall>n. ti_safe_node img = Some n \<longrightarrow> n < length ?names)"
    using d o new by (auto simp: declare_mode_def declared_def index_of_def Let_def dest: position_lt split: if_splits option.splits)
  show "img_ok img" "position (fg_start graph) ?names = Some (ti_start img)"
    "\<forall>n. ti_safe_node img = Some n \<longrightarrow> n < length ?names" "ti_max_steps img = ms"
    "\<forall>c \<in> set (ti_node_colors img). \<exists>s. c = parse_led_color s"
    using fin i o new by auto
  show "list_all2 (node_compiled parse graph ?names img) ?names (ti_nodes img)"
    using o new fin list_all2_mono node_compiled_extends by (metis (no_types, lifting) append_Nil)
qed

subsection \<open>The flags word\<close>

lemma and_ff: "n AND 0xFF = n mod 256" for n :: nat
  using take_bit_eq_mask [of 8 n] by (simp add: take_bit_eq_mod mask_eq_exp_minus_1)

lemma and_ffff: "n AND 0xFFFF = n mod 65536" for n :: nat
  using take_bit_eq_mask [of 16 n] by (simp add: take_bit_eq_mod mask_eq_exp_minus_1)

lemma has_attrs_bit: "has_attrs img \<longleftrightarrow> bit (image_flags img) 0"
  using and_exp_eq_0_iff_not_bit [of "image_flags img" 0] by (simp add: has_attrs_def FLAG_NODE_ATTR_def)

lemma flags_attr: "(image_flags img AND 0xFF) AND FLAG_NODE_ATTR = image_flags img AND FLAG_NODE_ATTR"
  unfolding FLAG_NODE_ATTR_def and.assoc by simp

lemma flags_names: "(image_flags img AND 0xFF) AND FLAG_NODE_NAMES = 0"
proof -
  have "\<not> bit (image_flags img) 2"
    by (auto simp: image_flags_def bit_or_iff bit_and_iff bit_push_bit_iff FLAG_NODE_ATTR_def FLAG_STATEFUL_def FLAG_MIGRATE_BY_NAME_def
        bit_numeral_rec split: option.splits)
  then show ?thesis using and_exp_eq_0_iff_not_bit [of "image_flags img" 2] by (simp add: FLAG_NODE_NAMES_def and.assoc)
qed

lemma flags_safe: "(image_flags img div 256) AND 0xFF = (case ti_safe_node img of None \<Rightarrow> 0 | Some n \<Rightarrow> n mod 256)"
proof -
  have z: "drop_bit 8 (if b then k else 0) = (0 :: nat)" if "k < 256" for b and k :: nat
    using that by (simp add: drop_bit_eq_div)
  have "image_flags img div 256 = drop_bit 8 (image_flags img)" by (simp add: drop_bit_eq_div)
  also have "\<dots> = (case ti_safe_node img of None \<Rightarrow> 0 | Some n \<Rightarrow> n mod 256)"
    by (simp add: image_flags_def z FLAG_NODE_ATTR_def FLAG_STATEFUL_def FLAG_MIGRATE_BY_NAME_def and_ff drop_bit_push_bit
        drop_bit_or split: option.split)
  finally show ?thesis by (simp add: and_ff split: option.split)
qed

subsection \<open>A compiled image passes the check\<close>

lemma lay_edges_prog: "lay_edges es la = Inr la' \<Longrightarrow> la_prog la' = la_prog la @ concat (map (snd \<circ> snd) es)"
  by (induction es la rule: lay_edges.induct) (auto simp: ebind_eq_Inr)

lemma lay_nodes_prog: "lay_nodes ns la = Inr la' \<Longrightarrow> la_prog la' = la_prog la @ concat (map (snd \<circ> snd) (concat (map snd ns)))"
  by (induction ns la rule: lay_nodes.induct) (fastforce simp: ebind_eq_Inr dest: lay_edges_prog)+

lemma concat_enumerate_Nil: "concat (map f (enumerate n xs)) = [] \<longleftrightarrow> (\<forall>i < length xs. f (n + i, xs ! i) = [])"
proof (induction xs arbitrary: n)
  case (Cons x xs)
  then show ?case by (simp add: All_less_Suc2)
qed simp

lemma led_small: "parse_led_color s \<le> 7"
proof -
  have "list_all (\<lambda>p. snd p \<le> 7) LED_COLORS" by code_simp
  then have "map_of LED_COLORS w = Some n \<Longrightarrow> n \<le> 7" for w n by (fastforce dest: map_of_SomeD simp: list_all_iff)
  then show ?thesis by (simp add: parse_led_color_def split: option.split)
qed

lemma list_all2_right: "list_all2 P xs ys \<Longrightarrow> y \<in> set ys \<Longrightarrow> \<exists>x \<in> set xs. P x y"
  by (induction rule: list_all2_induct) auto

lemma compiled_edges:
  assumes "list_all2 (node_compiled parse graph names img) names (ti_nodes img)" "te \<in> set (concat (map snd (ti_nodes img)))"
  shows "\<exists>e. edge_compiled parse names img e te"
proof -
  obtain entry where e: "entry \<in> set (ti_nodes img)" "te \<in> set (snd entry)" using assms(2) by auto
  obtain name where "node_compiled parse graph names img name entry" using list_all2_right [OF assms(1) e(1)] by blast
  then obtain node :: flow_node where "list_all2 (edge_compiled parse names img) (filter table_tier (fn_edges node)) (snd entry)"
    unfolding node_compiled_def by blast
  from list_all2_right [OF this e(2)] show ?thesis by blast
qed

text \<open>The facts about a serialized flow that the theorems below share.\<close>

lemma flow_serialized:
  assumes "compile_flow parse graph ms = Inr img" "serialize img = Inr bytes"
  obtains la where "lay_nodes (ti_nodes img) first_layout = Inr la" "read_ppt_header bytes = Inr (header_of img la)"
    "list_all2 (node_laid (la_prog la) (la_stack la) (la_edges la)) (ti_nodes img) (la_nodes la)"
    "list_all2 (laid (la_prog la) (la_stack la)) (concat (map snd (ti_nodes img))) (la_edges la)"
    "length (la_nodes la) = length (ti_nodes img)" "la_prog la = concat (map (snd \<circ> snd) (concat (map snd (ti_nodes img))))"
    "records atom_at ATOM_SIZE bytes HEADER_SIZE (ph_atoms (header_of img la)) = Inr (loaded_atoms (ti_atoms img))"
    "records node_at NODE_SIZE bytes (nodes_off (header_of img la)) (ph_nodes (header_of img la)) = Inr (la_nodes la)"
    "records edge_at EDGE_SIZE bytes (edges_off (header_of img la)) (ph_edges (header_of img la)) = Inr (la_edges la)"
    "records (unpack_uint 2) WORD_SIZE bytes (prog_off (header_of img la)) (ph_prog_words (header_of img la)) = Inr (la_prog la)"
    "records (unpack_uint 2) WORD_SIZE bytes (attrs_off (header_of img la)) (length (attr_list img)) = Inr (attr_list img)"
    "length bytes = image_length (header_of img la)" "list_all (\<lambda>(f, op, ty, val). in_i32 val) (ti_atoms img)"
    "length (attr_list img) = (if has_attrs img then ph_nodes (header_of img la) else 0)"
proof -
  from serialized_sections [OF assms(2)] obtain la where s: "lay_nodes (ti_nodes img) first_layout = Inr la"
    "read_ppt_header bytes = Inr (header_of img la)"
    "records atom_at 8 bytes 28 (length (ti_atoms img)) = Inr (loaded_atoms (ti_atoms img))"
    "list_all (\<lambda>(f, op, ty, val). in_i32 val) (ti_atoms img)"
    "records node_at 4 bytes (28 + 8 * length (ti_atoms img)) (length (la_nodes la)) = Inr (la_nodes la)"
    "records edge_at 6 bytes (28 + 8 * length (ti_atoms img) + 4 * length (la_nodes la)) (length (la_edges la)) = Inr (la_edges la)"
    "records (unpack_uint 2) 2 bytes (28 + 8 * length (ti_atoms img) + 4 * length (la_nodes la) + 6 * length (la_edges la))
       (length (la_prog la)) = Inr (la_prog la)"
    "records (unpack_uint 2) 2 bytes (28 + 8 * length (ti_atoms img) + 4 * length (la_nodes la) + 6 * length (la_edges la)
       + 2 * length (la_prog la)) (length (attr_list img)) = Inr (attr_list img)"
    "length bytes = 28 + 8 * length (ti_atoms img) + 4 * length (la_nodes la) + 6 * length (la_edges la)
       + 2 * length (la_prog la) + 2 * length (attr_list img)" .
  have l: "list_all2 (node_laid (la_prog la) (la_stack la) (la_edges la)) (ti_nodes img) (la_nodes la)"
    "list_all2 (laid (la_prog la) (la_stack la)) (concat (map snd (ti_nodes img))) (la_edges la)"
    using lay_nodes_laid [OF s(1)] by (auto simp: first_layout_def)
  have len: "length (la_nodes la) = length (ti_nodes img)" using l(1) by (simp add: list_all2_lengthD)
  have prog: "la_prog la = concat (map (snd \<circ> snd) (concat (map snd (ti_nodes img))))"
    using lay_nodes_prog [OF s(1)] by (simp add: first_layout_def)
  have attrs: "length (attr_list img) = (if has_attrs img then ph_nodes (header_of img la) else 0)"
    by (auto simp: attr_list_def node_colors_def min_def)
  have offs: "nodes_off (header_of img la) = 28 + 8 * length (ti_atoms img)"
    "edges_off (header_of img la) = 28 + 8 * length (ti_atoms img) + 4 * length (la_nodes la)"
    "prog_off (header_of img la) = 28 + 8 * length (ti_atoms img) + 4 * length (la_nodes la) + 6 * length (la_edges la)"
    "attrs_off (header_of img la) = 28 + 8 * length (ti_atoms img) + 4 * length (la_nodes la) + 6 * length (la_edges la)
       + 2 * length (la_prog la)"
    by (simp_all add: nodes_off_def edges_off_def prog_off_def attrs_off_def  len
        HEADER_SIZE_def ATOM_SIZE_def NODE_SIZE_def EDGE_SIZE_def WORD_SIZE_def)
  have il: "length bytes = image_length (header_of img la)"
    using s(9) attrs by (simp add: image_length_def offs flags_attr flags_names has_attrs_def WORD_SIZE_def)
  show thesis
    by (rule that [OF s(1,2) l len prog _ _ _ _ _ il s(4) attrs])
      (use s in \<open>simp_all add: offs len HEADER_SIZE_def ATOM_SIZE_def NODE_SIZE_def EDGE_SIZE_def WORD_SIZE_def\<close>)
qed

lemma image_validates:
  assumes "compile_flow parse graph ms = Inr img" "serialize img = Inr bytes" "length (ti_atoms img) \<le> 0x8000"
  shows "validate_image bytes None = Inr (True, [])"
proof -
  note c = compile_flow_ok [OF assms(1)]
  from flow_serialized [OF assms(1,2)] obtain la where s: "read_ppt_header bytes = Inr (header_of img la)"
    "list_all2 (laid (la_prog la) (la_stack la)) (concat (map snd (ti_nodes img))) (la_edges la)"
    "la_prog la = concat (map (snd \<circ> snd) (concat (map snd (ti_nodes img))))"
    and r: "records atom_at ATOM_SIZE bytes HEADER_SIZE (ph_atoms (header_of img la)) = Inr (loaded_atoms (ti_atoms img))"
    "records edge_at EDGE_SIZE bytes (edges_off (header_of img la)) (ph_edges (header_of img la)) = Inr (la_edges la)"
    "records (unpack_uint 2) WORD_SIZE bytes (prog_off (header_of img la)) (ph_prog_words (header_of img la)) = Inr (la_prog la)"
    "records (unpack_uint 2) WORD_SIZE bytes (attrs_off (header_of img la)) (length (attr_list img)) = Inr (attr_list img)"
    "length bytes = image_length (header_of img la)" "length (attr_list img) = (if has_attrs img then ph_nodes (header_of img la) else 0)" .
  let ?h = "header_of img la"
  have nodes: "length (compiled_names graph) = length (ti_nodes img)" using c(2) by (simp add: list_all2_lengthD)
  have atoms: "atom_reasons ?h (i, loaded_atoms (ti_atoms img) ! i) = []" if "i < length (ti_atoms img)" for i
    using that c(1) by (auto simp: img_ok_def list_all_length atom_ok_def atom_reasons_def loaded_atoms_def split: prod.splits)
  have edges: "edge_reasons ?h (i, la_edges la ! i) = []" if i: "i < length (la_edges la)" for i
  proof -
    let ?te = "concat (map snd (ti_nodes img)) ! i"
    have "i < length (concat (map snd (ti_nodes img)))" using i list_all2_lengthD [OF s(2)] by simp
    then have l: "laid (la_prog la) (la_stack la) ?te (la_edges la ! i)" "?te \<in> set (concat (map snd (ti_nodes img)))"
      by (rule list_all2_nthD [OF s(2)], rule nth_mem)
    obtain e where "edge_compiled parse (compiled_names graph) img e ?te" using compiled_edges [OF c(2) l(2)] by blast
    then show ?thesis using l(1) nodes
      by (auto simp: edge_compiled_def laid_def edge_reasons_def dest: position_lt slice_at_take split: prod.splits)
  qed
  have words: "word_reasons ?h (i, la_prog la ! i) = []" if i: "i < length (la_prog la)" for i
  proof -
    have "la_prog la ! i \<in> set (la_prog la)" using i by simp
    then obtain te where te: "te \<in> set (concat (map snd (ti_nodes img)))" "la_prog la ! i \<in> set (snd (snd te))"
      unfolding s(3) by auto
    obtain e where "edge_compiled parse (compiled_names graph) img e te" using compiled_edges [OF c(2) te(1)] by blast
    then have "la_prog la ! i < length (ti_atoms img) \<or> la_prog la ! i \<in> set PROG_OPCODES"
      using te(2) by (auto simp: edge_compiled_def words_ok_def list_all_iff split: prod.splits)
    then show ?thesis using assms(3) by (auto simp: word_reasons_def PROG_OPCODES_def)
  qed
  have attrs: "attr_reasons (i, attr_list img ! i) = []" if i: "i < length (attr_list img)" for i
  proof -
    have "x \<le> 7" if "x \<in> set (node_colors img)" for x
      using that c(3) led_small by (auto simp: node_colors_def dest!: in_set_takeD)
    then have "\<forall>x \<in> set (attr_list img). x \<le> 7"
      by (auto simp: attr_list_def and_ffff split: if_splits) (metis le_trans mod_less_eq_dividend)
    then have "attr_list img ! i \<le> 7" using i by simp
    then show ?thesis by (simp add: attr_reasons_def)
  qed
  have walk: "walk_reasons bytes ?h = Inr []"
    using r atoms edges words attrs
    by (auto simp: walk_reasons_def concat_enumerate_Nil ebind_eq_Inr has_attrs_def flags_attr loaded_atoms_def
        simp del: concat_eq_Nil_conv)
  have safe: "\<not> (ph_safe_node ?h \<noteq> 0 \<and> ph_safe_node ?h \<ge> ph_nodes ?h)"
    using c(5) nodes by (auto simp: flags_safe split: option.splits)
  show ?thesis using s(1) r(5) walk safe by (auto simp: validate_image_def cap_reasons_def)
qed

text \<open>
  C35. The image of a compiled flow passes the check every endpoint makes of it: serialized and read as bytes, it has
  the length its header says and no unknown operation, type or opcode, and every field, atom, program, edge
  target, attribute and fail-safe node it names exists, as long as its atoms can be told from opcodes.
\<close>

theorem compiled_image_validates:
  assumes "compile_flow parse graph ms = Inr img" "serialize img = Inr bytes" "length (ti_atoms img) \<le> 0x8000"
  shows "validate_image bytes None = Inr (True, [])"
  by (rule image_validates [OF assms])

subsection \<open>The worst case\<close>

lemma foldl_max: "foldl (\<lambda>w r. max w (f r)) (m :: nat) xs = Max (insert m (set (map f xs)))"
proof (induction xs arbitrary: m)
  case (Cons x xs)
  have "Max (insert (max m (f x)) (set (map f xs))) = Max (insert m (set (map f (x # xs))))"
    by (cases "xs = []") (simp_all add: max.assoc Max_insert)
  then show ?case by (simp add: Cons)
qed simp

text \<open>
  C36. The worst case a pack's manifest carries is the compiler's: the bound the endpoint computes from the bytes of
  a compiled flow's image is the one the compiler reports in its debug view, and no node of the flow costs
  more than it.
\<close>

theorem wcet_of_compiled:
  assumes "compile_flow parse graph ms = Inr img" "serialize img = Inr bytes"
  shows "wcet_cycles bytes = Inr (debug_wcet img) \<and>
    (\<forall>(name, es) \<in> set (ti_nodes img). sum_list (map (\<lambda>(t, c, prog). 2 + max (length prog) 1) es) + 2 \<le> debug_wcet img)"
proof -
  let ?cost = "\<lambda>(name :: string, es :: table_edge list). sum_list (map (\<lambda>(t, c, prog). 2 + max (length prog) 1) es) + 2"
  from flow_serialized [OF assms] obtain la where s: "read_ppt_header bytes = Inr (header_of img la)"
    "list_all2 (node_laid (la_prog la) (la_stack la) (la_edges la)) (ti_nodes img) (la_nodes la)"
    "records node_at NODE_SIZE bytes (nodes_off (header_of img la)) (ph_nodes (header_of img la)) = Inr (la_nodes la)"
    "records edge_at EDGE_SIZE bytes (edges_off (header_of img la)) (ph_edges (header_of img la)) = Inr (la_edges la)" .
  have ne: "ti_nodes img \<noteq> []"
    using compile_flow_ok(2,4) [OF assms(1)] by (auto dest: position_lt)
  have cost: "node_cycles (map (snd \<circ> snd) (la_edges la)) rec = ?cost node"
    if nl: "node_laid (la_prog la) (la_stack la) (la_edges la) node rec" for node rec
  proof -
    obtain a recs b where l: "la_edges la = a @ recs @ b" "rec = (length a, length (snd node))"
      "list_all2 (laid (la_prog la) (la_stack la)) (snd node) recs" using nl by (auto simp: node_laid_def)
    have "map (\<lambda>w. 2 + max w 1) (map (snd \<circ> snd) recs) = map (\<lambda>(t, c, prog). 2 + max (length prog) 1) (snd node)"
      using l(3) by (induction rule: list_all2_induct) (auto simp: laid_def)
    then show ?thesis using l list_all2_lengthD [OF l(3)] by (simp add: node_cycles_def case_prod_unfold)
  qed
  have "map (node_cycles (map (snd \<circ> snd) (la_edges la))) (la_nodes la) = map ?cost (ti_nodes img)"
  proof (rule nth_equalityI)
    fix i assume "i < length (map (node_cycles (map (snd \<circ> snd) (la_edges la))) (la_nodes la))"
    then have i: "i < length (la_nodes la)" "i < length (ti_nodes img)" using list_all2_lengthD [OF s(2)] by simp_all
    from cost [OF list_all2_nthD [OF s(2) i(2)]]
    show "map (node_cycles (map (snd \<circ> snd) (la_edges la))) (la_nodes la) ! i = map ?cost (ti_nodes img) ! i"
      using i by (simp only: nth_map)
  qed (use list_all2_lengthD [OF s(2)] in simp)
  then have eq: "node_cycles (map (snd \<circ> snd) (la_edges la)) ` set (la_nodes la) = ?cost ` set (ti_nodes img)"
    by (metis list.set_map)
  have "wcet_cycles bytes = Inr (Max (insert 0 (?cost ` set (ti_nodes img))))"
    using s(1,3,4) by (simp add: wcet_cycles_def foldl_max eq del: header_sel)
  moreover have "Max (insert 0 (?cost ` set (ti_nodes img))) = debug_wcet img"
    using ne by (simp add: debug_wcet_def)
  ultimately show ?thesis using ne by (auto simp: debug_wcet_def intro!: Max_ge)
qed

subsection \<open>The decision, from bytes to bytes\<close>

fun hit :: "(string \<Rightarrow> bool) \<Rightarrow> table_edge list \<Rightarrow> (nat \<times> table_edge) option" where
  "hit Q [] = None"
| "hit Q (e # es) = (if Q (fst (snd e)) then Some (0, e) else map_option (map_prod Suc id) (hit Q es))"

lemma first_edge_hit:
  assumes "pt_edges t = a @ recs @ b" "list_all2 (laid (pt_prog t) stack) es recs" "off + j = length a"
    and "\<And>i c p. (i, c, p) \<in> set es \<Longrightarrow> eval_prog STACK_MAX (pt_atoms t) regs p = Inr (Q c)"
  shows "first_edge t regs off j (length es) = Inr (map_option (\<lambda>(k, e). (j + k, fst e)) (hit Q es))"
  using assms
proof (induction es arbitrary: a recs j)
  case (Cons e es)
  obtain i c p where e: "e = (i, c, p)" by (cases e)
  obtain r recs' where r: "recs = r # recs'" "laid (pt_prog t) stack e r" "list_all2 (laid (pt_prog t) stack) es recs'"
    using Cons.prems(2) by (auto simp: list_all2_Cons1)
  obtain po where po: "r = (i, po, length p)" "slice_at (pt_prog t) po p" using r(2) by (auto simp: laid_def e)
  have ih: "first_edge t regs off (j + 1) (length es) = Inr (map_option (\<lambda>(k, e). (j + 1 + k, fst e)) (hit Q es))"
    by (rule Cons.IH [of "a @ [r]" recs']) (use Cons.prems r in auto)
  have "pt_edges t ! (off + j) = r" "off + j < length (pt_edges t)" using Cons.prems(1,3) r(1) by auto
  then show ?case using slice_at_take [OF po(2)] po(1) Cons.prems(4) [of i c p] ih
    by (cases "hit Q es") (auto simp: e)
qed simp

lemma tiers_disjoint: "is_error cond \<or> is_event cond \<Longrightarrow> \<not> is_deterministic cond"
  using edge_tier_unique [of cond]
  by (cases "is_deterministic cond"; cases "is_error cond"; cases "is_event cond"; simp)

lemma hit_first:
  "list_all2 (edge_compiled parse names img) (filter table_tier es) tes \<Longrightarrow>
   (\<And>e. e \<in> set es \<Longrightarrow> table_tier e \<Longrightarrow> \<exists>b. eval_condition parse (snd e) c = Inr b) \<Longrightarrow>
   (case first_deterministic parse es c of
      None \<Rightarrow> hit (\<lambda>cond. eval_condition parse cond c = Inr True) tes = None
    | Some (target, cond) \<Rightarrow> \<exists>k i prog. hit (\<lambda>cond. eval_condition parse cond c = Inr True) tes = Some (k, i, cond, prog) \<and>
        position target names = Some i)"
proof (induction es arbitrary: tes)
  case (Cons e es)
  obtain target cond where e: "e = (target, cond)" by (cases e)
  show ?case
  proof (cases "table_tier e")
    case False
    then have "\<not> is_deterministic cond" using tiers_disjoint [of cond] by (auto simp: table_tier_def e)
    then show ?thesis using Cons False by (simp add: e)
  next
    case True
    then have "list_all2 (edge_compiled parse names img) (e # filter table_tier es) tes" using Cons.prems(1) by simp
    then obtain te rest where te: "tes = te # rest" "edge_compiled parse names img e te"
      and rest: "list_all2 (edge_compiled parse names img) (filter table_tier es) rest"
      by (auto simp only: list_all2_Cons1)
    from te obtain i prog where tes: "tes = (i, cond, prog) # rest" and c: "position target names = Some i" "is_deterministic cond"
      by (auto simp: edge_compiled_def e split: prod.splits)
    obtain b where b: "eval_condition parse cond c = Inr b" using Cons.prems(2) [of e] True by (auto simp: e)
    have ih: "case first_deterministic parse es c of
      None \<Rightarrow> hit (\<lambda>cond. eval_condition parse cond c = Inr True) rest = None
    | Some (target, cond) \<Rightarrow> \<exists>k i prog. hit (\<lambda>cond. eval_condition parse cond c = Inr True) rest = Some (k, i, cond, prog) \<and>
        position target names = Some i" by (rule Cons.IH [OF rest]) (use Cons.prems(2) in auto)
    show ?thesis using ih b c by (cases b) (auto simp: tes e split: option.splits)
  qed
qed simp

lemma node_word_back: "n < 65536 \<Longrightarrow> le_value (take 2 (le_bytes 4 n)) = n"
proof -
  assume n: "n < 65536"
  have four: "(4 :: nat) = Suc (Suc (Suc (Suc 0)))" and two: "(2 :: nat) = Suc (Suc 0)" by simp_all
  have "le_value (take 2 (le_bytes 4 n)) = n mod 256 + 256 * (n div 256 mod 256)"
    by (simp only: four two le_bytes.simps take_Suc_Cons take_0 le_value.simps of_char_of) simp
  also have "n div 256 mod 256 = n div 256" using n by (intro mod_less) (simp add: less_mult_imp_div_less)
  finally show ?thesis by simp
qed

lemma scalar_rep_tag: "scalar_rep d v r \<Longrightarrow> fst r < 4"
  by (cases v) (auto simp: ty_codes)

lemma encoded_regs_read:
  assumes "encode_regs img c (int i) = Inr rbytes" "numbered (ti_intern img)" "i < 65536"
  obtains rs d where "encode_row (by_register img) c (ti_intern img) = Inr (rs, d)" "list_all (\<lambda>(ty, val). in_i32 val) rs"
    "read_regs (length (by_register img)) rbytes = Some (i, loaded_regs rs)"
proof -
  obtain rs d s1 s2 where row: "encode_row (by_register img) c (ti_intern img) = Inr (rs, d)"
    and s: "pack_uint 4 (int i) = Inr s1" "pack_all (map pack_register rs) = Inr s2" "rbytes = s1 @ s2"
    using assms(1) by (auto simp: encode_regs_def ebind_eq_Inr pack_all_Cons)
  note rep = encode_row_rep [OF row assms(2)]
  have tag: "fst r < 4" if r: "r \<in> set rs" for r
    using r rep(3,4) by (auto simp: in_set_conv_nth dest: scalar_rep_tag)
  have rb: "\<forall>r \<in> set rs. reads_back pack_register register_at 8 r (fst r, word_of_int (snd r))"
    using register_reads_back [OF tag] by blast
  have "\<exists>t. pack_register r = Inr t" if "r \<in> set rs" for r
    using s(2) that by (auto simp: pack_all_def emap_Inr_iff ebind_eq_Inr in_set_conv_nth)
  then have i32: "list_all (\<lambda>(ty, val). in_i32 val) rs"
    using register_reads_back [OF tag] by (fastforce simp: list_all_iff)
  have l: "length s1 = 4" "length s2 = 8 * length rs" using pack_uint_at(1) [OF s(1)] section_length [OF s(2) rb] by simp_all
  have "s1 = le_bytes 4 i" using s(1) by (auto simp: pack_uint_def split: if_splits)
  then have node: "unpack_uint 2 rbytes 0 = Inr i" using l(1) node_word_back [OF assms(3)] by (simp add: unpack_uint_def s(3))
  have "records register_at 8 (s1 @ s2 @ []) 4 (length rs) = Inr (map (\<lambda>r. (fst r, word_of_int (snd r))) rs)"
    by (rule section_records [OF s(2) rb]) (simp_all add: l)
  then have "read_regs (length (by_register img)) rbytes = Some (i, loaded_regs rs)"
    using l rep(3) node by (simp add: read_regs_def s(3) loaded_regs_def case_prod_unfold)
  then show thesis by (rule that [OF row i32])
qed

lemma serialized_nodes_lt:
  assumes "serialize img = Inr bytes"
  shows "length (ti_nodes img) < 65536"
  using assms by (auto simp: serialize_def ebind_eq_Inr pack_all_Cons pack_header_def pack_uint_def split: if_splits)

text \<open>One node of the loaded tables, over registers the image admits.\<close>

lemma node_walk:
  assumes ok: "parser_wf parse" "parser_bool parse" "length (ti_atoms img) \<le> 0x8000" and adm: "admitted img c rs"
    and comp: "list_all2 (edge_compiled parse names img) (filter table_tier es0) es"
    and t: "pt_atoms t = loaded_atoms (ti_atoms img)" "i < length (pt_nodes t)" "pt_nodes t ! i = (length a, length es)"
      "pt_edges t = a @ recs @ b" "list_all2 (laid (pt_prog t) stack) es recs" "stack \<le> int STACK_MAX"
  shows "case first_deterministic parse es0 c of None \<Rightarrow> evaluate_node t i (loaded_regs rs) = Inr None
    | Some (target, cond) \<Rightarrow> \<exists>k j. evaluate_node t i (loaded_regs rs) = Inr (Some (k, j)) \<and> position target names = Some j"
proof -
  let ?Q = "\<lambda>cond. eval_condition parse cond c = Inr True"
  have ev: "\<exists>b. eval_condition parse (snd e) c = Inr b" if e: "e \<in> set es0" "table_tier e" for e
  proof -
    have "e \<in> set (filter table_tier es0)" using e by simp
    then obtain te where "te \<in> set es" "edge_compiled parse names img e te" using comp by (metis in_set_conv_nth list_all2_conv_all_nth)
    then show ?thesis using ok by (auto simp: edge_compiled_def)
  qed
  have prog: "eval_prog STACK_MAX (pt_atoms t) (loaded_regs rs) p = Inr (?Q cond)" if e: "(j, cond, p) \<in> set es" for j cond p
  proof -
    obtain P where P: "computes img p P" "\<And>c. eval_condition parse cond c = Inr (P c)"
      using list_all2_right [OF comp e] ok by (auto simp: edge_compiled_def)
    obtain r where "laid (pt_prog t) stack (j, cond, p) r" using t(5) e by (metis in_set_conv_nth list_all2_conv_all_nth)
    then have "rise p \<le> int STACK_MAX" using t(6) by (auto simp: laid_def)
    then show ?thesis using P adm by (simp add: computes_def eval_prog_def t(1))
  qed
  have "first_edge t (loaded_regs rs) (length a) 0 (length es) = Inr (map_option (\<lambda>(k, e). (0 + k, fst e)) (hit ?Q es))"
    by (rule first_edge_hit [where a = a and recs = recs and b = b and stack = stack]) (use t(4,5) prog in auto)
  then have "evaluate_node t i (loaded_regs rs) = Inr (map_option (\<lambda>(k, e). (k, fst e)) (hit ?Q es))"
    using t(2,3) by (simp add: evaluate_node_def)
  then show ?thesis using hit_first [OF comp ev] by (auto split: option.splits)
qed

text \<open>A compiled flow, loaded: the tables are those of the layout.\<close>

lemma flow_loads:
  assumes "compile_flow parse graph ms = Inr img" "serialize img = Inr bytes"
  obtains la where "load_tables bytes = Some \<lparr>pt_header = header_of img la, pt_atoms = loaded_atoms (ti_atoms img),
      pt_nodes = la_nodes la, pt_edges = la_edges la, pt_prog = la_prog la\<rparr>"
    "list_all2 (node_laid (la_prog la) (la_stack la) (la_edges la)) (ti_nodes img) (la_nodes la)"
    "list_all (\<lambda>(f, op, ty, val). in_i32 val) (ti_atoms img)" "lay_nodes (ti_nodes img) first_layout = Inr la"
proof -
  from flow_serialized [OF assms] obtain la where ln: "lay_nodes (ti_nodes img) first_layout = Inr la" and s: "read_ppt_header bytes = Inr (header_of img la)"
    "list_all2 (node_laid (la_prog la) (la_stack la) (la_edges la)) (ti_nodes img) (la_nodes la)"
    "records atom_at ATOM_SIZE bytes HEADER_SIZE (ph_atoms (header_of img la)) = Inr (loaded_atoms (ti_atoms img))"
    "records node_at NODE_SIZE bytes (nodes_off (header_of img la)) (ph_nodes (header_of img la)) = Inr (la_nodes la)"
    "records edge_at EDGE_SIZE bytes (edges_off (header_of img la)) (ph_edges (header_of img la)) = Inr (la_edges la)"
    "records (unpack_uint 2) WORD_SIZE bytes (prog_off (header_of img la)) (ph_prog_words (header_of img la)) = Inr (la_prog la)"
    and len: "length bytes = image_length (header_of img la)" and v: "list_all (\<lambda>(f, op, ty, val). in_i32 val) (ti_atoms img)" .
  have "attrs_off (header_of img la) + (if ph_flags (header_of img la) AND FLAG_NODE_ATTR \<noteq> 0
      then WORD_SIZE * ph_nodes (header_of img la) else 0) \<le> length bytes"
    by (simp add: len image_length_def)
  then have "load_tables bytes = Some \<lparr>pt_header = header_of img la, pt_atoms = loaded_atoms (ti_atoms img),
      pt_nodes = la_nodes la, pt_edges = la_edges la, pt_prog = la_prog la\<rparr>"
    using s(1,3-6) by (simp add: load_tables_def linorder_not_less [symmetric] del: header_sel)
  then show thesis by (rule that [OF _ s(2) v ln])
qed

lemma flow_decides:
  assumes "parser_wf parse" "parser_bool parse" "compile_flow parse graph ms = Inr img" "serialize img = Inr bytes"
    and "length (ti_atoms img) \<le> 0x8000" "i < length (compiled_names graph)"
    and "map_of (fg_nodes graph) (compiled_names graph ! i) = Some node" "encode_regs img c (int i) = Inr rbytes"
  shows "\<exists>t regs. load_tables bytes = Some t \<and> read_regs (ph_fields (pt_header t)) rbytes = Some (i, regs) \<and>
    (ph_max_stack (pt_header t) \<le> STACK_MAX \<longrightarrow>
      (case first_deterministic parse (fn_edges node) c of
         None \<Rightarrow> evaluate_node t i regs = Inr None
       | Some (target, cond) \<Rightarrow> \<exists>k j. evaluate_node t i regs = Inr (Some (k, j)) \<and> position target (compiled_names graph) = Some j))"
proof -
  let ?names = "compiled_names graph"
  note ok = compile_flow_ok [OF assms(3)]
  from flow_loads [OF assms(3,4)] obtain la where t: "load_tables bytes = Some \<lparr>pt_header = header_of img la,
      pt_atoms = loaded_atoms (ti_atoms img), pt_nodes = la_nodes la, pt_edges = la_edges la, pt_prog = la_prog la\<rparr>"
    and nl: "list_all2 (node_laid (la_prog la) (la_stack la) (la_edges la)) (ti_nodes img) (la_nodes la)"
    and i32: "list_all (\<lambda>(f, op, ty, val). in_i32 val) (ti_atoms img)" .
  let ?t = "\<lparr>pt_header = header_of img la, pt_atoms = loaded_atoms (ti_atoms img), pt_nodes = la_nodes la,
    pt_edges = la_edges la, pt_prog = la_prog la\<rparr>"
  have num: "numbered (ti_fields img)" "numbered (ti_intern img)" using ok(1) by (auto simp: img_ok_def)
  have il: "i < length (ti_nodes img)" using assms(6) list_all2_lengthD [OF ok(2)] by simp
  have "i < 65536" using il serialized_nodes_lt [OF assms(4)] by simp
  from encoded_regs_read [OF assms(8) num(2) this] obtain rs d where row: "encode_row (by_register img) c (ti_intern img) = Inr (rs, d)"
    and ri: "list_all (\<lambda>(ty, val). in_i32 val) rs" and regs: "read_regs (length (by_register img)) rbytes = Some (i, loaded_regs rs)" .
  have adm: "admitted img c rs" using ok(1) assms(5) i32 ri row by (auto simp: admitted_def)
  obtain es where es: "snd (ti_nodes img ! i) = es" "list_all2 (edge_compiled parse ?names img) (filter table_tier (fn_edges node)) es"
    using list_all2_nthD [OF ok(2) assms(6)] assms(7) by (auto simp: node_compiled_def)
  obtain a recs b where lay: "la_edges la = a @ recs @ b" "la_nodes la ! i = (length a, length es)"
    "list_all2 (laid (la_prog la) (la_stack la)) es recs" and ln: "i < length (la_nodes la)"
    using list_all2_nthD [OF nl il] il list_all2_lengthD [OF nl] es(1) by (auto simp: node_laid_def)
  have "ph_max_stack (pt_header ?t) \<le> STACK_MAX \<longrightarrow>
      (case first_deterministic parse (fn_edges node) c of None \<Rightarrow> evaluate_node ?t i (loaded_regs rs) = Inr None
       | Some (target, cond) \<Rightarrow> \<exists>k j. evaluate_node ?t i (loaded_regs rs) = Inr (Some (k, j)) \<and> position target ?names = Some j)"
    by (intro impI, rule node_walk [OF assms(1,2,5) adm es(2), where stack = "la_stack la"]) (use lay ln in auto)
  moreover have "read_regs (ph_fields (pt_header ?t)) rbytes = Some (i, loaded_regs rs)"
    using regs by (simp add: by_register_fields [OF num(1)])
  ultimately show ?thesis using t by blast
qed

text \<open>
  C2. A compiled flow decides as the engine does, from the bytes of the table to the edge taken: for a node of the
  flow and any fields the register file can hold, the reference interpreter reads back the image and the
  registers and takes the edge the engine's first-match rule takes, to the node of the same name, or none
  exactly when no deterministic edge holds, whenever the image's declared stack fits the interpreter's.
\<close>

theorem compiled_flow_decides:
  assumes "parser_wf parse" "parser_bool parse" "compile_flow parse graph ms = Inr img" "serialize img = Inr bytes"
    and "length (ti_atoms img) \<le> 0x8000" "i < length (compiled_names graph)"
    and "map_of (fg_nodes graph) (compiled_names graph ! i) = Some node" "encode_regs img c (int i) = Inr rbytes"
  shows "\<exists>t regs. load_tables bytes = Some t \<and> read_regs (ph_fields (pt_header t)) rbytes = Some (i, regs) \<and>
    (ph_max_stack (pt_header t) \<le> STACK_MAX \<longrightarrow>
      (case first_deterministic parse (fn_edges node) c of
         None \<Rightarrow> evaluate_node t i regs = Inr None
       | Some (target, cond) \<Rightarrow> \<exists>k j. evaluate_node t i regs = Inr (Some (k, j)) \<and> position target (compiled_names graph) = Some j))"
  by (rule flow_decides [OF assms])

subsection \<open>A flow\<close>

text \<open>Two nodes, a comparison and a default, and a declared fail-safe.\<close>

definition demo_flow :: flow_graph where
  "demo_flow = \<lparr>fg_name = ''f'', fg_start = ''a'', fg_nodes = [(''a'', \<lparr>fn_name = ''a'', fn_instruction = ''RGB LED red'', fn_edges = [(''b'', ''when x < -3''), (''a'', ''otherwise'')], fn_annotations = []\<rparr>),
     (''b'', \<lparr>fn_name = ''b'', fn_instruction = '''', fn_edges = [], fn_annotations = []\<rparr>)], fg_meta = [(''stateful'', ''yes''), (''safe'', ''b''), (''migration'', ''by-name'')], fg_fields = []\<rparr>"

definition demo_image :: table_image where
  "demo_image = \<lparr>ti_max_steps = 25, ti_fields = [(''x'', 0)], ti_intern = [([], 0)], ti_atoms = [(0, 2, 2, - 3)],
     ti_nodes = [(''a'', [(1, ''when x < -3'', [0]), (0, ''otherwise'', [0x8003])]), (''b'', [])], ti_node_colors = [1, 0],
     ti_stateful = True, ti_migrate_by_name = True, ti_safe_node = Some 1, ti_start = 0, ti_skipped = []\<rparr>"

lemma demo_tiers:
  "is_error ''when x < -3'' = False" "is_event ''when x < -3'' = False" "is_semantic ''when x < -3'' = False"
  "is_error ''otherwise'' = False" "is_event ''otherwise'' = False" "is_semantic ''otherwise'' = False"
  by code_simp+

lemma demo_condition:
  "compile_condition demo_parse ''when x < -3'' (new_image 25) =
     Inr ([0], (new_image 25)\<lparr>ti_fields := [(''x'', 0)], ti_atoms := [(0, 2, 2, - 3)]\<rparr>)"
  by code_simp
lemma demo_keyword: "compile_condition parse ''otherwise'' img = Inr ([0x8003], img)"
proof -
  have "is_deterministic ''otherwise''" "py_lower (expr_of ''otherwise'') \<in> set ALWAYS" by code_simp+
  then show ?thesis by (simp add: compile_condition_def OPC_TRUE_def)
qed
lemma demo_names: "compiled_names demo_flow = [''a'', ''b'']" by code_simp
lemma demo_led: "parse_led_color ''RGB LED red'' = 1" "parse_led_color [] = 0" by code_simp+
lemma demo_meta: "py_lower (meta_text demo_flow ''stateful'') = ''yes''" "meta_text demo_flow ''safe'' = ''b''" "py_lower (meta_text demo_flow ''migration'') = ''by-name''" by code_simp+
lemma demo_compiles: "compile_flow demo_parse demo_flow 25 = Inr demo_image"
  by (simp add: compile_flow_def demo_names index_of_def declare_mode_def demo_meta, simp add: demo_flow_def demo_tiers demo_keyword
    demo_led index_of_def new_image_def demo_image_def demo_condition [unfolded new_image_def])

lemma demo_flags: "image_flags demo_image = 0x010B"
  by (simp add: image_flags_def demo_image_def node_colors_def FLAG_NODE_ATTR_def FLAG_STATEFUL_def FLAG_MIGRATE_BY_NAME_def push_bit_eq_mult)
lemma demo_layout: "lay_nodes (ti_nodes demo_image) \<lparr>la_prog = [], la_edges = [], la_nodes = [], la_stack = 1\<rparr> =
   Inr \<lparr>la_prog = [0, 0x8003], la_edges = [(1, 0, 1), (0, 1, 1)], la_nodes = [(0, 2), (2, 0)], la_stack = 1\<rparr>"
  by (simp add: demo_image_def stack_depth_def OPC_TRUE_def OPC_FALSE_def)

lemma demo_serializes: "\<exists>bytes. serialize demo_image = Inr bytes"
  unfolding serialize_def demo_layout
  by (simp add: demo_flags pack_header_def pack_all_Cons pack_uint_def pack_i32_def MAGIC_def VISITS_NONE_def ebind_eq_Inr,
      simp add: demo_image_def pack_all_Cons pack_uint_def pack_i32_def node_colors_def VISITS_NONE_def FLAG_NODE_ATTR_def)
lemma demo_registers: "\<exists>rbytes. encode_regs demo_image [(''x'', PInt (- 5))] (int 0) = Inr rbytes"
  by (simp add: encode_regs_def by_register_def demo_image_def encode_scalar_def I32_MIN_def I32_MAX_def ctx_get_def pack_all_Cons ebind_eq_Inr
     pack_uint_def pack_i32_def TY_INT_def)
lemma demo_parser: "parser_wf demo_parse" "parser_bool demo_parse"
  by (auto simp: parser_wf_def parser_bool_def demo_parse_def split: if_splits)

theorem compiled_condition_decides_witness:
  "\<exists>b. eval_condition demo_parse ''when x < -3'' [(''x'', PInt (- 5))] = Inr b \<and>
     eval_prog 64 (loaded_atoms [(0, 2, 2, - 3)]) (loaded_regs [(2, - 5)]) [0] = Inr b"
proof -
  let ?img = "(new_image 25)\<lparr>ti_fields := [(''x'', 0)], ti_atoms := [(0, 2, 2, - 3)]\<rparr>"
  have "admitted ?img [(''x'', PInt (- 5))] [(2, - 5)]"
    by (simp_all add: admitted_def img_ok_def new_image_def numbered_def atom_ok_def OPS_def TYPES_def in_i32_def by_register_def
        encode_scalar_def I32_MIN_def I32_MAX_def ctx_get_def TY_INT_def)
  then show ?thesis
    using compiled_condition_decides [OF demo_parser img_ok_new demo_condition extends_refl, of "[(''x'', PInt (- 5))]" "[(2, - 5)]" 1 64]
    by (simp add: stack_depth_def new_image_def)
qed
theorem compiled_image_validates_witness:
  "\<exists>bytes. serialize demo_image = Inr bytes \<and> validate_image bytes None = Inr (True, [])"
  using demo_serializes compiled_image_validates [OF demo_compiles] by (auto simp: demo_image_def)

theorem wcet_of_compiled_witness: "\<exists>bytes. serialize demo_image = Inr bytes \<and> wcet_cycles bytes = Inr 8"
proof -
  have "debug_wcet demo_image = 8" by (simp add: debug_wcet_def demo_image_def)
  then show ?thesis using demo_serializes wcet_of_compiled [OF demo_compiles] by auto
qed

theorem compiled_flow_decides_witness:
  "\<exists>bytes rbytes t regs k. serialize demo_image = Inr bytes \<and> encode_regs demo_image [(''x'', PInt (- 5))] (int 0) = Inr rbytes \<and>
     load_tables bytes = Some t \<and> read_regs (ph_fields (pt_header t)) rbytes = Some (0, regs) \<and>
     evaluate_node t 0 regs = Inr (Some (k, 1))"
proof -
  obtain bytes rbytes where b: "serialize demo_image = Inr bytes" "encode_regs demo_image [(''x'', PInt (- 5))] (int 0) = Inr rbytes"
    using demo_serializes demo_registers by blast
  let ?node = "\<lparr>fn_name = ''a'', fn_instruction = ''RGB LED red'', fn_edges = [(''b'', ''when x < -3''), (''a'', ''otherwise'')],
    fn_annotations = []\<rparr>"
  have n: "map_of (fg_nodes demo_flow) (compiled_names demo_flow ! 0) = Some ?node"
    by (simp add: demo_names, simp add: demo_flow_def)
  have f: "first_deterministic demo_parse (fn_edges ?node) [(''x'', PInt (- 5))] = Some (''b'', ''when x < -3'')"
    by code_simp
  obtain la t where t: "load_tables bytes = Some t" "pt_header t = header_of demo_image la"
    and la: "lay_nodes (ti_nodes demo_image) first_layout = Inr la"
    by (rule flow_loads [OF demo_compiles b(1)]) auto
  have "ph_max_stack (pt_header t) \<le> STACK_MAX" using la by (auto simp: t(2) first_layout_def demo_layout STACK_MAX_def)
  then show ?thesis
    using b t(1) compiled_flow_decides [OF demo_parser demo_compiles b(1) _ _ n b(2), unfolded f] by (auto simp: demo_image_def demo_names)
qed

subsection \<open>The fail-safe node\<close>

text \<open>The first node cannot be the declared fail-safe: its index is the mark of an undeclared one.\<close>

lemma first_safe_node_is_undeclared: "serialize (img\<lparr>ti_safe_node := Some 0\<rparr>) = serialize (img\<lparr>ti_safe_node := None\<rparr>)"
  by (simp add: serialize_def pack_header_def image_flags_def node_colors_def)

end
