(* ===== verification/PolicyPack.thy ===== *)
theory PolicyPack
  imports PptImage AuditLog FlowGraph
begin

section \<open>Policy packs\<close>

text \<open>
  The signed half of \<open>src/prismpath/hotswap/policy_pack.py\<close>: a pack is an image, a manifest, a signature and
  sometimes a sidecar, four files beside each other that a call reads; a file is its contents, or nothing
  when it does not exist. Ed25519 and SHA-256 are those of the platform. A public key file holds the raw
  key. An envelope is the dictionary its file holds.
\<close>

definition PACK_FORMAT :: string where "PACK_FORMAT = ''ppt-pack/1''"

record pack_files =
  pk_image :: "string option"
  pk_manifest :: "string option"
  pk_sig :: "string option"
  pk_sidecar :: "string option"

definition canonical_bytes :: "platform \<Rightarrow> pyval \<Rightarrow> string" where
  "canonical_bytes pf obj = canonical_compact (pf_float pf) obj"

definition digest :: "platform \<Rightarrow> string \<Rightarrow> string" where
  "digest pf data = sha256_hex (pf_sha pf) data"

subsection \<open>Keys\<close>

text \<open>A public key and its id, from the contents of its file.\<close>

definition load_key :: "platform \<Rightarrow> string option \<Rightarrow> (string \<times> string) result" where
  "load_key pf file = (case file of
     None \<Rightarrow> Inl OSError
   | Some raw \<Rightarrow> if length raw \<noteq> 32 then Inl ValueError else Inr (raw, digest pf raw))"

fun scalar_strings :: "pyval list \<Rightarrow> string list result" where
  "scalar_strings [] = Inr []"
| "scalar_strings (v # vs) =
     (case v of
        PList _ \<Rightarrow> Inl TypeError
      | PDict _ \<Rightarrow> Inl TypeError
      | PStr s \<Rightarrow> ebind (scalar_strings vs) (\<lambda>ss. Inr (s # ss))
      | _ \<Rightarrow> scalar_strings vs)"

text \<open>\<open>frozenset(json.load(handle))\<close>: the strings of the set; the key ids looked up in it are strings.\<close>

definition load_revoked :: "platform \<Rightarrow> string option \<Rightarrow> string list result" where
  "load_revoked pf file = (case file of
     None \<Rightarrow> Inr []
   | Some text_ \<Rightarrow> (case pf_loads pf text_ of
       None \<Rightarrow> Inl ValueError
     | Some (PList vs) \<Rightarrow> scalar_strings vs
     | Some (PDict d) \<Rightarrow> Inr (map fst d)
     | Some (PStr s) \<Rightarrow> Inr (map (\<lambda>c. [c]) s)
     | Some _ \<Rightarrow> Inl TypeError))"

subsection \<open>Signing\<close>

definition counts_of :: "ppt_header \<Rightarrow> ctx" where
  "counts_of h = map (\<lambda>(key, n). (key, PInt (int n))) (capped_counts h)"

definition text_map :: "(string, string) pydict \<Rightarrow> pyval" where
  "text_map d = PDict (map (\<lambda>(k, v). (k, PStr v)) d)"

definition build_manifest ::
    "platform \<Rightarrow> string \<Rightarrow> (string, string) pydict \<Rightarrow> int \<Rightarrow> string \<Rightarrow> string \<Rightarrow> string \<Rightarrow> ctx result" where
  "build_manifest pf img fs version envelope_id key_id created =
     (case read_ppt_header img of
        Inl reason \<Rightarrow> Inl ValueError
      | Inr h \<Rightarrow> ebind (wcet_cycles img) (\<lambda>wcet.
          Inr [(''format'', PStr PACK_FORMAT), (''image_sha256'', PStr (digest pf img)), (''fields'', text_map fs),
               (''counts'', PDict (counts_of h)), (''wcet_cycles'', PInt (int wcet)), (''version'', PInt version),
               (''envelope_id'', PStr envelope_id), (''key_id'', PStr key_id), (''created'', PStr created)]))"

definition field_dictionary_of :: "flow_graph \<Rightarrow> (string, string) pydict result" where
  "field_dictionary_of graph =
     (if fg_fields graph = [] then Inl ValueError
      else Inr (map (\<lambda>(name, d). (name, canonical_text d)) (sorted_items (str_sort (map fst (fg_fields graph))) (fg_fields graph))))"

text \<open>
  \<open>packing\<close> is the declaration as given, \<open>flow\<close> the authored text with the graph the parser gives of it. The
  manifest and its signature are the two files written.
\<close>

definition packing_entry :: "ctx option \<Rightarrow> ctx result" where
  "packing_entry packing = (case packing of
     None \<Rightarrow> Inr []
   | Some p \<Rightarrow> if \<not> py_eq (ctx_get p ''profile'') (PStr ''spiral'') \<or> \<not> truthy (ctx_get p ''sidecar_sha256'') then Inl ValueError
       else Inr [(''packing'', PDict [(''profile'', PStr ''spiral''), (''sidecar_sha256'', ctx_get p ''sidecar_sha256'')])])"

definition same_map :: "(string, string) pydict \<Rightarrow> (string, string) pydict \<Rightarrow> bool" where
  "same_map a b = py_eq (text_map a) (text_map b)"

definition build_pack ::
    "platform \<Rightarrow> string option \<Rightarrow> (string, string) pydict \<Rightarrow> int \<Rightarrow> string \<Rightarrow> (string \<Rightarrow> string) \<Rightarrow> string option
      \<Rightarrow> ctx option \<Rightarrow> string option \<Rightarrow> (string \<times> flow_graph) option \<Rightarrow> string \<Rightarrow> (ctx \<times> string) result" where
  "build_pack pf image_file fs version envelope_id sign pub_file packing overlay_of flow created =
     ebind (case flow of
          None \<Rightarrow> Inr (fs, [])
        | Some (authored, graph) \<Rightarrow> ebind (field_dictionary_of graph) (\<lambda>derived.
            if fs \<noteq> [] \<and> \<not> same_map fs derived then Inl ValueError
            else Inr (derived, [(''flow_sha256'', PStr (digest pf authored))]))) (\<lambda>(fs, flow_entry).
     case image_file of
       None \<Rightarrow> Inl OSError
     | Some img \<Rightarrow>
       ebind (validate_image img None) (\<lambda>(ok, reasons).
       if \<not> ok then Inl ValueError
       else ebind (load_key pf pub_file) (\<lambda>(pub, key_id).
         ebind (build_manifest pf img fs version envelope_id key_id created) (\<lambda>manifest.
         ebind (packing_entry packing) (\<lambda>pk.
         let manifest = manifest @ pk
               @ (case overlay_of of Some s \<Rightarrow> if s \<noteq> [] then [(''overlay_of'', PStr s)] else [] | None \<Rightarrow> []) @ flow_entry in
         Inr (manifest, sign (canonical_bytes pf (PDict manifest))))))))"

subsection \<open>The authorized gate\<close>

text \<open>The loop over the keys: the id of the first one that verifies the signature.\<close>

fun find_signer :: "platform \<Rightarrow> string option list \<Rightarrow> string \<Rightarrow> string \<Rightarrow> string option result" where
  "find_signer pf [] sig payload = Inr None"
| "find_signer pf (file # files) sig payload =
     ebind (load_key pf file) (\<lambda>(pub, key_id).
       if pf_verify pf pub sig payload then Inr (Some key_id) else find_signer pf files sig payload)"

text \<open>The checks of the image against the manifest, once the signature is good.\<close>

definition check_counts :: "ppt_header \<Rightarrow> ctx \<Rightarrow> string list result" where
  "check_counts h manifest =
     (case (case map_of manifest ''counts'' of None \<Rightarrow> PDict [] | Some v \<Rightarrow> v) of
        PDict counts \<Rightarrow> Inr (case find (\<lambda>(key, n). \<not> py_eq (ctx_get counts key) (PInt (int n))) (capped_counts h) of
            None \<Rightarrow> [] | Some (key, n) \<Rightarrow> [''manifest:count-mismatch:'' @ key])
      | _ \<Rightarrow> Inl AttributeError)"

definition check_wcet :: "string \<Rightarrow> ctx \<Rightarrow> string list result" where
  "check_wcet img manifest = (case map_of manifest ''wcet_cycles'' of
     None \<Rightarrow> Inr []
   | Some v \<Rightarrow> ebind (wcet_cycles img) (\<lambda>w. Inr (if py_eq v (PInt (int w)) then [] else [''manifest:wcet-mismatch''])))"

definition check_packing :: "platform \<Rightarrow> string option \<Rightarrow> ctx \<Rightarrow> string list result" where
  "check_packing pf sidecar manifest = (case map_of manifest ''packing'' of
     None \<Rightarrow> Inr []
   | Some (PDict pk) \<Rightarrow> Inr
       (if \<not> py_eq (ctx_get pk ''profile'') (PStr ''spiral'') then [''packing:unknown-profile'']
        else case sidecar of
            None \<Rightarrow> [''spiral:sidecar-missing'']
          | Some data \<Rightarrow> if py_eq (PStr (digest pf data)) (ctx_get pk ''sidecar_sha256'') then [] else [''spiral:sidecar-hash-mismatch''])
   | Some _ \<Rightarrow> Inl AttributeError)"

text \<open>Each check ends the call when it has a reason.\<close>

definition check_image :: "platform \<Rightarrow> pack_files \<Rightarrow> ctx \<Rightarrow> string list result" where
  "check_image pf fs manifest =
     (case pk_image fs of
        None \<Rightarrow> Inl OSError
      | Some img \<Rightarrow>
        if \<not> py_eq (PStr (digest pf img)) (ctx_get manifest ''image_sha256'') then Inr [''image:sha256-mismatch'']
        else case read_ppt_header img of
            Inl reason \<Rightarrow> Inl ValueError
          | Inr h \<Rightarrow>
            ebind (check_counts h manifest) (\<lambda>r. if r \<noteq> [] then Inr r
            else ebind (check_wcet img manifest) (\<lambda>r. if r \<noteq> [] then Inr r
            else check_packing pf (pk_sidecar fs) manifest)))"

definition verify_manifest :: "platform \<Rightarrow> pack_files \<Rightarrow> string option list \<Rightarrow> string list \<Rightarrow> string \<Rightarrow> ctx \<Rightarrow> string list result" where
  "verify_manifest pf fs keys revoked sig manifest =
     (if \<not> py_eq (ctx_get manifest ''format'') (PStr PACK_FORMAT) then Inr [''manifest:bad-format'']
      else ebind (find_signer pf keys sig (canonical_bytes pf (PDict manifest))) (\<lambda>signer_id.
        case signer_id of
          None \<Rightarrow> Inr [''sig:invalid'']
        | Some key_id \<Rightarrow>
          if key_id \<in> set revoked then Inr [''sig:revoked-key'']
          else if \<not> py_eq (ctx_get manifest ''key_id'') (PStr key_id) then Inr [''manifest:key-id-mismatch'']
          else check_image pf fs manifest))"

definition verify_pack :: "platform \<Rightarrow> pack_files \<Rightarrow> string option list \<Rightarrow> string list \<Rightarrow> (bool \<times> string list \<times> ctx option) result" where
  "verify_pack pf fs keys revoked =
     (case (pk_manifest fs, pk_sig fs) of
        (Some man_text, Some sig) \<Rightarrow>
          (case pf_loads pf man_text of
             None \<Rightarrow> Inl ValueError
           | Some (PDict manifest) \<Rightarrow>
               ebind (verify_manifest pf fs keys revoked sig manifest) (\<lambda>reasons. Inr (reasons = [], reasons, Some manifest))
           | Some _ \<Rightarrow> Inl AttributeError)
      | _ \<Rightarrow> Inr (False, [''sig:missing''], None))"

subsection \<open>Envelopes\<close>

definition default_caps :: ctx where
  "default_caps = map (\<lambda>(key, n). (key, PInt n)) DEFAULT_CAPS"

definition build_envelope ::
    "platform \<Rightarrow> string \<Rightarrow> (string, string) pydict \<Rightarrow> ctx option \<Rightarrow> (string \<Rightarrow> string) \<Rightarrow> string option \<Rightarrow> (ctx \<times> string) result" where
  "build_envelope pf envelope_id fs caps sign pub_file =
     ebind (load_key pf pub_file) (\<lambda>(pub, key_id).
       let env = [(''envelope_id'', PStr envelope_id), (''fields'', text_map fs),
                  (''caps'', PDict (foldl (\<lambda>d (k, v). dict_set d k v) default_caps (case caps of None \<Rightarrow> [] | Some c \<Rightarrow> c))),
                  (''require_level_m'', PBool True), (''key_id'', PStr key_id)] in
       Inr (env, sign (canonical_bytes pf (PDict env))))"

text \<open>The two files of the envelope; the name the caller gave has already lost its suffix.\<close>

definition load_envelope ::
    "platform \<Rightarrow> string option \<Rightarrow> string option \<Rightarrow> string option list \<Rightarrow> (pyval option \<times> string list) result" where
  "load_envelope pf env_file sig_file keys =
     (case env_file of
        None \<Rightarrow> Inr (None, [''envelope:missing''])
      | Some env_text \<Rightarrow>
        (case pf_loads pf env_text of
           None \<Rightarrow> Inl ValueError
         | Some env \<Rightarrow>
           (case sig_file of
              None \<Rightarrow> Inr (None, [''envelope:missing''])
            | Some sig \<Rightarrow> ebind (find_signer pf keys sig (canonical_bytes pf env)) (\<lambda>signer_id.
                Inr (case signer_id of None \<Rightarrow> (None, [''envelope:sig-invalid'']) | Some k \<Rightarrow> (Some env, []))))))"

text \<open>
  The fields of the manifest, each known to the envelope with the same kind. An envelope is read as
  \<open>build_envelope\<close> writes it, its fields and caps dictionaries.
\<close>

definition dict_entry :: "ctx \<Rightarrow> string \<Rightarrow> ctx option \<Rightarrow> ctx option" where
  "dict_entry d k missing = (case map_of d k of None \<Rightarrow> missing | Some (PDict v) \<Rightarrow> Some v | Some _ \<Rightarrow> None)"

definition field_reasons :: "ctx \<Rightarrow> ctx \<Rightarrow> string list" where
  "field_reasons env_fields fs = concat (map (\<lambda>(name, kind). case map_of env_fields name of
       None \<Rightarrow> [''envelope:unknown-field:'' @ name]
     | Some v \<Rightarrow> if py_eq v kind then [] else [''envelope:field-kind-mismatch:'' @ name]) fs)"

definition check_envelope :: "ctx \<Rightarrow> string \<Rightarrow> ctx \<Rightarrow> (bool \<times> string list) result" where
  "check_envelope manifest img env =
     (case (dict_entry env ''fields'' (Some []), dict_entry manifest ''fields'' (Some []), dict_entry env ''caps'' (Some default_caps)) of
        (Some env_fields, Some fs, Some caps) \<Rightarrow>
          (let reasons = (if py_eq (ctx_get manifest ''envelope_id'') (ctx_get env ''envelope_id'') then [] else [''envelope:id-mismatch''])
                 @ field_reasons env_fields fs in
           ebind (validate_image img (Some caps)) (\<lambda>(ok, img_reasons).
             let reasons = reasons @ img_reasons in Inr (reasons = [] \<and> ok, reasons)))
      | _ \<Rightarrow> Inl AttributeError)"

end
