(* ===== verification/PolicyHost.thy ===== *)
theory PolicyHost
  imports PolicyPack AuditSound
begin

section \<open>The policy host\<close>

text \<open>
  \<open>src/prismpath/hotswap/policy_host.py\<close>: the one active policy, its four files in the state directory and the
  audit log. An operation is a function of the host and of the environment it runs in, what it reads and which of
  its writes the file system takes; it returns the host as it then is and the value or the exception. A
  policy is its record, as restored from JSON, and its image. \<open>str_of\<close> is \<open>str\<close> on a value that is no
  scalar. The lock makes an operation one step.
\<close>

record host_disk =
  hd_version :: "string option"
  hd_pending :: "string option"
  hd_record :: "string option"
  hd_image :: "string option"

type_synonym policy = "ctx \<times> string"

record policy_host =
  ph_envelope :: ctx
  ph_revoked :: "string list"
  ph_audit :: audit_log
  ph_active :: "policy option"
  ph_prev :: "policy option"
  ph_recovered :: bool
  ph_disk :: host_disk

text \<open>One operation's environment: the two appends it may make, its reads and the fate of its writes.\<close>

record host_env =
  he_recover :: append_env
  he_append :: append_env
  he_image :: "string + string"
  he_files :: pack_files
  he_keys :: "string option list"
  he_since :: pyval
  he_path :: string
  he_pending_ok :: bool
  he_version_ok :: bool
  he_image_ok :: bool
  he_record_ok :: bool
  he_clear_ok :: bool

fun py_str :: "(pyval \<Rightarrow> string) \<Rightarrow> pyval \<Rightarrow> string" where
  "py_str str_of PNone = ''None''"
| "py_str str_of (PBool b) = (if b then ''True'' else ''False'')"
| "py_str str_of (PInt i) = int_str i"
| "py_str str_of (PStr s) = s"
| "py_str str_of v = str_of v"

subsection \<open>Reading the state\<close>

definition stored_version :: "host_disk \<Rightarrow> int" where
  "stored_version d = (case hd_version d of
     None \<Rightarrow> 0
   | Some content \<Rightarrow> (let t = strip content in case py_int (if t = [] then ''0'' else t) of None \<Rightarrow> 0 | Some n \<Rightarrow> n))"

text \<open>\<open>_read_pending\<close>: None for no file and for the JSON null.\<close>

definition read_pending :: "platform \<Rightarrow> host_disk \<Rightarrow> pyval result" where
  "read_pending pf d = (case hd_pending d of
     None \<Rightarrow> Inr PNone
   | Some content \<Rightarrow> (case pf_loads pf content of None \<Rightarrow> Inl RuntimeError | Some v \<Rightarrow> Inr v))"

definition pending_text :: "platform \<Rightarrow> string \<Rightarrow> pyval \<Rightarrow> string" where
  "pending_text pf to_hash version =
     json_text spaced_style (pf_float pf) (PDict [(''to_hash'', PStr to_hash), (''version'', version)])"

definition key_of :: "ctx \<Rightarrow> string \<Rightarrow> pyval result" where
  "key_of d k = (case map_of d k of None \<Rightarrow> Inl KeyError | Some v \<Rightarrow> Inr v)"

text \<open>\<open>active()\<close> and the identity a root statement records.\<close>

definition active_view :: "policy option \<Rightarrow> ctx result" where
  "active_view active = (case active of
     None \<Rightarrow> Inr [(''active'', PNone)]
   | Some (rec, data) \<Rightarrow>
       ebind (key_of rec ''sha256'') (\<lambda>a. ebind (key_of rec ''version'') (\<lambda>v. ebind (key_of rec ''since'') (\<lambda>s.
       ebind (key_of rec ''unsigned'') (\<lambda>u. ebind (key_of rec ''envelope_id'') (\<lambda>e.
         Inr [(''active'', a), (''version'', v), (''since'', s), (''unsigned'', u), (''envelope_id'', e),
              (''overlay_of'', ctx_get rec ''overlay_of'')]))))))"

definition policy_identity :: "policy option \<Rightarrow> pyval result" where
  "policy_identity active = (case active of
     None \<Rightarrow> Inr PNone
   | Some (rec, data) \<Rightarrow>
       ebind (key_of rec ''sha256'') (\<lambda>a. ebind (key_of rec ''version'') (\<lambda>v.
         Inr (PDict [(''image_sha256'', a), (''version'', v), (''key_id'', ctx_get rec ''key_id''), (''unsigned'', ctx_get rec ''unsigned'')]))))"

definition active_hash :: "policy option \<Rightarrow> pyval result" where
  "active_hash active = (case active of None \<Rightarrow> Inr PNone | Some (rec, data) \<Rightarrow> key_of rec ''sha256'')"

subsection \<open>Evidence\<close>

text \<open>
  \<open>self.audit.append("policy_host", \<dots>)\<close>: the event is in the log when the identity for the statement is asked for,
  so an identity that raises leaves an unsigned event behind.
\<close>

definition host_append :: "platform \<Rightarrow> append_env \<Rightarrow> string \<Rightarrow> ctx \<Rightarrow> policy_host \<Rightarrow> policy_host \<times> pyval result" where
  "host_append pf env action data h =
     (let al = ph_audit h in
      case policy_identity (ph_active h) of
        Inr ident \<Rightarrow> (case log_append pf (env\<lparr>ae_policy := ident\<rparr>) al ''policy_host'' action (PDict data) of
          (al, r) \<Rightarrow> (h\<lparr>ph_audit := al\<rparr>, r))
      | Inl e \<Rightarrow> (case log_append pf env (al\<lparr>al_sign_appends := False\<rparr>) ''policy_host'' action (PDict data) of
          (al', r) \<Rightarrow> (h\<lparr>ph_audit := al'\<lparr>al_sign_appends := al_sign_appends al\<rparr>\<rparr>,
                      if al_sign_appends al \<and> signing al then ebind r (\<lambda>ev. Inl e) else r)))"

text \<open>An atomic write, which leaves the old file where it fails.\<close>

definition write_file :: "bool \<Rightarrow> (host_disk \<Rightarrow> host_disk) \<Rightarrow> policy_host \<Rightarrow> policy_host \<times> unit result" where
  "write_file ok f h = (if ok then (h\<lparr>ph_disk := f (ph_disk h)\<rparr>, Inr ()) else (h, Inl OSError))"

subsection \<open>Recovery\<close>

definition recover :: "platform \<Rightarrow> append_env \<Rightarrow> policy_host \<Rightarrow> policy_host \<times> pyval result" where
  "recover pf env h =
     (case read_pending pf (ph_disk h) of
        Inl e \<Rightarrow> (h, Inl e)
      | Inr PNone \<Rightarrow> (h, Inr PNone)
      | Inr (PDict d) \<Rightarrow>
          if ph_recovered h then (h, Inr (PDict d))
          else then_do (host_append pf env ''swap_incomplete''
              [(''to_hash'', ctx_get d ''to_hash''), (''version'', ctx_get d ''version''),
               (''stored_version'', PInt (stored_version (ph_disk h))), (''result'', PStr ''incomplete'')] h)
            (\<lambda>ev h. (h\<lparr>ph_recovered := True\<rparr>, Inr (PDict d)))
      | Inr v \<Rightarrow> if ph_recovered h then (h, Inr v) else (h, Inl AttributeError))"

subsection \<open>The active record\<close>

definition record_text :: "platform \<Rightarrow> ctx \<Rightarrow> string" where
  "record_text pf rec = canonical_spaced (pf_float pf) (PDict rec)"

definition persist_active :: "platform \<Rightarrow> host_env \<Rightarrow> policy \<Rightarrow> policy_host \<Rightarrow> policy_host \<times> unit result" where
  "persist_active pf env p h =
     then_do (write_file (he_image_ok env) (\<lambda>d. d\<lparr>hd_image := Some (snd p)\<rparr>) h) (\<lambda>u h.
       write_file (he_record_ok env) (\<lambda>d. d\<lparr>hd_record := Some (record_text pf (fst p))\<rparr>) h)"

definition unreadable :: "platform \<Rightarrow> append_env \<Rightarrow> ctx \<Rightarrow> string \<Rightarrow> policy_host \<Rightarrow> policy_host \<times> unit result" where
  "unreadable pf env hash reason h =
     then_do (host_append pf env ''active_unreadable'' (hash @ [(''reason'', PStr reason), (''result'', PStr ''not_restored'')]) h)
       (\<lambda>ev h. (h, Inr ()))"

text \<open>\<open>why\<close> is the text of the exception in the reason.\<close>

definition load_active :: "platform \<Rightarrow> append_env \<Rightarrow> string \<Rightarrow> policy_host \<Rightarrow> policy_host \<times> unit result" where
  "load_active pf env why h =
     (case hd_record (ph_disk h) of
        None \<Rightarrow> (h, Inr ())
      | Some content \<Rightarrow>
        (case pf_loads pf content of
           None \<Rightarrow> unreadable pf env [] (''record:unreadable:'' @ why) h
         | Some (PDict rec) \<Rightarrow>
             (case hd_image (ph_disk h) of
                None \<Rightarrow> unreadable pf env [(''to_hash'', ctx_get rec ''sha256'')] (''image:unreadable:'' @ why) h
              | Some data \<Rightarrow>
                if \<not> py_eq (PStr (digest pf data)) (ctx_get rec ''sha256'')
                then unreadable pf env [(''to_hash'', ctx_get rec ''sha256'')] ''image:digest-mismatch'' h
                else (h\<lparr>ph_active := Some (rec, data)\<rparr>, Inr ()))
         | Some _ \<Rightarrow> unreadable pf env [] ''record:not-an-object'' h))"

text \<open>
  The constructor over a state directory and the files of its log: the key separation, the log, an interrupted
  commit, the active policy. A host that raises here is never used.
\<close>

definition open_host ::
    "platform \<Rightarrow> host_env \<Rightarrow> string \<Rightarrow> ctx \<Rightarrow> string list \<Rightarrow> instance_key option \<Rightarrow> string \<Rightarrow> string option \<Rightarrow> string option
      \<Rightarrow> host_disk \<Rightarrow> policy_host result" where
  "open_host pf env why envelope revoked key audit_path content roots_content d =
     ebind (check_separation pf key (List.map_filter (map_option (digest pf)) (he_keys env))) (\<lambda>u.
     ebind (open_log pf (Some audit_path) key True None content roots_content) (\<lambda>al.
       let h = \<lparr>ph_envelope = envelope, ph_revoked = revoked, ph_audit = al, ph_active = None, ph_prev = None,
                ph_recovered = False, ph_disk = d\<rparr> in
       case then_do (recover pf (he_recover env) h) (\<lambda>pending. load_active pf (he_append env) why) of
         (h, Inl e) \<Rightarrow> Inl e
       | (h, Inr x) \<Rightarrow> Inr h))"

subsection \<open>The swap\<close>

datatype swap_outcome = Refused "string list" | Done ctx

definition reject :: "platform \<Rightarrow> host_env \<Rightarrow> bool \<Rightarrow> pyval \<Rightarrow> pyval \<Rightarrow> string list \<Rightarrow> policy_host \<Rightarrow> policy_host \<times> swap_outcome result" where
  "reject pf env strict to_hash version reasons h =
     then_do (h, active_hash (ph_active h)) (\<lambda>from_hash h.
     then_do (host_append pf (he_append env) ''swap_rejected''
         [(''from_hash'', from_hash), (''to_hash'', to_hash), (''version'', version),
          (''reasons'', PList (map PStr reasons)), (''result'', PStr ''rejected'')] h)
       (\<lambda>ev h. (h, if strict then Inl (SwapRejected reasons) else Inr (Refused reasons))))"

definition caps_of :: "ctx \<Rightarrow> ctx option result" where
  "caps_of env = (case map_of env ''caps'' of None \<Rightarrow> Inr None | Some (PDict c) \<Rightarrow> Inr (Some c) | Some _ \<Rightarrow> Inl AttributeError)"

text \<open>Whether the intent on disk is this very image at this very version.\<close>

definition resuming :: "pyval \<Rightarrow> pyval \<Rightarrow> string \<Rightarrow> bool result" where
  "resuming pending version to_hash = (case pending of
     PNone \<Rightarrow> Inr False
   | PDict d \<Rightarrow> Inr (py_eq (ctx_get d ''version'') version \<and> py_eq (ctx_get d ''to_hash'') (PStr to_hash))
   | _ \<Rightarrow> Inl AttributeError)"

definition version_reasons :: "(pyval \<Rightarrow> string) \<Rightarrow> int \<Rightarrow> bool \<Rightarrow> pyval \<Rightarrow> string list result" where
  "version_reasons str_of stored res version = (case py_order OLt version (PInt stored) of
     None \<Rightarrow> Inl TypeError
   | Some older \<Rightarrow> Inr (if older \<or> (py_eq version (PInt stored) \<and> \<not> res)
       then [''version:not-monotonic:'' @ py_str str_of version @ ''<='' @ int_str stored] else []))"

text \<open>The gates in order: \<open>Inl\<close> is a refusal with the version it names, \<open>Inr\<close> the manifest.\<close>

definition unsigned_gate :: "platform \<Rightarrow> ctx \<Rightarrow> string \<Rightarrow> ((pyval \<times> string list) + ctx) result" where
  "unsigned_gate pf envelope img =
     ebind (caps_of envelope) (\<lambda>caps. ebind (validate_image img caps) (\<lambda>(ok, reasons).
       Inr (if \<not> ok then Inl (PNone, reasons)
            else Inr [(''image_sha256'', PStr (digest pf img)), (''version'', PNone), (''key_id'', PNone),
                      (''envelope_id'', ctx_get envelope ''envelope_id''), (''unsigned'', PBool True)])))"

definition version_gate ::
    "platform \<Rightarrow> (pyval \<Rightarrow> string) \<Rightarrow> pyval \<Rightarrow> string \<Rightarrow> ctx \<Rightarrow> host_disk \<Rightarrow> ((pyval \<times> string list) + ctx) result" where
  "version_gate pf str_of pending img manifest d =
     ebind (key_of manifest ''version'') (\<lambda>version. ebind (resuming pending version (digest pf img)) (\<lambda>res.
     ebind (version_reasons str_of (stored_version d) res version) (\<lambda>reasons.
       Inr (if reasons \<noteq> [] then Inl (version, reasons) else Inr manifest))))"

definition signed_gate ::
    "platform \<Rightarrow> (pyval \<Rightarrow> string) \<Rightarrow> host_env \<Rightarrow> pyval \<Rightarrow> string \<Rightarrow> policy_host \<Rightarrow> ((pyval \<times> string list) + ctx) result" where
  "signed_gate pf str_of env pending img h =
     ebind (verify_pack pf (he_files env) (he_keys env) (ph_revoked h)) (\<lambda>(ok, reasons, man).
     if \<not> ok then Inr (Inl (PNone, reasons))
     else let manifest = (case man of None \<Rightarrow> [] | Some m \<Rightarrow> m) in
       ebind (check_envelope manifest img (ph_envelope h)) (\<lambda>(ok, reasons).
       if \<not> ok then Inr (Inl (ctx_get manifest ''version'', reasons))
       else version_gate pf str_of pending img manifest (ph_disk h)))"

definition header_ctx :: "ppt_header \<Rightarrow> ctx" where
  "header_ctx h = [(''fields'', PInt (int (ph_fields h))), (''interns'', PInt (int (ph_interns h))), (''atoms'', PInt (int (ph_atoms h))),
     (''nodes'', PInt (int (ph_nodes h))), (''edges'', PInt (int (ph_edges h))), (''prog_words'', PInt (int (ph_prog_words h))),
     (''start'', PInt (int (ph_start h))), (''visits_idx'', PInt (int (ph_visits_idx h))), (''max_steps'', PInt (int (ph_max_steps h))),
     (''max_stack'', PInt (int (ph_max_stack h))), (''flags'', PInt (int (ph_flags h))), (''safe_node'', PInt (int (ph_safe_node h))),
     (''migrate_by_name'', PBool (ph_migrate_by_name h)), (''stateful'', PBool (ph_stateful h))]"

definition new_record :: "platform \<Rightarrow> host_env \<Rightarrow> string \<Rightarrow> ctx \<Rightarrow> ppt_header \<Rightarrow> ctx" where
  "new_record pf env img manifest staged =
     [(''sha256'', PStr (digest pf img)), (''version'', ctx_get manifest ''version''), (''key_id'', ctx_get manifest ''key_id''),
      (''envelope_id'', ctx_get manifest ''envelope_id''), (''unsigned'', PBool (truthy (ctx_get manifest ''unsigned''))),
      (''overlay_of'', ctx_get manifest ''overlay_of''), (''counts'', PDict (header_ctx staged)), (''since'', he_since env),
      (''ppt_path'', PStr (he_path env))]"

text \<open>The event of an accepted swap.\<close>

definition swap_event :: "ctx \<Rightarrow> pyval \<Rightarrow> ctx" where
  "swap_event rec from_hash =
     [(''from_hash'', from_hash), (''to_hash'', ctx_get rec ''sha256''), (''version'', ctx_get rec ''version''), (''key_id'', ctx_get rec ''key_id''),
      (''envelope_id'', ctx_get rec ''envelope_id''), (''unsigned'', ctx_get rec ''unsigned''), (''overlay_of'', ctx_get rec ''overlay_of''),
      (''result'', PStr ''accepted'')]"

definition persist_version :: "(pyval \<Rightarrow> string) \<Rightarrow> host_env \<Rightarrow> pyval \<Rightarrow> policy_host \<Rightarrow> policy_host \<times> unit result" where
  "persist_version str_of env version h =
     (if version = PNone then (h, Inr ()) else write_file (he_version_ok env) (\<lambda>d. d\<lparr>hd_version := Some (py_str str_of version)\<rparr>) h)"

text \<open>The commit protocol: intent, floor, evidence, record and flip, intent removed.\<close>

definition finish :: "platform \<Rightarrow> host_env \<Rightarrow> policy \<Rightarrow> policy_host \<Rightarrow> policy_host \<times> swap_outcome result" where
  "finish pf env p h =
     then_do (persist_active pf env p h) (\<lambda>u h.
     then_do (write_file (he_clear_ok env) (\<lambda>d. d\<lparr>hd_pending := None\<rparr>) (h\<lparr>ph_prev := ph_active h, ph_active := Some p\<rparr>)) (\<lambda>u h.
       (h, ebind (active_view (ph_active h)) (\<lambda>v. Inr (Done v)))))"

definition commit :: "platform \<Rightarrow> (pyval \<Rightarrow> string) \<Rightarrow> host_env \<Rightarrow> policy \<Rightarrow> policy_host \<Rightarrow> policy_host \<times> swap_outcome result" where
  "commit pf str_of env p h =
     (let rec = fst p; version = ctx_get rec ''version'' in
      then_do (write_file (he_pending_ok env)
          (\<lambda>d. d\<lparr>hd_pending := Some (pending_text pf (digest pf (snd p)) version)\<rparr>) h) (\<lambda>u h.
      then_do (persist_version str_of env version h) (\<lambda>u h.
      then_do (h, active_hash (ph_active h)) (\<lambda>from_hash h.
      then_do (host_append pf (he_append env) ''swap'' (swap_event rec from_hash) h) (\<lambda>ev.
        finish pf env p)))))"

definition swap_image ::
    "platform \<Rightarrow> (pyval \<Rightarrow> string) \<Rightarrow> host_env \<Rightarrow> bool \<Rightarrow> bool \<Rightarrow> pyval \<Rightarrow> string \<Rightarrow> policy_host \<Rightarrow> policy_host \<times> swap_outcome result" where
  "swap_image pf str_of env allow_unsigned strict pending img h =
     (let to_hash = PStr (digest pf img) in
      then_do (h, if allow_unsigned then unsigned_gate pf (ph_envelope h) img else signed_gate pf str_of env pending img h) (\<lambda>verdict h.
        case verdict of
          Inl (version, reasons) \<Rightarrow> reject pf env strict to_hash version reasons h
        | Inr manifest \<Rightarrow>
          (case read_ppt_header img of
             Inl reason \<Rightarrow> reject pf env strict to_hash (ctx_get manifest ''version'') [reason] h
           | Inr staged \<Rightarrow> commit pf str_of env (new_record pf env img manifest staged, img) h)))"

definition swap ::
    "platform \<Rightarrow> (pyval \<Rightarrow> string) \<Rightarrow> host_env \<Rightarrow> bool \<Rightarrow> bool \<Rightarrow> policy_host \<Rightarrow> policy_host \<times> swap_outcome result" where
  "swap pf str_of env allow_unsigned strict h =
     then_do (recover pf (he_recover env) h) (\<lambda>pending h.
       case he_image env of
         Inl errno \<Rightarrow> reject pf env strict PNone PNone [''image:unreadable:'' @ errno] h
       | Inr img \<Rightarrow> swap_image pf str_of env allow_unsigned strict pending img h)"

subsection \<open>Rollback and attestation\<close>

definition rollback :: "platform \<Rightarrow> host_env \<Rightarrow> policy_host \<Rightarrow> policy_host \<times> swap_outcome result" where
  "rollback pf env h =
     (case ph_prev h of
        None \<Rightarrow> (h, Inr (Refused [''rollback:no-previous'']))
      | Some p \<Rightarrow>
        then_do (persist_active pf env p h) (\<lambda>u h.
        then_do (h\<lparr>ph_active := Some p, ph_prev := None\<rparr>,
                 ebind (key_of (fst p) ''sha256'') (\<lambda>a. ebind (key_of (fst p) ''version'') (\<lambda>v. Inr (a, v)))) (\<lambda>(a, v) h.
        then_do (host_append pf (he_append env) ''rollback'' [(''to_hash'', a), (''version'', v), (''result'', PStr ''rolled_back'')] h)
          (\<lambda>ev h. (h, ebind (active_view (ph_active h)) (\<lambda>v. Inr (Done v)))))))"

definition attest :: "platform \<Rightarrow> append_env \<Rightarrow> pyval \<Rightarrow> policy_host \<Rightarrow> policy_host \<times> ctx result" where
  "attest pf env now h =
     then_do (h, active_view (ph_active h)) (\<lambda>v h.
     then_do (host_append pf env ''attestation'' [(''active'', ctx_get v ''active''), (''version'', ctx_get v ''version''),
         (''overlay_of'', ctx_get v ''overlay_of''), (''ts'', now)] h) (\<lambda>ev h. (h, Inr v)))"

end
