(* ===== verification/PolicySound.thy ===== *)
theory PolicySound
  imports PolicyHost
begin

section \<open>What the policy host promises\<close>

text \<open>
  What a verified pack is, that a built pack verifies, and the host against its specification: the policy that is
  active, the one before it, the floor and the intent, and the few ways an operation may change them.
\<close>

subsection \<open>A verified pack\<close>

lemma load_key_Inr: "load_key pf file = Inr (pub, key_id) \<longleftrightarrow> file = Some pub \<and> length pub = 32 \<and> key_id = digest pf pub"
  by (auto simp: load_key_def split: option.splits)

lemma find_signer_sound:
  "find_signer pf files sig payload = Inr (Some key_id) \<Longrightarrow>
   \<exists>pub. Some pub \<in> set files \<and> length pub = 32 \<and> key_id = digest pf pub \<and> pf_verify pf pub sig payload"
  by (induction files) (auto simp: ebind_eq_Inr load_key_Inr split: if_splits)

text \<open>A pack signed by a key the caller trusts: what a verified manifest says of the image beside it.\<close>

definition authentic :: "platform \<Rightarrow> string option list \<Rightarrow> string list \<Rightarrow> string \<Rightarrow> ctx \<Rightarrow> string \<Rightarrow> bool" where
  "authentic pf keys revoked sig manifest img \<longleftrightarrow>
     (\<exists>pub. Some pub \<in> set keys \<and> length pub = 32 \<and> digest pf pub \<notin> set revoked \<and>
        pf_verify pf pub sig (canonical_bytes pf (PDict manifest)) \<and> map_of manifest ''key_id'' = Some (PStr (digest pf pub))) \<and>
     map_of manifest ''image_sha256'' = Some (PStr (digest pf img)) \<and>
     (\<exists>h. read_ppt_header img = Inr h \<and> check_counts h manifest = Inr []) \<and> check_wcet img manifest = Inr []"

lemma ctx_get_str: "ctx_get d k = PStr s \<longleftrightarrow> map_of d k = Some (PStr s)"
  by (simp add: ctx_get_def split: option.split)

lemma verify_pack_Inr:
  assumes "verify_pack pf fs keys revoked = Inr (True, reasons, man)"
  obtains manifest sig img where "man = Some manifest" "pk_sig fs = Some sig" "pk_image fs = Some img"
    "authentic pf keys revoked sig manifest img" "reasons = []" "\<exists>t. pk_manifest fs = Some t \<and> pf_loads pf t = Some (PDict manifest)"
proof -
  obtain t sig manifest where f: "pk_manifest fs = Some t" "pk_sig fs = Some sig" "pf_loads pf t = Some (PDict manifest)"
    and v: "verify_manifest pf fs keys revoked sig manifest = Inr []" and m: "man = Some manifest" "reasons = []"
    using assms by (auto simp: verify_pack_def ebind_eq_Inr split: option.splits pyval.splits)
  obtain key_id where k: "find_signer pf keys sig (canonical_bytes pf (PDict manifest)) = Inr (Some key_id)"
    "key_id \<notin> set revoked" "ctx_get manifest ''key_id'' = PStr key_id" "check_image pf fs manifest = Inr []"
    using v by (auto simp: verify_manifest_def ebind_eq_Inr split: if_splits option.splits)
  obtain img h where i: "pk_image fs = Some img" "ctx_get manifest ''image_sha256'' = PStr (digest pf img)" "read_ppt_header img = Inr h"
    "check_counts h manifest = Inr []" "check_wcet img manifest = Inr []"
    using k(4) by (auto simp: check_image_def ebind_eq_Inr split: if_splits option.splits sum.splits)
  have "authentic pf keys revoked sig manifest img"
    using find_signer_sound [OF k(1)] k(2,3) i by (auto simp: authentic_def ctx_get_str)
  then show thesis using that [OF m(1) f(2) i(1) _ m(2)] f by blast
qed

subsection \<open>Running an operation\<close>

lemma write_file_cases:
  assumes "write_file ok f h = (h', r)"
  obtains (refused) "\<not> ok" "h' = h" "r = Inl OSError" | (written) "ok" "h' = h\<lparr>ph_disk := f (ph_disk h)\<rparr>" "r = Inr ()"
  using assms by (auto simp: write_file_def split: if_splits)

text \<open>The log may differ and the recovery may have been recorded; the policies and the files are the same.\<close>

definition same_policies :: "policy_host \<Rightarrow> policy_host \<Rightarrow> bool" where
  "same_policies h h' \<longleftrightarrow> ph_active h' = ph_active h \<and> ph_prev h' = ph_prev h \<and> ph_disk h' = ph_disk h \<and>
     ph_envelope h' = ph_envelope h \<and> ph_revoked h' = ph_revoked h"

lemma same_policies_refl [simp]: "same_policies h h"
  by (simp add: same_policies_def)

lemma same_policies_trans: "same_policies a b \<Longrightarrow> same_policies b c \<Longrightarrow> same_policies a c"
  by (simp add: same_policies_def)

lemma host_append_same: "host_append pf env action data h = (h', r) \<Longrightarrow> same_policies h h'"
  by (auto simp: host_append_def Let_def same_policies_def split: sum.splits prod.splits)

lemma recover_same: "recover pf env h = (h', r) \<Longrightarrow> same_policies h h'"
  by (auto simp: recover_def same_policies_def split: sum.splits pyval.splits if_splits elim!: then_do_cases dest!: host_append_same)

lemma reject_same: "reject pf env strict to_hash version reasons h = (h', r) \<Longrightarrow> same_policies h h'"
  unfolding reject_def by (auto simp: same_policies_def elim!: then_do_cases dest!: host_append_same split: if_splits)

lemma attest_same: "attest pf env now h = (h', r) \<Longrightarrow> same_policies h h'"
  unfolding attest_def by (auto simp: same_policies_def elim!: then_do_cases dest!: host_append_same)

lemma unreadable_same: "unreadable pf env hash reason h = (h', r) \<Longrightarrow> same_policies h h'"
  unfolding unreadable_def by (auto simp: same_policies_def elim!: then_do_cases dest!: host_append_same)

text \<open>A refusal is what a rejection returns.\<close>

lemma reject_result: "reject pf env strict to_hash version reasons h = (h', r) \<Longrightarrow> \<not> (\<exists>v. r = Inr (Done v))"
  unfolding reject_def by (auto elim!: then_do_cases split: if_splits)

lemma persist_active_cases:
  assumes "persist_active pf env p h = (h', r)"
  obtains (refused) i where "r = Inl OSError" "i \<in> {hd_image (ph_disk h), Some (snd p)}" "h' = h\<lparr>ph_disk := ph_disk h\<lparr>hd_image := i\<rparr>\<rparr>"
      "\<not> (he_image_ok env \<and> he_record_ok env)"
  | (kept) "r = Inr ()" "h' = h\<lparr>ph_disk := ph_disk h\<lparr>hd_image := Some (snd p), hd_record := Some (record_text pf (fst p))\<rparr>\<rparr>"
proof -
  have "(he_image_ok env \<and> he_record_ok env \<and> r = Inr () \<and>
      h' = h\<lparr>ph_disk := ph_disk h\<lparr>hd_image := Some (snd p), hd_record := Some (record_text pf (fst p))\<rparr>\<rparr>) \<or>
      (\<not> (he_image_ok env \<and> he_record_ok env) \<and> r = Inl OSError \<and>
      (h' = h \<or> h' = h\<lparr>ph_disk := ph_disk h\<lparr>hd_image := Some (snd p)\<rparr>\<rparr>))"
    using assms by (auto simp: persist_active_def write_file_def split: if_splits)
  then show thesis by (auto intro: refused [of "hd_image (ph_disk h)"] refused [of "Some (snd p)"] kept)
qed

subsection \<open>The evidence of the host\<close>

lemma log_ok_sign [simp]: "log_ok pf (al\<lparr>al_sign_appends := b\<rparr>) = log_ok pf al"
  by (simp add: log_ok_def)

lemma host_append_outcome:
  assumes "log_ok pf (ph_audit h)" "host_append pf env action data h = (h', r)"
  shows "log_ok pf (ph_audit h')"
    "al_events (ph_audit h') = al_events (ph_audit h) \<or> al_events (ph_audit h') = al_events (ph_audit h) @
       [event_of (length (al_events (ph_audit h))) (ae_ts env) ''policy_host'' action (PDict data)]"
    "r = Inr v \<Longrightarrow> v = event_of (length (al_events (ph_audit h))) (ae_ts env) ''policy_host'' action (PDict data) \<and>
       al_events (ph_audit h') = al_events (ph_audit h) @ [v]"
proof -
  have "\<exists>env' b al' r'. log_append pf env' ((ph_audit h)\<lparr>al_sign_appends := b\<rparr>) ''policy_host'' action (PDict data) = (al', r') \<and>
      ae_ts env' = ae_ts env \<and> (\<exists>c. ph_audit h' = al'\<lparr>al_sign_appends := c\<rparr>) \<and> (\<forall>v. r = Inr v \<longrightarrow> r' = Inr v)"
  proof (cases "policy_identity (ph_active h)")
    case (Inl e)
    then obtain al' r' where "log_append pf env ((ph_audit h)\<lparr>al_sign_appends := False\<rparr>) ''policy_host'' action (PDict data) = (al', r')"
      "ph_audit h' = al'\<lparr>al_sign_appends := al_sign_appends (ph_audit h)\<rparr>" "\<forall>v. r = Inr v \<longrightarrow> r' = Inr v"
      using assms(2) by (auto simp: host_append_def Let_def ebind_eq_Inr split: prod.splits if_splits)
    then show ?thesis by blast
  next
    case (Inr ident)
    then obtain al' where a: "log_append pf (env\<lparr>ae_policy := ident\<rparr>) ((ph_audit h)\<lparr>al_sign_appends := al_sign_appends (ph_audit h)\<rparr>)
        ''policy_host'' action (PDict data) = (al', r)" "ph_audit h' = al'"
      using assms(2) by (auto simp: host_append_def Let_def split: prod.splits)
    have "ph_audit h' = al'\<lparr>al_sign_appends := al_sign_appends al'\<rparr>" "ae_ts (env\<lparr>ae_policy := ident\<rparr>) = ae_ts env" using a(2) by simp_all
    then show ?thesis using a(1) by blast
  qed
  then obtain env' b al' r' c where a: "log_append pf env' ((ph_audit h)\<lparr>al_sign_appends := b\<rparr>) ''policy_host'' action (PDict data) = (al', r')"
    "ae_ts env' = ae_ts env" "ph_audit h' = al'\<lparr>al_sign_appends := c\<rparr>" "\<And>v. r = Inr v \<Longrightarrow> r' = Inr v" by blast
  have ok: "log_ok pf ((ph_audit h)\<lparr>al_sign_appends := b\<rparr>)" using assms(1) by simp
  note o = log_append_outcome [OF ok a(1)]
  show "log_ok pf (ph_audit h')"
    "al_events (ph_audit h') = al_events (ph_audit h) \<or> al_events (ph_audit h') = al_events (ph_audit h) @
       [event_of (length (al_events (ph_audit h))) (ae_ts env) ''policy_host'' action (PDict data)]"
    using o(1,2) a(2,3) by simp_all
  show "v = event_of (length (al_events (ph_audit h))) (ae_ts env) ''policy_host'' action (PDict data) \<and>
      al_events (ph_audit h') = al_events (ph_audit h) @ [v]" if "r = Inr v"
    using o(3) [OF a(4) [OF that]] a(2,3) by simp
qed

interpretation host: evidence_log "\<lambda>h. log_ok pf (ph_audit h)" "\<lambda>h. al_events (ph_audit h)"
    "\<lambda>(env, action, data) h. host_append pf env action data h" for pf :: platform
  by unfold_locales (auto dest: host_append_outcome split: prod.splits)

subsection \<open>The commit protocol\<close>

text \<open>What an operation may do to the files of the commit before the flip.\<close>

lemma persist_version_cases:
  assumes "persist_version str_of env version h = (h', r)"
  obtains (unversioned) "version = PNone" "h' = h" "r = Inr ()" | (refused) "version \<noteq> PNone" "h' = h" "r = Inl OSError"
  | (raised) "version \<noteq> PNone" "h' = h\<lparr>ph_disk := (ph_disk h)\<lparr>hd_version := Some (py_str str_of version)\<rparr>\<rparr>" "r = Inr ()"
  using assms by (auto simp: persist_version_def split: if_splits elim: write_file_cases)

lemma finish_cases:
  assumes "finish pf env p h = (h', r)"
  obtains (refused) i where "r = Inl OSError" "h' = h\<lparr>ph_disk := ph_disk h\<lparr>hd_image := i\<rparr>\<rparr>"
  | (flipped) d where "h' = h\<lparr>ph_prev := ph_active h, ph_active := Some p, ph_disk := ph_disk h\<lparr>hd_image := Some (snd p),
        hd_record := Some (record_text pf (fst p)), hd_pending := d\<rparr>\<rparr>" "d \<in> {None, hd_pending (ph_disk h)}"
      "\<forall>v. r = Inr v \<longrightarrow> d = None" "he_clear_ok env \<longrightarrow> r = ebind (active_view (Some p)) (\<lambda>v. Inr (Done v))"
proof -
  obtain h1 r1 where p: "persist_active pf env p h = (h1, r1)" by fastforce
  from p show thesis
  proof (cases rule: persist_active_cases)
    case (refused i)
    then show thesis using assms p by (intro that(1) [of i]) (simp_all add: finish_def)
  next
    case kept
    show thesis
    proof (cases "he_clear_ok env")
      case True
      then show thesis using assms p kept by (intro that(2) [of None]) (auto simp: finish_def write_file_def)
    next
      case False
      then show thesis using assms p kept by (intro that(2) [of "hd_pending (ph_disk h)"]) (auto simp: finish_def write_file_def)
    qed
  qed
qed

text \<open>The event an accepted swap leaves at the end of the log.\<close>

definition swap_recorded :: "platform \<Rightarrow> host_env \<Rightarrow> policy \<Rightarrow> policy_host \<Rightarrow> policy_host \<Rightarrow> bool" where
  "swap_recorded pf env p h h' \<longleftrightarrow> (\<exists>from_hash. al_events (ph_audit h') = al_events (ph_audit h) @
     [event_of (length (al_events (ph_audit h))) (ae_ts (he_append env)) ''policy_host'' ''swap'' (PDict (swap_event (fst p) from_hash))])"

lemma commit_cases:
  assumes run: "commit pf str_of env p h = (h', r)" and ok: "log_ok pf (ph_audit h)"
    and v: "v = ctx_get (fst p) ''version''" and intent: "intent = Some (pending_text pf (digest pf (snd p)) v)"
  obtains (refused) "h' = h" "r = Inl OSError"
  | (stopped) e where "r = Inl e" "ph_active h' = ph_active h" "ph_prev h' = ph_prev h" "hd_pending (ph_disk h') = intent"
      "hd_version (ph_disk h') = hd_version (ph_disk h) \<or> (v \<noteq> PNone \<and> hd_version (ph_disk h') = Some (py_str str_of v))"
      "hd_record (ph_disk h') = hd_record (ph_disk h)"
  | (flipped) "ph_active h' = Some p" "ph_prev h' = ph_active h" "hd_pending (ph_disk h') \<in> {None, intent}"
      "hd_version (ph_disk h') = (if v = PNone then hd_version (ph_disk h) else Some (py_str str_of v))"
      "hd_record (ph_disk h') = Some (record_text pf (fst p))" "hd_image (ph_disk h') = Some (snd p)"
      "\<forall>x. r = Inr x \<longrightarrow> hd_pending (ph_disk h') = None" "swap_recorded pf env p h h'"
      "he_clear_ok env \<longrightarrow> r = ebind (active_view (Some p)) (\<lambda>v. Inr (Done v))"
  using run unfolding commit_def Let_def v [symmetric] intent [symmetric]
proof (cases rule: then_do_cases)
  case (raised e)
  then show ?thesis using refused by (auto elim: write_file_cases)
next
  case (went h1 u)
  have h1: "h1 = h\<lparr>ph_disk := (ph_disk h)\<lparr>hd_pending := intent\<rparr>\<rparr>"
    using went(1) by (auto simp: intent v elim: write_file_cases)
  from went(2) show ?thesis
  proof (cases rule: then_do_cases)
    case (raised e)
    then show ?thesis using h1 by (intro stopped [of e]) (auto elim!: persist_version_cases)
  next
    case (went h2 u)
    have h2: "ph_active h2 = ph_active h" "ph_prev h2 = ph_prev h" "ph_audit h2 = ph_audit h" "hd_pending (ph_disk h2) = intent"
      "hd_version (ph_disk h2) = (if v = PNone then hd_version (ph_disk h) else Some (py_str str_of v))"
      "hd_record (ph_disk h2) = hd_record (ph_disk h)"
      using went(1) h1 by (auto elim!: persist_version_cases)
    from went(2) show ?thesis
    proof (cases rule: then_do_cases)
      case (raised e)
      then show ?thesis using h2 by (intro stopped [of e]) auto
    next
      case (went h3 from_hash)
      then have h3: "h3 = h2" by simp
      from went(2) show ?thesis
      proof (cases rule: then_do_cases)
        case (raised e)
        then show ?thesis using h2 h3 host_append_same [OF raised(1)] by (intro stopped [of e]) (auto simp: same_policies_def)
      next
        case (went h4 ev)
        note same = host_append_same [OF went(1)]
        have ev: "al_events (ph_audit h4) = al_events (ph_audit h) @ [event_of (length (al_events (ph_audit h))) (ae_ts (he_append env))
            ''policy_host'' ''swap'' (PDict (swap_event (fst p) from_hash))]"
          using host_append_outcome(3) [OF _ went(1), of ev] ok h2(3) h3 by simp
        from went(2) show ?thesis
        proof (cases rule: finish_cases)
          case (refused i)
          then show ?thesis using h2 h3 same by (intro stopped [of OSError]) (auto simp: same_policies_def)
        next
          case (flipped d)
          then show ?thesis using h2 h3 same ev by (intro that(3)) (auto simp: same_policies_def swap_recorded_def)
        qed
      qed
    qed
  qed
qed

subsection \<open>The gates\<close>

lemma recover_pending: "recover pf env h = (h', Inr pending) \<Longrightarrow> read_pending pf (ph_disk h) = Inr pending"
  unfolding recover_def by (auto split: sum.splits pyval.splits if_splits elim!: then_do_cases)

lemma recover_ok: "log_ok pf (ph_audit h) \<Longrightarrow> recover pf env h = (h', r) \<Longrightarrow> log_ok pf (ph_audit h')"
  unfolding recover_def by (auto split: sum.splits pyval.splits if_splits elim!: then_do_cases dest: host_append_outcome(1))

text \<open>The verdict of the gates on an image, over the host the recovery has left.\<close>

definition gates :: "platform \<Rightarrow> (pyval \<Rightarrow> string) \<Rightarrow> host_env \<Rightarrow> bool \<Rightarrow> pyval \<Rightarrow> string \<Rightarrow> policy_host \<Rightarrow> ((pyval \<times> string list) + ctx) result" where
  "gates pf str_of env allow_unsigned pending img h =
     (if allow_unsigned then unsigned_gate pf (ph_envelope h) img else signed_gate pf str_of env pending img h)"

lemma signed_gate_same: "same_policies h h' \<Longrightarrow> signed_gate pf str_of env pending img h' = signed_gate pf str_of env pending img h"
proof -
  assume "same_policies h h'"
  then have "ph_envelope h' = ph_envelope h" "ph_disk h' = ph_disk h" "ph_revoked h' = ph_revoked h" by (simp_all add: same_policies_def)
  then show ?thesis by (simp only: signed_gate_def)
qed

lemma gates_same: "same_policies h h' \<Longrightarrow> gates pf str_of env au pending img h' = gates pf str_of env au pending img h"
  using signed_gate_same [of h h'] by (simp add: gates_def same_policies_def)

lemma swap_cases:
  assumes "swap pf str_of env au strict h = (h', r)" "log_ok pf (ph_audit h)"
  obtains (refused) "same_policies h h'" "\<not> (\<exists>v. r = Inr (Done v))"
  | (committed) img manifest staged pending h0 where "same_policies h h0" "log_ok pf (ph_audit h0)" "he_image env = Inr img"
      "read_pending pf (ph_disk h) = Inr pending" "gates pf str_of env au pending img h = Inr (Inr manifest)" "read_ppt_header img = Inr staged"
      "commit pf str_of env (new_record pf env img manifest staged, img) h0 = (h', r)"
  using assms(1) unfolding swap_def
proof (cases rule: then_do_cases)
  case (raised e)
  then show ?thesis using refused recover_same by auto
next
  case (went h0 pending)
  have s0: "same_policies h h0" by (rule recover_same [OF went(1)])
  show ?thesis
  proof (cases "he_image env")
    case (Inl errno)
    then have rej: "reject pf env strict PNone PNone [''image:unreadable:'' @ errno] h0 = (h', r)" using went(2) by simp
    show ?thesis by (rule refused [OF same_policies_trans [OF s0 reject_same [OF rej]] reject_result [OF rej]])
  next
    case (Inr img)
    then have run: "then_do (h0, gates pf str_of env au pending img h0) (\<lambda>verdict h.
        case verdict of Inl (version, reasons) \<Rightarrow> reject pf env strict (PStr (digest pf img)) version reasons h
        | Inr manifest \<Rightarrow> (case read_ppt_header img of
             Inl reason \<Rightarrow> reject pf env strict (PStr (digest pf img)) (ctx_get manifest ''version'') [reason] h
           | Inr staged \<Rightarrow> commit pf str_of env (new_record pf env img manifest staged, img) h)) = (h', r)"
      using went(2) by (simp add: swap_image_def gates_def Let_def)
    from run show ?thesis
    proof (cases rule: then_do_cases)
      case (raised e)
      then show ?thesis using s0 refused by auto
    next
      case (went h1 verdict)
      then have h1: "h1 = h0" and g: "gates pf str_of env au pending img h0 = Inr verdict" by auto
      have rej: ?thesis if "reject pf env strict th version reasons h0 = (h', r)" for th version reasons
        by (rule refused [OF same_policies_trans [OF s0 reject_same [OF that]] reject_result [OF that]])
      show ?thesis
      proof (cases verdict)
        case (Inl a)
        then show ?thesis using went(2) h1 rej by (cases a) simp
      next
        case (Inr manifest)
        show ?thesis
        proof (cases "read_ppt_header img")
          case (Inl reason)
          then show ?thesis using went(2) h1 rej \<open>verdict = Inr manifest\<close> by simp
        next
          case (Inr staged)
          then have c: "commit pf str_of env (new_record pf env img manifest staged, img) h0 = (h', r)"
            using went(2) h1 \<open>verdict = Inr manifest\<close> by simp
          have g': "gates pf str_of env au pending img h = Inr (Inr manifest)"
            using g gates_same [OF s0] \<open>verdict = Inr manifest\<close> by simp
          show ?thesis
            by (rule committed [OF s0 recover_ok [OF assms(2)] \<open>he_image env = Inr img\<close> recover_pending g' Inr c])
              (use \<open>recover pf (he_recover env) h = (h0, Inr pending)\<close> in auto)
        qed
      qed
    qed
  qed
qed

lemma unsigned_gate_Inr:
  assumes "unsigned_gate pf envelope img = Inr (Inr manifest)"
  shows "ctx_get manifest ''version'' = PNone" "\<exists>caps. caps_of envelope = Inr caps \<and> validate_image img caps = Inr (True, [])"
    "ctx_get manifest ''unsigned'' = PBool True"
  using assms by (auto simp: unsigned_gate_def ebind_eq_Inr ctx_get_def validate_image_def Let_def split: if_splits sum.splits)

lemma version_gate_Inr:
  assumes "version_gate pf str_of pending img manifest d = Inr (Inr manifest')"
  shows "manifest' = manifest"
    "\<exists>v res. map_of manifest ''version'' = Some v \<and> resuming pending v (digest pf img) = Inr res \<and> version_reasons str_of (stored_version d) res v = Inr []"
  using assms by (auto simp: version_gate_def ebind_eq_Inr key_of_def split: if_splits option.splits)

text \<open>What the envelope demands of a manifest and an image.\<close>

definition within_envelope :: "ctx \<Rightarrow> ctx \<Rightarrow> string \<Rightarrow> bool" where
  "within_envelope env manifest img \<longleftrightarrow> ctx_get manifest ''envelope_id'' = ctx_get env ''envelope_id'' \<and>
     (\<exists>env_fields fs caps. dict_entry env ''fields'' (Some []) = Some env_fields \<and> dict_entry manifest ''fields'' (Some []) = Some fs \<and>
        dict_entry env ''caps'' (Some default_caps) = Some caps \<and>
        (\<forall>(name, kind) \<in> set fs. \<exists>v. map_of env_fields name = Some v \<and> py_eq v kind) \<and> validate_image img (Some caps) = Inr (True, []))"

lemma validate_image_true: "validate_image img caps = Inr (True, rs) \<Longrightarrow> rs = []"
  by (auto simp: validate_image_def ebind_eq_Inr Let_def split: sum.splits if_splits)

lemma field_reasons_Nil:
  "field_reasons env_fields fs = [] \<longleftrightarrow> (\<forall>(name, kind) \<in> set fs. \<exists>v. map_of env_fields name = Some v \<and> py_eq v kind)"
  by (auto simp: field_reasons_def split: option.splits if_splits)

lemma check_envelope_Inr:
  assumes "check_envelope manifest img env = Inr (True, rs)" "ctx_get env ''envelope_id'' = PStr i"
  shows "within_envelope env manifest img"
proof -
  obtain ef fs caps imr where "dict_entry env ''fields'' (Some []) = Some ef" "dict_entry manifest ''fields'' (Some []) = Some fs"
    "dict_entry env ''caps'' (Some default_caps) = Some caps" "validate_image img (Some caps) = Inr (True, imr)"
    "py_eq (ctx_get manifest ''envelope_id'') (ctx_get env ''envelope_id'')" "field_reasons ef fs = []"
    using assms(1) by (auto simp: check_envelope_def ebind_eq_Inr Let_def split: option.splits if_splits)
  then show ?thesis
    using assms(2) validate_image_true by (auto simp: within_envelope_def field_reasons_Nil)
qed

lemma signed_gate_Inr:
  assumes "signed_gate pf str_of env pending img h = Inr (Inr manifest)"
  shows "\<exists>rs. verify_pack pf (he_files env) (he_keys env) (ph_revoked h) = Inr (True, rs, Some manifest)"
    "\<exists>rs. check_envelope manifest img (ph_envelope h) = Inr (True, rs)"
    "version_gate pf str_of pending img manifest (ph_disk h) = Inr (Inr manifest)"
proof -
  obtain rs man rs' where v: "verify_pack pf (he_files env) (he_keys env) (ph_revoked h) = Inr (True, rs, man)"
    and c: "check_envelope (case man of None \<Rightarrow> [] | Some m \<Rightarrow> m) img (ph_envelope h) = Inr (True, rs')"
    and g: "version_gate pf str_of pending img (case man of None \<Rightarrow> [] | Some m \<Rightarrow> m) (ph_disk h) = Inr (Inr manifest)"
    using assms by (auto simp: signed_gate_def ebind_eq_Inr Let_def split: if_splits)
  obtain m where m: "man = Some m" using verify_pack_Inr [OF v] by blast
  have "manifest = m" using version_gate_Inr(1) [OF g] m by simp
  then show "\<exists>rs. verify_pack pf (he_files env) (he_keys env) (ph_revoked h) = Inr (True, rs, Some manifest)"
    "\<exists>rs. check_envelope manifest img (ph_envelope h) = Inr (True, rs)"
    "version_gate pf str_of pending img manifest (ph_disk h) = Inr (Inr manifest)"
    using v c g m by auto
qed

text \<open>
  C8. Only an authorized policy becomes active: when a signed swap succeeds and the image it read is the one the
  verifier read, that image is the active one, a key the host trusts and has not revoked signed the manifest that
  names its digest, its counts and its cycle bound, every field of the manifest is the envelope's, the
  image passes the structural check within the envelope's caps, and the log ends with the event of the swap.
\<close>

theorem accepted_pack_is_authorized:
  assumes "swap pf str_of env False strict h = (h', Inr (Done v))" "log_ok pf (ph_audit h)"
    and "ctx_get (ph_envelope h) ''envelope_id'' = PStr i" "he_image env = Inr img" "pk_image (he_files env) = Some img"
  shows "\<exists>manifest sig rec h0. pk_sig (he_files env) = Some sig \<and> authentic pf (he_keys env) (ph_revoked h) sig manifest img \<and>
    within_envelope (ph_envelope h) manifest img \<and> ph_active h' = Some (rec, img) \<and> ctx_get rec ''sha256'' = PStr (digest pf img) \<and>
    ctx_get rec ''version'' = ctx_get manifest ''version'' \<and> swap_recorded pf env (rec, img) h0 h' \<and> same_policies h h0"
  using assms(1,2)
proof (cases rule: swap_cases)
  case (committed img' manifest staged pending h0)
  have img: "img' = img" using committed(3) assms(4) by simp
  let ?rec = "new_record pf env img manifest staged"
  have "signed_gate pf str_of env pending img h = Inr (Inr manifest)" using committed(5) by (simp add: gates_def img)
  note g = signed_gate_Inr [OF this]
  obtain rs where v: "verify_pack pf (he_files env) (he_keys env) (ph_revoked h) = Inr (True, rs, Some manifest)" using g(1) by blast
  obtain sig where s: "pk_sig (he_files env) = Some sig" "authentic pf (he_keys env) (ph_revoked h) sig manifest img"
    using verify_pack_Inr [OF v] assms(5) by (metis option.inject)
  have w: "within_envelope (ph_envelope h) manifest img" using g(2) check_envelope_Inr assms(3) by blast
  have r: "ctx_get ?rec ''sha256'' = PStr (digest pf img)" "ctx_get ?rec ''version'' = ctx_get manifest ''version''"
    by (simp_all add: new_record_def ctx_get_def)
  from committed(7) [unfolded img] committed(2) refl refl show ?thesis
  proof (cases rule: commit_cases)
    case flipped
    then show ?thesis using s w r committed(1) by blast
  qed auto
qed auto

text \<open>
  C10. A swap that does not succeed leaves the policy in force: whatever it was refused for or whichever write or
  append failed, the active policy, the one kept for a rollback and the record on disk are as before, as long
  as the removal of the finished intent is not what failed.
\<close>

theorem failed_swap_keeps_policy:
  assumes "swap pf str_of env au strict h = (h', r)" "log_ok pf (ph_audit h)" "\<not> (\<exists>v. r = Inr (Done v))" "he_clear_ok env"
  shows "ph_active h' = ph_active h \<and> ph_prev h' = ph_prev h \<and> hd_record (ph_disk h') = hd_record (ph_disk h)"
  using assms(1,2)
proof (cases rule: swap_cases)
  case refused
  then show ?thesis by (simp add: same_policies_def)
next
  case (committed img manifest staged pending h0)
  from committed(7,2) refl refl show ?thesis
  proof (cases rule: commit_cases)
    case flipped
    then have "\<exists>v. r = Inr (Done v)" using assms(4) by (simp add: active_view_def key_of_def new_record_def)
    then show ?thesis using assms(3) by blast
  qed (use committed(1) in \<open>auto simp: same_policies_def\<close>)
qed

subsection \<open>The specification\<close>

text \<open>
  The host as its floor, its two policies, each a digest and a version, and the intent on disk. A step may
  only write an intent, raise the floor for it, install what it names, or revert one step; a version may be
  committed above the floor, or at the floor when the intent is for that very image.
\<close>

record policy_spec =
  sp_floor :: int
  sp_active :: "(pyval \<times> pyval) option"
  sp_prev :: "(pyval \<times> pyval) option"
  sp_pending :: "pyval result"

definition intent_of :: "string \<Rightarrow> pyval \<Rightarrow> pyval" where
  "intent_of hash v = PDict [(''to_hash'', PStr hash), (''version'', v)]"

definition may_commit :: "policy_spec \<Rightarrow> string \<Rightarrow> pyval \<Rightarrow> bool" where
  "may_commit s hash v \<longleftrightarrow> v = PNone \<or> (\<exists>n. v = PInt n \<and> (sp_floor s < n \<or> (sp_floor s = n \<and> (\<exists>d. sp_pending s = Inr (PDict d) \<and>
     py_eq (ctx_get d ''version'') v \<and> ctx_get d ''to_hash'' = PStr hash))))"

definition floor_for :: "int \<Rightarrow> pyval \<Rightarrow> int" where
  "floor_for n v = (case v of PInt m \<Rightarrow> m | _ \<Rightarrow> n)"

inductive policy_step :: "policy_spec \<Rightarrow> policy_spec \<Rightarrow> bool" where
  idle: "policy_step s s"
| intend: "may_commit s hash v \<Longrightarrow> policy_step s (s\<lparr>sp_pending := Inr (intent_of hash v)\<rparr>)"
| promise: "may_commit s hash v \<Longrightarrow> policy_step s (s\<lparr>sp_pending := Inr (intent_of hash v), sp_floor := floor_for (sp_floor s) v\<rparr>)"
| install: "may_commit s hash v \<Longrightarrow> p \<in> {PNone, intent_of hash v} \<Longrightarrow>
    policy_step s (s\<lparr>sp_pending := Inr p, sp_floor := floor_for (sp_floor s) v, sp_active := Some (PStr hash, v), sp_prev := sp_active s\<rparr>)"
| revert: "sp_prev s = Some p \<Longrightarrow> policy_step s (s\<lparr>sp_active := Some p, sp_prev := None\<rparr>)"

inductive_cases policy_stepE: "policy_step s s'"

definition policy_ident :: "policy \<Rightarrow> pyval \<times> pyval" where
  "policy_ident p = (ctx_get (fst p) ''sha256'', ctx_get (fst p) ''version'')"

definition spec_of :: "platform \<Rightarrow> policy_host \<Rightarrow> policy_spec" where
  "spec_of pf h = \<lparr>sp_floor = stored_version (ph_disk h), sp_active = map_option policy_ident (ph_active h),
     sp_prev = map_option policy_ident (ph_prev h), sp_pending = read_pending pf (ph_disk h)\<rparr>"

text \<open>
  The version a swap offers, and what the specification is about: versions are integers, as the signer writes
  them, and the intent for it is read back as it was written.
\<close>

definition manifest_of :: "platform \<Rightarrow> host_env \<Rightarrow> ctx" where
  "manifest_of pf env = (case pk_manifest (he_files env) of
     Some t \<Rightarrow> (case pf_loads pf t of Some (PDict m) \<Rightarrow> m | _ \<Rightarrow> []) | None \<Rightarrow> [])"

definition offered :: "platform \<Rightarrow> host_env \<Rightarrow> bool \<Rightarrow> pyval" where
  "offered pf env au = (if au then PNone else ctx_get (manifest_of pf env) ''version'')"

definition plain_offer :: "platform \<Rightarrow> host_env \<Rightarrow> bool \<Rightarrow> bool" where
  "plain_offer pf env au \<longleftrightarrow> (au \<or> (\<exists>n. offered pf env au = PInt n)) \<and>
     (\<forall>img. he_image env = Inr img \<longrightarrow>
        pf_loads pf (pending_text pf (digest pf img) (offered pf env au)) = Some (intent_of (digest pf img) (offered pf env au)))"

inductive host_step :: "platform \<Rightarrow> (pyval \<Rightarrow> string) \<Rightarrow> policy_host \<Rightarrow> policy_host \<Rightarrow> bool" for pf str_of where
  swaps: "swap pf str_of env au strict h = (h', r) \<Longrightarrow> plain_offer pf env au \<Longrightarrow> host_step pf str_of h h'"
| reverts: "rollback pf env h = (h', r) \<Longrightarrow> host_step pf str_of h h'"
| attests: "attest pf env now h = (h', r') \<Longrightarrow> host_step pf str_of h h'"

subsection \<open>The host refines its specification\<close>

lemma stored_version_written: "hd_version d = Some (int_str n) \<Longrightarrow> stored_version d = n"
  by (simp add: stored_version_def py_int_int_str Let_def)

lemma spec_of_same: "same_policies h h' \<Longrightarrow> spec_of pf h' = spec_of pf h"
  by (simp add: spec_of_def same_policies_def)

lemma gates_may_commit:
  assumes "gates pf str_of env au pending img h = Inr (Inr manifest)" "read_pending pf (ph_disk h) = Inr pending"
    and "plain_offer pf env au" "he_image env = Inr img"
  shows "ctx_get manifest ''version'' = offered pf env au" "may_commit (spec_of pf h) (digest pf img) (offered pf env au)"
proof -
  have "ctx_get manifest ''version'' = offered pf env au \<and> may_commit (spec_of pf h) (digest pf img) (offered pf env au)"
  proof (cases au)
    case True
    then show ?thesis using assms(1) unsigned_gate_Inr(1) by (simp add: gates_def offered_def may_commit_def)
  next
    case False
    then have sg: "signed_gate pf str_of env pending img h = Inr (Inr manifest)" using assms(1) by (simp add: gates_def)
    obtain rs where v: "verify_pack pf (he_files env) (he_keys env) (ph_revoked h) = Inr (True, rs, Some manifest)"
      using signed_gate_Inr(1) [OF sg] by blast
    obtain t where "pk_manifest (he_files env) = Some t" "pf_loads pf t = Some (PDict manifest)" by (rule verify_pack_Inr [OF v]) auto
    then have m: "manifest = manifest_of pf env" by (simp add: manifest_of_def)
    obtain n where n: "offered pf env au = PInt n" "ctx_get manifest ''version'' = PInt n"
      using assms(3) False m by (auto simp: plain_offer_def offered_def)
    obtain res where r: "resuming pending (PInt n) (digest pf img) = Inr res" "version_reasons str_of (stored_version (ph_disk h)) res (PInt n) = Inr []"
      using version_gate_Inr(2) [OF signed_gate_Inr(3) [OF sg]] n(2) by (auto simp: ctx_get_def)
    have "stored_version (ph_disk h) < n \<or> (stored_version (ph_disk h) = n \<and> res)"
      using r(2) by (auto simp: version_reasons_def split: if_splits)
    moreover have "\<exists>d. pending = PDict d \<and> py_eq (ctx_get d ''version'') (PInt n) \<and> ctx_get d ''to_hash'' = PStr (digest pf img)" if res
      using r(1) that by (auto simp: resuming_def split: pyval.splits)
    ultimately show ?thesis using n assms(2) by (auto simp: may_commit_def spec_of_def)
  qed
  then show "ctx_get manifest ''version'' = offered pf env au" "may_commit (spec_of pf h) (digest pf img) (offered pf env au)" by simp_all
qed

lemma offered_cases: "plain_offer pf env au \<Longrightarrow> offered pf env au = PNone \<or> (\<exists>n. offered pf env au = PInt n)"
  by (auto simp: plain_offer_def offered_def)

lemma commit_version: "ctx_get (fst (new_record pf env img manifest staged, img)) ''version'' = ctx_get manifest ''version''"
  by (simp add: new_record_def ctx_get_def)

lemma swap_refines:
  assumes "swap pf str_of env au strict h = (h', r)" "log_ok pf (ph_audit h)" "plain_offer pf env au"
  shows "policy_step (spec_of pf h) (spec_of pf h')"
  using assms(1,2)
proof (cases rule: swap_cases)
  case refused
  then show ?thesis by (simp add: spec_of_same policy_step.idle)
next
  case (committed img manifest staged pending h0)
  let ?v = "offered pf env au" and ?hash = "digest pf img" and ?p = "(new_record pf env img manifest staged, img)"
  note may = gates_may_commit [OF committed(5,4) assms(3) committed(3)]
  have s0: "spec_of pf h0 = spec_of pf h" by (rule spec_of_same [OF committed(1)])
  have v: "?v = ctx_get (fst ?p) ''version''" by (simp only: commit_version may(1))
  have rd: "pf_loads pf (pending_text pf ?hash ?v) = Some (intent_of ?hash ?v)" using assms(3) committed(3) by (simp add: plain_offer_def)
  have pend: "read_pending pf d = Inr (intent_of ?hash ?v)" if "hd_pending d = Some (pending_text pf (digest pf (snd ?p)) ?v)" for d
    using that rd by (simp add: read_pending_def)
  have floor: "stored_version d = floor_for (stored_version (ph_disk h0)) ?v"
    if "hd_version d = (if ?v = PNone then hd_version (ph_disk h0) else Some (py_str str_of ?v))" for d
    using that offered_cases [OF assms(3)] by (auto simp: floor_for_def stored_version_written) (simp add: stored_version_def)
  have step: "policy_step (spec_of pf h) (spec_of pf h')" if "policy_step (spec_of pf h0) (spec_of pf h')" using that s0 by simp
  note may0 = may(2) [folded s0]
  from committed(7,2) v refl show ?thesis
  proof (cases rule: commit_cases)
    case refused
    then show ?thesis using step policy_step.idle by simp
  next
    case (stopped e)
    have "spec_of pf h' = (spec_of pf h0)\<lparr>sp_pending := Inr (intent_of ?hash ?v)\<rparr> \<or>
        spec_of pf h' = (spec_of pf h0)\<lparr>sp_pending := Inr (intent_of ?hash ?v), sp_floor := floor_for (sp_floor (spec_of pf h0)) ?v\<rparr>"
    proof (cases "hd_version (ph_disk h') = hd_version (ph_disk h0)")
      case True
      then show ?thesis using stopped pend [OF stopped(4)] by (simp add: spec_of_def stored_version_def)
    next
      case False
      then have "hd_version (ph_disk h') = (if ?v = PNone then hd_version (ph_disk h0) else Some (py_str str_of ?v))" using stopped(5) by auto
      from floor [OF this] show ?thesis using stopped pend [OF stopped(4)] by (simp add: spec_of_def)
    qed
    then show ?thesis using step policy_step.intend [OF may0] policy_step.promise [OF may0] by metis
  next
    case flipped
    have id: "policy_ident ?p = (PStr ?hash, ?v)" using v by (simp add: policy_ident_def new_record_def ctx_get_def)
    have p: "\<exists>q \<in> {PNone, intent_of ?hash ?v}. read_pending pf (ph_disk h') = Inr q"
      using flipped(3) pend by (auto simp: read_pending_def)
    then obtain q where q: "q \<in> {PNone, intent_of ?hash ?v}" "read_pending pf (ph_disk h') = Inr q" by blast
    have "spec_of pf h' = (spec_of pf h0)\<lparr>sp_pending := Inr q, sp_floor := floor_for (sp_floor (spec_of pf h0)) ?v,
        sp_active := Some (PStr ?hash, ?v), sp_prev := sp_active (spec_of pf h0)\<rparr>"
      using flipped(1,2) floor [OF flipped(4)] q(2) id by (simp add: spec_of_def)
    then show ?thesis using step policy_step.install [OF may0 q(1)] by simp
  qed
qed

lemma rollback_refines:
  assumes "rollback pf env h = (h', r)"
  shows "policy_step (spec_of pf h) (spec_of pf h')"
proof (cases "ph_prev h")
  case None
  then show ?thesis using assms by (simp add: rollback_def policy_step.idle)
next
  case (Some p)
  obtain h1 r1 where p: "persist_active pf env p h = (h1, r1)" by fastforce
  from p show ?thesis
  proof (cases rule: persist_active_cases)
    case (refused i)
    then have "spec_of pf h' = spec_of pf h"
      using assms p Some by (cases p) (auto simp: rollback_def spec_of_def stored_version_def read_pending_def)
    then show ?thesis by (simp add: policy_step.idle)
  next
    case kept
    have "same_policies (h1\<lparr>ph_active := Some p, ph_prev := None\<rparr>) h'"
      using assms p Some kept by (auto simp: rollback_def elim!: then_do_cases dest!: host_append_same)
    then have "spec_of pf h' = (spec_of pf h)\<lparr>sp_active := Some (policy_ident p), sp_prev := None\<rparr>"
      using kept by (simp add: same_policies_def spec_of_def stored_version_def read_pending_def)
    then show ?thesis using policy_step.revert [of "spec_of pf h" "policy_ident p"] Some by (simp only:) (simp add: spec_of_def)
  qed
qed

lemma host_refines:
  assumes "host_step pf str_of h h'" "log_ok pf (ph_audit h)"
  shows "policy_step (spec_of pf h) (spec_of pf h')"
  using assms(1)
proof (cases rule: host_step.cases)
  case (swaps env au strict r)
  then show ?thesis using swap_refines assms(2) by blast
next
  case (reverts env r)
  then show ?thesis by (rule rollback_refines)
next
  case (attests env now r')
  then show ?thesis using attest_same spec_of_same policy_step.idle by metis
qed

text \<open>
  C7. The host refines its specification: every swap, whether it is refused, stopped half way by a failing write
  or accepted, every rollback and every attestation changes the floor, the two policies and the intent as one step
  of the specification does, for versions that are integers and an intent that JSON reads back.
\<close>

theorem host_refines_spec:
  assumes "host_step pf str_of h h'" "log_ok pf (ph_audit h)"
  shows "policy_step (spec_of pf h) (spec_of pf h')"
  by (rule host_refines [OF assms])

subsection \<open>Anti-rollback\<close>

text \<open>Every signed version that is active, or kept for a rollback, is at most the floor.\<close>

definition below_floor :: "policy_spec \<Rightarrow> bool" where
  "below_floor s \<longleftrightarrow> (\<forall>p n. p \<in> {sp_active s, sp_prev s} \<longrightarrow> p \<noteq> None \<longrightarrow> snd (the p) = PInt n \<longrightarrow> n \<le> sp_floor s)"

lemma floor_step: "policy_step s s' \<Longrightarrow> sp_floor s \<le> sp_floor s'"
  by (erule policy_stepE) (auto simp: may_commit_def floor_for_def)

lemma below_floor_step:
  assumes "policy_step s s'" "below_floor s"
  shows "below_floor s'"
  using assms floor_step [OF assms(1)] unfolding below_floor_def
  by (elim policy_stepE) (auto simp: floor_for_def; fastforce)+

text \<open>A version that becomes active was above the floor, at it for the image the intent names, or unsigned.\<close>

lemma installed_step:
  assumes "policy_step s s'" "sp_active s' \<noteq> sp_active s" "sp_prev s' = sp_active s" "sp_active s' = Some (PStr hash, v)"
    and "sp_prev s' \<noteq> None \<or> sp_prev s = None"
  shows "may_commit s hash v \<and> sp_floor s' = floor_for (sp_floor s) v"
  using assms by (elim policy_stepE) auto

subsection \<open>The history\<close>

definition keeps_history :: "platform \<Rightarrow> policy_host \<Rightarrow> policy_host \<Rightarrow> bool" where
  "keeps_history pf h h' \<longleftrightarrow> (log_ok pf (ph_audit h) \<longrightarrow>
     log_ok pf (ph_audit h') \<and> prefix (al_events (ph_audit h)) (al_events (ph_audit h')))"

lemma keeps_same_audit: "ph_audit h' = ph_audit h \<Longrightarrow> keeps_history pf h h'"
  by (simp add: keeps_history_def)

lemma keeps_trans: "keeps_history pf a b \<Longrightarrow> keeps_history pf b c \<Longrightarrow> keeps_history pf a c"
  unfolding keeps_history_def using prefix_order.trans by blast

lemma append_keeps: "host_append pf env action data h = (h', r) \<Longrightarrow> keeps_history pf h h'"
  unfolding keeps_history_def using host.valid_add [of pf h "(env, action, data)" h' r] host.history_kept [of pf h "(env, action, data)" h' r] by simp

lemma then_do_keeps:
  assumes "then_do p f = (h', r)" "keeps_history pf h (fst p)" "\<And>h1 x h2 r2. f x h1 = (h2, r2) \<Longrightarrow> keeps_history pf h1 h2"
  shows "keeps_history pf h h'"
  using assms(1)
proof (cases rule: then_do_cases)
  case (went h1 x)
  then show ?thesis using keeps_trans [OF assms(2)] assms(3) by simp
qed (use assms(2) in simp)

lemma write_keeps: "write_file ok f h = (h', r) \<Longrightarrow> keeps_history pf h h'"
  by (auto simp: write_file_def intro: keeps_same_audit split: if_splits)

lemma keeps_fst: "(\<And>h' r. p = (h', r) \<Longrightarrow> keeps_history pf h h') \<Longrightarrow> keeps_history pf h (fst p)"
  by (cases p) simp

lemma append_keeps_fst [simp]: "keeps_history pf h (fst (host_append pf env action data h))"
  by (rule keeps_fst) (rule append_keeps)

lemma recover_keeps: "recover pf env h = (h', r) \<Longrightarrow> keeps_history pf h h'"
  unfolding recover_def
  by (auto intro: keeps_same_audit append_keeps keeps_fst elim!: then_do_keeps split: sum.splits pyval.splits if_splits)

lemma reject_keeps: "reject pf env strict to_hash version reasons h = (h', r) \<Longrightarrow> keeps_history pf h h'"
  unfolding reject_def by (auto intro: keeps_same_audit append_keeps keeps_fst elim!: then_do_keeps)

lemma persist_keeps: "persist_active pf env p h = (h', r) \<Longrightarrow> keeps_history pf h h'"
  unfolding persist_active_def by (auto intro: write_keeps keeps_fst elim!: then_do_keeps)

lemma persist_version_keeps: "persist_version str_of env version h = (h', r) \<Longrightarrow> keeps_history pf h h'"
  unfolding persist_version_def by (auto intro: write_keeps keeps_same_audit split: if_splits)

lemma finish_keeps: "finish pf env p h = (h', r) \<Longrightarrow> keeps_history pf h h'"
proof -
  have clear: "keeps_history pf h1 h2"
    if "then_do (write_file (he_clear_ok env) (\<lambda>d. d\<lparr>hd_pending := None\<rparr>) (h1\<lparr>ph_prev := ph_active h1, ph_active := Some p\<rparr>))
        (\<lambda>u h. (h, ebind (active_view (ph_active h)) (\<lambda>v. Inr (Done v)))) = (h2, r2)" for h1 h2 and r2 :: "swap_outcome result"
    using that by (auto simp: write_file_def intro!: keeps_same_audit split: if_splits)
  assume "finish pf env p h = (h', r)"
  then show ?thesis unfolding finish_def by (rule then_do_keeps) (auto intro: keeps_fst persist_keeps clear)
qed

lemma commit_keeps: "commit pf str_of env p h = (h', r) \<Longrightarrow> keeps_history pf h h'"
  unfolding commit_def Let_def
  by (rule then_do_keeps, assumption)
    (auto intro: keeps_fst write_keeps append_keeps persist_version_keeps finish_keeps keeps_same_audit elim!: then_do_keeps)

lemma swap_keeps: "swap pf str_of env au strict h = (h', r) \<Longrightarrow> keeps_history pf h h'"
  unfolding swap_def swap_image_def Let_def
  by (rule then_do_keeps, assumption)
    (auto intro: keeps_fst recover_keeps reject_keeps commit_keeps keeps_same_audit elim!: then_do_keeps split: sum.splits)

lemma rollback_keeps: "rollback pf env h = (h', r) \<Longrightarrow> keeps_history pf h h'"
proof -
  have rest: "keeps_history pf h1 h2"
    if "then_do (h1\<lparr>ph_active := Some p, ph_prev := None\<rparr>, ids) (\<lambda>(a, v) h. then_do (host_append pf (he_append env) ''rollback''
        [(''to_hash'', a), (''version'', v), (''result'', PStr ''rolled_back'')] h) (\<lambda>ev h. (h, ebind (active_view (ph_active h)) (\<lambda>v. Inr (Done v)))))
      = (h2, r2)" for h1 h2 p ids and r2 :: "swap_outcome result"
    using that by (rule then_do_keeps)
      (auto intro: keeps_same_audit keeps_fst append_keeps elim!: then_do_keeps split: prod.splits)
  assume "rollback pf env h = (h', r)"
  then show ?thesis unfolding rollback_def
    by (auto intro: keeps_same_audit keeps_fst persist_keeps rest elim!: then_do_keeps split: option.splits)
qed

lemma attest_keeps: "attest pf env now h = (h', r) \<Longrightarrow> keeps_history pf h h'"
  unfolding attest_def by (auto intro: keeps_same_audit append_keeps keeps_fst elim!: then_do_keeps)

lemma host_step_keeps: "host_step pf str_of h h' \<Longrightarrow> keeps_history pf h h'"
  by (auto elim!: host_step.cases intro: swap_keeps rollback_keeps attest_keeps)

text \<open>
  Whatever the host is asked to do, in any order and with any of its writes failing, its audit history only
  grows at the end, the version floor never goes down, and no version above the floor is ever active or kept
  for a rollback.
\<close>

theorem host_runs_keep_floor:
  assumes "(host_step pf str_of)\<^sup>*\<^sup>* h h'" "log_ok pf (ph_audit h)" "below_floor (spec_of pf h)"
  shows "log_ok pf (ph_audit h') \<and> prefix (al_events (ph_audit h)) (al_events (ph_audit h')) \<and>
    stored_version (ph_disk h) \<le> stored_version (ph_disk h') \<and> below_floor (spec_of pf h')"
  using assms(1)
proof (induction rule: rtranclp_induct)
  case (step h1 h2)
  then have s: "policy_step (spec_of pf h1) (spec_of pf h2)" using host_refines by blast
  have "keeps_history pf h1 h2" by (rule host_step_keeps [OF step.hyps(2)])
  then have "log_ok pf (ph_audit h2) \<and> prefix (al_events (ph_audit h)) (al_events (ph_audit h2))"
    using step.IH prefix_order.trans unfolding keeps_history_def by blast
  moreover have "stored_version (ph_disk h1) \<le> stored_version (ph_disk h2)" using floor_step [OF s] by (simp add: spec_of_def)
  ultimately show ?case using step.IH below_floor_step [OF s] by auto
qed (use assms(2,3) in simp)

lemma accepted_raises_floor:
  assumes "swap pf str_of env False strict h = (h', Inr (Done v))" "log_ok pf (ph_audit h)" "plain_offer pf env False"
  obtains n img where "offered pf env False = PInt n" "he_image env = Inr img" "stored_version (ph_disk h') = n"
    "may_commit (spec_of pf h) (digest pf img) (PInt n)"
  using assms(1,2)
proof (cases rule: swap_cases)
  case (committed img manifest staged pending h0)
  obtain n where n: "offered pf env False = PInt n" using assms(3) by (auto simp: plain_offer_def)
  note may = gates_may_commit [OF committed(5,4) assms(3) committed(3)]
  have v: "PInt n = ctx_get (fst (new_record pf env img manifest staged, img)) ''version''" by (simp only: commit_version may(1) n)
  from committed(7,2) v refl show ?thesis
  proof (cases rule: commit_cases)
    case flipped
    then have "stored_version (ph_disk h') = n" by (simp add: stored_version_written)
    then show ?thesis using that [OF n committed(3)] may(2) n by simp
  qed auto
qed auto


subsection \<open>A built pack verifies\<close>

lemma ctx_get_canon: "ctx_get (canon_items d) k = canon_form (ctx_get d k)"
  by (simp add: ctx_get_def map_of_canon split: option.split)

lemma counts_match: "find (\<lambda>(key, n). \<not> py_eq (ctx_get (canon_items (counts_of h)) key) (PInt (int n))) (capped_counts h) = None"
  by (simp add: find_None_iff ctx_get_def map_of_canon counts_of_def capped_counts_def)

lemma build_manifest_Inr:
  assumes "build_manifest pf img fs version envelope_id key_id created = Inr m"
  obtains h w where "read_ppt_header img = Inr h" "wcet_cycles img = Inr w" "map_of m ''format'' = Some (PStr PACK_FORMAT)"
    "map_of m ''image_sha256'' = Some (PStr (digest pf img))" "map_of m ''counts'' = Some (PDict (counts_of h))"
    "map_of m ''wcet_cycles'' = Some (PInt (int w))" "map_of m ''key_id'' = Some (PStr key_id)" "map_of m ''packing'' = None"
    "map_of m ''version'' = Some (PInt version)"
  using assms by (auto simp: build_manifest_def ebind_eq_Inr split: sum.splits)

text \<open>
  C19. What the signer builds, the host's gate authorizes: for a signature scheme whose signatures verify and a JSON
  reader that reads the manifest back, the files of a pack built without a sidecar verify under the
  signer's key unless that key is revoked, and the manifest carries the version it was built with.
\<close>

theorem built_pack_verifies:
  assumes "build_pack pf (Some img) fs version envelope_id sign (Some pub) None overlay_of flow created = Inr (manifest, sig)"
    and "\<And>m. pf_verify pf pub (sign m) m" "pf_loads pf man_text = Some (canon_form (PDict manifest))"
    and "digest pf pub \<notin> set revoked"
  shows "verify_pack pf \<lparr>pk_image = Some img, pk_manifest = Some man_text, pk_sig = Some sig, pk_sidecar = side\<rparr> [Some pub] revoked
      = Inr (True, [], Some (canon_items manifest)) \<and> map_of manifest ''version'' = Some (PInt version)"
proof -
  obtain fs' entry m where m: "build_manifest pf img fs' version envelope_id (digest pf pub) created = Inr m" "length pub = 32"
    and man: "manifest = m @ (case overlay_of of Some s \<Rightarrow> if s \<noteq> [] then [(''overlay_of'', PStr s)] else [] | None \<Rightarrow> []) @ entry"
    and entry: "entry = [] \<or> (\<exists>x. entry = [(''flow_sha256'', x)])" and sig: "sig = sign (canonical_bytes pf (PDict manifest))"
    using assms(1) by (auto simp: build_pack_def ebind_eq_Inr load_key_Inr packing_entry_def Let_def split: option.splits if_splits)
  obtain h w where b: "read_ppt_header img = Inr h" "wcet_cycles img = Inr w" "map_of m ''format'' = Some (PStr PACK_FORMAT)"
    "map_of m ''image_sha256'' = Some (PStr (digest pf img))" "map_of m ''counts'' = Some (PDict (counts_of h))"
    "map_of m ''wcet_cycles'' = Some (PInt (int w))" "map_of m ''key_id'' = Some (PStr (digest pf pub))" "map_of m ''packing'' = None"
    "map_of m ''version'' = Some (PInt version)" by (rule build_manifest_Inr [OF m(1)])
  have get: "map_of manifest k = Some v" if "map_of m k = Some v" for k v using that by (simp add: man map_add_Some_iff)
  have "map_of manifest ''packing'' = None" using b(8) entry by (auto simp: man map_add_None split: option.splits)
  then have pk: "map_of (canon_items manifest) ''packing'' = None" by (simp add: map_of_canon)
  have payload: "canonical_bytes pf (PDict (canon_items manifest)) = canonical_bytes pf (PDict manifest)"
    by (simp only: canonical_bytes_def canonical_compact_def canon_form_dict [symmetric] canon_form_idem)
  have "check_counts h (canon_items manifest) = Inr []"
    using get [OF b(5)] counts_match [of h] by (simp add: check_counts_def map_of_canon canon_form_dict del: canon_form.simps(2))
  moreover have "check_wcet img (canon_items manifest) = Inr []" using get [OF b(6)] b(2) by (simp add: check_wcet_def map_of_canon)
  ultimately have img: "check_image pf \<lparr>pk_image = Some img, pk_manifest = Some man_text, pk_sig = Some sig, pk_sidecar = side\<rparr> (canon_items manifest) = Inr []"
    using get [OF b(4)] b(1) pk by (simp add: check_image_def check_packing_def ctx_get_def map_of_canon)
  have "find_signer pf [Some pub] sig (canonical_bytes pf (PDict (canon_items manifest))) = Inr (Some (digest pf pub))"
    using assms(2) m(2) by (simp add: load_key_def payload sig)
  then have "verify_manifest pf \<lparr>pk_image = Some img, pk_manifest = Some man_text, pk_sig = Some sig, pk_sidecar = side\<rparr> [Some pub] revoked sig
      (canon_items manifest) = Inr []"
    using get [OF b(3)] get [OF b(7)] img assms(4) by (simp add: verify_manifest_def ctx_get_def map_of_canon)
  then show ?thesis using assms(3) [unfolded canon_form_dict] get [OF b(9)] by (simp add: verify_pack_def)
qed

subsection \<open>A restart\<close>

text \<open>
  A restart keeps the policy: after a swap that succeeded, a host opened over the same state directory, for which
  JSON reads the record back, starts with the same image active under the same record, and nothing left to recover.
\<close>

theorem reopened_host_restores:
  assumes "swap pf str_of env au strict h = (h', Inr (Done v))" "log_ok pf (ph_audit h)" "ph_active h' = Some (rec, img)"
    and "pf_loads pf (record_text pf rec) = Some (PDict (canon_items rec))"
    and "check_separation pf key (List.map_filter (map_option (digest pf)) (he_keys env')) = Inr ()"
  shows "\<exists>h2. open_host pf env' why envelope revoked key audit_path content roots_content (ph_disk h') = Inr h2 \<and>
    ph_active h2 = Some (canon_items rec, img) \<and> read_pending pf (ph_disk h2) = Inr PNone"
  using assms(1,2)
proof (cases rule: swap_cases)
  case (committed img' manifest staged pending h0)
  from committed(7,2) refl refl show ?thesis
  proof (cases rule: commit_cases)
    case flipped
    then have p: "rec = new_record pf env img' manifest staged" "img = img'" using assms(3) by simp_all
    have sha: "ctx_get (canon_items rec) ''sha256'' = PStr (digest pf img)" by (simp add: p new_record_def ctx_get_def map_of_canon)
    obtain al where al: "open_log pf (Some audit_path) key True None content roots_content = Inr al" using open_log_total by blast
    have d: "hd_pending (ph_disk h') = None" "hd_record (ph_disk h') = Some (record_text pf rec)" "hd_image (ph_disk h') = Some img"
      using flipped p by simp_all
    show ?thesis
      by (simp add: open_host_def assms(5) al recover_def read_pending_def d load_active_def assms(4) sha)
  qed auto
qed auto

text \<open>
  A record write that fails after the image write: the process keeps the policy it had, but what is on disk is the
  new image with the old record, which no host will restore.
\<close>

lemma failed_record_write_is_not_restored:
  assumes "persist_active pf env (rec', img') h = (h', r)" "he_image_ok env" "\<not> he_record_ok env"
    and "ph_active h = Some (rec, img)" "hd_record (ph_disk h) = Some (record_text pf rec)"
    and "pf_loads pf (record_text pf rec) = Some (PDict (canon_items rec))"
    and "ctx_get rec ''sha256'' = PStr (digest pf img)" "digest pf img' \<noteq> digest pf img"
    and "ph_disk h2 = ph_disk h'" "ph_active h2 = None" "load_active pf env2 why h2 = (h3, x)"
  shows "r = Inl OSError \<and> ph_active h' = Some (rec, img) \<and> ph_active h3 = None"
proof -
  have h': "h' = h\<lparr>ph_disk := (ph_disk h)\<lparr>hd_image := Some img'\<rparr>\<rparr>" "r = Inl OSError"
    using assms(1-3) by (auto simp: persist_active_def write_file_def)
  have "ctx_get (canon_items rec) ''sha256'' = PStr (digest pf img)" using assms(7) by (simp add: ctx_get_canon)
  then have "unreadable pf env2 [(''to_hash'', PStr (digest pf img))] ''image:digest-mismatch'' h2 = (h3, x)"
    using assms(5,6,8,9,11) h' by (auto simp: load_active_def)
  then show ?thesis using unreadable_same assms(4,10) h' by (simp add: same_policies_def)
qed

text \<open>A version the authority signed that is no integer is written to the floor as a text that reads back as 0.\<close>

lemma fractional_version_resets_floor:
  assumes "py_int (str_of (PFloat f)) = None" "persist_version str_of env (PFloat f) h = (h', Inr ())"
  shows "stored_version (ph_disk h') = 0"
proof -
  have "hd_version (ph_disk h') = Some (str_of (PFloat f))" using assms(2) by (auto simp: persist_version_def write_file_def split: if_splits)
  moreover have "py_int (strip (str_of (PFloat f))) = None" using assms(1) unfolding py_int_def strip_strip .
  moreover have "py_int ''0'' = Some 0" by code_simp
  ultimately show ?thesis by (auto simp: stored_version_def Let_def)
qed

subsection \<open>A swap that succeeds\<close>

lemma host_append_unsigned:
  assumes "al_key (ph_audit h) = None" "has_path (ph_audit h) \<longrightarrow> ae_file_ok env"
  shows "\<exists>h' ev. host_append pf env action data h = (h', Inr ev) \<and> al_key (ph_audit h') = None \<and> al_path (ph_audit h') = al_path (ph_audit h)"
proof -
  have w: "\<not> (has_path (ph_audit h) \<and> \<not> ae_file_ok env)" using assms(2) by blast
  have a: "\<exists>al ev. log_append pf env' ((ph_audit h)\<lparr>al_sign_appends := b\<rparr>) ''policy_host'' action (PDict data) = (al, Inr ev) \<and>
      al_key al = None \<and> al_path al = al_path (ph_audit h)" if "ae_file_ok env' = ae_file_ok env" for env' b
    using assms w that by (auto simp: log_append_def has_path_def acc_add_def Let_def)
  show ?thesis
  proof (cases "policy_identity (ph_active h)")
    case (Inl e)
    obtain al ev where "log_append pf env ((ph_audit h)\<lparr>al_sign_appends := False\<rparr>) ''policy_host'' action (PDict data) = (al, Inr ev)"
      "al_key al = None" "al_path al = al_path (ph_audit h)" using a by blast
    then show ?thesis using Inl assms(1) by (simp add: host_append_def signing_def)
  next
    case (Inr ident)
    obtain al ev where "log_append pf (env\<lparr>ae_policy := ident\<rparr>) (ph_audit h) ''policy_host'' action (PDict data) = (al, Inr ev)"
      "al_key al = None" "al_path al = al_path (ph_audit h)" using a [of "env\<lparr>ae_policy := ident\<rparr>" "al_sign_appends (ph_audit h)"] by auto
    then show ?thesis using Inr by (simp add: host_append_def)
  qed
qed

text \<open>The disk takes every write, and the log, which signs nothing, the event.\<close>

definition writes_ok :: "host_env \<Rightarrow> bool" where
  "writes_ok env \<longleftrightarrow> he_pending_ok env \<and> he_version_ok env \<and> he_image_ok env \<and> he_record_ok env \<and> he_clear_ok env"

lemma swap_succeeds:
  assumes "hd_pending (ph_disk h) = None" "he_image env = Inr img" "gates pf str_of env au PNone img h = Inr (Inr manifest)"
    and "read_ppt_header img = Inr staged" "writes_ok env" "active_hash (ph_active h) = Inr from_hash"
    and "al_key (ph_audit h) = None" "has_path (ph_audit h) \<longrightarrow> ae_file_ok (he_append env)"
  shows "\<exists>h' v. swap pf str_of env au strict h = (h', Inr (Done v)) \<and> ph_active h' = Some (new_record pf env img manifest staged, img) \<and>
    ph_prev h' = ph_active h \<and> hd_pending (ph_disk h') = None \<and> al_key (ph_audit h') = None \<and> al_path (ph_audit h') = al_path (ph_audit h) \<and>
    ph_envelope h' = ph_envelope h \<and> ph_revoked h' = ph_revoked h"
proof -
  let ?p = "(new_record pf env img manifest staged, img)"
  have rec: "recover pf (he_recover env) h = (h, Inr PNone)" by (simp add: recover_def read_pending_def assms(1))
  have "\<exists>h2. persist_version str_of env (ctx_get (fst ?p) ''version'')
      (h\<lparr>ph_disk := (ph_disk h)\<lparr>hd_pending := Some (pending_text pf (digest pf img) (ctx_get (fst ?p) ''version''))\<rparr>\<rparr>) = (h2, Inr ()) \<and>
      ph_active h2 = ph_active h \<and> ph_audit h2 = ph_audit h \<and> ph_envelope h2 = ph_envelope h \<and> ph_revoked h2 = ph_revoked h"
    using assms(5) by (cases "ctx_get (fst ?p) ''version'' = PNone") (simp_all add: persist_version_def write_file_def writes_ok_def)
  then obtain h2 where h2: "persist_version str_of env (ctx_get (fst ?p) ''version'')
      (h\<lparr>ph_disk := (ph_disk h)\<lparr>hd_pending := Some (pending_text pf (digest pf img) (ctx_get (fst ?p) ''version''))\<rparr>\<rparr>) = (h2, Inr ())"
    "ph_active h2 = ph_active h" "ph_audit h2 = ph_audit h" "ph_envelope h2 = ph_envelope h" "ph_revoked h2 = ph_revoked h" by blast
  obtain h3 ev where h3: "host_append pf (he_append env) ''swap'' (swap_event (fst ?p) from_hash) h2 = (h3, Inr ev)"
    "al_key (ph_audit h3) = None" "al_path (ph_audit h3) = al_path (ph_audit h)"
    using host_append_unsigned [of h2 "he_append env"] assms(7,8) h2(3) by metis
  have s3: "same_policies h2 h3" by (rule host_append_same [OF h3(1)])
  have "commit pf str_of env ?p h = finish pf env ?p h3"
    using h2 h3(1) assms(5,6) by (simp add: commit_def write_file_def writes_ok_def)
  moreover have "\<exists>h' v. finish pf env ?p h3 = (h', Inr (Done v)) \<and> ph_active h' = Some ?p \<and> ph_prev h' = ph_active h3 \<and>
      hd_pending (ph_disk h') = None \<and> ph_audit h' = ph_audit h3 \<and> ph_envelope h' = ph_envelope h3 \<and> ph_revoked h' = ph_revoked h3"
    using assms(5) by (simp add: finish_def persist_active_def write_file_def writes_ok_def active_view_def key_of_def new_record_def)
  ultimately show ?thesis
    using rec assms(2,3,4) h2 h3 s3 by (auto simp: swap_def swap_image_def gates_def same_policies_def)
qed

end
