(* ===== verification/PolicyDemo.thy ===== *)
theory PolicyDemo
  imports PolicySound
begin

section \<open>A host at work\<close>

text \<open>
  A table of one terminal node, two packs of it at versions 5 and 6 under an envelope without caps, and a
  platform that reads their manifests; the properties of the host apply to it.
\<close>

definition demo_ppt :: string where
  "demo_ppt = map char_of ([0x50, 0x50, 0x54, 0x4D, 1, 0, 0, 0, 1, 0, 0, 0, 1, 0, 0, 0, 0, 0, 0, 0, 0xFF, 0xFF, 25, 0, 1, 0, 0, 0, 0, 0, 0, 0] :: nat list)"

definition demo_header :: ppt_header where
  "demo_header = \<lparr>ph_fields = 0, ph_interns = 1, ph_atoms = 0, ph_nodes = 1, ph_edges = 0, ph_prog_words = 0, ph_start = 0,
     ph_visits_idx = 65535, ph_max_steps = 25, ph_max_stack = 1, ph_flags = 0, ph_safe_node = 0, ph_migrate_by_name = False, ph_stateful = False\<rparr>"

lemma demo_ppt_words: "unpack_uint 4 demo_ppt 0 = Inr MAGIC" "header_words demo_ppt = Inr [1, 0, 1, 0, 1, 0, 0, 0, 65535, 25, 1, 0]"
  by (simp_all add: demo_ppt_def unpack_uint_def of_char_of MAGIC_def header_words_def upt_rec)

lemma demo_ppt_header: "read_ppt_header demo_ppt = Inr demo_header"
  by (simp add: read_ppt_header_def demo_ppt_words FORMAT_VERSION_def HEADER_SIZE_def demo_header_def, simp add: demo_ppt_def)

lemmas demo_ppt_walk = demo_ppt_header cap_reasons_def walk_reasons_def records_def image_length_def attrs_off_def prog_off_def
  edges_off_def nodes_off_def HEADER_SIZE_def NODE_SIZE_def ATOM_SIZE_def EDGE_SIZE_def WORD_SIZE_def demo_header_def

lemma demo_ppt_valid: "validate_image demo_ppt None = Inr (True, [])" "validate_image demo_ppt (Some []) = Inr (True, [])"
  by (simp_all add: validate_image_def demo_ppt_walk, simp_all add: demo_ppt_def)

lemma demo_ppt_wcet: "wcet_cycles demo_ppt = Inr 2"
  by (simp add: wcet_cycles_def demo_ppt_walk node_at_def node_cycles_def, simp add: demo_ppt_def unpack_uint_def of_char_of)

subsection \<open>The packs and the platform\<close>

definition demo_sha :: "string \<Rightarrow> string" where
  "demo_sha s = take 4 (rev s)"

definition demo_pub :: string where
  "demo_pub = replicate 32 CHR ''k''"

definition pack_manifest :: "string \<Rightarrow> ppt_header \<Rightarrow> int \<Rightarrow> ctx" where
  "pack_manifest img hdr n = [(''format'', PStr PACK_FORMAT), (''image_sha256'', PStr (sha256_hex demo_sha img)),
     (''counts'', PDict (counts_of hdr)), (''version'', PInt n), (''envelope_id'', PStr ''e''),
     (''key_id'', PStr (sha256_hex demo_sha demo_pub))]"

text \<open>The reader of the two manifests; \<open>rest\<close> reads every other text.\<close>

definition pack_platform :: "string \<Rightarrow> ppt_header \<Rightarrow> (string \<Rightarrow> pyval) \<Rightarrow> platform" where
  "pack_platform img hdr rest = \<lparr>pf_sha = demo_sha, pf_float = demo_float,
     pf_loads = (\<lambda>s. Some (if s = ''M5'' then PDict (pack_manifest img hdr 5) else if s = ''M6'' then PDict (pack_manifest img hdr 6) else rest s)),
     pf_verify = (\<lambda>pub sig msg. pub = demo_pub)\<rparr>"

definition demo_name :: "int \<Rightarrow> string" where
  "demo_name n = (if n = 5 then ''M5'' else ''M6'')"

definition pack_swap :: "string \<Rightarrow> int \<Rightarrow> host_env" where
  "pack_swap img n = \<lparr>he_recover = demo_env, he_append = demo_env, he_image = Inr img,
     he_files = \<lparr>pk_image = Some img, pk_manifest = Some (demo_name n), pk_sig = Some ''s'', pk_sidecar = None\<rparr>,
     he_keys = [Some demo_pub], he_since = PStr ''now'', he_path = ''p'', he_pending_ok = True, he_version_ok = True, he_image_ok = True,
     he_record_ok = True, he_clear_ok = True\<rparr>"

definition pack_envelope :: "ctx \<Rightarrow> ctx" where
  "pack_envelope caps = [(''envelope_id'', PStr ''e''), (''fields'', PDict []), (''caps'', PDict caps)]"

definition pack_host :: "ctx \<Rightarrow> policy_host" where
  "pack_host caps = \<lparr>ph_envelope = pack_envelope caps, ph_revoked = [], ph_audit = demo_log, ph_active = None, ph_prev = None, ph_recovered = False,
     ph_disk = \<lparr>hd_version = None, hd_pending = None, hd_record = None, hd_image = None\<rparr>\<rparr>"

lemma pack_loads: "n \<in> {5, 6} \<Longrightarrow> pf_loads (pack_platform img hdr rest) (demo_name n) = Some (PDict (pack_manifest img hdr n))"
  by (auto simp: pack_platform_def demo_name_def)

lemma pack_manifest_entries [simp]:
  "map_of (pack_manifest img hdr n) ''format'' = Some (PStr PACK_FORMAT)" "map_of (pack_manifest img hdr n) ''version'' = Some (PInt n)"
  "map_of (pack_manifest img hdr n) ''counts'' = Some (PDict (counts_of hdr))" "map_of (pack_manifest img hdr n) ''envelope_id'' = Some (PStr ''e'')"
  "map_of (pack_manifest img hdr n) ''wcet_cycles'' = None" "map_of (pack_manifest img hdr n) ''packing'' = None" "map_of (pack_manifest img hdr n) ''fields'' = None"
  by (simp_all add: pack_manifest_def)

lemma pack_manifest_digests:
  "map_of (pack_manifest img hdr n) ''image_sha256'' = Some (PStr (digest (pack_platform img hdr rest) img))"
  "map_of (pack_manifest img hdr n) ''key_id'' = Some (PStr (digest (pack_platform img hdr rest) demo_pub))"
  by (simp_all add: pack_manifest_def digest_def pack_platform_def)

lemma pack_swap_parts [simp]:
  "he_image (pack_swap img n) = Inr img" "he_keys (pack_swap img n) = [Some demo_pub]" "pk_image (he_files (pack_swap img n)) = Some img"
  "pk_manifest (he_files (pack_swap img n)) = Some (demo_name n)" "pk_sig (he_files (pack_swap img n)) = Some ''s''"
  "writes_ok (pack_swap img n)" "ae_file_ok (he_append (pack_swap img n))" "he_clear_ok (pack_swap img n)"
  by (simp_all add: pack_swap_def writes_ok_def demo_env_def)

lemma pack_verifies:
  assumes "n \<in> {5, 6}" and hdr_ok: "read_ppt_header img = Inr hdr"
  shows "verify_pack (pack_platform img hdr rest) (he_files (pack_swap img n)) (he_keys (pack_swap img n)) [] = Inr (True, [], Some (pack_manifest img hdr n))"
proof -
  note m = pack_manifest_digests [where n = n and rest = rest and img = img and hdr = hdr]
  have "find (\<lambda>(key, k). \<not> py_eq (ctx_get (counts_of hdr) key) (PInt (int k))) (capped_counts hdr) = None"
    by (simp add: find_None_iff counts_of_def capped_counts_def ctx_get_def)
  then have "check_counts hdr (pack_manifest img hdr n) = Inr []" by (simp add: check_counts_def m)
  then have "check_image (pack_platform img hdr rest) (he_files (pack_swap img n)) (pack_manifest img hdr n) = Inr []"
    using m by (simp add: check_image_def hdr_ok check_wcet_def check_packing_def ctx_get_def)
  moreover have "find_signer (pack_platform img hdr rest) [Some demo_pub] ''s'' x = Inr (Some (digest (pack_platform img hdr rest) demo_pub))" for x
    by (simp add: load_key_def demo_pub_def) (simp add: pack_platform_def demo_pub_def)
  ultimately show ?thesis
    using m pack_loads [OF assms(1), of img hdr rest] by (simp add: verify_pack_def verify_manifest_def ctx_get_def del: find_signer.simps)
qed

lemma pack_gates:
  assumes "n \<in> {5, 6}" "stored_version (ph_disk h) < n" "ph_envelope h = pack_envelope caps" "ph_revoked h = []"
    and hdr_ok: "read_ppt_header img = Inr hdr" and valid: "validate_image img (Some caps) = Inr (True, [])"
  shows "gates (pack_platform img hdr rest) str_of (pack_swap img n) False PNone img h = Inr (Inr (pack_manifest img hdr n))"
proof -
  have e: "check_envelope (pack_manifest img hdr n) img (pack_envelope caps) = Inr (True, [])"
    by (simp add: check_envelope_def dict_entry_def pack_envelope_def field_reasons_def ctx_get_def valid)
  show ?thesis
    using pack_verifies [OF assms(1) hdr_ok, of rest] e assms(2)
    by (simp add: gates_def signed_gate_def assms(3,4) version_gate_def key_of_def resuming_def version_reasons_def)
qed

text \<open>A host with nothing pending and a plain log accepts the next version.\<close>

lemma pack_accepted:
  assumes "n \<in> {5, 6}" "stored_version (ph_disk h) < n" "ph_envelope h = pack_envelope caps" "ph_revoked h = []"
    and hdr_ok: "read_ppt_header img = Inr hdr" and valid: "validate_image img (Some caps) = Inr (True, [])"
    and clear: "hd_pending (ph_disk h) = None" and plain: "al_key (ph_audit h) = None" and hash: "active_hash (ph_active h) = Inr from_hash"
  shows "\<exists>h' v. swap (pack_platform img hdr rest) str_of (pack_swap img n) False strict h = (h', Inr (Done v)) \<and>
    ph_active h' = Some (new_record (pack_platform img hdr rest) (pack_swap img n) img (pack_manifest img hdr n) hdr, img) \<and>
    ph_prev h' = ph_active h \<and> hd_pending (ph_disk h') = None \<and> al_key (ph_audit h') = None \<and>
    ph_envelope h' = pack_envelope caps \<and> ph_revoked h' = []"
proof -
  have env: "he_image (pack_swap img n) = Inr img" "writes_ok (pack_swap img n)" "has_path (ph_audit h) \<longrightarrow> ae_file_ok (he_append (pack_swap img n))"
    by simp_all
  show ?thesis
    using swap_succeeds [OF clear env(1) pack_gates [OF assms(1-4) hdr_ok valid] hdr_ok env(2) hash plain env(3), of rest str_of strict] assms(3,4)
    by auto
qed

subsection \<open>The properties at work\<close>

abbreviation demo_manifest :: "int \<Rightarrow> ctx" where
  "demo_manifest \<equiv> pack_manifest demo_ppt demo_header"

abbreviation demo_hotswap :: "(string \<Rightarrow> pyval) \<Rightarrow> platform" where
  "demo_hotswap \<equiv> pack_platform demo_ppt demo_header"

abbreviation swap_demo :: "int \<Rightarrow> host_env" where
  "swap_demo \<equiv> pack_swap demo_ppt"

abbreviation demo_envelope :: ctx where
  "demo_envelope \<equiv> pack_envelope []"

abbreviation demo_host :: policy_host where
  "demo_host \<equiv> pack_host []"

lemma pack_host_parts [simp]:
  "stored_version (ph_disk (pack_host caps)) = 0" "ph_envelope (pack_host caps) = pack_envelope caps" "ph_revoked (pack_host caps) = []"
  "hd_pending (ph_disk (pack_host caps)) = None" "al_key (ph_audit (pack_host caps)) = None" "ph_active (pack_host caps) = None"
  "ph_prev (pack_host caps) = None" "log_ok pf (ph_audit (pack_host caps))" "hd_record (ph_disk (pack_host caps)) = None"
  by (simp_all add: pack_host_def stored_version_def demo_log_def log_ok_def acc_holds_start)

lemma demo_first_swap:
  "\<exists>h' v. swap (demo_hotswap rest) str_of (swap_demo 5) False strict demo_host = (h', Inr (Done v)) \<and>
    ph_active h' = Some (new_record (demo_hotswap rest) (swap_demo 5) demo_ppt (demo_manifest 5) demo_header, demo_ppt) \<and>
    hd_pending (ph_disk h') = None \<and> al_key (ph_audit h') = None \<and> ph_envelope h' = demo_envelope \<and> ph_revoked h' = []"
  using pack_accepted [OF _ _ _ _ demo_ppt_header demo_ppt_valid(2), of 5 demo_host PNone rest str_of strict] by (auto simp: active_hash_def)

theorem accepted_pack_is_authorized_witness:
  "\<exists>h' v manifest sig rec. swap (demo_hotswap (\<lambda>s. PNone)) (\<lambda>v. []) (swap_demo 5) False False demo_host = (h', Inr (Done v)) \<and>
     authentic (demo_hotswap (\<lambda>s. PNone)) [Some demo_pub] [] sig manifest demo_ppt \<and> within_envelope demo_envelope manifest demo_ppt \<and>
     ph_active h' = Some (rec, demo_ppt)"
proof -
  obtain h' v where s: "swap (demo_hotswap (\<lambda>s. PNone)) (\<lambda>v. []) (swap_demo 5) False False demo_host = (h', Inr (Done v))"
    using demo_first_swap by blast
  have "ctx_get (ph_envelope demo_host) ''envelope_id'' = PStr ''e''" by (simp add: pack_envelope_def ctx_get_def)
  from accepted_pack_is_authorized [OF s _ this] show ?thesis using s by simp blast
qed

theorem failed_swap_keeps_policy_witness:
  "\<exists>h' r. swap (demo_hotswap (\<lambda>s. PNone)) (\<lambda>v. []) ((swap_demo 5)\<lparr>he_image := Inl ''2''\<rparr>) False False demo_host = (h', r) \<and>
     ph_active h' = None \<and> ph_prev h' = None \<and> hd_record (ph_disk h') = None"
proof -
  let ?pf = "demo_hotswap (\<lambda>s. PNone)" and ?env = "(swap_demo 5)\<lparr>he_image := Inl ''2''\<rparr>"
  obtain h' r where s: "swap ?pf (\<lambda>v. []) ?env False False demo_host = (h', r)" by fastforce
  then have "reject ?pf ?env False PNone PNone [''image:unreadable:2''] demo_host = (h', r)"
    by (simp add: swap_def recover_def read_pending_def)
  then have "\<not> (\<exists>v. r = Inr (Done v))" by (rule reject_result)
  then show ?thesis using s failed_swap_keeps_policy [OF s] by simp
qed

text \<open>Intents of the two versions, as the reader gives them back.\<close>

definition demo_intents :: "string \<Rightarrow> pyval" where
  "demo_intents s = (let hash = sha256_hex demo_sha demo_ppt in
     intent_of hash (PInt (if s = pending_text (demo_hotswap (\<lambda>s. PNone)) hash (PInt 5) then 5 else 6)))"

lemma pending_text_same: "pending_text (demo_hotswap rest) hash v = pending_text (demo_hotswap (\<lambda>s. PNone)) hash v"
  by (simp add: pending_text_def pack_platform_def)

lemma pending_text_neq: "m \<noteq> n \<Longrightarrow> pending_text pf hash (PInt m) \<noteq> pending_text pf hash (PInt n)"
  using int_str_inj [of m n] by (auto simp: pending_text_def)

lemma demo_offers:
  assumes "n \<in> {5, 6}"
  shows "plain_offer (demo_hotswap demo_intents) (swap_demo n) False"
proof -
  have o: "offered (demo_hotswap demo_intents) (swap_demo n) False = PInt n"
    using pack_loads [OF assms, of demo_ppt demo_header demo_intents] by (simp add: offered_def manifest_of_def ctx_get_def)
  have dg: "digest (demo_hotswap demo_intents) demo_ppt = sha256_hex demo_sha demo_ppt" by (simp add: digest_def pack_platform_def)
  have "pending_text (demo_hotswap demo_intents) x (PInt n) \<noteq> ''M5'' \<and> pending_text (demo_hotswap demo_intents) x (PInt n) \<noteq> ''M6''" for x
    by (simp add: pending_text_def)
  moreover have "demo_intents (pending_text (demo_hotswap demo_intents) (sha256_hex demo_sha demo_ppt) (PInt n)) = intent_of (sha256_hex demo_sha demo_ppt) (PInt n)"
    using assms pending_text_neq [of 6 5] by (auto simp: demo_intents_def Let_def pending_text_same [of demo_intents])
  ultimately have "pf_loads (demo_hotswap demo_intents) (pending_text (demo_hotswap demo_intents) (sha256_hex demo_sha demo_ppt) (PInt n))
      = Some (intent_of (sha256_hex demo_sha demo_ppt) (PInt n))" by (subst pack_platform_def) simp
  then show ?thesis using dg by (simp add: plain_offer_def o)
qed

theorem host_refines_spec_witness:
  "\<exists>h'. ph_active h' \<noteq> None \<and> policy_step (spec_of (demo_hotswap demo_intents) demo_host) (spec_of (demo_hotswap demo_intents) h')"
proof -
  obtain h' v where s: "swap (demo_hotswap demo_intents) (\<lambda>v. []) (swap_demo 5) False False demo_host = (h', Inr (Done v))" "ph_active h' \<noteq> None"
    using demo_first_swap by blast
  have "host_step (demo_hotswap demo_intents) (\<lambda>v. []) demo_host h'" by (rule host_step.swaps [OF s(1)]) (rule demo_offers, simp)
  from host_refines_spec [OF this] show ?thesis using s(2) by auto
qed

theorem host_runs_keep_floor_witness:
  "\<exists>h'. (host_step (demo_hotswap demo_intents) (\<lambda>v. []))\<^sup>*\<^sup>* demo_host h' \<and> ph_active h' \<noteq> None \<and>
     0 \<le> stored_version (ph_disk h') \<and> below_floor (spec_of (demo_hotswap demo_intents) h')"
proof -
  obtain h' v where s: "swap (demo_hotswap demo_intents) (\<lambda>v. []) (swap_demo 5) False False demo_host = (h', Inr (Done v))" "ph_active h' \<noteq> None"
    using demo_first_swap by blast
  have "host_step (demo_hotswap demo_intents) (\<lambda>v. []) demo_host h'" by (rule host_step.swaps [OF s(1)]) (rule demo_offers, simp)
  then have r: "(host_step (demo_hotswap demo_intents) (\<lambda>v. []))\<^sup>*\<^sup>* demo_host h'" by blast
  have "below_floor (spec_of (demo_hotswap demo_intents) demo_host)" by (simp add: below_floor_def spec_of_def)
  from host_runs_keep_floor [OF r _ this] show ?thesis using r s(2) by auto
qed


theorem reopened_host_restores_witness:
  "\<exists>h' v rest rec h2. swap (demo_hotswap rest) (\<lambda>v. []) (swap_demo 5) False False demo_host = (h', Inr (Done v)) \<and>
     open_host (demo_hotswap rest) (swap_demo 5) [] demo_envelope [] None ''a'' None None (ph_disk h') = Inr h2 \<and>
     ph_active h2 = Some (canon_items rec, demo_ppt)"
proof -
  let ?rec = "new_record (demo_hotswap (\<lambda>s. PNone)) (swap_demo 5) demo_ppt (demo_manifest 5) demo_header"
  let ?pf = "demo_hotswap (\<lambda>s. PDict (canon_items ?rec))"
  have rec: "new_record ?pf (swap_demo 5) demo_ppt (demo_manifest 5) demo_header = ?rec" by (simp add: new_record_def digest_def pack_platform_def)
  obtain h' v where s: "swap ?pf (\<lambda>v. []) (swap_demo 5) False False demo_host = (h', Inr (Done v))" "ph_active h' = Some (?rec, demo_ppt)"
    using demo_first_swap [of "\<lambda>s. PDict (canon_items ?rec)" "\<lambda>v. []" False, unfolded rec] by blast
  obtain t where "record_text ?pf ?rec = CHR ''{'' # t" using canonical_spaced_brace unfolding record_text_def by blast
  then have r: "pf_loads ?pf (record_text ?pf ?rec) = Some (PDict (canon_items ?rec))" by (simp add: pack_platform_def)
  have "check_separation ?pf None (List.map_filter (map_option (digest ?pf)) (he_keys (swap_demo 5))) = Inr ()" by (simp add: check_separation_def)
  from reopened_host_restores [OF s(1) _ s(2) r this] s show ?thesis by (metis pack_host_parts(8))
qed

theorem built_pack_verifies_witness:
  "\<exists>manifest sig. build_pack (demo_hotswap (\<lambda>s. PNone)) (Some demo_ppt) [] 7 ''e'' (\<lambda>m. ''s'') (Some demo_pub) None None None ''now'' = Inr (manifest, sig) \<and>
     verify_pack (demo_hotswap (\<lambda>s. PDict (canon_items manifest))) \<lparr>pk_image = Some demo_ppt, pk_manifest = Some [], pk_sig = Some sig, pk_sidecar = None\<rparr>
       [Some demo_pub] [] = Inr (True, [], Some (canon_items manifest))"
proof -
  obtain manifest sig where b: "build_pack (demo_hotswap rest) (Some demo_ppt) [] 7 ''e'' (\<lambda>m. ''s'') (Some demo_pub) None None None ''now'' = Inr (manifest, sig)" for rest
    by (simp add: build_pack_def demo_ppt_valid load_key_def demo_pub_def build_manifest_def demo_ppt_header demo_ppt_wcet packing_entry_def digest_def pack_platform_def)
  let ?pf = "demo_hotswap (\<lambda>s. PDict (canon_items manifest))"
  have v: "pf_verify ?pf demo_pub ''s'' m" for m by (simp add: pack_platform_def)
  have l: "pf_loads ?pf [] = Some (canon_form (PDict manifest))" by (simp add: pack_platform_def canon_form_dict del: canon_form.simps)
  from built_pack_verifies [OF b v l] show ?thesis using b by auto
qed

end
