(* ===== verification/Wire.thy ===== *)
theory Wire
  imports QuantizerSound Receipts
begin

section \<open>The Facet wire (\<open>prismpath/telemetry/wire.py\<close>)\<close>

text \<open>
  A reading as a self-framing bit string: quantized field by field in the order of the sorted names, each cell
  index sent as its Fibonacci codeword. The definitions follow \<open>encode_reading\<close>, \<open>decode_reading\<close> and the
  reference routing \<open>route_node\<close>; the theorem is the composition of the quantizer and the codec: whoever decodes the
  bits routes every node as the sender's raw reading does, errors included.
\<close>

definition wire_order :: "partitions \<Rightarrow> string list" where
  "wire_order parts = str_sort (map fst parts)"

definition encode_reading :: "partitions \<Rightarrow> ctx \<Rightarrow> string result" where
  "encode_reading parts reading =
     ebind (checked_quantize parts reading) (\<lambda>syms.
     ebind (emap (\<lambda>field. case map_of syms field of None \<Rightarrow> Inl KeyError | Some s \<Rightarrow> Inr (int s + 1)) (wire_order parts))
       encode_stream)"

definition encode_reading_checked :: "partitions \<Rightarrow> ctx \<Rightarrow> string result" where
  "encode_reading_checked parts reading = encode_reading parts reading"

text \<open>Codewords are positive, so the subtraction never leaves the naturals (lemma \<open>decode_stream_positive\<close>).\<close>

definition decode_reading :: "partitions \<Rightarrow> string \<Rightarrow> ctx result" where
  "decode_reading parts bits =
     ebind (decode_stream bits) (\<lambda>wire.
       if length wire \<noteq> length (wire_order parts) then Inl ValueError
       else reconstruct parts (zip (wire_order parts) (map (\<lambda>w. nat (w - 1)) wire)))"

fun route_edges :: "pyparse \<Rightarrow> edge list \<Rightarrow> ctx \<Rightarrow> string option result" where
  "route_edges parse [] reading = Inr None"
| "route_edges parse ((target, cond) # es) reading =
     (if \<not> is_deterministic cond then route_edges parse es reading
      else ebind (eval_condition parse cond reading) (\<lambda>b. if b then Inr (Some target) else route_edges parse es reading))"

definition route_node :: "pyparse \<Rightarrow> flow_graph \<Rightarrow> string \<Rightarrow> ctx \<Rightarrow> string option result" where
  "route_node parse graph node reading =
     (case map_of (fg_nodes graph) node of None \<Rightarrow> Inl KeyError | Some n \<Rightarrow> route_edges parse (fn_edges n) reading)"

definition decision_nodes :: "flow_graph \<Rightarrow> string list" where
  "decision_nodes graph = map fst (filter (\<lambda>(name, n). list_ex (\<lambda>(t, cond). is_deterministic cond) (fn_edges n)) (fg_nodes graph))"

subsection \<open>Both ends agree\<close>

lemma decode_stream_positive:
  assumes "bitstr bits" "decode_stream bits = Inr vals" "v \<in> set vals"
  shows "1 \<le> v"
  using decode_stream_canonical [OF assms(1,2)] encode_stream_words assms(3) by blast

lemma wire_symbols:
  assumes "checked_quantize parts reading = Inr syms" "distinct (map fst parts)"
  shows "emap (\<lambda>field. case map_of syms field of None \<Rightarrow> Inl KeyError | Some s \<Rightarrow> Inr (int s + 1)) (wire_order parts) =
      Inr (map (\<lambda>(x, s). int s + 1) syms)"
    and "zip (wire_order parts) (map snd syms) = syms"
proof -
  have names: "map fst syms = wire_order parts" using checked_quantize_symbols(1) [OF assms(1)] by (simp add: wire_order_def)
  then have d: "distinct (map fst syms)" using assms(2) by (simp add: wire_order_def distinct_str_sort)
  have "emap (\<lambda>field. case map_of syms field of None \<Rightarrow> Inl KeyError | Some s \<Rightarrow> Inr (int s + 1)) (map fst syms) =
      Inr (map (\<lambda>field. int (the (map_of syms field)) + 1) (map fst syms))"
    by (rule emap_Inr_map) (use d in auto)
  also have "map (\<lambda>field. int (the (map_of syms field)) + 1) (map fst syms) = map (\<lambda>(x, s). int s + 1) syms"
    using d by (auto simp: map_of_is_SomeI)
  finally show "emap (\<lambda>field. case map_of syms field of None \<Rightarrow> Inl KeyError | Some s \<Rightarrow> Inr (int s + 1)) (wire_order parts) =
      Inr (map (\<lambda>(x, s). int s + 1) syms)" by (simp add: names)
  show "zip (wire_order parts) (map snd syms) = syms" by (simp add: names [symmetric] zip_map_fst_snd)
qed

text \<open>Decoding the bits of a reading is reconstructing from its symbols, whatever zero padding follows.\<close>

lemma wire_reconstructs:
  assumes "encode_reading parts reading = Inr bits" "distinct (map fst parts)" "\<not> str_contains ''11'' pad"
  shows "\<exists>syms. checked_quantize parts reading = Inr syms \<and> decode_reading parts (bits @ pad) = reconstruct parts syms"
proof -
  obtain syms where q: "checked_quantize parts reading = Inr syms"
    using assms(1) by (auto simp: encode_reading_def ebind_eq_Inr)
  have e: "encode_stream (map (\<lambda>(x, s). int s + 1) syms) = Inr bits"
    using assms(1) q wire_symbols(1) [OF q assms(2)] by (simp add: encode_reading_def)
  have d: "decode_stream (bits @ pad) = Inr (map (\<lambda>(x, s). int s + 1) syms)" by (rule decode_stream_padded [OF e assms(3)])
  have len: "length (wire_order parts) = length syms"
    using arg_cong [OF checked_quantize_symbols(1) [OF q], of length] by (simp add: wire_order_def)
  have ds: "map (\<lambda>w. nat (w - 1)) (map (\<lambda>(x, s). int s + 1) syms) = map snd syms" by auto
  have "decode_reading parts (bits @ pad) = reconstruct parts (zip (wire_order parts) (map snd syms))"
    by (simp add: decode_reading_def d len ds del: map_map)
  then show ?thesis using q wire_symbols(2) [OF q assms(2)] by simp
qed

lemma route_edges_alike:
  "(\<And>target cond. (target, cond) \<in> set es \<Longrightarrow> is_deterministic cond \<Longrightarrow> eval_condition parse cond a = eval_condition parse cond b) \<Longrightarrow>
   route_edges parse es a = route_edges parse es b"
proof (induction es)
  case (Cons e es)
  obtain target cond where e: "e = (target, cond)" by (cases e)
  have "route_edges parse es a = route_edges parse es b" by (rule Cons.IH) (use Cons.prems in auto)
  then show ?case using Cons.prems [of target cond] by (cases "is_deterministic cond"; cases "eval_condition parse cond b") (simp_all add: e)
qed simp

text \<open>
  C5. The wire preserves decisions: for a flow without field definitions whose partitions are built, the bits of any
  reading the encoder accepts, followed by any padding without a terminator, decode to a reading on which every node routes
  as on the sender's, to the same target, to none, or to the same error; provided no condition compares with the
  sentinel string of the trailing categorical cell.
\<close>

theorem wire_routes_alike:
  assumes "parser_wf parse" "fg_fields graph = []" "build_partitions parse graph = Inr parts"
    and "encode_reading parts reading = Inr bits" "\<not> str_contains ''11'' pad"
    and "\<not> list_ex names_other (map snd (flow_atoms parse graph))"
  shows "\<exists>rep. decode_reading parts (bits @ pad) = Inr rep \<and> (\<forall>node. route_node parse graph node rep = route_node parse graph node reading)"
proof -
  have "distinct (map fst parts)" using build_partitions_parts(1) [OF assms(3,2)] distinct_flow_atoms by simp
  from wire_reconstructs [OF assms(4) this assms(5)] obtain syms
    where syms: "checked_quantize parts reading = Inr syms" "decode_reading parts (bits @ pad) = reconstruct parts syms" by blast
  from quantized_conditions [OF assms(1-3) syms(1) assms(6)] obtain rep where rep: "reconstruct parts syms = Inr rep"
    "\<And>name node target cond. (name, node) \<in> set (fg_nodes graph) \<Longrightarrow> (target, cond) \<in> set (fn_edges node) \<Longrightarrow>
       is_deterministic cond \<Longrightarrow> eval_condition parse cond rep = eval_condition parse cond reading" by blast
  have "route_node parse graph node rep = route_node parse graph node reading" for node
  proof (cases "map_of (fg_nodes graph) node")
    case (Some n)
    have "route_edges parse (fn_edges n) rep = route_edges parse (fn_edges n) reading"
      by (rule route_edges_alike, rule rep(2) [OF map_of_SomeD [OF Some]])
    then show ?thesis by (simp add: route_node_def Some)
  qed (simp add: route_node_def)
  then show ?thesis using rep(1) syms(2) by auto
qed

theorem wire_routes_alike_witness:
  "\<exists>bits rep. encode_reading demo_parts [(''x'', PFloat (FFin 7)), (''y'', PNone)] = Inr bits \<and>
     decode_reading demo_parts (bits @ ''000'') = Inr rep \<and>
     route_node demo_flow_parse demo_flow ''a'' rep = Inr (Some ''b'')"
proof -
  have wf: "parser_wf demo_flow_parse" by (auto simp: parser_wf_def demo_flow_parse_def split: if_splits)
  have f: "fg_fields demo_flow = []" by (simp add: demo_flow_def)
  have "wire_order demo_parts = [''x'']" by code_simp
  then obtain bits where e: "encode_reading demo_parts [(''x'', PFloat (FFin 7)), (''y'', PNone)] = Inr bits"
    using encode_stream_Inr_iff [of "[2]"] demo_flow_facts(2) by (auto simp: encode_reading_def)
  have r: "route_node demo_flow_parse demo_flow ''a'' [(''x'', PFloat (FFin 7)), (''y'', PNone)] = Inr (Some ''b'')" by code_simp
  have p: "\<not> str_contains ''11'' ''000''" by code_simp
  show ?thesis using wire_routes_alike [OF wf f demo_flow_facts(1) e p demo_flow_facts(3)] e r by auto
qed

end
