(* ===== verification/EpochJournal.thy ===== *)
theory EpochJournal
  imports Epochs RootStatement
begin

section \<open>The acknowledgment channel (\<open>prismpath/telemetry/ackchannel.py\<close>)\<close>

text \<open>
  An acknowledgment is a root and a sequence number with an HMAC over both. The MAC is a parameter: \<open>mac secret
  message\<close> is the hexadecimal tag of the standard library. A receiver drops data only for an authentic tag and a
  sequence number above the last one it took.
\<close>

definition ack_bytes :: "platform \<Rightarrow> string \<Rightarrow> int \<Rightarrow> string" where
  "ack_bytes pf rt seq = canonical_compact (pf_float pf) (PDict [(''root'', PStr rt), (''seq'', PInt seq)])"

definition sign_ack :: "platform \<Rightarrow> (string \<Rightarrow> string \<Rightarrow> string) \<Rightarrow> string \<Rightarrow> string \<Rightarrow> int \<Rightarrow> string" where
  "sign_ack pf mac secret rt seq = mac secret (ack_bytes pf rt seq)"

definition verify_ack :: "platform \<Rightarrow> (string \<Rightarrow> string \<Rightarrow> string) \<Rightarrow> string \<Rightarrow> string \<Rightarrow> int \<Rightarrow> string \<Rightarrow> bool" where
  "verify_ack pf mac secret rt seq tag = (sign_ack pf mac secret rt seq = tag)"

record ack_receiver =
  ar_store :: epoch_store
  ar_secret :: string
  ar_last_seq :: int

record ack_answer =
  aa_accepted :: bool
  aa_reason :: string
  aa_dropped :: nat

definition ack_receiver_init :: "epoch_store \<Rightarrow> string \<Rightarrow> ack_receiver" where
  "ack_receiver_init st secret = \<lparr>ar_store = st, ar_secret = secret, ar_last_seq = - 1\<rparr>"

definition refused_ack :: "string \<Rightarrow> ack_answer" where
  "refused_ack reason = \<lparr>aa_accepted = False, aa_reason = reason, aa_dropped = 0\<rparr>"

definition accepted_ack :: "nat \<Rightarrow> ack_answer" where
  "accepted_ack n = \<lparr>aa_accepted = True, aa_reason = ''ok'', aa_dropped = n\<rparr>"

definition on_ack :: "platform \<Rightarrow> (string \<Rightarrow> string \<Rightarrow> string) \<Rightarrow> ack_receiver \<Rightarrow> string \<Rightarrow> int \<Rightarrow> string \<Rightarrow> ack_receiver \<times> ack_answer" where
  "on_ack pf mac r rt seq tag =
     (if \<not> verify_ack pf mac (ar_secret r) rt seq tag then (r, refused_ack ''bad-tag'')
      else if seq \<le> ar_last_seq r then (r, refused_ack ''stale-seq'')
      else (case ack (ar_store r) rt of (st, dropped) \<Rightarrow> (r\<lparr>ar_last_seq := seq, ar_store := st\<rparr>, accepted_ack dropped)))"

section \<open>The epoch journal (\<open>prismpath/telemetry/epoch_journal.py\<close>)\<close>

text \<open>
  The journal keeps an epoch store in memory and writes each change to a directory. The directory is four files, each its
  text or nothing, and the data files under their names. Every change of it is an effect, and the journal
  remembers the effects of its life in \<open>ej_done\<close>, so that a crash is a prefix of them. Lines are read without
  the newline translation of text mode, of which the lines the journal writes have no use.
\<close>

datatype journal_file = ChainFile | AcksFile | GapsFile | RootsFile

record journal_disk =
  jd_file :: "journal_file \<Rightarrow> string option"
  jd_data :: "(string, string) pydict"

datatype disk_effect = Append journal_file string | Replace journal_file string | WriteData string string | RemoveData string

definition file_text :: "journal_disk \<Rightarrow> journal_file \<Rightarrow> string" where
  "file_text d f = (case jd_file d f of None \<Rightarrow> [] | Some c \<Rightarrow> c)"

fun apply_effect :: "disk_effect \<Rightarrow> journal_disk \<Rightarrow> journal_disk" where
  "apply_effect (Append f s) d = d\<lparr>jd_file := (jd_file d)(f \<mapsto> file_text d f @ s)\<rparr>"
| "apply_effect (Replace f s) d = d\<lparr>jd_file := (jd_file d)(f \<mapsto> s)\<rparr>"
| "apply_effect (WriteData x s) d = d\<lparr>jd_data := dict_set (jd_data d) x s\<rparr>"
| "apply_effect (RemoveData x) d = d\<lparr>jd_data := filter (\<lambda>(y, s). y \<noteq> x) (jd_data d)\<rparr>"

datatype recovery_finding =
    TornLine string journal_file nat
  | CorruptData nat
  | OrphanData int
  | CompletedAck "nat list"
  | CompletedGap nat

record epoch_journal =
  ej_key :: "instance_key option"
  ej_signer :: "signer option"
  ej_block_bits :: int
  ej_max_data :: int
  ej_max_bytes :: "int option"
  ej_epochs :: "epoch list"
  ej_last_seq :: int
  ej_acked :: "string option"
  ej_report :: "recovery_finding list"
  ej_disk :: journal_disk
  ej_done :: "disk_effect list"

definition do_effect :: "disk_effect \<Rightarrow> epoch_journal \<Rightarrow> epoch_journal" where
  "do_effect e j = j\<lparr>ej_disk := apply_effect e (ej_disk j), ej_done := ej_done j @ [e]\<rparr>"

definition report :: "recovery_finding \<Rightarrow> epoch_journal \<Rightarrow> epoch_journal" where
  "report f j = j\<lparr>ej_report := ej_report j @ [f]\<rparr>"

text \<open>\<open>JournalCorrupt\<close> is a RuntimeError.\<close>

definition JournalCorrupt :: py_error where "JournalCorrupt = RuntimeError"

definition LOG_EPOCH_CHAIN :: string where "LOG_EPOCH_CHAIN = ''epoch-chain''"

text \<open>\<open>json.dumps(record, sort_keys=True)\<close> and the line of it; the records the journal writes.\<close>

definition dumps :: "platform \<Rightarrow> pyval \<Rightarrow> string" where
  "dumps pf v = canonical_spaced (pf_float pf) v"

definition json_line :: "platform \<Rightarrow> ctx \<Rightarrow> string" where
  "json_line pf rec = dumps pf (PDict rec) @ [CHR 0x0A]"

definition chain_record :: "nat \<Rightarrow> string \<Rightarrow> string \<Rightarrow> string \<Rightarrow> nat \<Rightarrow> ctx" where
  "chain_record i merkle chained data_sha data_len =
     [(''epoch_id'', PInt (int i)), (''merkle_root'', PStr merkle), (''chained_root'', PStr chained),
      (''data_sha256'', PStr data_sha), (''data_length'', PInt (int data_len))]"

definition gap_record :: "nat \<Rightarrow> string \<Rightarrow> ctx" where
  "gap_record i reason = [(''epoch_id'', PInt (int i)), (''reason'', PStr reason)]"

definition ack_record :: "int \<Rightarrow> string \<Rightarrow> ctx" where
  "ack_record seq rt = [(''last_seq'', PInt seq), (''acked_through'', PStr rt)]"

definition blocks_text :: "platform \<Rightarrow> string list \<Rightarrow> string" where
  "blocks_text pf blocks = dumps pf (PList (map PStr blocks))"

definition data_name :: "nat \<Rightarrow> string" where
  "data_name i = int_str (int i) @ ''.json''"

definition data_file :: "epoch_journal \<Rightarrow> nat \<Rightarrow> string option" where
  "data_file j i = map_of (jd_data (ej_disk j)) (data_name i)"

definition append_line :: "platform \<Rightarrow> journal_file \<Rightarrow> ctx \<Rightarrow> epoch_journal \<Rightarrow> epoch_journal" where
  "append_line pf f rec j = do_effect (Append f (json_line pf rec)) j"

subsection \<open>Reading a file of lines\<close>

definition unlines :: "string list \<Rightarrow> string" where
  "unlines ls = concat (map (\<lambda>line. line @ [CHR 0x0A]) ls)"

text \<open>The loop of \<open>_read_jsonl\<close>; \<open>lines\<close> are all the lines, \<open>i\<close> the index of the first that is left.\<close>

fun jsonl_loop ::
    "platform \<Rightarrow> journal_file \<Rightarrow> string \<Rightarrow> string list \<Rightarrow> nat \<Rightarrow> string list \<Rightarrow> pyval list \<Rightarrow> epoch_journal \<Rightarrow> epoch_journal \<times> pyval list result" where
  "jsonl_loop pf f torn lines i [] recs j = (j, Inr recs)"
| "jsonl_loop pf f torn lines i (line # rest) recs j =
     (case pf_loads pf line of
        Some v \<Rightarrow> jsonl_loop pf f torn lines (i + 1) rest (recs @ [v]) j
      | None \<Rightarrow> if i = length lines - 1
          then (do_effect (Replace f (unlines (butlast lines))) (report (TornLine torn f (i + 1)) j), Inr recs)
          else (j, Inl JournalCorrupt))"

definition read_jsonl :: "platform \<Rightarrow> journal_file \<Rightarrow> string \<Rightarrow> epoch_journal \<Rightarrow> epoch_journal \<times> pyval list result" where
  "read_jsonl pf f torn j =
     (case jd_file (ej_disk j) f of None \<Rightarrow> (j, Inr [])
      | Some c \<Rightarrow> jsonl_loop pf f torn (raw_lines c) 0 (raw_lines c) [] j)"

text \<open>
  \<open>record[key]\<close>. An epoch id is followed as far as it is a natural number, as the journal writes it; any other value
  is a TypeError here.
\<close>

definition entry :: "pyval \<Rightarrow> string \<Rightarrow> pyval result" where
  "entry v key = (case v of PDict d \<Rightarrow> (case map_of d key of None \<Rightarrow> Inl KeyError | Some x \<Rightarrow> Inr x) | _ \<Rightarrow> Inl TypeError)"

definition epoch_id_of :: "pyval \<Rightarrow> nat result" where
  "epoch_id_of v = ebind (entry v ''epoch_id'') (\<lambda>x. case x of PInt i \<Rightarrow> if 0 \<le> i then Inr (nat i) else Inl TypeError | _ \<Rightarrow> Inl TypeError)"

definition str_of_val :: "pyval \<Rightarrow> string result" where
  "str_of_val v = (case v of PStr s \<Rightarrow> Inr s | _ \<Rightarrow> Inl TypeError)"

text \<open>The blocks of a data file: a list of strings, or \<open>null\<close>; no other value is followed.\<close>

definition blocks_of :: "pyval \<Rightarrow> string list option result" where
  "blocks_of v = (case v of PNone \<Rightarrow> Inr None | PList vs \<Rightarrow> ebind (emap str_of_val vs) (\<lambda>bs. Inr (Some bs)) | _ \<Rightarrow> Inl TypeError)"

subsection \<open>Dropping data\<close>

definition remove_data :: "nat \<Rightarrow> epoch_journal \<Rightarrow> epoch_journal" where
  "remove_data i j = (if data_file j i = None then j else do_effect (RemoveData (data_name i)) j)"

text \<open>The epoch object at a position of the store, changed in place.\<close>

definition update_epoch :: "nat \<Rightarrow> (epoch \<Rightarrow> epoch) \<Rightarrow> epoch_journal \<Rightarrow> epoch_journal" where
  "update_epoch p f j = j\<lparr>ej_epochs := (ej_epochs j)[p := f (ej_epochs j ! p)]\<rparr>"

definition drop_under_pressure :: "platform \<Rightarrow> nat \<Rightarrow> epoch_journal \<Rightarrow> epoch_journal" where
  "drop_under_pressure pf p j =
     (let ep = ej_epochs j ! p;
          j = (if \<not> ep_acked ep
            then update_epoch p (ep_dropped_under_pressure_update (\<lambda>_. True))
              (append_line pf GapsFile (gap_record (ep_id ep) ''pressure'') j)
            else j) in
      remove_data (ep_id ep) (update_epoch p (ep_blocks_update (\<lambda>_. None)) j))"

definition data_bytes :: "epoch_journal \<Rightarrow> nat" where
  "data_bytes j = sum_list (map (\<lambda>ep. case data_file j (ep_id ep) of None \<Rightarrow> 0 | Some t \<Rightarrow> length t) (ej_epochs j))"

text \<open>The two loops of \<open>_enforce_caps\<close> over the positions of the epochs with data; a pop from the empty list raises.\<close>

fun shed_count :: "platform \<Rightarrow> nat list \<Rightarrow> epoch_journal \<Rightarrow> epoch_journal \<times> nat list result" where
  "shed_count pf [] j = (if ej_max_data j < 0 then (j, Inl IndexError) else (j, Inr []))"
| "shed_count pf (p # ps) j =
     (if int (length (p # ps)) > ej_max_data j then shed_count pf ps (drop_under_pressure pf p j) else (j, Inr (p # ps)))"

fun shed_bytes :: "platform \<Rightarrow> int \<Rightarrow> nat list \<Rightarrow> epoch_journal \<Rightarrow> epoch_journal" where
  "shed_bytes pf cap [] j = j"
| "shed_bytes pf cap (p # ps) j = (if int (data_bytes j) > cap then shed_bytes pf cap ps (drop_under_pressure pf p j) else j)"

definition with_data :: "epoch_journal \<Rightarrow> nat list" where
  "with_data j = filter (\<lambda>p. has_data (ej_epochs j ! p)) [0..<length (ej_epochs j)]"

definition enforce_caps :: "platform \<Rightarrow> epoch_journal \<Rightarrow> epoch_journal \<times> unit result" where
  "enforce_caps pf j =
     then_do (shed_count pf (with_data j) j) (\<lambda>ps j.
       case ej_max_bytes j of None \<Rightarrow> (j, Inr ()) | Some cap \<Rightarrow> (shed_bytes pf cap ps j, Inr ()))"

subsection \<open>Acknowledgment\<close>

definition ack_at :: "nat \<Rightarrow> epoch_journal \<times> nat list \<Rightarrow> epoch_journal \<times> nat list" where
  "ack_at p jc =
     (let (j, completed) = jc; ep = ej_epochs j ! p; j = update_epoch p (ep_acked_update (\<lambda>_. True)) j in
      if has_data ep \<or> data_file j (ep_id ep) \<noteq> None
      then (remove_data (ep_id ep) (update_epoch p (ep_blocks_update (\<lambda>_. None)) j), completed @ [ep_id ep])
      else (j, completed))"

definition apply_ack :: "string \<Rightarrow> epoch_journal \<Rightarrow> epoch_journal \<times> nat list" where
  "apply_ack rt j = (case find_chained rt (ej_epochs j) 0 of None \<Rightarrow> (j, []) | Some idx \<Rightarrow> fold ack_at [0..<idx + 1] (j, []))"

definition journal_ack :: "platform \<Rightarrow> string \<Rightarrow> int \<Rightarrow> epoch_journal \<Rightarrow> epoch_journal \<times> nat" where
  "journal_ack pf rt seq j =
     (if \<not> list_ex (\<lambda>ep. ep_chained_root ep = rt) (ej_epochs j) then (j, 0)
      else let j = do_effect (Replace AcksFile (dumps pf (PDict (ack_record seq rt)))) j;
               (j, completed) = apply_ack rt (j\<lparr>ej_last_seq := seq, ej_acked := Some rt\<rparr>) in (j, length completed))"

definition durable_on_ack ::
    "platform \<Rightarrow> (string \<Rightarrow> string \<Rightarrow> string) \<Rightarrow> string \<Rightarrow> string \<Rightarrow> int \<Rightarrow> string \<Rightarrow> epoch_journal \<Rightarrow> epoch_journal \<times> ack_answer" where
  "durable_on_ack pf mac secret rt seq tag j =
     (if \<not> verify_ack pf mac secret rt seq tag then (j, refused_ack ''bad-tag'')
      else if seq \<le> ej_last_seq j then (j, refused_ack ''stale-seq'')
      else (case journal_ack pf rt seq j of (j, dropped) \<Rightarrow> (j, accepted_ack dropped)))"

subsection \<open>Recovery\<close>

definition load_blocks :: "platform \<Rightarrow> string \<Rightarrow> string list option result" where
  "load_blocks pf t = (case pf_loads pf t of None \<Rightarrow> Inl ValueError | Some v \<Rightarrow> blocks_of v)"

text \<open>\<open>len(data) != record["data_length"] or _sha256(data) != record["data_sha256"]\<close>\<close>

definition data_differs :: "platform \<Rightarrow> pyval \<Rightarrow> string \<Rightarrow> bool result" where
  "data_differs pf rec t =
     ebind (entry rec ''data_length'') (\<lambda>len.
       if \<not> py_eq (PInt (int (length t))) len then Inr True
       else ebind (entry rec ''data_sha256'') (\<lambda>sha. Inr (\<not> py_eq (PStr (sha256_hex (pf_sha pf) t)) sha)))"

text \<open>The data of one line of the chain: the blocks and the gaps known by now.\<close>

definition load_data :: "platform \<Rightarrow> nat \<Rightarrow> pyval \<Rightarrow> nat list \<Rightarrow> epoch_journal \<Rightarrow> epoch_journal \<times> (string list option \<times> nat list) result" where
  "load_data pf i rec lost j =
     (case data_file j i of
        None \<Rightarrow> (j, Inr (None, lost))
      | Some t \<Rightarrow> then_do (j, data_differs pf rec t) (\<lambda>bad j.
          if bad then (remove_data i (append_line pf GapsFile (gap_record i ''corrupt_data'') (report (CorruptData i) j)), Inr (None, lost @ [i]))
          else (j, ebind (load_blocks pf t) (\<lambda>bs. Inr (bs, lost)))))"

fun load_chain :: "platform \<Rightarrow> string \<Rightarrow> pyval list \<Rightarrow> nat list \<Rightarrow> epoch_journal \<Rightarrow> epoch_journal \<times> nat list result" where
  "load_chain pf prev [] lost j = (j, Inr lost)"
| "load_chain pf prev (rec # recs) lost j =
     then_do (j, epoch_id_of rec) (\<lambda>i j.
     then_do (j, ebind (entry rec ''merkle_root'') str_of_val) (\<lambda>merkle j.
     then_do (j, entry rec ''chained_root'') (\<lambda>chained j.
       if \<not> py_eq (PStr (chain_root (pf_sha pf) prev merkle)) chained then (j, Inl JournalCorrupt)
       else then_do (load_data pf i rec lost j) (\<lambda>(blocks, lost) j.
         let rt = chain_root (pf_sha pf) prev merkle;
             ep = \<lparr>ep_id = i, ep_blocks = blocks, ep_merkle_root = merkle, ep_chained_root = rt, ep_acked = False,
                   ep_dropped_under_pressure = False\<rparr> in
         load_chain pf rt recs lost (j\<lparr>ej_epochs := ej_epochs j @ [ep]\<rparr>)))))"

text \<open>Data files the chain does not name; \<open>int(name[:-5])\<close> raises for a name that is no number.\<close>

fun remove_orphans :: "nat list \<Rightarrow> string list \<Rightarrow> epoch_journal \<Rightarrow> epoch_journal \<times> unit result" where
  "remove_orphans named [] j = (j, Inr ())"
| "remove_orphans named (x # xs) j =
     (if endswith x ''.json''
      then (case py_int (take (length x - 5) x) of
              None \<Rightarrow> (j, Inl ValueError)
            | Some i \<Rightarrow> if i \<notin> int ` set named
                then remove_orphans named xs (do_effect (RemoveData x) (report (OrphanData i) j))
                else remove_orphans named xs j)
      else remove_orphans named xs j)"

text \<open>
  \<open>acks.get("last_seq", -1)\<close> and \<open>acks.get("acked_through")\<close>, as far as they are an integer and a string, as the journal
  writes them.
\<close>

definition read_acks :: "platform \<Rightarrow> string option \<Rightarrow> (int \<times> string option) result" where
  "read_acks pf content =
     (case content of None \<Rightarrow> Inr (- 1, None)
      | Some c \<Rightarrow> (case pf_loads pf c of
          None \<Rightarrow> Inl JournalCorrupt
        | Some (PDict d) \<Rightarrow>
            ebind (case map_of d ''last_seq'' of None \<Rightarrow> Inr (- 1) | Some (PInt s) \<Rightarrow> Inr s | _ \<Rightarrow> Inl TypeError) (\<lambda>seq.
            ebind (case map_of d ''acked_through'' of None \<Rightarrow> Inr None | Some PNone \<Rightarrow> Inr None | Some (PStr r) \<Rightarrow> Inr (Some r) | _ \<Rightarrow> Inl TypeError)
              (\<lambda>through. Inr (seq, through)))
        | _ \<Rightarrow> Inl AttributeError))"

text \<open>The acknowledgment on disk, applied again.\<close>

definition complete_ack :: "string option \<Rightarrow> epoch_journal \<Rightarrow> epoch_journal" where
  "complete_ack through j = (case through of None \<Rightarrow> j
     | Some rt \<Rightarrow> (case apply_ack rt j of (j, completed) \<Rightarrow> if completed = [] then j else report (CompletedAck completed) j))"

definition mark_gap :: "nat list \<Rightarrow> nat \<Rightarrow> epoch_journal \<Rightarrow> epoch_journal" where
  "mark_gap lost p j =
     (let ep = ej_epochs j ! p in
      if ep_id ep \<in> set lost \<and> \<not> ep_acked ep
      then (let j = update_epoch p (ep_dropped_under_pressure_update (\<lambda>_. True)) j in
            if has_data ep then remove_data (ep_id ep) (update_epoch p (ep_blocks_update (\<lambda>_. None)) (report (CompletedGap (ep_id ep)) j))
            else j)
      else j)"

definition recover_journal :: "platform \<Rightarrow> epoch_journal \<Rightarrow> epoch_journal \<times> unit result" where
  "recover_journal pf j =
     then_do (read_jsonl pf ChainFile ''interrupted_seal'' (j\<lparr>ej_report := []\<rparr>)) (\<lambda>chain j.
     then_do (case jd_file (ej_disk j) AcksFile of
         Some c \<Rightarrow> if pf_loads pf c = None then (j, Inl JournalCorrupt) else (j, Inr ()) | None \<Rightarrow> (j, Inr ())) (\<lambda>u j.
     then_do (read_jsonl pf GapsFile ''interrupted_gap_record'' j) (\<lambda>gap_recs j.
     then_do (j, emap epoch_id_of gap_recs) (\<lambda>lost j.
     then_do (load_chain pf '''' chain lost j) (\<lambda>lost j.
     then_do (j, emap epoch_id_of chain) (\<lambda>named j.
     then_do (remove_orphans named (str_sort (map fst (jd_data (ej_disk j)))) j) (\<lambda>u j.
     then_do (j, read_acks pf (jd_file (ej_disk j) AcksFile)) (\<lambda>(seq, through) j.
     let j = complete_ack through (j\<lparr>ej_last_seq := seq, ej_acked := through\<rparr>);
         j = fold (mark_gap lost) [0..<length (ej_epochs j)] j in
     enforce_caps pf j))))))))"

record journal_config =
  jc_key :: "instance_key option"
  jc_block_bits :: int
  jc_max_data :: int
  jc_max_bytes :: "int option"

definition fresh_journal :: "journal_config \<Rightarrow> journal_disk \<Rightarrow> epoch_journal" where
  "fresh_journal cfg d = \<lparr>ej_key = jc_key cfg, ej_signer = None, ej_block_bits = jc_block_bits cfg, ej_max_data = jc_max_data cfg,
     ej_max_bytes = jc_max_bytes cfg, ej_epochs = [], ej_last_seq = - 1, ej_acked = None, ej_report = [], ej_disk = d, ej_done = []\<rparr>"

definition open_journal :: "platform \<Rightarrow> journal_config \<Rightarrow> journal_disk \<Rightarrow> epoch_journal \<times> unit result" where
  "open_journal pf cfg d = recover_journal pf (fresh_journal cfg d)"

subsection \<open>Sealing\<close>

text \<open>The signer is made at the first seal and reads its file then; \<open>now\<close> is the time of the statement.\<close>

definition sign_seal :: "platform \<Rightarrow> string \<Rightarrow> string \<Rightarrow> epoch_journal \<Rightarrow> epoch_journal \<times> unit result" where
  "sign_seal pf now chained j =
     (case ej_key j of
        None \<Rightarrow> (j, Inr ())
      | Some key \<Rightarrow>
        (let content = jd_file (ej_disk j) RootsFile;
             sg = (case ej_signer j of Some sg \<Rightarrow> sg | None \<Rightarrow> open_signer pf key LOG_EPOCH_CHAIN content);
             j = (if ej_signer j = None \<and> sg_file sg \<noteq> content
               then do_effect (Replace RootsFile (case sg_file sg of None \<Rightarrow> [] | Some c \<Rightarrow> c)) j else j);
             j = j\<lparr>ej_signer := Some sg\<rparr> in
         case sign_root pf sg chained (int (length (ej_epochs j))) ''seal'' PNone now of
           Inl e \<Rightarrow> (j, Inl e)
         | Inr (st, sg) \<Rightarrow> ((append_line pf RootsFile st j)\<lparr>ej_signer := Some sg\<rparr>, Inr ())))"

definition journal_seal :: "platform \<Rightarrow> string \<Rightarrow> string \<Rightarrow> epoch_journal \<Rightarrow> epoch_journal \<times> epoch result" where
  "journal_seal pf now bits j =
     then_do (j, ebind (chunk bits (ej_block_bits j)) (\<lambda>blocks. ebind (commit_blocks (pf_sha pf) blocks) (\<lambda>(rt, proofs).
       case rt of None \<Rightarrow> Inl TypeError | Some merkle \<Rightarrow> Inr (blocks, merkle)))) (\<lambda>(blocks, merkle) j.
     let prev = (if ej_epochs j = [] then '''' else ep_chained_root (last (ej_epochs j)));
         i = length (ej_epochs j);
         data = blocks_text pf blocks;
         j = do_effect (WriteData (data_name i) data) j;
         chained = chain_root (pf_sha pf) prev merkle;
         j = append_line pf ChainFile (chain_record i merkle chained (sha256_hex (pf_sha pf) data) (length data)) j;
         ep = \<lparr>ep_id = i, ep_blocks = Some blocks, ep_merkle_root = merkle, ep_chained_root = chained, ep_acked = False,
               ep_dropped_under_pressure = False\<rparr>;
         j = j\<lparr>ej_epochs := ej_epochs j @ [ep]\<rparr> in
     then_do (sign_seal pf now chained j) (\<lambda>u j.
     then_do (enforce_caps pf j) (\<lambda>u j. (j, Inr (ej_epochs j ! i)))))"

subsection \<open>Questions\<close>

definition root_at_count :: "string list \<Rightarrow> int \<Rightarrow> string" where
  "root_at_count chain n = (if 1 \<le> n \<and> n \<le> int (length chain) then chain ! nat (n - 1) else '''')"

definition verify_journal_statements :: "platform \<Rightarrow> string list \<Rightarrow> epoch_journal \<Rightarrow> chain_report result" where
  "verify_journal_statements pf pinned j =
     (let chain = map ep_chained_root (ej_epochs j);
          (statements, findings) = read_statements pf (jd_file (ej_disk j) RootsFile) in
      verify_chain pf statements findings (root_at_count chain) (length chain) LOG_EPOCH_CHAIN pinned [])"

definition journal_store :: "epoch_journal \<Rightarrow> epoch_store" where
  "journal_store j = \<lparr>es_block_bits = ej_block_bits j, es_max_data_epochs = ej_max_data j, es_epochs = ej_epochs j\<rparr>"

definition retained :: "epoch_journal \<Rightarrow> (nat, string list) pydict" where
  "retained j = List.map_filter (\<lambda>ep. map_option (Pair (ep_id ep)) (ep_blocks ep)) (ej_epochs j)"

end
