(* ===== verification/JournalSound.thy ===== *)
theory JournalSound
  imports EpochJournal "HOL-Library.Sublist"
begin

section \<open>The journal under crashes\<close>

text \<open>
  A crash leaves the directory after some of the effects of the running operation, the next one perhaps half
  done: a line appended in part, or the temporary file of an atomic write left beside its target. The
  theorems: from every such directory the journal opens again, with the chain it had or the chain it was about to
  have, and no epoch has lost its data without an acknowledgment or a recorded gap. One cut is excluded
  from \<open>crashed\<close> and is the subject of a theorem of its own: the one that loses just the line break of a line.
\<close>

inductive crashed :: "journal_disk \<Rightarrow> disk_effect list \<Rightarrow> journal_disk \<Rightarrow> bool" where
  before: "crashed d es d"
| torn_append: "m + 1 < length s \<Longrightarrow> crashed d (Append f s # es) (apply_effect (Append f (take m s)) d)"
| torn_data: "crashed d (WriteData x s # es) (apply_effect (WriteData (x @ ''.tmp'') (take m s)) d)"
| later: "crashed (apply_effect e d) es d' \<Longrightarrow> crashed d (e # es) d'"

declare apply_effect.simps [simp del]

inductive_cases crashed_ConsE: "crashed d (e # es) d'"

text \<open>What the rest of the theory needs of the JSON reader: it reads back what was written, and an object cut short is no JSON.\<close>

definition json_reads :: "platform \<Rightarrow> bool" where
  "json_reads pf \<longleftrightarrow> (\<forall>v. pf_loads pf (dumps pf v) = Some (canon_form v)) \<and>
     (\<forall>d p. strict_prefix p (dumps pf (PDict d)) \<longrightarrow> pf_loads pf p = None) \<and> (\<forall>f. CHR 0x0A \<notin> set (pf_float pf f))"

definition run_effects :: "disk_effect list \<Rightarrow> journal_disk \<Rightarrow> journal_disk" where
  "run_effects es d = fold apply_effect es d"

text \<open>From one journal to the next by effects all of whose crash states satisfy a predicate.\<close>

definition safely :: "(journal_disk \<Rightarrow> bool) \<Rightarrow> epoch_journal \<Rightarrow> epoch_journal \<Rightarrow> bool" where
  "safely P j j' \<longleftrightarrow> (\<exists>es. ej_done j' = ej_done j @ es \<and> ej_disk j' = run_effects es (ej_disk j) \<and>
     (\<forall>d. crashed (ej_disk j) es d \<longrightarrow> P d))"

lemma crashed_append: "crashed d (es @ fs) d' \<Longrightarrow> crashed d es d' \<or> crashed (run_effects es d) fs d'"
proof (induction es arbitrary: d)
  case (Cons e es)
  from Cons.prems have "crashed d (e # es @ fs) d'" by simp
  then show ?case
    by (cases rule: crashed_ConsE) (use Cons.IH in \<open>auto simp: run_effects_def intro: crashed.intros\<close>)
qed (simp add: run_effects_def)

lemma crashed_Nil [simp]: "crashed d [] d' \<longleftrightarrow> d' = d"
  by (auto intro: before elim: crashed.cases)

lemma safely_quiet: "ej_done j' = ej_done j \<Longrightarrow> ej_disk j' = ej_disk j \<Longrightarrow> P (ej_disk j) \<Longrightarrow> safely P j j'"
  by (auto simp: safely_def run_effects_def)

lemma safely_trans: "safely P j j1 \<Longrightarrow> safely P j1 j2 \<Longrightarrow> safely P j j2"
  unfolding safely_def
proof (elim exE conjE)
  fix es fs
  assume es: "ej_done j1 = ej_done j @ es" "ej_disk j1 = run_effects es (ej_disk j)" "\<forall>d. crashed (ej_disk j) es d \<longrightarrow> P d"
    and fs: "ej_done j2 = ej_done j1 @ fs" "ej_disk j2 = run_effects fs (ej_disk j1)" "\<forall>d. crashed (ej_disk j1) fs d \<longrightarrow> P d"
  show "\<exists>es. ej_done j2 = ej_done j @ es \<and> ej_disk j2 = run_effects es (ej_disk j) \<and> (\<forall>d. crashed (ej_disk j) es d \<longrightarrow> P d)"
    by (rule exI [of _ "es @ fs"]) (use es fs crashed_append in \<open>fastforce simp: run_effects_def\<close>)
qed

lemma safely_mono: "safely P j j' \<Longrightarrow> (\<And>d. P d \<Longrightarrow> Q d) \<Longrightarrow> safely Q j j'"
  by (auto simp: safely_def)

lemma do_effect_parts [simp]:
  "ej_disk (do_effect e j) = apply_effect e (ej_disk j)" "ej_done (do_effect e j) = ej_done j @ [e]" "ej_epochs (do_effect e j) = ej_epochs j"
  "ej_max_data (do_effect e j) = ej_max_data j" "ej_max_bytes (do_effect e j) = ej_max_bytes j" "ej_key (do_effect e j) = ej_key j"
  "ej_block_bits (do_effect e j) = ej_block_bits j" "ej_last_seq (do_effect e j) = ej_last_seq j" "ej_acked (do_effect e j) = ej_acked j"
  "ej_signer (do_effect e j) = ej_signer j"
  by (simp_all add: do_effect_def)

lemma safely_effect:
  assumes "P (ej_disk j)" "P (apply_effect e (ej_disk j))"
    and "\<And>f s m. e = Append f s \<Longrightarrow> m + 1 < length s \<Longrightarrow> P (apply_effect (Append f (take m s)) (ej_disk j))"
    and "\<And>x s m. e = WriteData x s \<Longrightarrow> P (apply_effect (WriteData (x @ ''.tmp'') (take m s)) (ej_disk j))"
  shows "safely P j (do_effect e j)"
proof -
  have "P d" if "crashed (ej_disk j) [e] d" for d
    using that by (cases rule: crashed_ConsE) (use assms in auto)
  then show ?thesis by (auto simp: safely_def run_effects_def intro!: exI [of _ "[e]"])
qed

subsection \<open>What a directory holds\<close>

text \<open>The entries of the chain without their ids: the two roots and the blocks that were sealed, whose digest and length the line records.\<close>

type_synonym chain_entry = "string \<times> string \<times> string list"

definition chained_of :: "chain_entry \<Rightarrow> string" where
  "chained_of r = fst (snd r)"

fun chain_linked :: "(string \<Rightarrow> string) \<Rightarrow> string \<Rightarrow> chain_entry list \<Rightarrow> bool" where
  "chain_linked sha prev [] = True"
| "chain_linked sha prev ((m, c, bs) # rs) \<longleftrightarrow> c = chain_root sha prev m \<and> (\<exists>proofs. commit_blocks sha bs = Inr (Some m, proofs)) \<and> chain_linked sha c rs"

fun chain_line :: "platform \<Rightarrow> nat \<Rightarrow> chain_entry \<Rightarrow> ctx" where
  "chain_line pf i (m, c, bs) = chain_record i m c (sha256_hex (pf_sha pf) (blocks_text pf bs)) (length (blocks_text pf bs))"

definition chain_records :: "platform \<Rightarrow> nat \<Rightarrow> chain_entry list \<Rightarrow> ctx list" where
  "chain_records pf k rs = map (\<lambda>(i, r). chain_line pf i r) (enumerate k rs)"

definition gap_records :: "(nat \<times> string) list \<Rightarrow> ctx list" where
  "gap_records gs = map (\<lambda>(i, reason). gap_record i reason) gs"

definition lines_of :: "platform \<Rightarrow> ctx list \<Rightarrow> string" where
  "lines_of pf recs = unlines (map (\<lambda>r. dumps pf (PDict r)) recs)"

definition torn_text :: "platform \<Rightarrow> string \<Rightarrow> bool" where
  "torn_text pf t \<longleftrightarrow> t = [] \<or> (pf_loads pf t = None \<and> CHR 0x0A \<notin> set t)"

text \<open>How many epochs an acknowledgment covers.\<close>

fun root_count :: "string \<Rightarrow> string list \<Rightarrow> nat" where
  "root_count x [] = 0"
| "root_count x (y # ys) = (if y = x then 1 else if root_count x ys = 0 then 0 else Suc (root_count x ys))"

definition covered :: "chain_entry list \<Rightarrow> (int \<times> string) option \<Rightarrow> nat" where
  "covered rs a = (case a of None \<Rightarrow> 0 | Some (seq, rt) \<Rightarrow> root_count rt (map chained_of rs))"

definition stored :: "journal_disk \<Rightarrow> nat \<Rightarrow> string option" where
  "stored d i = map_of (jd_data d) (data_name i)"

definition data_ok :: "platform \<Rightarrow> chain_entry \<Rightarrow> string \<Rightarrow> bool" where
  "data_ok pf r t = (t = blocks_text pf (snd (snd r)))"

definition disk_ok :: "platform \<Rightarrow> chain_entry list \<Rightarrow> (nat \<times> string) list \<Rightarrow> (int \<times> string) option \<Rightarrow> journal_disk \<Rightarrow> bool" where
  "disk_ok pf rs gs a d \<longleftrightarrow>
     (\<exists>t. torn_text pf t \<and> file_text d ChainFile = lines_of pf (chain_records pf 0 rs) @ t) \<and>
     (\<exists>t. torn_text pf t \<and> file_text d GapsFile = lines_of pf (gap_records gs) @ t) \<and>
     jd_file d AcksFile = map_option (\<lambda>(seq, rt). dumps pf (PDict (ack_record seq rt))) a \<and>
     chain_linked (pf_sha pf) '''' rs \<and> (\<forall>seq rt. a = Some (seq, rt) \<longrightarrow> rt \<in> chained_of ` set rs) \<and> (\<forall>g \<in> set gs. fst g < length rs) \<and>
     (\<forall>x \<in> fst ` set (jd_data d). endswith x ''.json'' \<longrightarrow> (\<exists>i. x = data_name i)) \<and>
     (\<forall>i < length rs. \<forall>t. stored d i = Some t \<longrightarrow> data_ok pf (rs ! i) t) \<and>
     (\<forall>i < length rs. stored d i = None \<longrightarrow> i < covered rs a \<or> i \<in> fst ` set gs)"

definition clean_files :: "platform \<Rightarrow> chain_entry list \<Rightarrow> (nat \<times> string) list \<Rightarrow> journal_disk \<Rightarrow> bool" where
  "clean_files pf rs gs d \<longleftrightarrow> file_text d ChainFile = lines_of pf (chain_records pf 0 rs) \<and> file_text d GapsFile = lines_of pf (gap_records gs)"

lemma data_name_eq [simp]: "data_name i = data_name k \<longleftrightarrow> i = k"
  by (auto simp: data_name_def dest: int_str_inj)

lemma data_name_ends [simp]: "endswith (data_name i) ''.json''"
  by (simp add: endswith_def data_name_def)

lemma tmp_ends [simp]: "\<not> endswith (x @ ''.tmp'') ''.json''"
  by (auto simp: endswith_def)

lemma map_of_removed [simp]: "map_of (filter (\<lambda>(y, s). y \<noteq> x) l) k = (if k = x then None else map_of l k)"
  by (induction l) auto

lemma stored_simps [simp]:
  "stored (apply_effect (Append f s) d) i = stored d i" "stored (apply_effect (Replace f s) d) i = stored d i"
  "stored (apply_effect (WriteData (data_name k) s) d) i = (if i = k then Some s else stored d i)"
  "stored (apply_effect (WriteData (x @ ''.tmp'') s) d) i = stored d i"
  "stored (apply_effect (RemoveData (data_name k)) d) i = (if i = k then None else stored d i)"
  using tmp_ends [of x] data_name_ends [of i] by (auto simp: stored_def apply_effect.simps map_of_dict_set simp del: tmp_ends data_name_ends)

lemma file_text_simps [simp]:
  "file_text (apply_effect (Append f s) d) g = (if g = f then file_text d f @ s else file_text d g)"
  "file_text (apply_effect (Replace f s) d) g = (if g = f then s else file_text d g)"
  "file_text (apply_effect (WriteData x s) d) g = file_text d g" "file_text (apply_effect (RemoveData x) d) g = file_text d g"
  by (simp_all add: file_text_def apply_effect.simps)

lemma acks_file_simps [simp]:
  "f \<noteq> AcksFile \<Longrightarrow> jd_file (apply_effect (Append f s) d) AcksFile = jd_file d AcksFile"
  "jd_file (apply_effect (Replace f s) d) AcksFile = (if f = AcksFile then Some s else jd_file d AcksFile)"
  "jd_file (apply_effect (WriteData x s) d) g = jd_file d g" "jd_file (apply_effect (RemoveData x) d) g = jd_file d g"
  by (simp_all add: apply_effect.simps)

lemma names_simps [simp]:
  "jd_data (apply_effect (Append f s) d) = jd_data d" "jd_data (apply_effect (Replace f s) d) = jd_data d"
  "fst ` set (jd_data (apply_effect (WriteData x s) d)) = insert x (fst ` set (jd_data d))"
  "fst ` set (jd_data (apply_effect (RemoveData x) d)) = fst ` set (jd_data d) - {x}"
  by (auto simp: apply_effect.simps fst_set_dict_set)

subsection \<open>Effects on a directory\<close>

lemma lines_of_append [simp]: "lines_of pf (xs @ ys) = lines_of pf xs @ lines_of pf ys"
  by (simp add: lines_of_def unlines_def)

lemma lines_of_single [simp]: "lines_of pf [r] = json_line pf r"
  by (simp add: lines_of_def unlines_def json_line_def)

lemma gap_records_snoc [simp]: "gap_records (gs @ [(i, reason)]) = gap_records gs @ [gap_record i reason]"
  by (simp add: gap_records_def)

lemma chain_records_snoc [simp]: "chain_records pf 0 (rs @ [r]) = chain_records pf 0 rs @ [chain_line pf (length rs) r]"
  by (simp add: chain_records_def enumerate_append_eq)

lemma torn_Nil [simp]: "torn_text pf []"
  by (simp add: torn_text_def)

lemma dumps_one_line: "json_reads pf \<Longrightarrow> CHR 0x0A \<notin> set (dumps pf v)"
  unfolding dumps_def json_reads_def by (intro canonical_spaced_one_line) simp

lemma torn_line:
  assumes "json_reads pf" "m + 1 < length (json_line pf r)"
  shows "torn_text pf (take m (json_line pf r))"
proof -
  let ?t = "dumps pf (PDict r)"
  have m: "m < length ?t" "take m (json_line pf r) = take m ?t" using assms(2) by (simp_all add: json_line_def)
  have "strict_prefix (take m ?t) ?t" using m(1) by (auto simp: strict_prefix_def take_is_prefix dest: arg_cong [of _ _ length])
  then have "pf_loads pf (take m ?t) = None" using assms(1) by (simp add: json_reads_def)
  then show ?thesis using dumps_one_line [OF assms(1), of "PDict r"] m(2) by (auto simp: torn_text_def dest: in_set_takeD)
qed

text \<open>An effect on the statements changes nothing the other files are about.\<close>

lemma roots_effect [simp]:
  "disk_ok pf rs gs a (apply_effect (Append RootsFile s) d) = disk_ok pf rs gs a d"
  "disk_ok pf rs gs a (apply_effect (Replace RootsFile s) d) = disk_ok pf rs gs a d"
  by (simp_all add: disk_ok_def)

lemma tmp_effect: "disk_ok pf rs gs a d \<Longrightarrow> disk_ok pf rs gs a (apply_effect (WriteData (x @ ''.tmp'') s) d)"
  by (auto simp: disk_ok_def)

lemma gap_torn:
  assumes "json_reads pf" "disk_ok pf rs gs a d" "clean_files pf rs gs d" "m + 1 < length (json_line pf r)"
  shows "disk_ok pf rs gs a (apply_effect (Append GapsFile (take m (json_line pf r))) d)"
  using assms(2,3) torn_line [OF assms(1,4)] by (auto simp: disk_ok_def clean_files_def)

lemma gap_appended:
  assumes "disk_ok pf rs gs a d" "clean_files pf rs gs d" "i < length rs"
  shows "disk_ok pf rs (gs @ [(i, reason)]) a (apply_effect (Append GapsFile (json_line pf (gap_record i reason))) d)"
    and "clean_files pf rs (gs @ [(i, reason)]) (apply_effect (Append GapsFile (json_line pf (gap_record i reason))) d)"
  using assms by (auto simp: disk_ok_def clean_files_def)

lemma removal:
  assumes "disk_ok pf rs gs a d" "length rs \<le> i \<or> i < covered rs a \<or> i \<in> fst ` set gs"
  shows "disk_ok pf rs gs a (apply_effect (RemoveData (data_name i)) d)"
  using assms by (auto simp: disk_ok_def)

lemma clean_removal [simp]: "clean_files pf rs gs (apply_effect (RemoveData x) d) = clean_files pf rs gs d"
  by (simp add: clean_files_def)

lemma data_written:
  assumes "disk_ok pf rs gs a d" "length rs \<le> i"
  shows "disk_ok pf rs gs a (apply_effect (WriteData (data_name i) s) d)"
  using assms by (auto simp: disk_ok_def)

lemma root_count_le: "root_count x ys \<le> length ys"
  by (induction ys) auto

lemma root_count_pos: "0 < root_count x ys \<longleftrightarrow> x \<in> set ys"
  by (induction ys) auto

lemma root_count_append: "x \<in> set ys \<Longrightarrow> root_count x (ys @ zs) = root_count x ys"
  by (induction ys) (auto simp: root_count_pos [symmetric])

lemma covered_le: "covered rs a \<le> length rs"
  using root_count_le [of _ "map chained_of rs"] by (auto simp: covered_def split: option.splits)

lemma chain_linked_snoc:
  "chain_linked sha prev (rs @ [(m, c, bs)]) \<longleftrightarrow> chain_linked sha prev rs \<and> c = chain_root sha (if rs = [] then prev else chained_of (last rs)) m \<and>
    (\<exists>proofs. commit_blocks sha bs = Inr (Some m, proofs))"
  by (induction sha prev rs rule: chain_linked.induct) (auto simp: chained_of_def)

lemma covered_snoc: "disk_ok pf rs gs a d \<Longrightarrow> covered (rs @ [r]) a = covered rs a"
  by (auto simp: disk_ok_def covered_def root_count_append split: option.splits)

lemma chain_torn:
  assumes "json_reads pf" "disk_ok pf rs gs a d" "clean_files pf rs gs d" "m + 1 < length (json_line pf r)"
  shows "disk_ok pf rs gs a (apply_effect (Append ChainFile (take m (json_line pf r))) d)"
  using assms(2,3) torn_line [OF assms(1,4)] by (auto simp: disk_ok_def clean_files_def)

lemma chain_appended:
  assumes "disk_ok pf rs gs a d" "clean_files pf rs gs d" "stored d (length rs) = Some (blocks_text pf bs)"
    and "c = chain_root (pf_sha pf) (if rs = [] then '''' else chained_of (last rs)) m" "commit_blocks (pf_sha pf) bs = Inr (Some m, proofs)"
  shows "disk_ok pf (rs @ [(m, c, bs)]) gs a (apply_effect (Append ChainFile (json_line pf (chain_line pf (length rs) (m, c, bs)))) d)"
    and "clean_files pf (rs @ [(m, c, bs)]) gs (apply_effect (Append ChainFile (json_line pf (chain_line pf (length rs) (m, c, bs)))) d)"
proof -
  let ?rs = "rs @ [(m, c, bs)]" and ?e = "Append ChainFile (json_line pf (chain_line pf (length rs) (m, c, bs)))"
  have d: "i < length ?rs \<Longrightarrow> stored d i = Some t \<Longrightarrow> data_ok pf (?rs ! i) t" for i t
    using assms(1,3) by (cases "i = length rs") (auto simp: disk_ok_def data_ok_def nth_append)
  have n: "i < length ?rs \<Longrightarrow> stored d i = None \<Longrightarrow> i < covered rs a \<or> i \<in> fst ` set gs" for i
    using assms(1,3) by (cases "i = length rs") (auto simp: disk_ok_def)
  have k: "chain_linked (pf_sha pf) '''' ?rs" using assms(1,4,5) by (auto simp: disk_ok_def chain_linked_snoc)
  have t: "\<exists>t. torn_text pf t \<and> file_text (apply_effect ?e d) ChainFile = lines_of pf (chain_records pf 0 ?rs) @ t"
    using assms(2) by (intro exI [of _ "[]"]) (simp add: clean_files_def del: chain_line.simps)
  show "disk_ok pf ?rs gs a (apply_effect ?e d)"
    using assms(1) d n k t by (auto simp: disk_ok_def covered_snoc [OF assms(1)] less_SucI simp del: chain_line.simps)
  show "clean_files pf ?rs gs (apply_effect ?e d)"
    using assms(2) by (simp add: clean_files_def del: chain_line.simps)
qed

lemma ack_written:
  assumes "disk_ok pf rs gs a d" "rt \<in> chained_of ` set rs" "covered rs a \<le> covered rs (Some (seq, rt))"
  shows "disk_ok pf rs gs (Some (seq, rt)) (apply_effect (Replace AcksFile (dumps pf (PDict (ack_record seq rt)))) d)"
  using assms by (auto simp: disk_ok_def)

subsection \<open>The journal in memory\<close>

text \<open>
  One epoch against the directory: \<open>A\<close> are the acknowledged ids and \<open>G\<close> the recorded gaps that have been marked, which
  during recovery are not yet all.
\<close>

definition epoch_ok :: "platform \<Rightarrow> chain_entry list \<Rightarrow> (nat \<times> string) list \<Rightarrow> nat set \<Rightarrow> nat set \<Rightarrow> journal_disk \<Rightarrow> nat \<Rightarrow> epoch \<Rightarrow> bool" where
  "epoch_ok pf rs gs A G d i ep \<longleftrightarrow> ep_id ep = i \<and> (ep_merkle_root ep, ep_chained_root ep) = (fst (rs ! i), chained_of (rs ! i)) \<and>
     (ep_acked ep \<longleftrightarrow> i \<in> A) \<and> stored d i = map_option (blocks_text pf) (ep_blocks ep) \<and>
     (ep_dropped_under_pressure ep \<longrightarrow> i \<in> fst ` set gs) \<and> (i \<in> G - A \<longrightarrow> ep_dropped_under_pressure ep)"

definition mirrors :: "platform \<Rightarrow> chain_entry list \<Rightarrow> (nat \<times> string) list \<Rightarrow> (int \<times> string) option \<Rightarrow> nat set \<Rightarrow> nat set \<Rightarrow> epoch_journal \<Rightarrow> bool" where
  "mirrors pf rs gs a A G j \<longleftrightarrow> disk_ok pf rs gs a (ej_disk j) \<and> clean_files pf rs gs (ej_disk j) \<and> length (ej_epochs j) = length rs \<and>
     (\<forall>i < length rs. epoch_ok pf rs gs A G (ej_disk j) i (ej_epochs j ! i))"

definition journal_ok :: "platform \<Rightarrow> chain_entry list \<Rightarrow> (nat \<times> string) list \<Rightarrow> (int \<times> string) option \<Rightarrow> epoch_journal \<Rightarrow> bool" where
  "journal_ok pf rs gs a j \<longleftrightarrow> mirrors pf rs gs a {..<covered rs a} (fst ` set gs) j \<and> 0 \<le> ej_max_data j \<and>
     ej_last_seq j = (case a of None \<Rightarrow> - 1 | Some (seq, rt) \<Rightarrow> seq) \<and> ej_acked j = map_option snd a"

text \<open>What the operations on the data leave alone.\<close>

definition same_settings :: "epoch_journal \<Rightarrow> epoch_journal \<Rightarrow> bool" where
  "same_settings j j' \<longleftrightarrow> ej_max_data j' = ej_max_data j \<and> ej_max_bytes j' = ej_max_bytes j \<and> ej_block_bits j' = ej_block_bits j \<and>
     ej_key j' = ej_key j \<and> ej_last_seq j' = ej_last_seq j \<and> ej_acked j' = ej_acked j"

lemma same_settings_refl [simp]: "same_settings j j"
  by (simp add: same_settings_def)

lemma same_settings_trans: "same_settings j j1 \<Longrightarrow> same_settings j1 j2 \<Longrightarrow> same_settings j j2"
  by (simp add: same_settings_def)

text \<open>The directory lies between two states: the chain and the acknowledgment are one of the given ones, the gaps grow.\<close>

definition between :: "platform \<Rightarrow> chain_entry list set \<Rightarrow> (nat \<times> string) list \<Rightarrow> (nat \<times> string) list \<Rightarrow> (int \<times> string) option set \<Rightarrow> journal_disk \<Rightarrow> bool" where
  "between pf R lo hi A d \<longleftrightarrow> (\<exists>rs \<in> R. \<exists>a \<in> A. \<exists>gs. disk_ok pf rs gs a d \<and> prefix lo gs \<and> prefix gs hi)"

lemma between_mono:
  "between pf R lo hi A d \<Longrightarrow> R \<subseteq> R' \<Longrightarrow> A \<subseteq> A' \<Longrightarrow> prefix lo' lo \<Longrightarrow> prefix hi hi' \<Longrightarrow> between pf R' lo' hi' A' d"
  unfolding between_def by (meson prefix_order.trans subsetD)

lemma betweenI: "disk_ok pf rs gs a d \<Longrightarrow> rs \<in> R \<Longrightarrow> a \<in> A \<Longrightarrow> prefix lo gs \<Longrightarrow> prefix gs hi \<Longrightarrow> between pf R lo hi A d"
  by (auto simp: between_def)

lemma update_epoch_parts [simp]:
  "ej_disk (update_epoch p f j) = ej_disk j" "ej_done (update_epoch p f j) = ej_done j" "ej_epochs (update_epoch p f j) = (ej_epochs j)[p := f (ej_epochs j ! p)]"
  "same_settings j (update_epoch p f j)"
  by (simp_all add: update_epoch_def same_settings_def)

lemma report_parts [simp]:
  "ej_disk (report f j) = ej_disk j" "ej_done (report f j) = ej_done j" "ej_epochs (report f j) = ej_epochs j" "same_settings j (report f j)"
  by (simp_all add: report_def same_settings_def)

lemma settings_effect [simp]: "same_settings j (do_effect e j)"
  by (simp add: same_settings_def)

lemma mirrors_epoch: "mirrors pf rs gs a A G j \<Longrightarrow> p < length rs \<Longrightarrow> epoch_ok pf rs gs A G (ej_disk j) p (ej_epochs j ! p)"
  by (simp add: mirrors_def)


subsection \<open>Dropping data\<close>

lemma data_file_stored [simp]: "data_file j i = stored (ej_disk j) i"
  by (simp add: data_file_def stored_def)

text \<open>One epoch and the directory change; the others stay as they were.\<close>

lemma mirrors_update:
  assumes "mirrors pf rs gs a A G j" "disk_ok pf rs gs' a' (ej_disk j')" "clean_files pf rs gs' (ej_disk j')"
    and "ej_epochs j' = (ej_epochs j)[p := ep]" "epoch_ok pf rs gs' A' G' (ej_disk j') p ep"
    and "\<And>i e. i < length rs \<Longrightarrow> i \<noteq> p \<Longrightarrow> epoch_ok pf rs gs A G (ej_disk j) i e \<Longrightarrow> epoch_ok pf rs gs' A' G' (ej_disk j') i e"
  shows "mirrors pf rs gs' a' A' G' j'"
proof -
  have "epoch_ok pf rs gs' A' G' (ej_disk j') i (ej_epochs j' ! i)" if "i < length rs" for i
    using assms(1,5) assms(6) [OF that] that by (cases "i = p") (auto simp: mirrors_def assms(4) nth_list_update)
  then show ?thesis using assms(1-4) by (simp add: mirrors_def)
qed

text \<open>Blocks forgotten and their file removed, where the loss is accounted for.\<close>

definition forget :: "nat \<Rightarrow> epoch_journal \<Rightarrow> epoch_journal" where
  "forget p j = remove_data p (update_epoch p (ep_blocks_update (\<lambda>_. None)) j)"

lemma forget_ok:
  assumes "mirrors pf rs gs a A G j" "p < length rs" "p < covered rs a \<or> p \<in> fst ` set gs"
  shows "mirrors pf rs gs a A G (forget p j)" "safely (disk_ok pf rs gs a) j (forget p j)" "same_settings j (forget p j)"
    and "ej_epochs (forget p j) = (ej_epochs j)[p := (ej_epochs j ! p)\<lparr>ep_blocks := None\<rparr>]"
proof -
  let ?u = "update_epoch p (ep_blocks_update (\<lambda>_. None)) j"
  note ok = assms(1) [unfolded mirrors_def]
  have e: "epoch_ok pf rs gs A G (ej_disk j) p (ej_epochs j ! p)" by (rule mirrors_epoch [OF assms(1,2)])
  have r: "disk_ok pf rs gs a (apply_effect (RemoveData (data_name p)) (ej_disk j))"
    using removal [of pf rs gs a "ej_disk j" p] ok assms(3) by blast
  show ep: "ej_epochs (forget p j) = (ej_epochs j)[p := (ej_epochs j ! p)\<lparr>ep_blocks := None\<rparr>]"
    by (simp add: forget_def remove_data_def)
  have d: "disk_ok pf rs gs a (ej_disk (forget p j))" "clean_files pf rs gs (ej_disk (forget p j))"
    using ok r by (auto simp: forget_def remove_data_def)
  have s: "stored (ej_disk (forget p j)) i = (if i = p then None else stored (ej_disk j) i)" for i
    by (auto simp: forget_def remove_data_def)
  show "mirrors pf rs gs a A G (forget p j)"
    by (rule mirrors_update [OF assms(1) d ep]) (use e in \<open>auto simp: epoch_ok_def s\<close>)
  have "safely (disk_ok pf rs gs a) j ?u" by (rule safely_quiet) (use ok in auto)
  moreover have "safely (disk_ok pf rs gs a) ?u (do_effect (RemoveData (data_name p)) ?u)"
    by (rule safely_effect) (use ok r in auto)
  ultimately show "safely (disk_ok pf rs gs a) j (forget p j)"
    unfolding forget_def remove_data_def by (auto intro: safely_trans)
  show "same_settings j (forget p j)"
    unfolding forget_def remove_data_def
    by (auto intro: same_settings_trans [of _ ?u])
qed

text \<open>A step whose directories stay between two states of one chain.\<close>

definition settles :: "platform \<Rightarrow> chain_entry list \<Rightarrow> (int \<times> string) option \<Rightarrow> nat set \<Rightarrow> nat set \<Rightarrow> (nat \<times> string) list \<Rightarrow>
    epoch_journal \<Rightarrow> (nat \<times> string) list \<Rightarrow> nat set \<Rightarrow> nat set \<Rightarrow> epoch_journal \<Rightarrow> bool" where
  "settles pf rs a A G gs j gs' A' G' j' \<longleftrightarrow> mirrors pf rs gs' a A' G' j' \<and> prefix gs gs' \<and>
     safely (between pf {rs} gs gs' {a}) j j' \<and> same_settings j j'"

lemma settles_trans:
  assumes "settles pf rs a A G gs j gs1 A1 G1 j1" "settles pf rs a A1 G1 gs1 j1 gs2 A2 G2 j2"
  shows "settles pf rs a A G gs j gs2 A2 G2 j2"
proof -
  have p: "prefix gs gs1" "prefix gs1 gs2" using assms by (simp_all add: settles_def)
  have "safely (between pf {rs} gs gs2 {a}) j j1" "safely (between pf {rs} gs gs2 {a}) j1 j2"
    using assms p by (auto simp: settles_def elim!: safely_mono intro: between_mono)
  then have "safely (between pf {rs} gs gs2 {a}) j j2" by (rule safely_trans)
  then show ?thesis using assms p by (auto simp: settles_def intro: same_settings_trans prefix_order.trans)
qed

lemma settles_refl: "mirrors pf rs gs a A G j \<Longrightarrow> settles pf rs a A G gs j gs A G j"
  by (auto simp: settles_def mirrors_def intro!: safely_quiet betweenI)

lemma settles_quiet:
  assumes "mirrors pf rs gs a A G j" "mirrors pf rs gs a A' G' j'" "ej_disk j' = ej_disk j" "ej_done j' = ej_done j" "same_settings j j'"
  shows "settles pf rs a A G gs j gs A' G' j'"
  using assms by (auto simp: settles_def mirrors_def intro!: safely_quiet betweenI)

lemma forget_step:
  assumes "mirrors pf rs gs a A G j" "p < length rs" "p < covered rs a \<or> p \<in> fst ` set gs"
  shows "settles pf rs a A G gs j gs A G (forget p j)"
  using forget_ok [OF assms] by (auto simp: settles_def elim!: safely_mono intro: betweenI)

lemma gap_step:
  assumes "json_reads pf" "mirrors pf rs gs a A G j" "p < length rs" "p \<notin> A" "G = fst ` set gs"
    and "j' = update_epoch p (ep_dropped_under_pressure_update (\<lambda>_. True)) (append_line pf GapsFile (gap_record p reason) j)"
  shows "settles pf rs a A G gs j (gs @ [(p, reason)]) A (fst ` set (gs @ [(p, reason)])) j'"
proof -
  let ?e = "Append GapsFile (json_line pf (gap_record p reason))"
  note ok = assms(2) [unfolded mirrors_def]
  have d: "disk_ok pf rs gs a (ej_disk j)" "clean_files pf rs gs (ej_disk j)" using ok by auto
  note ap = gap_appended [OF d assms(3), of reason]
  have j': "ej_disk j' = apply_effect ?e (ej_disk j)" "ej_epochs j' = (ej_epochs j)[p := (ej_epochs j ! p)\<lparr>ep_dropped_under_pressure := True\<rparr>]"
    by (simp_all add: assms(6) append_line_def)
  have m: "mirrors pf rs (gs @ [(p, reason)]) a A (fst ` set (gs @ [(p, reason)])) j'"
    by (rule mirrors_update [OF assms(2) _ _ j'(2)])
      (use ap mirrors_epoch [OF assms(2,3)] in \<open>auto simp: j'(1) epoch_ok_def assms(5)\<close>)
  have "safely (between pf {rs} gs (gs @ [(p, reason)]) {a}) j (do_effect ?e j)"
    by (rule safely_effect) (use d ap(1) gap_torn [OF assms(1) d] in \<open>auto intro!: betweenI\<close>)
  then have "safely (between pf {rs} gs (gs @ [(p, reason)]) {a}) j j'"
    by (rule safely_trans) (rule safely_quiet, use ap(1) in \<open>auto simp: assms(6) append_line_def intro!: betweenI\<close>)
  moreover have "same_settings j j'" by (simp add: assms(6) append_line_def same_settings_def update_epoch_def)
  ultimately show ?thesis using m by (simp add: settles_def)
qed

lemma drop_step:
  assumes "json_reads pf" "mirrors pf rs gs a A G j" "p < length rs" "A \<subseteq> {..<covered rs a}" "G = fst ` set gs"
  shows "\<exists>gs'. settles pf rs a A G gs j gs' A (fst ` set gs') (drop_under_pressure pf p j)"
proof -
  have e: "epoch_ok pf rs gs A G (ej_disk j) p (ej_epochs j ! p)" by (rule mirrors_epoch [OF assms(2,3)])
  then have i: "ep_id (ej_epochs j ! p) = p" "ep_acked (ej_epochs j ! p) \<longleftrightarrow> p \<in> A" by (simp_all add: epoch_ok_def)
  show ?thesis
  proof (cases "p \<in> A")
    case True
    then have "drop_under_pressure pf p j = forget p j" by (simp add: drop_under_pressure_def forget_def i)
    then show ?thesis using forget_step [OF assms(2,3)] True assms(4,5) by auto
  next
    case False
    let ?j = "update_epoch p (ep_dropped_under_pressure_update (\<lambda>_. True)) (append_line pf GapsFile (gap_record p ''pressure'') j)"
    have eq: "drop_under_pressure pf p j = forget p ?j" using False by (simp add: drop_under_pressure_def forget_def i)
    note s = gap_step [OF assms(1-3) False assms(5) refl, of "''pressure''"]
    have t: "settles pf rs a A (fst ` set (gs @ [(p, ''pressure'')])) (gs @ [(p, ''pressure'')]) ?j (gs @ [(p, ''pressure'')]) A
        (fst ` set (gs @ [(p, ''pressure'')])) (forget p ?j)"
      by (rule forget_step) (use s assms(3) in \<open>auto simp: settles_def\<close>)
    show ?thesis unfolding eq by (rule exI, rule settles_trans [OF s t])
  qed
qed

lemma drop_length [simp]: "length (ej_epochs (drop_under_pressure pf p j)) = length (ej_epochs j)"
  by (simp add: drop_under_pressure_def remove_data_def append_line_def Let_def)

lemma shed_bytes_step:
  assumes "json_reads pf" "A \<subseteq> {..<covered rs a}"
  shows "mirrors pf rs gs a A (fst ` set gs) j \<Longrightarrow> \<forall>p \<in> set ps. p < length rs \<Longrightarrow>
    \<exists>gs'. settles pf rs a A (fst ` set gs) gs j gs' A (fst ` set gs') (shed_bytes pf cap ps j)"
proof (induction ps arbitrary: j gs)
  case (Cons p ps)
  obtain gs1 where s: "settles pf rs a A (fst ` set gs) gs j gs1 A (fst ` set gs1) (drop_under_pressure pf p j)"
    using drop_step [OF assms(1) Cons.prems(1) _ assms(2) refl] Cons.prems(2) by auto
  then have "mirrors pf rs gs1 a A (fst ` set gs1) (drop_under_pressure pf p j)" by (simp add: settles_def)
  then obtain gs2 where t: "settles pf rs a A (fst ` set gs1) gs1 (drop_under_pressure pf p j) gs2 A (fst ` set gs2)
      (shed_bytes pf cap ps (drop_under_pressure pf p j))" using Cons.IH [of gs1 "drop_under_pressure pf p j"] Cons.prems(2) by auto
  show ?case using settles_trans [OF s t] settles_refl [OF Cons.prems(1)] by auto
qed (auto intro: settles_refl)

lemma shed_count_step:
  assumes "json_reads pf" "A \<subseteq> {..<covered rs a}"
  shows "mirrors pf rs gs a A (fst ` set gs) j \<Longrightarrow> \<forall>p \<in> set ps. p < length rs \<Longrightarrow> 0 \<le> ej_max_data j \<Longrightarrow>
    \<exists>j' qs gs'. shed_count pf ps j = (j', Inr qs) \<and> set qs \<subseteq> set ps \<and> settles pf rs a A (fst ` set gs) gs j gs' A (fst ` set gs') j'"
proof (induction ps arbitrary: j gs)
  case (Cons p ps)
  show ?case
  proof (cases "int (length (p # ps)) > ej_max_data j")
    case True
    obtain gs1 where s: "settles pf rs a A (fst ` set gs) gs j gs1 A (fst ` set gs1) (drop_under_pressure pf p j)"
      using drop_step [OF assms(1) Cons.prems(1) _ assms(2) refl] Cons.prems(2) by auto
    then have "mirrors pf rs gs1 a A (fst ` set gs1) (drop_under_pressure pf p j)" "0 \<le> ej_max_data (drop_under_pressure pf p j)"
      using Cons.prems(3) by (simp_all add: settles_def same_settings_def)
    then obtain j' qs gs2 where r: "shed_count pf ps (drop_under_pressure pf p j) = (j', Inr qs)" "set qs \<subseteq> set ps"
      and t: "settles pf rs a A (fst ` set gs1) gs1 (drop_under_pressure pf p j) gs2 A (fst ` set gs2) j'"
      using Cons.IH Cons.prems(2) by (metis list.set_intros(2))
    then show ?thesis using True settles_trans [OF s t] by auto
  next
    case False
    then show ?thesis using settles_refl [OF Cons.prems(1)] by auto
  qed
qed (auto intro: settles_refl)

lemma enforce_step:
  assumes "json_reads pf" "mirrors pf rs gs a A (fst ` set gs) j" "A \<subseteq> {..<covered rs a}" "0 \<le> ej_max_data j"
  shows "\<exists>j' gs'. enforce_caps pf j = (j', Inr ()) \<and> settles pf rs a A (fst ` set gs) gs j gs' A (fst ` set gs') j'"
proof -
  have w: "\<forall>p \<in> set (with_data j). p < length rs" using assms(2) by (auto simp: with_data_def mirrors_def)
  from shed_count_step [OF assms(1,3,2) w assms(4)] obtain j1 qs gs1 where c: "shed_count pf (with_data j) j = (j1, Inr qs)"
    "set qs \<subseteq> set (with_data j)" "settles pf rs a A (fst ` set gs) gs j gs1 A (fst ` set gs1) j1" by blast
  have m: "mirrors pf rs gs1 a A (fst ` set gs1) j1" using c(3) by (simp add: settles_def)
  show ?thesis
  proof (cases "ej_max_bytes j1")
    case (Some cap)
    from shed_bytes_step [OF assms(1,3) m, of qs cap] obtain gs2
      where t: "settles pf rs a A (fst ` set gs1) gs1 j1 gs2 A (fst ` set gs2) (shed_bytes pf cap qs j1)" using c(2) w by auto
    then show ?thesis using c(1) settles_trans [OF c(3) t] Some by (auto simp: enforce_caps_def)
  qed (use c in \<open>auto simp: enforce_caps_def\<close>)
qed

subsection \<open>Sealing\<close>

lemma clean_roots [simp]:
  "clean_files pf rs gs (apply_effect (Append RootsFile s) d) = clean_files pf rs gs d"
  "clean_files pf rs gs (apply_effect (Replace RootsFile s) d) = clean_files pf rs gs d"
  by (simp_all add: clean_files_def)

text \<open>Effects on the statements alone: the journal mirrors the directory as before.\<close>

lemma roots_step:
  assumes "mirrors pf rs gs a A G j" "e = Append RootsFile s \<or> e = Replace RootsFile s"
  shows "mirrors pf rs gs a A G (do_effect e j)" "safely (disk_ok pf rs gs a) j (do_effect e j)"
proof -
  show "mirrors pf rs gs a A G (do_effect e j)" using assms by (auto simp: mirrors_def epoch_ok_def)
  show "safely (disk_ok pf rs gs a) j (do_effect e j)"
    by (rule safely_effect) (use assms in \<open>auto simp: mirrors_def\<close>)
qed

lemma mirrors_signer [simp]: "mirrors pf rs gs a A G (j\<lparr>ej_signer := sg\<rparr>) = mirrors pf rs gs a A G j"
  by (simp add: mirrors_def)

lemma safely_signer [simp]: "safely P (j\<lparr>ej_signer := sg\<rparr>) j' = safely P j j'" "safely P j (j'\<lparr>ej_signer := sg\<rparr>) = safely P j j'"
  by (simp_all add: safely_def)

lemma sign_seal_step:
  assumes "mirrors pf rs gs a A G j"
  shows "\<exists>j'. sign_seal pf now chained j = (j', Inr ()) \<and> mirrors pf rs gs a A G j' \<and> safely (disk_ok pf rs gs a) j j' \<and> same_settings j j'"
proof (cases "ej_key j")
  case None
  then show ?thesis using assms by (auto simp: sign_seal_def mirrors_def intro!: safely_quiet)
next
  case (Some key)
  define sg where "sg = (case ej_signer j of Some sg \<Rightarrow> sg | None \<Rightarrow> open_signer pf key LOG_EPOCH_CHAIN (jd_file (ej_disk j) RootsFile))"
  define j1 where "j1 = (if ej_signer j = None \<and> sg_file sg \<noteq> jd_file (ej_disk j) RootsFile
      then do_effect (Replace RootsFile (case sg_file sg of None \<Rightarrow> [] | Some c \<Rightarrow> c)) j else j)"
  obtain st sg' where r: "sign_root pf sg chained (int (length (ej_epochs j))) ''seal'' PNone now = Inr (st, sg')"
    by (simp add: sign_root_eq Let_def)
  have j1: "mirrors pf rs gs a A G j1" "safely (disk_ok pf rs gs a) j j1" "ej_epochs j1 = ej_epochs j" "same_settings j j1"
    using assms roots_step [OF assms] by (auto simp: j1_def mirrors_def intro!: safely_quiet)
  let ?j2 = "do_effect (Append RootsFile (json_line pf st)) j1"
  note j2 = roots_step [OF j1(1) disjI1 [OF refl], of "json_line pf st"]
  have "sign_seal pf now chained j = (?j2\<lparr>ej_signer := Some sg'\<rparr>, Inr ())"
    unfolding sign_seal_def Some option.case Let_def sg_def [symmetric] j1_def [symmetric]
    using r j1(3) by (simp add: append_line_def do_effect_def)
  moreover have "same_settings j (?j2\<lparr>ej_signer := Some sg'\<rparr>)" using j1(4) by (simp add: same_settings_def)
  ultimately show ?thesis using j2(1) safely_trans [OF j1(2) j2(2)] by auto
qed

lemma last_root: "length eps = length rs \<Longrightarrow> \<forall>i < length rs. ep_chained_root (eps ! i) = chained_of (rs ! i) \<Longrightarrow>
    (if eps = [] then '''' else ep_chained_root (last eps)) = (if rs = [] then '''' else chained_of (last rs))"
  by (cases "rs = []") (auto simp: last_conv_nth)

text \<open>The data file, the line of the chain and the epoch in memory.\<close>

lemma prepared_seal:
  assumes "json_reads pf" "journal_ok pf rs gs a j"
    and "chained = chain_root (pf_sha pf) (if ej_epochs j = [] then '''' else ep_chained_root (last (ej_epochs j))) merkle"
    and "data = blocks_text pf bs" "r = (merkle, chained, bs)" "commit_blocks (pf_sha pf) bs = Inr (Some merkle, proofs)"
    and "j' = append_line pf ChainFile (chain_record (length (ej_epochs j)) merkle chained (sha256_hex (pf_sha pf) data) (length data))
        (do_effect (WriteData (data_name (length (ej_epochs j))) data) j)"
    and "ep = \<lparr>ep_id = length (ej_epochs j), ep_blocks = Some bs, ep_merkle_root = merkle, ep_chained_root = chained, ep_acked = False,
               ep_dropped_under_pressure = False\<rparr>"
  shows "mirrors pf (rs @ [r]) gs a {..<covered (rs @ [r]) a} (fst ` set gs) (j'\<lparr>ej_epochs := ej_epochs j' @ [ep]\<rparr>)"
    and "safely (between pf {rs, rs @ [r]} gs gs {a}) j (j'\<lparr>ej_epochs := ej_epochs j' @ [ep]\<rparr>)"
    and "same_settings j (j'\<lparr>ej_epochs := ej_epochs j' @ [ep]\<rparr>)"
proof -
  let ?d = "ej_disk j" and ?n = "length rs"
  have m: "mirrors pf rs gs a {..<covered rs a} (fst ` set gs) j" using assms(2) by (simp add: journal_ok_def)
  then have d: "disk_ok pf rs gs a ?d" "clean_files pf rs gs ?d" and len: "length (ej_epochs j) = ?n"
    and eps: "\<forall>i < ?n. epoch_ok pf rs gs {..<covered rs a} (fst ` set gs) ?d i (ej_epochs j ! i)" by (auto simp: mirrors_def)
  have c: "chained = chain_root (pf_sha pf) (if rs = [] then '''' else chained_of (last rs)) merkle"
    using last_root [of "ej_epochs j" rs] len eps by (simp add: assms(3) epoch_ok_def)
  let ?d1 = "apply_effect (WriteData (data_name ?n) data) ?d"
  have d1: "disk_ok pf rs gs a ?d1" "clean_files pf rs gs ?d1" using data_written [OF d(1)] d(2) by (auto simp: clean_files_def)
  let ?e = "Append ChainFile (json_line pf (chain_record ?n merkle chained (sha256_hex (pf_sha pf) data) (length data)))"
  have ap: "disk_ok pf (rs @ [r]) gs a (apply_effect ?e ?d1)" "clean_files pf (rs @ [r]) gs (apply_effect ?e ?d1)"
    using chain_appended [OF d1 _ c assms(6)] by (auto simp: assms(4,5))
  have j': "ej_disk j' = apply_effect ?e ?d1" "ej_epochs j' = ej_epochs j" by (simp_all add: assms(7) append_line_def len)
  have gn: "?n \<notin> fst ` set gs" using d(1) by (auto simp: disk_ok_def)
  have cv: "covered (rs @ [r]) a = covered rs a" by (rule covered_snoc [OF d(1)])
  have "epoch_ok pf (rs @ [r]) gs {..<covered rs a} (fst ` set gs) (apply_effect ?e ?d1) i ((ej_epochs j @ [ep]) ! i)" if "i < Suc ?n" for i
  proof (cases "i = ?n")
    case True
    then show ?thesis using covered_le [of rs a] gn by (auto simp: epoch_ok_def nth_append len assms(4,5,8) chained_of_def)
  next
    case False
    then have i: "i < ?n" using that by simp
    then have "epoch_ok pf rs gs {..<covered rs a} (fst ` set gs) ?d i (ej_epochs j ! i)" using eps by blast
    then show ?thesis using i by (auto simp: epoch_ok_def nth_append len)
  qed
  then show "mirrors pf (rs @ [r]) gs a {..<covered (rs @ [r]) a} (fst ` set gs) (j'\<lparr>ej_epochs := ej_epochs j' @ [ep]\<rparr>)"
    using ap by (simp add: mirrors_def j' cv len)
  have s1: "safely (between pf {rs, rs @ [r]} gs gs {a}) j (do_effect (WriteData (data_name ?n) data) j)"
    by (rule safely_effect) (use d d1 tmp_effect [OF d(1)] in \<open>auto intro!: betweenI\<close>)
  have s2: "safely (between pf {rs, rs @ [r]} gs gs {a}) (do_effect (WriteData (data_name ?n) data) j) j'"
    unfolding assms(7) append_line_def len
    by (rule safely_effect) (use d1 ap chain_torn [OF assms(1) d1] in \<open>auto intro!: betweenI\<close>)
  have "safely (between pf {rs, rs @ [r]} gs gs {a}) j j'" by (rule safely_trans [OF s1 s2])
  then show "safely (between pf {rs, rs @ [r]} gs gs {a}) j (j'\<lparr>ej_epochs := ej_epochs j' @ [ep]\<rparr>)" by (simp add: safely_def)
  show "same_settings j (j'\<lparr>ej_epochs := ej_epochs j' @ [ep]\<rparr>)" by (simp add: same_settings_def assms(7) append_line_def)
qed

text \<open>A seal fails before it has done anything, or the chain has one entry more.\<close>

lemma journal_seal_step:
  assumes "json_reads pf" "journal_ok pf rs gs a j" "journal_seal pf now bits j = (j', res)"
  obtains (failed) e where "j' = j" "res = Inl e"
  | (sealed) r gs' ep where "res = Inr ep" "journal_ok pf (rs @ [r]) gs' a j'" "prefix gs gs'"
      "safely (between pf {rs, rs @ [r]} gs gs' {a}) j j'" "same_settings j j'"
proof (cases "ebind (chunk bits (ej_block_bits j)) (\<lambda>blocks. ebind (commit_blocks (pf_sha pf) blocks) (\<lambda>(rt, proofs).
       case rt of None \<Rightarrow> Inl TypeError | Some merkle \<Rightarrow> Inr (blocks, merkle)))")
  case (Inl e)
  then show ?thesis using assms(3) failed [of e] by (simp add: journal_seal_def)
next
  case (Inr bm)
  obtain bs merkle where bm: "bm = (bs, merkle)" by (cases bm)
  define data where "data = blocks_text pf bs"
  define chained where "chained = chain_root (pf_sha pf) (if ej_epochs j = [] then '''' else ep_chained_root (last (ej_epochs j))) merkle"
  define r where "r = (merkle, chained, bs)"
  obtain proofs where cm: "commit_blocks (pf_sha pf) bs = Inr (Some merkle, proofs)"
    using Inr by (auto simp: bm ebind_eq_Inr split: option.splits)
  define j2 where "j2 = append_line pf ChainFile (chain_record (length (ej_epochs j)) merkle chained (sha256_hex (pf_sha pf) data) (length data))
        (do_effect (WriteData (data_name (length (ej_epochs j))) data) j)"
  define ep where "ep = \<lparr>ep_id = length (ej_epochs j), ep_blocks = Some bs, ep_merkle_root = merkle, ep_chained_root = chained, ep_acked = False,
               ep_dropped_under_pressure = False\<rparr>"
  define j3 where "j3 = j2\<lparr>ej_epochs := ej_epochs j2 @ [ep]\<rparr>"
  note p = prepared_seal [OF assms(1,2) chained_def data_def r_def cm j2_def ep_def, folded j3_def]
  from sign_seal_step [OF p(1), of now chained] obtain j4 where s: "sign_seal pf now chained j3 = (j4, Inr ())"
    "mirrors pf (rs @ [r]) gs a {..<covered (rs @ [r]) a} (fst ` set gs) j4" "safely (disk_ok pf (rs @ [r]) gs a) j3 j4" "same_settings j3 j4" by blast
  have set4: "same_settings j j4" by (rule same_settings_trans [OF p(3) s(4)])
  then have "0 \<le> ej_max_data j4" using assms(2) by (simp add: journal_ok_def same_settings_def)
  from enforce_step [OF assms(1) s(2) subset_refl this] obtain j5 gs'
    where e: "enforce_caps pf j4 = (j5, Inr ())" and step: "settles pf (rs @ [r]) a {..<covered (rs @ [r]) a} (fst ` set gs) gs j4 gs' {..<covered (rs @ [r]) a} (fst ` set gs') j5"
    by blast
  have run: "journal_seal pf now bits j = (j5, Inr (ej_epochs j5 ! length (ej_epochs j)))"
    using s(1) e by (simp add: journal_seal_def Inr bm Let_def chained_def [symmetric] data_def [symmetric] j2_def [symmetric] ep_def [symmetric] j3_def [symmetric])
  have pre: "prefix gs gs'" using step by (simp add: settles_def)
  have "safely (between pf {rs, rs @ [r]} gs gs' {a}) j j3" by (rule safely_mono [OF p(2)]) (erule between_mono, use pre in auto)
  moreover have "safely (between pf {rs, rs @ [r]} gs gs' {a}) j3 j4" by (rule safely_mono [OF s(3)]) (use pre in \<open>auto intro!: betweenI\<close>)
  moreover have "safely (between pf {rs, rs @ [r]} gs gs' {a}) j4 j5"
    using step by (auto simp: settles_def elim!: safely_mono intro: between_mono)
  ultimately have safe: "safely (between pf {rs, rs @ [r]} gs gs' {a}) j j5" by (blast intro: safely_trans)
  have set5: "same_settings j j5" using step by (auto simp: settles_def intro: same_settings_trans [OF set4])
  then have "journal_ok pf (rs @ [r]) gs' a j5"
    using step assms(2) by (auto simp: journal_ok_def settles_def same_settings_def)
  then show ?thesis using run assms(3) sealed pre safe set5 by auto
qed

subsection \<open>Acknowledging\<close>

lemma ack_at_step:
  assumes "mirrors pf rs gs a A G j" "p < covered rs a"
  shows "\<exists>j' c'. ack_at p (j, c) = (j', c') \<and> settles pf rs a A G gs j gs (insert p A) G j'"
proof -
  have p: "p < length rs" using assms(2) covered_le [of rs a] by simp
  have e: "epoch_ok pf rs gs A G (ej_disk j) p (ej_epochs j ! p)" by (rule mirrors_epoch [OF assms(1) p])
  let ?j = "update_epoch p (ep_acked_update (\<lambda>_. True)) j"
  have m: "mirrors pf rs gs a (insert p A) G ?j"
    by (rule mirrors_update [OF assms(1)]) (use assms(1) e in \<open>auto simp: mirrors_def epoch_ok_def\<close>)
  have s: "settles pf rs a A G gs j gs (insert p A) G ?j" by (rule settles_quiet [OF assms(1) m]) simp_all
  have t: "settles pf rs a (insert p A) G gs ?j gs (insert p A) G (forget p ?j)" by (rule forget_step [OF m p]) (use assms(2) in simp)
  have "ep_id (ej_epochs j ! p) = p" using e by (simp add: epoch_ok_def)
  then have "fst (ack_at p (j, c)) \<in> {?j, forget p ?j}" by (simp add: ack_at_def Let_def forget_def)
  then show ?thesis using s settles_trans [OF s t] by (metis empty_iff insert_iff prod.collapse)
qed

lemma ack_all_step:
  assumes "mirrors pf rs gs a A G j" "k \<le> covered rs a"
  shows "\<exists>j' c. fold ack_at [0..<k] (j, []) = (j', c) \<and> settles pf rs a A G gs j gs (A \<union> {..<k}) G j'"
  using assms(2)
proof (induction k)
  case 0
  then show ?case using settles_refl [OF assms(1)] by simp
next
  case (Suc k)
  then obtain j1 c where s: "fold ack_at [0..<k] (j, []) = (j1, c)" "settles pf rs a A G gs j gs (A \<union> {..<k}) G j1" by auto
  have "mirrors pf rs gs a (A \<union> {..<k}) G j1" "k < covered rs a" using s(2) Suc.prems by (simp_all add: settles_def)
  from ack_at_step [OF this, of c] obtain j2 c2 where t: "ack_at k (j1, c) = (j2, c2)"
    "settles pf rs a (A \<union> {..<k}) G gs j1 gs (insert k (A \<union> {..<k})) G j2" by blast
  have "insert k (A \<union> {..<k}) = A \<union> {..<Suc k}" by auto
  then show ?case using settles_trans [OF s(2) t(2)] s(1) t(1) by simp
qed

lemma find_chained_count:
  "find_chained rt eps k = (let n = root_count rt (map ep_chained_root eps) in if n = 0 then None else Some (k + n - 1))"
  by (induction eps arbitrary: k) (auto simp: Let_def)

lemma mirrors_roots: "mirrors pf rs gs a A G j \<Longrightarrow> map ep_chained_root (ej_epochs j) = map chained_of rs"
  by (rule nth_equalityI) (auto simp: mirrors_def epoch_ok_def)

lemma apply_ack_step:
  assumes "mirrors pf rs gs (Some (seq, rt)) A G j"
  shows "\<exists>j' c. apply_ack rt j = (j', c) \<and>
    settles pf rs (Some (seq, rt)) A G gs j gs (A \<union> {..<covered rs (Some (seq, rt))}) G j'"
proof -
  have "rt \<in> set (map chained_of rs)" using assms by (auto simp: mirrors_def disk_ok_def)
  then have n: "0 < root_count rt (map chained_of rs)" using root_count_pos by metis
  have "find_chained rt (ej_epochs j) 0 = Some (covered rs (Some (seq, rt)) - 1)"
    using n by (simp add: find_chained_count mirrors_roots [OF assms] covered_def)
  moreover have "covered rs (Some (seq, rt)) - 1 + 1 = covered rs (Some (seq, rt))" using n by (simp add: covered_def)
  ultimately show ?thesis using ack_all_step [OF assms order_refl] by (simp add: apply_ack_def del: upt_Suc)
qed

text \<open>An acknowledgment of a known root that does not go back behind the last one.\<close>

lemma journal_ack_step:
  assumes "journal_ok pf rs gs a j" "rt \<in> chained_of ` set rs" "covered rs a \<le> covered rs (Some (seq, rt))"
  shows "\<exists>j' n. journal_ack pf rt seq j = (j', n) \<and> journal_ok pf rs gs (Some (seq, rt)) j' \<and>
    safely (between pf {rs} gs gs {a, Some (seq, rt)}) j j' \<and> ej_max_data j' = ej_max_data j"
proof -
  let ?a = "Some (seq, rt)" and ?e = "Replace AcksFile (dumps pf (PDict (ack_record seq rt)))"
  define j1 where "j1 = do_effect ?e j"
  define j2 where "j2 = j1\<lparr>ej_last_seq := seq, ej_acked := Some rt\<rparr>"
  have m: "mirrors pf rs gs a {..<covered rs a} (fst ` set gs) j" using assms(1) by (simp add: journal_ok_def)
  then have d: "disk_ok pf rs gs a (ej_disk j)" by (simp add: mirrors_def)
  have d1: "disk_ok pf rs gs ?a (apply_effect ?e (ej_disk j))" by (rule ack_written [OF d assms(2,3)])
  have m2: "mirrors pf rs gs ?a {..<covered rs a} (fst ` set gs) j2"
    using m d1 by (auto simp: mirrors_def j2_def j1_def clean_files_def epoch_ok_def)
  have s1: "safely (between pf {rs} gs gs {a, ?a}) j j1"
    unfolding j1_def by (rule safely_effect) (use d d1 in \<open>auto intro!: betweenI\<close>)
  then have s2: "safely (between pf {rs} gs gs {a, ?a}) j j2" by (simp add: safely_def j2_def)
  from apply_ack_step [OF m2] obtain j3 c where t: "apply_ack rt j2 = (j3, c)"
    "settles pf rs ?a {..<covered rs a} (fst ` set gs) gs j2 gs ({..<covered rs a} \<union> {..<covered rs ?a}) (fst ` set gs) j3" by blast
  have u: "{..<covered rs a} \<union> {..<covered rs ?a} = {..<covered rs ?a}" using assms(3) by auto
  have s3: "safely (between pf {rs} gs gs {a, ?a}) j2 j3" using t(2) by (auto simp: settles_def elim!: safely_mono between_mono)
  have "rt \<in> set (map ep_chained_root (ej_epochs j))" using assms(2) mirrors_roots [OF m] by simp
  then have "list_ex (\<lambda>ep. ep_chained_root ep = rt) (ej_epochs j)" by (auto simp: list_ex_iff)
  then have "journal_ack pf rt seq j = (j3, length c)"
    using t(1) by (simp add: journal_ack_def Let_def j1_def [symmetric] j2_def [symmetric])
  moreover have set3: "same_settings j2 j3" "mirrors pf rs gs ?a {..<covered rs ?a} (fst ` set gs) j3"
    using t(2) by (auto simp: settles_def u)
  moreover have "journal_ok pf rs gs ?a j3"
    using set3 assms(1) by (simp add: journal_ok_def same_settings_def j2_def j1_def)
  moreover have "ej_max_data j3 = ej_max_data j" using set3(1) by (simp add: same_settings_def j2_def j1_def)
  ultimately show ?thesis using safely_trans [OF s2 s3] by blast
qed

lemma journal_ack_unknown: "journal_ok pf rs gs a j \<Longrightarrow> rt \<notin> chained_of ` set rs \<Longrightarrow> journal_ack pf rt seq j = (j, 0)"
proof -
  assume ok: "journal_ok pf rs gs a j" and n: "rt \<notin> chained_of ` set rs"
  have "map ep_chained_root (ej_epochs j) = map chained_of rs" using ok by (auto simp: journal_ok_def intro: mirrors_roots)
  then have "rt \<notin> ep_chained_root ` set (ej_epochs j)" using n by (metis list.set_map)
  then show ?thesis by (auto simp: journal_ack_def list_ex_iff)
qed

subsection \<open>Reading the files back\<close>

lemma split_torn:
  "\<forall>l \<in> set ls. CHR 0x0A \<notin> set l \<Longrightarrow> CHR 0x0A \<notin> set t \<Longrightarrow> split_char (CHR 0x0A) (unlines ls @ t) = ls @ [t]"
proof (induction ls)
  case Nil
  have "CHR 0x0A \<notin> set t \<Longrightarrow> split_char (CHR 0x0A) t = [t]" by (induction t) auto
  then show ?case using Nil by (simp add: unlines_def)
next
  case (Cons l ls)
  have "CHR 0x0A \<notin> set l \<Longrightarrow> split_char (CHR 0x0A) (l @ CHR 0x0A # s) = l # split_char (CHR 0x0A) s" for s
    by (induction l) auto
  then show ?case using Cons by (simp add: unlines_def)
qed

lemma raw_lines_torn:
  assumes "json_reads pf" "torn_text pf t"
  shows "raw_lines (lines_of pf recs @ t) = map (\<lambda>r. dumps pf (PDict r)) recs @ (if t = [] then [] else [t])"
proof -
  have "split_char (CHR 0x0A) (lines_of pf recs @ t) = map (\<lambda>r. dumps pf (PDict r)) recs @ [t]"
    unfolding lines_of_def by (rule split_torn) (use assms dumps_one_line in \<open>auto simp: torn_text_def\<close>)
  then show ?thesis by (simp add: raw_lines_def)
qed

definition value_of :: "ctx \<Rightarrow> pyval" where
  "value_of r = canon_form (PDict r)"

lemma loads_dumps: "json_reads pf \<Longrightarrow> pf_loads pf (dumps pf (PDict r)) = Some (value_of r)"
  unfolding json_reads_def value_of_def by blast

lemma jsonl_loop_ok:
  assumes "json_reads pf" "t = [] \<or> pf_loads pf t = None"
  shows "lines = pre @ map (\<lambda>r. dumps pf (PDict r)) recs @ (if t = [] then [] else [t]) \<Longrightarrow> i = length pre \<Longrightarrow>
    jsonl_loop pf f torn lines i (map (\<lambda>r. dumps pf (PDict r)) recs @ (if t = [] then [] else [t])) vs j =
      (if t = [] then j else do_effect (Replace f (unlines (butlast lines))) (report (TornLine torn f (length lines)) j), Inr (vs @ map value_of recs))"
proof (induction recs arbitrary: i vs pre)
  case Nil
  then show ?case using assms(2) by auto
next
  case (Cons r recs)
  from Cons.IH [of "pre @ [dumps pf (PDict r)]" "i + 1" "vs @ [value_of r]"] Cons.prems
  show ?case by (simp add: loads_dumps [OF assms(1)])
qed

lemma lines_of_Nil [simp]: "lines_of pf recs = [] \<longleftrightarrow> recs = []"
  by (auto simp: lines_of_def unlines_def)

lemma read_jsonl_ok:
  assumes "json_reads pf" "torn_text pf t" "file_text (ej_disk j) f = lines_of pf recs @ t"
  shows "read_jsonl pf f torn j = (if t = [] then j else do_effect (Replace f (lines_of pf recs))
      (report (TornLine torn f (length recs + 1)) j), Inr (map value_of recs))"
proof (cases "jd_file (ej_disk j) f")
  case None
  then show ?thesis using assms(3) by (simp add: file_text_def read_jsonl_def)
next
  case (Some c)
  then have c: "raw_lines c = map (\<lambda>r. dumps pf (PDict r)) recs @ (if t = [] then [] else [t])"
    using assms(3) raw_lines_torn [OF assms(1,2)] by (simp add: file_text_def)
  have "t = [] \<or> pf_loads pf t = None" using assms(2) by (auto simp: torn_text_def)
  from jsonl_loop_ok [OF assms(1) this, of "raw_lines c" "[]" recs 0 f torn "[]" j]
  show ?thesis by (auto simp: read_jsonl_def Some c lines_of_def)
qed

lemma chain_cleaned: "disk_ok pf rs gs a d \<Longrightarrow> disk_ok pf rs gs a (apply_effect (Replace ChainFile (lines_of pf (chain_records pf 0 rs))) d)"
  by (auto simp: disk_ok_def intro: exI [of _ "[]"])

lemma gaps_cleaned: "disk_ok pf rs gs a d \<Longrightarrow> disk_ok pf rs gs a (apply_effect (Replace GapsFile (lines_of pf (gap_records gs))) d)"
  by (auto simp: disk_ok_def intro: exI [of _ "[]"])

lemma entry_value: "entry (value_of d) k = (case map_of d k of None \<Rightarrow> Inl KeyError | Some v \<Rightarrow> Inr (canon_form v))"
  by (simp add: entry_def value_of_def canon_form_dict map_of_canon split: option.split del: canon_form.simps)

lemma chain_entries [simp]:
  "entry (value_of (chain_record i m c s l)) ''epoch_id'' = Inr (PInt (int i))" "entry (value_of (chain_record i m c s l)) ''merkle_root'' = Inr (PStr m)"
  "entry (value_of (chain_record i m c s l)) ''chained_root'' = Inr (PStr c)" "entry (value_of (chain_record i m c s l)) ''data_sha256'' = Inr (PStr s)"
  "entry (value_of (chain_record i m c s l)) ''data_length'' = Inr (PInt (int l))"
  by (simp_all add: entry_value chain_record_def)

lemma epoch_ids [simp]:
  "epoch_id_of (value_of (chain_record i m c s l)) = Inr i" "epoch_id_of (value_of (gap_record i reason)) = Inr i"
  by (simp_all add: epoch_id_of_def) (simp add: entry_value gap_record_def)

lemma gap_ids: "emap epoch_id_of (map value_of (gap_records gs)) = Inr (map fst gs)"
  by (induction gs) (auto simp: gap_records_def)

lemma epoch_id_line [simp]: "epoch_id_of (value_of (chain_line pf i r)) = Inr i"
  by (cases r) simp

lemma chain_ids: "emap epoch_id_of (map value_of (chain_records pf k rs)) = Inr [k..<k + length rs]"
proof (induction rs arbitrary: k)
  case (Cons r rs)
  have "[k..<k + length (r # rs)] = k # [Suc k..<Suc k + length rs]" by (subst upt_conv_Cons) auto
  then show ?case using Cons.IH [of "Suc k"] by (simp add: chain_records_def del: upt_Suc chain_line.simps)
qed (simp add: chain_records_def)

lemma load_blocks_text: "json_reads pf \<Longrightarrow> load_blocks pf (blocks_text pf bs) = Inr (Some bs)"
proof -
  assume r: "json_reads pf"
  have "emap str_of_val (map PStr bs) = Inr bs" by (induction bs) (auto simp: str_of_val_def)
  moreover have "pf_loads pf (blocks_text pf bs) = Some (PList (map PStr bs))"
    using r by (simp add: json_reads_def blocks_text_def comp_def)
  ultimately show ?thesis by (simp add: load_blocks_def blocks_of_def)
qed

lemma load_data_ok:
  assumes "json_reads pf" "\<forall>t. stored (ej_disk j) i = Some t \<longrightarrow> data_ok pf (m, c, bs) t"
  shows "\<exists>b. load_data pf i (value_of (chain_line pf i (m, c, bs))) lost j = (j, Inr (b, lost)) \<and> stored (ej_disk j) i = map_option (blocks_text pf) b \<and> b \<in> {None, Some bs}"
proof (cases "stored (ej_disk j) i")
  case (Some t)
  then have t: "t = blocks_text pf bs" using assms(2) by (simp add: data_ok_def)
  have "data_differs pf (value_of (chain_line pf i (m, c, bs))) t = Inr False" by (simp add: data_differs_def t)
  then show ?thesis using load_blocks_text [OF assms(1), of bs] Some by (simp add: load_data_def t)
qed (simp add: load_data_def)

lemma load_chain_ok:
  assumes "json_reads pf"
  shows "chain_linked (pf_sha pf) prev rs \<Longrightarrow> \<forall>i < length rs. \<forall>t. stored (ej_disk j) (k + i) = Some t \<longrightarrow> data_ok pf (rs ! i) t \<Longrightarrow>
    \<exists>eps. load_chain pf prev (map value_of (chain_records pf k rs)) lost j = (j\<lparr>ej_epochs := ej_epochs j @ eps\<rparr>, Inr lost) \<and> length eps = length rs \<and>
      (\<forall>i < length rs. ep_id (eps ! i) = k + i \<and> ep_merkle_root (eps ! i) = fst (rs ! i) \<and> ep_chained_root (eps ! i) = chained_of (rs ! i) \<and>
        \<not> ep_acked (eps ! i) \<and> \<not> ep_dropped_under_pressure (eps ! i) \<and>
        stored (ej_disk j) (k + i) = map_option (blocks_text pf) (ep_blocks (eps ! i)))"
proof (induction rs arbitrary: prev k j)
  case Nil
  then show ?case by (auto simp: chain_records_def)
next
  case (Cons r rs)
  obtain m c bs where r: "r = (m, c, bs)" by (cases r)
  have "\<forall>t. stored (ej_disk j) k = Some t \<longrightarrow> data_ok pf (m, c, bs) t" using Cons.prems(2) r by force
  from load_data_ok [OF assms this] obtain b where b: "load_data pf k (value_of (chain_line pf k (m, c, bs))) lost j = (j, Inr (b, lost))"
    "stored (ej_disk j) k = map_option (blocks_text pf) b" by blast
  have c: "c = chain_root (pf_sha pf) prev m" and lk: "chain_linked (pf_sha pf) c rs" using Cons.prems(1) by (auto simp: r)
  define ep where "ep = \<lparr>ep_id = k, ep_blocks = b, ep_merkle_root = m, ep_chained_root = c, ep_acked = False, ep_dropped_under_pressure = False\<rparr>"
  have "\<forall>i < length rs. \<forall>t. stored (ej_disk (j\<lparr>ej_epochs := ej_epochs j @ [ep]\<rparr>)) (Suc k + i) = Some t \<longrightarrow> data_ok pf (rs ! i) t"
    using Cons.prems(2) by force
  from Cons.IH [OF lk this] obtain eps where eps: "load_chain pf c (map value_of (chain_records pf (Suc k) rs)) lost (j\<lparr>ej_epochs := ej_epochs j @ [ep]\<rparr>)
      = (j\<lparr>ej_epochs := (ej_epochs j @ [ep]) @ eps\<rparr>, Inr lost)" "length eps = length rs"
    "\<forall>i < length rs. ep_id (eps ! i) = Suc k + i \<and> ep_merkle_root (eps ! i) = fst (rs ! i) \<and> ep_chained_root (eps ! i) = chained_of (rs ! i) \<and>
        \<not> ep_acked (eps ! i) \<and> \<not> ep_dropped_under_pressure (eps ! i) \<and>
        stored (ej_disk j) (Suc k + i) = map_option (blocks_text pf) (ep_blocks (eps ! i))" by auto
  have "map value_of (chain_records pf k (r # rs)) = value_of (chain_line pf k r) # map value_of (chain_records pf (Suc k) rs)"
    by (simp add: chain_records_def)
  then have "load_chain pf prev (map value_of (chain_records pf k (r # rs))) lost j = (j\<lparr>ej_epochs := ej_epochs j @ ep # eps\<rparr>, Inr lost)"
    using b(1) eps(1) by (simp add: r c [symmetric] str_of_val_def ep_def Let_def)
  moreover have "\<forall>i < length (r # rs). ep_id ((ep # eps) ! i) = k + i \<and> ep_merkle_root ((ep # eps) ! i) = fst ((r # rs) ! i) \<and>
      ep_chained_root ((ep # eps) ! i) = chained_of ((r # rs) ! i) \<and> \<not> ep_acked ((ep # eps) ! i) \<and> \<not> ep_dropped_under_pressure ((ep # eps) ! i) \<and>
      stored (ej_disk j) (k + i) = map_option (blocks_text pf) (ep_blocks ((ep # eps) ! i))"
    using eps(3) b(2) by (auto simp: less_Suc_eq_0_disj ep_def r chained_of_def)
  ultimately show ?case using eps(2) by (intro exI [of _ "ep # eps"]) simp
qed

subsection \<open>Opening\<close>

lemma data_name_id: "py_int (take (length (data_name i) - 5) (data_name i)) = Some (int i)"
  by (simp add: data_name_def py_int_int_str)

text \<open>Only files beyond the chain are orphans.\<close>

lemma orphan_step:
  assumes "mirrors pf rs gs a A G j" "length rs \<le> i"
  shows "settles pf rs a A G gs j gs A G (do_effect (RemoveData (data_name i)) (report f j))"
proof -
  let ?j = "do_effect (RemoveData (data_name i)) (report f j)"
  have d: "disk_ok pf rs gs a (ej_disk j)" using assms(1) by (simp add: mirrors_def)
  have d': "disk_ok pf rs gs a (apply_effect (RemoveData (data_name i)) (ej_disk j))" using removal [OF d] assms(2) by blast
  have m: "mirrors pf rs gs a A G ?j" using assms d' by (auto simp: mirrors_def epoch_ok_def)
  have "safely (disk_ok pf rs gs a) j (report f j)" by (rule safely_quiet) (use d in auto)
  moreover have "safely (disk_ok pf rs gs a) (report f j) ?j" by (rule safely_effect) (use d d' in auto)
  ultimately have "safely (disk_ok pf rs gs a) j ?j" by (rule safely_trans)
  then have "safely (between pf {rs} gs gs {a}) j ?j" by (rule safely_mono) (auto intro!: betweenI)
  then show ?thesis using m by (simp add: settles_def same_settings_def report_def)
qed

lemma orphans_step:
  "mirrors pf rs gs a A G j \<Longrightarrow> \<forall>x \<in> set xs. endswith x ''.json'' \<longrightarrow> (\<exists>i. x = data_name i) \<Longrightarrow>
   \<exists>j'. remove_orphans [0..<length rs] xs j = (j', Inr ()) \<and> settles pf rs a A G gs j gs A G j'"
proof (induction xs arbitrary: j)
  case Nil
  then show ?case using settles_refl by auto
next
  case (Cons x xs)
  show ?case
  proof (cases "endswith x ''.json''")
    case True
    then obtain i where x: "x = data_name i" using Cons.prems(2) by auto
    show ?thesis
    proof (cases "i < length rs")
      case True
      then show ?thesis using Cons.IH [OF Cons.prems(1)] Cons.prems(2) by (auto simp: x data_name_id)
    next
      case False
      let ?j = "do_effect (RemoveData (data_name i)) (report (OrphanData (int i)) j)"
      have s: "settles pf rs a A G gs j gs A G ?j" by (rule orphan_step [OF Cons.prems(1)]) (use False in simp)
      then have "mirrors pf rs gs a A G ?j" by (simp add: settles_def)
      then obtain j' where t: "remove_orphans [0..<length rs] xs ?j = (j', Inr ())" "settles pf rs a A G gs ?j gs A G j'"
        using Cons.IH Cons.prems(2) by auto
      have "remove_orphans [0..<length rs] (x # xs) j = (j', Inr ())"
        using t(1) False by (auto simp: x data_name_id)
      then show ?thesis using settles_trans [OF s t(2)] by blast
    qed
  next
    case False
    then show ?thesis using Cons.IH [OF Cons.prems(1)] Cons.prems(2) by auto
  qed
qed

lemma read_acks_ok:
  assumes "json_reads pf" "disk_ok pf rs gs a d"
  shows "read_acks pf (jd_file d AcksFile) = Inr (case a of None \<Rightarrow> - 1 | Some (seq, rt) \<Rightarrow> seq, map_option snd a)"
proof (cases a)
  case (Some p)
  obtain seq rt where p: "p = (seq, rt)" by (cases p)
  have "pf_loads pf (dumps pf (PDict (ack_record seq rt))) = Some (PDict (canon_items (ack_record seq rt)))"
    using assms(1) by (simp add: json_reads_def canon_form_dict del: canon_form.simps)
  then show ?thesis using assms(2) by (simp add: Some p disk_ok_def read_acks_def map_of_canon ack_record_def)
qed (use assms(2) in \<open>simp add: disk_ok_def read_acks_def\<close>)

lemma complete_ack_step:
  assumes "mirrors pf rs gs a {} G j"
  shows "settles pf rs a {} G gs j gs {..<covered rs a} G (complete_ack (map_option snd a) j)"
proof (cases a)
  case None
  then show ?thesis using settles_refl [OF assms] by (simp add: complete_ack_def covered_def)
next
  case (Some p)
  obtain seq rt where p: "a = Some (seq, rt)" using Some by (cases p) simp
  obtain j' c where s: "apply_ack rt j = (j', c)" "settles pf rs a {} G gs j gs {..<covered rs a} G j'"
    using apply_ack_step [of pf rs gs seq rt "{}" G j] assms by (auto simp: p)
  have "mirrors pf rs gs a {..<covered rs a} G j'" using s(2) by (simp add: settles_def)
  then have "settles pf rs a {..<covered rs a} G gs j' gs {..<covered rs a} G (report f j')" for f
    by (rule settles_quiet) (use \<open>mirrors pf rs gs a {..<covered rs a} G j'\<close> in \<open>auto simp: mirrors_def\<close>)
  then show ?thesis using s settles_trans [OF s(2)] by (auto simp: complete_ack_def p)
qed

lemma mark_step:
  assumes "mirrors pf rs gs a A G j" "p < length rs"
  shows "settles pf rs a A G gs j gs A (G \<union> ({p} \<inter> fst ` set gs)) (mark_gap (map fst gs) p j)"
proof -
  let ?G = "G \<union> ({p} \<inter> fst ` set gs)"
  have e: "epoch_ok pf rs gs A G (ej_disk j) p (ej_epochs j ! p)" by (rule mirrors_epoch [OF assms])
  then have i: "ep_id (ej_epochs j ! p) = p" "ep_acked (ej_epochs j ! p) \<longleftrightarrow> p \<in> A" by (simp_all add: epoch_ok_def)
  show ?thesis
  proof (cases "p \<in> fst ` set gs \<and> p \<notin> A")
    case False
    then have "mirrors pf rs gs a A ?G j" using assms(1) by (auto simp: mirrors_def epoch_ok_def)
    then have "settles pf rs a A G gs j gs A ?G j" by (rule settles_quiet [OF assms(1)]) simp_all
    then show ?thesis using False by (auto simp: mark_gap_def i)
  next
    case True
    let ?u = "update_epoch p (ep_dropped_under_pressure_update (\<lambda>_. True)) j"
    have m: "mirrors pf rs gs a A ?G ?u"
      by (rule mirrors_update [OF assms(1)]) (use assms(1) e True in \<open>auto simp: mirrors_def epoch_ok_def\<close>)
    have s: "settles pf rs a A G gs j gs A ?G ?u" by (rule settles_quiet [OF assms(1) m]) simp_all
    have mr: "mirrors pf rs gs a A ?G (report f ?u)" for f using m by (simp add: mirrors_def)
    have r: "settles pf rs a A G gs j gs A ?G (report f ?u)" for f
      by (rule settles_quiet [OF assms(1) mr]) (simp_all add: same_settings_def report_def update_epoch_def)
    have t: "settles pf rs a A ?G gs (report f ?u) gs A ?G (forget p (report f ?u))" for f
      by (rule forget_step [OF mr assms(2)]) (use True in simp)
    show ?thesis using True s settles_trans [OF r t] by (simp add: mark_gap_def i Let_def forget_def)
  qed
qed

lemma mark_all_step:
  assumes "mirrors pf rs gs a A {} j" "k \<le> length rs"
  shows "settles pf rs a A {} gs j gs A ({..<k} \<inter> fst ` set gs) (fold (mark_gap (map fst gs)) [0..<k] j)"
  using assms(2)
proof (induction k)
  case 0
  then show ?case using settles_refl [OF assms(1)] by simp
next
  case (Suc k)
  then have s: "settles pf rs a A {} gs j gs A ({..<k} \<inter> fst ` set gs) (fold (mark_gap (map fst gs)) [0..<k] j)" by simp
  have "{..<k} \<inter> fst ` set gs \<union> ({k} \<inter> fst ` set gs) = {..<Suc k} \<inter> fst ` set gs" by auto
  moreover have "mirrors pf rs gs a A ({..<k} \<inter> fst ` set gs) (fold (mark_gap (map fst gs)) [0..<k] j)" using s by (simp add: settles_def)
  ultimately have t: "settles pf rs a A ({..<k} \<inter> fst ` set gs) gs (fold (mark_gap (map fst gs)) [0..<k] j) gs A ({..<Suc k} \<inter> fst ` set gs)
      (mark_gap (map fst gs) k (fold (mark_gap (map fst gs)) [0..<k] j))"
    using mark_step [of pf rs gs a A _ _ k] Suc.prems by (metis Suc_le_lessD)
  show ?case using settles_trans [OF s t] by simp
qed

lemma cleaned_file:
  assumes "disk_ok pf rs gs a (ej_disk j)" "disk_ok pf rs gs a (apply_effect (Replace f s) (ej_disk j))"
  shows "safely (disk_ok pf rs gs a) j (do_effect (Replace f s) (report x j))"
proof -
  have "safely (disk_ok pf rs gs a) j (report x j)" by (rule safely_quiet) (use assms in auto)
  moreover have "safely (disk_ok pf rs gs a) (report x j) (do_effect (Replace f s) (report x j))" by (rule safely_effect) (use assms in auto)
  ultimately show ?thesis by (rule safely_trans)
qed

lemma read_chain_ok:
  assumes "json_reads pf" "disk_ok pf rs gs a (ej_disk j)"
  shows "\<exists>j'. read_jsonl pf ChainFile torn j = (j', Inr (map value_of (chain_records pf 0 rs))) \<and> disk_ok pf rs gs a (ej_disk j') \<and>
    file_text (ej_disk j') ChainFile = lines_of pf (chain_records pf 0 rs) \<and> safely (disk_ok pf rs gs a) j j' \<and> same_settings j j' \<and> ej_epochs j' = ej_epochs j"
proof -
  obtain t where t: "torn_text pf t" "file_text (ej_disk j) ChainFile = lines_of pf (chain_records pf 0 rs) @ t" using assms(2) by (auto simp: disk_ok_def)
  note c = chain_cleaned [OF assms(2)]
  show ?thesis using t(2) read_jsonl_ok [OF assms(1) t, of torn] cleaned_file [OF assms(2) c] c assms(2)
    by (auto simp: same_settings_def report_def intro!: safely_quiet)
qed

lemma read_gaps_ok:
  assumes "json_reads pf" "disk_ok pf rs gs a (ej_disk j)" "file_text (ej_disk j) ChainFile = lines_of pf (chain_records pf 0 rs)"
  shows "\<exists>j'. read_jsonl pf GapsFile torn j = (j', Inr (map value_of (gap_records gs))) \<and> disk_ok pf rs gs a (ej_disk j') \<and>
    clean_files pf rs gs (ej_disk j') \<and> safely (disk_ok pf rs gs a) j j' \<and> same_settings j j' \<and> ej_epochs j' = ej_epochs j"
proof -
  obtain t where t: "torn_text pf t" "file_text (ej_disk j) GapsFile = lines_of pf (gap_records gs) @ t" using assms(2) by (auto simp: disk_ok_def)
  note c = gaps_cleaned [OF assms(2)]
  show ?thesis using t(2) read_jsonl_ok [OF assms(1) t, of torn] cleaned_file [OF assms(2) c] c assms(2,3)
    by (auto simp: same_settings_def report_def clean_files_def intro!: safely_quiet)
qed

text \<open>What the later steps of the recovery do, from the epochs of the chain in memory.\<close>

lemma settle_step:
  assumes "json_reads pf" "mirrors pf rs gs a {} {} j" "0 \<le> ej_max_data j"
  shows "\<exists>j' gs'. enforce_caps pf (let k = complete_ack (map_option snd a) j in fold (mark_gap (map fst gs)) [0..<length (ej_epochs k)] k) = (j', Inr ()) \<and>
    settles pf rs a {} {} gs j gs' {..<covered rs a} (fst ` set gs') j'"
proof -
  define k where "k = complete_ack (map_option snd a) j"
  have s: "settles pf rs a {} {} gs j gs {..<covered rs a} {} k" unfolding k_def by (rule complete_ack_step [OF assms(2)])
  then have k: "mirrors pf rs gs a {..<covered rs a} {} k" "length (ej_epochs k) = length rs" by (auto simp: settles_def mirrors_def)
  define l where "l = fold (mark_gap (map fst gs)) [0..<length (ej_epochs k)] k"
  have "{..<length rs} \<inter> fst ` set gs = fst ` set gs" using k(1) by (auto simp: mirrors_def disk_ok_def)
  then have t: "settles pf rs a {..<covered rs a} {} gs k gs {..<covered rs a} (fst ` set gs) l"
    using mark_all_step [OF k(1) order_refl] by (simp add: l_def k(2))
  have st: "settles pf rs a {} {} gs j gs {..<covered rs a} (fst ` set gs) l" by (rule settles_trans [OF s t])
  then have "mirrors pf rs gs a {..<covered rs a} (fst ` set gs) l" "0 \<le> ej_max_data l" using assms(3) by (auto simp: settles_def same_settings_def)
  from enforce_step [OF assms(1) this(1) subset_refl this(2)] obtain j' gs' where e: "enforce_caps pf l = (j', Inr ())"
    and u: "settles pf rs a {..<covered rs a} (fst ` set gs) gs l gs' {..<covered rs a} (fst ` set gs') j'" by blast
  show ?thesis using e settles_trans [OF st u] by (auto simp: l_def k_def Let_def)
qed

lemma fresh_parts [simp]:
  "ej_disk (fresh_journal cfg d) = d" "ej_done (fresh_journal cfg d) = []" "ej_epochs (fresh_journal cfg d) = []"
  "ej_max_data (fresh_journal cfg d) = jc_max_data cfg" "(fresh_journal cfg d)\<lparr>ej_report := []\<rparr> = fresh_journal cfg d"
  by (simp_all add: fresh_journal_def)

text \<open>The first half of the recovery: the files read and cleaned, the chain loaded, the orphans gone.\<close>

lemma loaded_step:
  assumes "json_reads pf" "disk_ok pf rs gs a (ej_disk j)" "clean_files pf rs gs (ej_disk j)" "ej_epochs j = []"
  shows "\<exists>k. load_chain pf '''' (map value_of (chain_records pf 0 rs)) (map fst gs) j = (k, Inr (map fst gs)) \<and> ej_disk k = ej_disk j \<and>
    settles pf rs a {} {} gs k gs {} {} k \<and> safely (disk_ok pf rs gs a) j k \<and> same_settings j k"
proof -
  have l: "chain_linked (pf_sha pf) '''' rs" and s: "\<forall>i < length rs. \<forall>t. stored (ej_disk j) (0 + i) = Some t \<longrightarrow> data_ok pf (rs ! i) t"
    using assms(2) by (auto simp: disk_ok_def)
  from load_chain_ok [OF assms(1) l s, of "map fst gs"] obtain eps
    where eps: "load_chain pf '''' (map value_of (chain_records pf 0 rs)) (map fst gs) j = (j\<lparr>ej_epochs := eps\<rparr>, Inr (map fst gs))" "length eps = length rs"
      "\<forall>i < length rs. ep_id (eps ! i) = i \<and> ep_merkle_root (eps ! i) = fst (rs ! i) \<and> ep_chained_root (eps ! i) = chained_of (rs ! i) \<and>
        \<not> ep_acked (eps ! i) \<and> \<not> ep_dropped_under_pressure (eps ! i) \<and> stored (ej_disk j) i = map_option (blocks_text pf) (ep_blocks (eps ! i))"
    by (auto simp: assms(4))
  have m: "mirrors pf rs gs a {} {} (j\<lparr>ej_epochs := eps\<rparr>)" using assms(2,3) eps(2,3) by (auto simp: mirrors_def epoch_ok_def)
  show ?thesis using eps(1) settles_refl [OF m] assms(2) by (auto simp: same_settings_def intro!: safely_quiet)
qed

lemma recover_step:
  assumes "json_reads pf" "disk_ok pf rs gs a d" "0 \<le> jc_max_data cfg"
  shows "\<exists>j gs'. open_journal pf cfg d = (j, Inr ()) \<and> journal_ok pf rs gs' a j \<and> prefix gs gs' \<and>
    safely (between pf {rs} gs gs' {a}) (fresh_journal cfg d) j \<and> ej_max_data j = jc_max_data cfg"
proof -
  let ?j = "fresh_journal cfg d" and ?P = "disk_ok pf rs gs a"
  have d: "disk_ok pf rs gs a (ej_disk ?j)" using assms(2) by simp
  from read_chain_ok [OF assms(1) d, of "''interrupted_seal''"] obtain j1 where
    c: "read_jsonl pf ChainFile ''interrupted_seal'' ?j = (j1, Inr (map value_of (chain_records pf 0 rs)))"
    and j1: "?P (ej_disk j1)" "file_text (ej_disk j1) ChainFile = lines_of pf (chain_records pf 0 rs)" "safely ?P ?j j1" "same_settings ?j j1" "ej_epochs j1 = []"
    by auto
  have ka: "(case jd_file (ej_disk j1) AcksFile of Some c \<Rightarrow> if pf_loads pf c = None then (j1, Inl JournalCorrupt) else (j1, Inr ()) | None \<Rightarrow> (j1, Inr ())) = (j1, Inr ())"
    using j1(1) assms(1) by (auto simp: disk_ok_def json_reads_def split: option.splits)
  from read_gaps_ok [OF assms(1) j1(1,2), of "''interrupted_gap_record''"] obtain j2 where
    g: "read_jsonl pf GapsFile ''interrupted_gap_record'' j1 = (j2, Inr (map value_of (gap_records gs)))"
    and j2: "?P (ej_disk j2)" "clean_files pf rs gs (ej_disk j2)" "safely ?P j1 j2" "same_settings j1 j2" "ej_epochs j2 = []"
    using j1(5) by auto
  from loaded_step [OF assms(1) j2(1,2,5)] obtain j3 where
    l: "load_chain pf '''' (map value_of (chain_records pf 0 rs)) (map fst gs) j2 = (j3, Inr (map fst gs))"
    and j3: "ej_disk j3 = ej_disk j2" "settles pf rs a {} {} gs j3 gs {} {} j3" "safely ?P j2 j3" "same_settings j2 j3" by blast
  have "mirrors pf rs gs a {} {} j3" using j3(2) by (simp add: settles_def)
  moreover have "\<forall>x \<in> set (str_sort (map fst (jd_data (ej_disk j3)))). endswith x ''.json'' \<longrightarrow> (\<exists>i. x = data_name i)"
    using j2(1) by (auto simp: j3(1) disk_ok_def)
  ultimately obtain j4 where o: "remove_orphans [0..<length rs] (str_sort (map fst (jd_data (ej_disk j3)))) j3 = (j4, Inr ())"
    and j4: "settles pf rs a {} {} gs j3 gs {} {} j4" using orphans_step by blast
  define seq where "seq = (case a of None \<Rightarrow> - 1 | Some (seq, rt) \<Rightarrow> seq)"
  define j5 where "j5 = j4\<lparr>ej_last_seq := seq, ej_acked := map_option snd a\<rparr>"
  have m4: "mirrors pf rs gs a {} {} j4" using j4 by (simp add: settles_def)
  then have r: "read_acks pf (jd_file (ej_disk j4) AcksFile) = Inr (seq, map_option snd a)"
    unfolding seq_def by (intro read_acks_ok [OF assms(1), of rs gs]) (simp add: mirrors_def)
  have m5: "mirrors pf rs gs a {} {} j5" using m4 by (simp add: mirrors_def j5_def)
  have cap: "ej_max_data j5 = jc_max_data cfg"
    using j1(4) j2(4) j3(4) j4 by (simp add: j5_def settles_def same_settings_def)
  with settle_step [OF assms(1) m5] assms(3) obtain j6 gs' where
    e: "enforce_caps pf (let k = complete_ack (map_option snd a) j5 in fold (mark_gap (map fst gs)) [0..<length (ej_epochs k)] k) = (j6, Inr ())"
    and j6: "settles pf rs a {} {} gs j5 gs' {..<covered rs a} (fst ` set gs') j6" by auto
  have run: "open_journal pf cfg d = (j6, Inr ())"
    unfolding open_journal_def recover_journal_def fresh_parts c then_do_simps ka g gap_ids l chain_ids [of _ 0, simplified] o r prod.case
    using e by (simp add: j5_def [symmetric] Let_def)
  have pre: "prefix gs gs'" and s6: "safely (between pf {rs} gs gs' {a}) j5 j6" using j6 by (auto simp: settles_def)
  have s: "safely (between pf {rs} gs gs' {a}) ?j j3"
    by (rule safely_mono [OF safely_trans [OF j1(3) safely_trans [OF j2(3) j3(3)]]]) (use pre in \<open>auto intro: betweenI\<close>)
  have "safely (between pf {rs} gs gs' {a}) j3 j4" using j4 pre by (auto simp: settles_def elim!: safely_mono intro: between_mono)
  then have "safely (between pf {rs} gs gs' {a}) j3 j5" by (simp add: safely_def j5_def)
  then have safe: "safely (between pf {rs} gs gs' {a}) ?j j6" using s s6 by (blast intro: safely_trans)
  have "journal_ok pf rs gs' a j6"
    using j6 cap assms(3) by (auto simp: journal_ok_def settles_def same_settings_def j5_def seq_def)
  then show ?thesis using run pre safe j6 cap by (auto simp: settles_def same_settings_def)
qed

end
