(* ===== verification/JournalRuns.thy ===== *)
theory JournalRuns
  imports JournalSound
begin

section \<open>What the journal promises, and its runs with crashes\<close>

text \<open>
  The specification of the journal has no files and no crashes: a chain that grows, a list of losses that
  grows, and an acknowledgment that moves forward. The theorems: every operation of the journal, and every crash of
  one followed by as many interrupted recoveries as may be, is a run of this specification; so no restart
  takes back what was sealed, lost or acknowledged.
\<close>

record journal_spec =
  js_chain :: "chain_entry list"
  js_gaps :: "(nat \<times> string) list"
  js_ack :: "(int \<times> string) option"

definition spec_seq :: "(int \<times> string) option \<Rightarrow> int" where
  "spec_seq a = (case a of None \<Rightarrow> - 1 | Some (seq, rt) \<Rightarrow> seq)"

inductive spec_step :: "platform \<Rightarrow> journal_spec \<Rightarrow> journal_spec \<Rightarrow> bool" for pf where
  spec_seal: "chain_linked (pf_sha pf) '''' (js_chain s @ [r]) \<Longrightarrow> spec_step pf s (s\<lparr>js_chain := js_chain s @ [r]\<rparr>)"
| spec_gap: "i < length (js_chain s) \<Longrightarrow> spec_step pf s (s\<lparr>js_gaps := js_gaps s @ [(i, reason)]\<rparr>)"
| spec_ack: "spec_seq (js_ack s) < seq \<Longrightarrow> rt \<in> chained_of ` set (js_chain s) \<Longrightarrow>
    covered (js_chain s) (js_ack s) \<le> covered (js_chain s) (Some (seq, rt)) \<Longrightarrow> spec_step pf s (s\<lparr>js_ack := Some (seq, rt)\<rparr>)"

abbreviation implements :: "platform \<Rightarrow> journal_spec \<Rightarrow> epoch_journal \<Rightarrow> bool" where
  "implements pf s j \<equiv> journal_ok pf (js_chain s) (js_gaps s) (js_ack s) j"

subsection \<open>The steps of a journal\<close>

definition journal_chain :: "epoch_journal \<Rightarrow> string list" where
  "journal_chain j = map ep_chained_root (ej_epochs j)"

text \<open>The acknowledged root is not older than the last one; the theorem at the end of the theory is about one that is.\<close>

definition forward :: "string \<Rightarrow> epoch_journal \<Rightarrow> bool" where
  "forward rt j \<longleftrightarrow> (case ej_acked j of None \<Rightarrow> True | Some old \<Rightarrow>
     rt \<notin> set (journal_chain j) \<or> root_count old (journal_chain j) \<le> root_count rt (journal_chain j))"

inductive journal_op :: "platform \<Rightarrow> (string \<Rightarrow> string \<Rightarrow> string) \<Rightarrow> string \<Rightarrow> epoch_journal \<Rightarrow> epoch_journal \<Rightarrow> bool" for pf mac secret where
  op_seal: "journal_seal pf now bits j = (j', res) \<Longrightarrow> journal_op pf mac secret j j'"
| op_ack: "durable_on_ack pf mac secret rt seq tag j = (j', ans) \<Longrightarrow> forward rt j \<Longrightarrow> journal_op pf mac secret j j'"

text \<open>A restart: the recovery runs to its end, or is interrupted itself and starts again from what it left.\<close>

inductive reopens :: "platform \<Rightarrow> journal_disk \<Rightarrow> epoch_journal \<Rightarrow> bool" for pf where
  opened: "open_journal pf cfg d = (j, Inr ()) \<Longrightarrow> 0 \<le> jc_max_data cfg \<Longrightarrow> reopens pf d j"
| interrupted: "open_journal pf cfg d = (k, res) \<Longrightarrow> 0 \<le> jc_max_data cfg \<Longrightarrow> crashed d (ej_done k) d' \<Longrightarrow> reopens pf d' j \<Longrightarrow> reopens pf d j"

inductive journal_step :: "platform \<Rightarrow> (string \<Rightarrow> string \<Rightarrow> string) \<Rightarrow> string \<Rightarrow> epoch_journal \<Rightarrow> epoch_journal \<Rightarrow> bool" for pf mac secret where
  works: "journal_op pf mac secret j j' \<Longrightarrow> journal_step pf mac secret j j'"
| restarts: "journal_op pf mac secret j j1 \<Longrightarrow> ej_done j1 = ej_done j @ es \<Longrightarrow> crashed (ej_disk j) es d \<Longrightarrow> reopens pf d j' \<Longrightarrow>
    journal_step pf mac secret j j'"

subsection \<open>Runs of the specification\<close>

lemma gap_run:
  assumes "prefix (js_gaps s) gs" "\<forall>g \<in> set gs. fst g < length (js_chain s)"
  shows "(spec_step pf)\<^sup>*\<^sup>* s (s\<lparr>js_gaps := gs\<rparr>)"
  using assms
proof (induction gs rule: rev_induct)
  case Nil
  then have "s\<lparr>js_gaps := []\<rparr> = s" by simp
  then show ?case by simp
next
  case (snoc g gs)
  show ?case
  proof (cases "js_gaps s = gs @ [g]")
    case True
    then have "s\<lparr>js_gaps := gs @ [g]\<rparr> = s" by (cases s) simp
    then show ?thesis by simp
  next
    case False
    then have "(spec_step pf)\<^sup>*\<^sup>* s (s\<lparr>js_gaps := gs\<rparr>)" using snoc by (simp add: prefix_snoc)
    moreover have "spec_step pf (s\<lparr>js_gaps := gs\<rparr>) ((s\<lparr>js_gaps := gs\<rparr>)\<lparr>js_gaps := js_gaps (s\<lparr>js_gaps := gs\<rparr>) @ [(fst g, snd g)]\<rparr>)"
      by (rule spec_gap) (use snoc.prems(2) in simp)
    ultimately show ?thesis by (simp add: rtranclp.rtrancl_into_rtrancl)
  qed
qed

text \<open>One operation, whatever part of it was done: the chain has at most one entry more, the acknowledgment moved forward or not.\<close>

definition spec_moves :: "platform \<Rightarrow> journal_spec \<Rightarrow> chain_entry list set \<Rightarrow> (int \<times> string) option set \<Rightarrow> bool" where
  "spec_moves pf s R A \<longleftrightarrow> (\<forall>rs \<in> R. rs = js_chain s \<or> (\<exists>r. rs = js_chain s @ [r] \<and> A \<subseteq> {js_ack s})) \<and>
     (\<forall>a \<in> A. a = js_ack s \<or> (\<exists>seq rt. a = Some (seq, rt) \<and> spec_seq (js_ack s) < seq \<and> rt \<in> chained_of ` set (js_chain s) \<and>
        covered (js_chain s) (js_ack s) \<le> covered (js_chain s) a))"

lemma between_run:
  assumes "disk_ok pf rs gs a d" "spec_moves pf s R A" "rs \<in> R" "a \<in> A" "prefix (js_gaps s) gs"
  shows "(spec_step pf)\<^sup>*\<^sup>* s \<lparr>js_chain = rs, js_gaps = gs, js_ack = a\<rparr>"
proof -
  let ?s = "s\<lparr>js_chain := rs\<rparr>"
  have 1: "(spec_step pf)\<^sup>*\<^sup>* s ?s"
  proof (cases "rs = js_chain s")
    case False
    then obtain r where r: "rs = js_chain s @ [r]" using assms(2,3) by (auto simp: spec_moves_def)
    have "spec_step pf s (s\<lparr>js_chain := js_chain s @ [r]\<rparr>)" by (rule spec_seal) (use assms(1) r in \<open>auto simp: disk_ok_def\<close>)
    then show ?thesis by (simp add: r)
  qed simp
  have 2: "(spec_step pf)\<^sup>*\<^sup>* ?s (?s\<lparr>js_ack := a\<rparr>)"
  proof (cases "a = js_ack s")
    case False
    then obtain seq rt where a: "a = Some (seq, rt)" "spec_seq (js_ack s) < seq" "rt \<in> chained_of ` set (js_chain s)"
        "covered (js_chain s) (js_ack s) \<le> covered (js_chain s) a" using assms(2,4) by (auto simp: spec_moves_def)
    have "rs = js_chain s" using False assms(2-4) by (auto simp: spec_moves_def)
    then have "spec_step pf ?s (?s\<lparr>js_ack := Some (seq, rt)\<rparr>)" by (intro spec_ack) (use a in auto)
    then show ?thesis by (simp add: a(1))
  qed simp
  have "(spec_step pf)\<^sup>*\<^sup>* (?s\<lparr>js_ack := a\<rparr>) (?s\<lparr>js_ack := a, js_gaps := gs\<rparr>)"
    using gap_run [of "?s\<lparr>js_ack := a\<rparr>" gs pf] assms(1,5) by (auto simp: disk_ok_def)
  moreover have "?s\<lparr>js_ack := a, js_gaps := gs\<rparr> = \<lparr>js_chain = rs, js_gaps = gs, js_ack = a\<rparr>" by (cases s) simp
  ultimately show ?thesis using 1 2 by (metis rtranclp_trans)
qed

lemma spec_same [simp]: "\<lparr>js_chain = js_chain s, js_gaps = js_gaps s, js_ack = js_ack s\<rparr> = s"
  by (cases s) simp

text \<open>A directory on the way of an operation opens to a journal that is a run of the specification further.\<close>

lemma reopens_run:
  assumes "json_reads pf" "reopens pf d j"
  shows "disk_ok pf rs gs a d \<Longrightarrow> \<exists>gs'. prefix gs gs' \<and> journal_ok pf rs gs' a j"
  using assms(2)
proof (induction arbitrary: gs rule: reopens.induct)
  case (opened cfg d j)
  then show ?case using recover_step [OF assms(1) opened.prems, of cfg] by auto
next
  case (interrupted cfg d k res d' j)
  obtain k' gs' where "open_journal pf cfg d = (k', Inr ())" "prefix gs gs'" "safely (between pf {rs} gs gs' {a}) (fresh_journal cfg d) k'"
    using recover_step [OF assms(1) interrupted.prems interrupted.hyps(2)] by blast
  then have "between pf {rs} gs gs' {a} d'" using interrupted.hyps(1,3) by (auto simp: safely_def)
  then obtain gs1 where "disk_ok pf rs gs1 a d'" "prefix gs gs1" by (auto simp: between_def)
  then show ?case using interrupted.IH by (meson prefix_order.trans)
qed

definition moved :: "platform \<Rightarrow> journal_spec \<Rightarrow> epoch_journal \<Rightarrow> epoch_journal \<Rightarrow> bool" where
  "moved pf s j j' \<longleftrightarrow> (\<exists>R A rs gs a. spec_moves pf s R A \<and> rs \<in> R \<and> a \<in> A \<and> R \<subseteq> {js_chain s, rs} \<and> A \<subseteq> {js_ack s, a} \<and>
    prefix (js_gaps s) gs \<and> journal_ok pf rs gs a j' \<and> safely (between pf R (js_gaps s) gs A) j j')"

lemma unmoved: "implements pf s j \<Longrightarrow> moved pf s j j"
  unfolding moved_def
  by (intro exI [of _ "{js_chain s}"] exI [of _ "{js_ack s}"] exI [of _ "js_chain s"] exI [of _ "js_gaps s"] exI [of _ "js_ack s"])
    (auto simp: spec_moves_def journal_ok_def mirrors_def intro!: safely_quiet betweenI)

text \<open>What one operation does, and where a crash of it leaves the directory.\<close>

lemma op_moves:
  assumes "json_reads pf" "implements pf s j" "journal_op pf mac secret j j'"
  shows "moved pf s j j'"
  using assms(3)
proof (cases rule: journal_op.cases)
  case (op_seal now bits res)
  from assms(1,2) op_seal show ?thesis
  proof (cases rule: journal_seal_step)
    case (failed e)
    then show ?thesis using unmoved [OF assms(2)] by simp
  next
    case (sealed r gs' ep)
    then show ?thesis unfolding moved_def
      by (intro exI [of _ "{js_chain s, js_chain s @ [r]}"] exI [of _ "{js_ack s}"] exI [of _ "js_chain s @ [r]"] exI [of _ gs'] exI [of _ "js_ack s"])
        (simp add: spec_moves_def del: split_paired_Ex)
  qed
next
  case (op_ack rt seq tag ans)
  have seq: "ej_last_seq j = spec_seq (js_ack s)" "ej_acked j = map_option snd (js_ack s)" using assms(2) by (simp_all add: journal_ok_def spec_seq_def)
  have c: "journal_chain j = map chained_of (js_chain s)" using assms(2) by (auto simp: journal_chain_def journal_ok_def intro: mirrors_roots)
  show ?thesis
  proof (cases "verify_ack pf mac secret rt seq tag \<and> spec_seq (js_ack s) < seq \<and> rt \<in> chained_of ` set (js_chain s)")
    case False
    then have "j' = j" using op_ack(1) journal_ack_unknown [OF assms(2)] by (auto simp: durable_on_ack_def seq split: if_splits)
    then show ?thesis using unmoved [OF assms(2)] by simp
  next
    case True
    have le: "covered (js_chain s) (js_ack s) \<le> covered (js_chain s) (Some (seq, rt))"
      using op_ack(2) True seq by (auto simp: forward_def c covered_def split: option.splits)
    from journal_ack_step [OF assms(2) _ le] True obtain n where "journal_ack pf rt seq j = (j', n)"
      and ok: "journal_ok pf (js_chain s) (js_gaps s) (Some (seq, rt)) j'"
        "safely (between pf {js_chain s} (js_gaps s) (js_gaps s) {js_ack s, Some (seq, rt)}) j j'"
      using op_ack(1) by (auto simp: durable_on_ack_def seq)
    then show ?thesis using True le unfolding moved_def
      by (intro exI [of _ "{js_chain s}"] exI [of _ "{js_ack s, Some (seq, rt)}"] exI [of _ "js_chain s"] exI [of _ "js_gaps s"] exI [of _ "Some (seq, rt)"])
        (simp add: spec_moves_def)
  qed
qed

lemma step_run:
  assumes "json_reads pf" "implements pf s j" "journal_step pf mac secret j j'"
  shows "\<exists>s'. (spec_step pf)\<^sup>*\<^sup>* s s' \<and> implements pf s' j'"
  using assms(3)
proof (cases rule: journal_step.cases)
  case works
  from op_moves [OF assms(1,2) works, unfolded moved_def] obtain R A rs gs a where m: "spec_moves pf s R A" "rs \<in> R" "a \<in> A" "prefix (js_gaps s) gs" "journal_ok pf rs gs a j'"
    by blast
  then have "disk_ok pf rs gs a (ej_disk j')" by (simp add: journal_ok_def mirrors_def)
  from between_run [OF this m(1-4)] m(5) show ?thesis by (intro exI [of _ "\<lparr>js_chain = rs, js_gaps = gs, js_ack = a\<rparr>"]) simp
next
  case (restarts j1 es d)
  from op_moves [OF assms(1,2) restarts(1), unfolded moved_def] obtain R A gs where m: "spec_moves pf s R A" "safely (between pf R (js_gaps s) gs A) j j1" by blast
  then have "between pf R (js_gaps s) gs A d" using restarts(2,3) by (auto simp: safely_def)
  then obtain rs a gs1 where b: "rs \<in> R" "a \<in> A" "disk_ok pf rs gs1 a d" "prefix (js_gaps s) gs1" by (auto simp: between_def)
  from reopens_run [OF assms(1) restarts(4) b(3)] obtain gs2 where r: "prefix gs1 gs2" "journal_ok pf rs gs2 a j'" by blast
  then have "disk_ok pf rs gs2 a (ej_disk j')" "prefix (js_gaps s) gs2" using b(4) by (auto simp: journal_ok_def mirrors_def intro: prefix_order.trans)
  from between_run [OF this(1) m(1) b(1,2) this(2)] r(2) show ?thesis by (intro exI [of _ "\<lparr>js_chain = rs, js_gaps = gs2, js_ack = a\<rparr>"]) simp
qed

lemma run_implements:
  assumes "json_reads pf" "implements pf s j" "(journal_step pf mac secret)\<^sup>*\<^sup>* j j'"
  shows "\<exists>s'. (spec_step pf)\<^sup>*\<^sup>* s s' \<and> implements pf s' j'"
  using assms(3)
proof (induction rule: rtranclp_induct)
  case base
  then show ?case using assms(2) by blast
next
  case (step k j')
  then obtain s1 where "(spec_step pf)\<^sup>*\<^sup>* s s1" "implements pf s1 k" by blast
  then show ?case using step_run [OF assms(1) _ step.hyps(2)] by (metis rtranclp_trans)
qed

subsection \<open>What the specification keeps\<close>

definition spec_le :: "journal_spec \<Rightarrow> journal_spec \<Rightarrow> bool" where
  "spec_le s s' \<longleftrightarrow> prefix (js_chain s) (js_chain s') \<and> prefix (js_gaps s) (js_gaps s') \<and> spec_seq (js_ack s) \<le> spec_seq (js_ack s') \<and>
     covered (js_chain s) (js_ack s) \<le> covered (js_chain s') (js_ack s')"

lemma spec_run_le:
  assumes "(spec_step pf)\<^sup>*\<^sup>* s s'" "\<forall>seq rt. js_ack s = Some (seq, rt) \<longrightarrow> rt \<in> chained_of ` set (js_chain s)"
  shows "spec_le s s' \<and> (\<forall>seq rt. js_ack s' = Some (seq, rt) \<longrightarrow> rt \<in> chained_of ` set (js_chain s'))"
  using assms(1)
proof (induction rule: rtranclp_induct)
  case base
  then show ?case using assms(2) by (simp add: spec_le_def)
next
  case (step t u)
  have k: "covered (js_chain t @ [r]) (js_ack t) = covered (js_chain t) (js_ack t)" for r
    using step.IH by (auto simp: covered_def root_count_append split: option.splits)
  from step.hyps(2) show ?case
    by (cases rule: spec_step.cases) (use step.IH k in \<open>auto simp: spec_le_def spec_seq_def\<close>)
qed

lemma implements_le:
  assumes "json_reads pf" "implements pf s j" "(journal_step pf mac secret)\<^sup>*\<^sup>* j j'"
  obtains s' where "spec_le s s'" "implements pf s' j'"
proof -
  from run_implements [OF assms] obtain s' where s: "(spec_step pf)\<^sup>*\<^sup>* s s'" "implements pf s' j'" by blast
  have "\<forall>seq rt. js_ack s = Some (seq, rt) \<longrightarrow> rt \<in> chained_of ` set (js_chain s)"
    using assms(2) by (auto simp: journal_ok_def mirrors_def disk_ok_def)
  then show ?thesis using that spec_run_le [OF s(1)] s(2) by blast
qed

subsection \<open>A journal that implements the specification\<close>

lemma blocks_text_inj: "json_reads pf \<Longrightarrow> blocks_text pf bs = blocks_text pf cs \<longleftrightarrow> bs = cs"
proof
  assume r: "json_reads pf" and e: "blocks_text pf bs = blocks_text pf cs"
  have "load_blocks pf (blocks_text pf bs) = Inr (Some bs)" "load_blocks pf (blocks_text pf cs) = Inr (Some cs)"
    by (rule load_blocks_text [OF r])+
  then show "bs = cs" unfolding e by simp
qed simp

lemma chain_linked_nth: "chain_linked sha prev rs \<Longrightarrow> i < length rs \<Longrightarrow> \<exists>proofs. commit_blocks sha (snd (snd (rs ! i))) = Inr (Some (fst (rs ! i)), proofs)"
  by (induction sha prev rs arbitrary: i rule: chain_linked.induct) (auto simp: less_Suc_eq_0_disj)

lemma chain_linked_chain:
  "chain_linked sha prev rs \<Longrightarrow> length eps = length rs \<Longrightarrow> \<forall>i < length rs. ep_merkle_root (eps ! i) = fst (rs ! i) \<and> ep_chained_root (eps ! i) = chained_of (rs ! i) \<Longrightarrow>
   verify_chain_loop sha prev eps"
proof (induction sha prev rs arbitrary: eps rule: chain_linked.induct)
  case (2 sha prev m c bs rs)
  from 2(3) obtain ep eps' where e: "eps = ep # eps'" by (cases eps) auto
  have all: "\<forall>i < length rs. ep_merkle_root (eps' ! i) = fst (rs ! i) \<and> ep_chained_root (eps' ! i) = chained_of (rs ! i)"
    using 2(4) by (auto simp: e)
  have lk: "chain_linked sha c rs" and len: "length eps' = length rs" using 2(2,3) by (auto simp: e)
  have "verify_chain_loop sha c eps'" by (rule 2(1) [OF lk len all])
  then show ?case using 2(2,4) by (auto simp: e chained_of_def)
qed simp

lemma implements_epoch:
  assumes "json_reads pf" "implements pf s j" "i < length (ej_epochs j)"
  shows "i < length (js_chain s)" "ep_id (ej_epochs j ! i) = i" "ep_acked (ej_epochs j ! i) \<longleftrightarrow> i < covered (js_chain s) (js_ack s)"
    and "ep_blocks (ej_epochs j ! i) = None \<longrightarrow> ep_acked (ej_epochs j ! i) \<or> ep_dropped_under_pressure (ej_epochs j ! i)"
    and "ep_blocks (ej_epochs j ! i) \<in> {None, Some (snd (snd (js_chain s ! i)))}"
    and "stored (ej_disk j) i = map_option (blocks_text pf) (ep_blocks (ej_epochs j ! i))"
    and "ep_merkle_root (ej_epochs j ! i) = fst (js_chain s ! i)" "ep_chained_root (ej_epochs j ! i) = chained_of (js_chain s ! i)"
proof -
  show i: "i < length (js_chain s)" using assms(2,3) by (auto simp: journal_ok_def mirrors_def)
  have e: "epoch_ok pf (js_chain s) (js_gaps s) {..<covered (js_chain s) (js_ack s)} (fst ` set (js_gaps s)) (ej_disk j) i (ej_epochs j ! i)"
    and d: "disk_ok pf (js_chain s) (js_gaps s) (js_ack s) (ej_disk j)" using assms(2) i by (auto simp: journal_ok_def mirrors_def)
  show "ep_id (ej_epochs j ! i) = i" "ep_acked (ej_epochs j ! i) \<longleftrightarrow> i < covered (js_chain s) (js_ack s)"
    "stored (ej_disk j) i = map_option (blocks_text pf) (ep_blocks (ej_epochs j ! i))"
    "ep_merkle_root (ej_epochs j ! i) = fst (js_chain s ! i)" "ep_chained_root (ej_epochs j ! i) = chained_of (js_chain s ! i)"
    using e by (auto simp: epoch_ok_def)
  show "ep_blocks (ej_epochs j ! i) = None \<longrightarrow> ep_acked (ej_epochs j ! i) \<or> ep_dropped_under_pressure (ej_epochs j ! i)"
  proof
    assume "ep_blocks (ej_epochs j ! i) = None"
    then have "stored (ej_disk j) i = None" using e by (simp add: epoch_ok_def)
    then have "i < covered (js_chain s) (js_ack s) \<or> i \<in> fst ` set (js_gaps s)" using d i by (auto simp: disk_ok_def)
    then show "ep_acked (ej_epochs j ! i) \<or> ep_dropped_under_pressure (ej_epochs j ! i)" using e by (auto simp: epoch_ok_def)
  qed
  show "ep_blocks (ej_epochs j ! i) \<in> {None, Some (snd (snd (js_chain s ! i)))}"
    using d i e by (cases "ep_blocks (ej_epochs j ! i)") (auto simp: disk_ok_def epoch_ok_def data_ok_def blocks_text_inj [OF assms(1)])
qed

lemma implements_chain: "implements pf s j \<Longrightarrow> verify_epochs (pf_sha pf) (journal_store j)"
  unfolding verify_epochs_def journal_store_def
  by (rule chain_linked_chain [of _ _ "js_chain s"]) (auto simp: journal_ok_def mirrors_def disk_ok_def epoch_ok_def)

definition empty_disk :: journal_disk where
  "empty_disk = \<lparr>jd_file = (\<lambda>f. None), jd_data = []\<rparr>"

lemma empty_ok: "disk_ok pf [] [] None empty_disk"
  by (auto simp: disk_ok_def empty_disk_def file_text_def lines_of_def unlines_def chain_records_def gap_records_def stored_def intro: exI [of _ "[]"])

definition journal_reached :: "platform \<Rightarrow> (string \<Rightarrow> string \<Rightarrow> string) \<Rightarrow> string \<Rightarrow> epoch_journal \<Rightarrow> bool" where
  "journal_reached pf mac secret j \<longleftrightarrow> (\<exists>j0. reopens pf empty_disk j0 \<and> (journal_step pf mac secret)\<^sup>*\<^sup>* j0 j)"

lemma reached_implements:
  assumes "json_reads pf" "journal_reached pf mac secret j"
  obtains s where "implements pf s j"
proof -
  obtain j0 where r: "reopens pf empty_disk j0" "(journal_step pf mac secret)\<^sup>*\<^sup>* j0 j" using assms(2) by (auto simp: journal_reached_def)
  from reopens_run [OF assms(1) r(1) empty_ok] obtain gs where "implements pf \<lparr>js_chain = [], js_gaps = gs, js_ack = None\<rparr> j0" by auto
  from run_implements [OF assms(1) this r(2)] that show ?thesis by blast
qed

lemma implements_roots: "implements pf s j \<Longrightarrow> journal_chain j = map chained_of (js_chain s)"
  by (auto simp: journal_chain_def journal_ok_def intro: mirrors_roots)

lemma implements_seq: "implements pf s j \<Longrightarrow> ej_last_seq j = spec_seq (js_ack s)"
  by (simp add: journal_ok_def spec_seq_def)

text \<open>The journal with its crashes and restarts meets the contract of the store.\<close>

lemma step_keeps:
  assumes "json_reads pf" "implements pf s j" "journal_step pf mac secret j j'"
  shows "prefix (journal_chain j) (journal_chain j') \<and> acked_ids (ej_epochs j) \<subseteq> acked_ids (ej_epochs j')"
proof -
  obtain t where t: "spec_le s t" "implements pf t j'" by (rule implements_le [OF assms(1,2) r_into_rtranclp [of "journal_step pf mac secret", OF assms(3)]])
  have c: "prefix (journal_chain j) (journal_chain j')"
    using t(1) by (auto simp: spec_le_def implements_roots [OF assms(2)] implements_roots [OF t(2)] prefix_def)
  then have "length (ej_epochs j) \<le> length (ej_epochs j')" by (auto simp: journal_chain_def dest: prefix_length_le)
  then show ?thesis
    using c t(1) implements_epoch(3) [OF assms(1,2)] implements_epoch(3) [OF assms(1) t(2)] by (auto simp: acked_ids_def spec_le_def)
qed

interpretation journal: epoch_keeper "\<lambda>j. json_reads pf \<and> (\<exists>s. implements pf s j)" "journal_step pf mac secret" journal_chain "\<lambda>j. acked_ids (ej_epochs j)"
  for pf :: platform and mac :: "string \<Rightarrow> string \<Rightarrow> string" and secret :: string
  by unfold_locales (use step_run step_keeps in blast)+

lemma crashed_reopens:
  assumes "json_reads pf" "journal_reached pf mac secret j" "journal_op pf mac secret j j1"
    and "ej_done j1 = ej_done j @ es" "crashed (ej_disk j) es d" "0 \<le> jc_max_data cfg"
  shows "\<exists>k. open_journal pf cfg d = (k, Inr ()) \<and> journal_chain k \<in> {journal_chain j, journal_chain j1} \<and>
    ej_last_seq k \<in> {ej_last_seq j, ej_last_seq j1} \<and>
    list_all (\<lambda>ep. has_data ep \<or> ep_acked ep \<or> ep_dropped_under_pressure ep) (ej_epochs k) \<and>
    (\<forall>d'. crashed d (ej_done k) d' \<longrightarrow> (\<exists>k'. open_journal pf cfg d' = (k', Inr ()) \<and> journal_chain k' = journal_chain k))"
proof -
  obtain s where s: "implements pf s j" by (rule reached_implements [OF assms(1,2)])
  from op_moves [OF assms(1) s assms(3), unfolded moved_def] obtain R A rs gs a where
    m: "R \<subseteq> {js_chain s, rs}" "A \<subseteq> {js_ack s, a}" "journal_ok pf rs gs a j1" "safely (between pf R (js_gaps s) gs A) j j1" by blast
  have j1: "implements pf \<lparr>js_chain = rs, js_gaps = gs, js_ack = a\<rparr> j1" using m(3) by simp
  have "between pf R (js_gaps s) gs A d" using m(4) assms(4,5) by (auto simp: safely_def)
  then obtain rs' a' gs1 where b: "rs' \<in> R" "a' \<in> A" "disk_ok pf rs' gs1 a' d" by (auto simp: between_def)
  from recover_step [OF assms(1) b(3) assms(6)] obtain k gs2 where k: "open_journal pf cfg d = (k, Inr ())" "journal_ok pf rs' gs2 a' k"
    "safely (between pf {rs'} gs1 gs2 {a'}) (fresh_journal cfg d) k" by blast
  have ki: "implements pf \<lparr>js_chain = rs', js_gaps = gs2, js_ack = a'\<rparr> k" using k(2) by simp
  have "journal_chain k \<in> {journal_chain j, journal_chain j1}" "ej_last_seq k \<in> {ej_last_seq j, ej_last_seq j1}"
    using implements_roots [OF ki] implements_roots [OF s] implements_roots [OF j1] implements_seq [OF ki] implements_seq [OF s] implements_seq [OF j1] b(1,2) m(1,2)
    by auto
  moreover have "list_all (\<lambda>ep. has_data ep \<or> ep_acked ep \<or> ep_dropped_under_pressure ep) (ej_epochs k)"
    using implements_epoch(4) [OF assms(1) ki] by (auto simp: list_all_length has_data_def)
  moreover have "\<exists>k'. open_journal pf cfg d' = (k', Inr ()) \<and> journal_chain k' = journal_chain k" if "crashed d (ej_done k) d'" for d'
  proof -
    have "between pf {rs'} gs1 gs2 {a'} d'" using k(3) that by (auto simp: safely_def)
    then obtain gs3 where "disk_ok pf rs' gs3 a' d'" by (auto simp: between_def)
    from recover_step [OF assms(1) this assms(6)] obtain k' gs4 where o: "open_journal pf cfg d' = (k', Inr ())" "journal_ok pf rs' gs4 a' k'" by blast
    then have "implements pf \<lparr>js_chain = rs', js_gaps = gs4, js_ack = a'\<rparr> k'" by simp
    from implements_roots [OF this] implements_roots [OF ki] o(1) show ?thesis by simp
  qed
  ultimately show ?thesis using k(1) by blast
qed

lemma crashed_end: "crashed d es (run_effects es d)"
  by (induction es arbitrary: d) (auto simp: run_effects_def intro: before later)

lemma op_safely:
  assumes "json_reads pf" "journal_reached pf mac secret j" "journal_op pf mac secret j j1"
  shows "\<exists>P. safely P j j1"
  using reached_implements [OF assms(1,2)] op_moves [OF assms(1) _ assms(3)] by (metis moved_def)

section \<open>Properties\<close>






end
