(* ===== verification/JournalStore.thy ===== *)
theory JournalStore
  imports JournalRuns
begin

section \<open>The journal in memory is the epoch store\<close>

text \<open>
  The module promises to keep \<open>the same objects\<close> as the store in memory. The theorems here say so operation by operation:
  without a cap on the bytes, sealing and acknowledging do to the epochs of the journal what the store of \<open>epochs.py\<close> does, errors
  included, and the two caps hold after every seal and every start.
\<close>

fun data_from :: "nat \<Rightarrow> epoch list \<Rightarrow> nat list" where
  "data_from k [] = []"
| "data_from k (ep # eps) = (if has_data ep then k # data_from (Suc k) eps else data_from (Suc k) eps)"

lemma filter_positions: "filter (\<lambda>p. has_data ((pre @ eps) ! p)) [length pre..<length pre + length eps] = data_from (length pre) eps"
proof (induction eps arbitrary: pre)
  case (Cons ep eps)
  have u: "[length pre..<Suc (length pre + length eps)] = length pre # [Suc (length pre)..<Suc (length pre + length eps)]"
    by (subst upt_conv_Cons) auto
  show ?case using Cons.IH [of "pre @ [ep]"] by (simp add: u del: upt_Suc)
qed simp

lemma with_data_from: "with_data j = data_from 0 (ej_epochs j)"
  using filter_positions [of "[]"] by (simp add: with_data_def)

text \<open>The first position with data is the victim of the store's loop.\<close>

lemma data_from_first:
  "data_from k eps = p # ps \<Longrightarrow> k \<le> p \<and> p < k + length eps \<and> eps[p - k := drop_epoch (eps ! (p - k))] = drop_oldest eps \<and> data_from k (drop_oldest eps) = ps"
proof (induction eps arbitrary: k)
  case (Cons ep eps)
  show ?case
  proof (cases "has_data ep")
    case True
    have "\<not> has_data (drop_epoch ep)" by (simp add: drop_epoch_def has_data_def)
    then show ?thesis using Cons.prems True by auto
  next
    case False
    then have "data_from (Suc k) eps = p # ps" using Cons.prems by simp
    from Cons.IH [OF this] obtain q where "p = Suc (k + q)" by (metis add_Suc le_Suc_ex)
    with Cons.IH [OF \<open>data_from (Suc k) eps = p # ps\<close>] False show ?thesis by simp
  qed
qed simp

lemma data_from_length: "length (data_from k eps) = length (filter has_data eps)"
  by (induction eps arbitrary: k) auto

lemma drop_epochs: "p < length (ej_epochs j) \<Longrightarrow> ej_epochs (drop_under_pressure pf p j) = (ej_epochs j)[p := drop_epoch (ej_epochs j ! p)]"
  by (simp add: drop_under_pressure_def remove_data_def append_line_def drop_epoch_def Let_def)

lemma drop_settings: "same_settings j (drop_under_pressure pf p j)"
  by (simp add: drop_under_pressure_def remove_data_def append_line_def update_epoch_def same_settings_def Let_def)

lemma drop_first:
  assumes "with_data j = p # ps"
  shows "ej_epochs (drop_under_pressure pf p j) = drop_oldest (ej_epochs j)" "with_data (drop_under_pressure pf p j) = ps"
    and "filter has_data (ej_epochs j) \<noteq> []"
proof -
  from data_from_first [OF assms [unfolded with_data_from]] have d: "p < length (ej_epochs j)"
    "(ej_epochs j)[p := drop_epoch (ej_epochs j ! p)] = drop_oldest (ej_epochs j)" "data_from 0 (drop_oldest (ej_epochs j)) = ps" by simp_all
  then show "ej_epochs (drop_under_pressure pf p j) = drop_oldest (ej_epochs j)" by (simp add: drop_epochs)
  then show "with_data (drop_under_pressure pf p j) = ps" using d(3) by (simp add: with_data_from)
  show "filter has_data (ej_epochs j) \<noteq> []" using assms data_from_length [of 0 "ej_epochs j"] by (auto simp: with_data_from)
qed

lemma shed_count_loop:
  "with_data j = ps \<Longrightarrow> cap_loop (length ps) (ej_max_data j) (ej_epochs j) = (case shed_count pf ps j of (j', Inl e) \<Rightarrow> Inl e | (j', Inr qs) \<Rightarrow> Inr (ej_epochs j')) \<and>
   same_settings j (fst (shed_count pf ps j)) \<and>
   (\<forall>qs. snd (shed_count pf ps j) = Inr qs \<longrightarrow> with_data (fst (shed_count pf ps j)) = qs \<and> int (length qs) \<le> ej_max_data j)"
proof (induction ps arbitrary: j)
  case Nil
  then show ?case by (subst cap_loop.simps) auto
next
  case (Cons p ps)
  let ?j = "drop_under_pressure pf p j"
  have m: "ej_max_data ?j = ej_max_data j" using drop_settings [of j pf p] by (simp add: same_settings_def)
  show ?case
  proof (cases "int (length (p # ps)) > ej_max_data j")
    case True
    have "cap_loop (length (p # ps)) (ej_max_data j) (ej_epochs j) = cap_loop (length ps) (ej_max_data j) (ej_epochs ?j)"
      using True by (subst cap_loop.simps) (simp add: drop_first(1) [OF Cons.prems])
    then show ?thesis
      using Cons.IH [OF drop_first(2) [OF Cons.prems, of pf]] True m by (auto intro: same_settings_trans [OF drop_settings])
  next
    case False
    then show ?thesis using Cons.prems by (subst cap_loop.simps) auto
  qed
qed

lemma enforce_store:
  assumes "ej_max_bytes j = None" "enforce_caps pf j = (j', res)"
  shows "enforce_cap (journal_store j) = (case res of Inl e \<Rightarrow> Inl e | Inr u \<Rightarrow> Inr (journal_store j'))" "same_settings j j'"
proof -
  obtain j1 r where s: "shed_count pf (with_data j) j = (j1, r)" by fastforce
  note c = shed_count_loop [OF refl, of j pf, unfolded s]
  then have b: "same_settings j j1" by simp
  have l: "length (with_data j) = length (filter has_data (ej_epochs j))" by (simp add: with_data_from data_from_length)
  show "enforce_cap (journal_store j) = (case res of Inl e \<Rightarrow> Inl e | Inr u \<Rightarrow> Inr (journal_store j'))" "same_settings j j'"
    using assms s b c by (auto simp: enforce_caps_def enforce_cap_def journal_store_def l same_settings_def split: sum.splits)
qed

lemma sign_seal_quiet: "\<exists>j'. sign_seal pf now chained j = (j', Inr ()) \<and> ej_epochs j' = ej_epochs j \<and> same_settings j j'"
  by (auto simp: sign_seal_def sign_root_eq Let_def append_line_def same_settings_def split: option.splits)

lemma seal_store:
  assumes "ej_max_bytes j = None" "journal_seal pf now bits j = (j', res)"
  shows "seal (pf_sha pf) (journal_store j) bits = (case res of Inl e \<Rightarrow> Inl e | Inr ep \<Rightarrow> Inr (journal_store j', ep))"
proof (cases "ebind (chunk bits (ej_block_bits j)) (\<lambda>blocks. ebind (commit_blocks (pf_sha pf) blocks) (\<lambda>(rt, proofs).
       case rt of None \<Rightarrow> Inl TypeError | Some merkle \<Rightarrow> Inr (blocks, merkle)))")
  case (Inl e)
  then show ?thesis using assms(2)
    by (auto simp: journal_seal_def seal_def journal_store_def ebind_eq_Inl split: option.splits)
next
  case (Inr bm)
  obtain bs merkle where bm: "bm = (bs, merkle)" by (cases bm)
  then obtain proofs where cm: "chunk bits (ej_block_bits j) = Inr bs" "commit_blocks (pf_sha pf) bs = Inr (Some merkle, proofs)"
    using Inr by (auto simp: ebind_eq_Inr split: option.splits)
  define data where "data = blocks_text pf bs"
  define chained where "chained = chain_root (pf_sha pf) (if ej_epochs j = [] then '''' else ep_chained_root (last (ej_epochs j))) merkle"
  define j2 where "j2 = append_line pf ChainFile (chain_record (length (ej_epochs j)) merkle chained (sha256_hex (pf_sha pf) data) (length data))
        (do_effect (WriteData (data_name (length (ej_epochs j))) data) j)"
  define ep where "ep = \<lparr>ep_id = length (ej_epochs j), ep_blocks = Some bs, ep_merkle_root = merkle, ep_chained_root = chained, ep_acked = False,
               ep_dropped_under_pressure = False\<rparr>"
  define j3 where "j3 = j2\<lparr>ej_epochs := ej_epochs j2 @ [ep]\<rparr>"
  have j3: "same_settings j j3" "ej_epochs j3 = ej_epochs j @ [ep]" by (simp_all add: j3_def j2_def append_line_def same_settings_def)
  obtain j4 where s: "sign_seal pf now chained j3 = (j4, Inr ())" "ej_epochs j4 = ej_epochs j @ [ep]" "same_settings j j4"
    using sign_seal_quiet [of pf now chained j3] j3 same_settings_trans by auto
  obtain j5 r where e: "enforce_caps pf j4 = (j5, r)" by fastforce
  have "ej_max_bytes j4 = None" using s(3) assms(1) by (simp add: same_settings_def)
  note st = enforce_store [OF this e]
  have run: "(j', res) = (case r of Inl e \<Rightarrow> (j5, Inl e) | Inr u \<Rightarrow> (j5, Inr (ej_epochs j5 ! length (ej_epochs j))))"
    using assms(2) s(1) e by (cases r) (auto simp: journal_seal_def Inr bm Let_def chained_def [symmetric] data_def [symmetric] j2_def [symmetric] ep_def [symmetric] j3_def [symmetric])
  have "(journal_store j)\<lparr>es_epochs := ej_epochs j @ [ep]\<rparr> = journal_store j4" using s(2,3) by (simp add: journal_store_def same_settings_def)
  moreover have "seal (pf_sha pf) (journal_store j) bits
      = ebind (enforce_cap ((journal_store j)\<lparr>es_epochs := ej_epochs j @ [ep]\<rparr>)) (\<lambda>st'. Inr (st', last (es_epochs st')))"
    using cm by (simp add: seal_def Let_def journal_store_def chained_def ep_def)
  ultimately have sl: "seal (pf_sha pf) (journal_store j) bits = (case r of Inl e \<Rightarrow> Inl e | Inr u \<Rightarrow> Inr (journal_store j5, last (ej_epochs j5)))"
    using st(1) by (cases r) (simp_all add: journal_store_def)
  have "last (ej_epochs j5) = ej_epochs j5 ! length (ej_epochs j)" if "r = Inr u" for u
  proof -
    have "enforce_cap (journal_store j4) = Inr (journal_store j5)" using st(1) that by simp
    then have "length (ej_epochs j5) = length (ej_epochs j4)"
      by (auto simp: enforce_cap_def journal_store_def ebind_eq_Inr dest!: cap_loop_commit list_all2_lengthD)
    then show ?thesis using s(2) by (simp add: last_conv_nth flip: length_greater_0_conv)
  qed
  then show ?thesis using run sl by (cases r) auto
qed

subsection \<open>Acknowledging\<close>

text \<open>With the files as the epochs say, the deletion goes by the epochs alone.\<close>

definition files_match :: "epoch_journal \<Rightarrow> bool" where
  "files_match j \<longleftrightarrow> (\<forall>i < length (ej_epochs j). ep_id (ej_epochs j ! i) = i \<and> (stored (ej_disk j) i = None \<longleftrightarrow> \<not> has_data (ej_epochs j ! i)))"

lemma forget_parts:
  "ej_epochs (forget p j) = (ej_epochs j)[p := (ej_epochs j ! p)\<lparr>ep_blocks := None\<rparr>]"
  "stored (ej_disk (forget p j)) i = (if i = p then None else stored (ej_disk j) i)" "same_settings j (forget p j)"
  by (auto simp: forget_def remove_data_def same_settings_def update_epoch_def)

lemma ack_at_epochs:
  assumes "files_match j" "p < length (ej_epochs j)" "ack_at p (j, c) = (j', c')"
  shows "ej_epochs j' = (ej_epochs j)[p := ack_epoch (ej_epochs j ! p)]" "length c' = length c + (if has_data (ej_epochs j ! p) then 1 else 0)"
    and "same_settings j j'" "files_match j'"
proof -
  have p: "ep_id (ej_epochs j ! p) = p" "stored (ej_disk j) p = None \<longleftrightarrow> \<not> has_data (ej_epochs j ! p)" using assms(1,2) by (auto simp: files_match_def)
  let ?u = "update_epoch p (ep_acked_update (\<lambda>_. True)) j"
  have r: "(j', c') = (if has_data (ej_epochs j ! p) then (forget p ?u, c @ [p]) else (?u, c))"
    using assms(3) p by (cases "has_data (ej_epochs j ! p)") (auto simp: ack_at_def forget_def Let_def)
  show e: "ej_epochs j' = (ej_epochs j)[p := ack_epoch (ej_epochs j ! p)]" using r assms(2) by (auto simp: forget_parts ack_epoch_def split: if_splits)
  show "length c' = length c + (if has_data (ej_epochs j ! p) then 1 else 0)" using r by (auto split: if_splits)
  show "same_settings j j'" using r forget_parts(3) [of ?u p] same_settings_trans [of j ?u "forget p ?u"] by (auto split: if_splits)
  have "stored (ej_disk j') i = (if i = p then None else stored (ej_disk j) i)" for i
    using r p by (auto simp: forget_parts split: if_splits)
  then show "files_match j'" using assms(1,2) by (auto simp: files_match_def e nth_list_update ack_epoch_def has_data_def)
qed

lemma ack_fold_epochs:
  assumes "files_match j" "k \<le> length (ej_epochs j)" "fold ack_at [0..<k] (j, []) = (j', c)"
  shows "ej_epochs j' = map ack_epoch (take k (ej_epochs j)) @ drop k (ej_epochs j) \<and> length c = length (filter has_data (take k (ej_epochs j))) \<and>
    same_settings j j' \<and> files_match j'"
  using assms(2,3)
proof (induction k arbitrary: j' c)
  case 0
  then show ?case using assms(1) by auto
next
  case (Suc k)
  obtain j1 c1 where f: "fold ack_at [0..<k] (j, []) = (j1, c1)" by fastforce
  have k: "k < length (ej_epochs j)" using Suc.prems(1) by simp
  from Suc.IH [OF _ f] k have ih: "ej_epochs j1 = map ack_epoch (take k (ej_epochs j)) @ drop k (ej_epochs j)"
    "length c1 = length (filter has_data (take k (ej_epochs j)))" "same_settings j j1"
    "files_match j1" by auto
  have "ack_at k (j1, c1) = (j', c)" using Suc.prems(2) f by simp
  note a = ack_at_epochs [OF ih(4) _ this]
  have l: "k < length (ej_epochs j1)" "ej_epochs j1 ! k = ej_epochs j ! k" using k by (simp_all add: ih(1) nth_append)
  have d: "drop k (ej_epochs j) = ej_epochs j ! k # drop (Suc k) (ej_epochs j)" using k by (simp add: Cons_nth_drop_Suc)
  have "(ej_epochs j1)[k := ack_epoch (ej_epochs j ! k)] = map ack_epoch (take (Suc k) (ej_epochs j)) @ drop (Suc k) (ej_epochs j)"
    using k by (simp add: ih(1) d list_update_append take_Suc_conv_app_nth)
  then show ?case using a [OF l(1)] l ih k same_settings_trans [OF ih(3)] by (auto simp: take_Suc_conv_app_nth)
qed

lemma ack_store:
  assumes "journal_ok pf rs gs a j" "journal_ack pf rt seq j = (j', n)"
  shows "ack (journal_store j) rt = (journal_store j', n)"
proof -
  have m: "mirrors pf rs gs a {..<covered rs a} (fst ` set gs) j" using assms(1) by (simp add: journal_ok_def)
  then have inv: "files_match j" by (auto simp: files_match_def mirrors_def epoch_ok_def has_data_def)
  show ?thesis
  proof (cases "list_ex (\<lambda>ep. ep_chained_root ep = rt) (ej_epochs j)")
    case False
    then have "find_chained rt (ej_epochs j) 0 = None"
      using root_count_pos [of rt "map ep_chained_root (ej_epochs j)"] by (auto simp: find_chained_count Let_def list_ex_iff)
    then show ?thesis using assms(2) False by (simp add: journal_ack_def ack_def journal_store_def)
  next
    case True
    then obtain idx where i: "find_chained rt (ej_epochs j) 0 = Some idx" "idx + 1 \<le> length (ej_epochs j)"
      using root_count_pos [of rt "map ep_chained_root (ej_epochs j)"] root_count_le [of rt "map ep_chained_root (ej_epochs j)"]
      by (fastforce simp: find_chained_count Let_def list_ex_iff)
    define j1 where "j1 = (do_effect (Replace AcksFile (dumps pf (PDict (ack_record seq rt)))) j)\<lparr>ej_last_seq := seq, ej_acked := Some rt\<rparr>"
    obtain j2 c where f: "fold ack_at [0..<idx + 1] (j1, []) = (j2, c)" by fastforce
    have e: "ej_epochs j1 = ej_epochs j" "stored (ej_disk j1) = stored (ej_disk j)" by (auto simp: j1_def fun_eq_iff)
    from ack_fold_epochs [OF _ _ f] inv i(2) have r: "ej_epochs j2 = map ack_epoch (take (idx + 1) (ej_epochs j)) @ drop (idx + 1) (ej_epochs j)"
      "length c = length (filter has_data (take (idx + 1) (ej_epochs j)))" "same_settings j1 j2" by (auto simp: e files_match_def)
    have "journal_ack pf rt seq j = (j2, length c)"
      using True f i(1) e(1) by (simp add: journal_ack_def apply_ack_def Let_def j1_def [symmetric] del: upt_Suc)
    then show ?thesis using assms(2) r i(1)
      by (auto simp: ack_def journal_store_def Let_def same_settings_def j1_def)
  qed
qed

subsection \<open>The caps\<close>

lemma shed_bytes_bound:
  "with_data j = ps \<Longrightarrow> same_settings j (shed_bytes pf cap ps j) \<and> length (with_data (shed_bytes pf cap ps j)) \<le> length ps \<and>
   (int (data_bytes (shed_bytes pf cap ps j)) \<le> cap \<or> with_data (shed_bytes pf cap ps j) = [])"
proof (induction ps arbitrary: j)
  case (Cons p ps)
  from Cons.IH [OF drop_first(2) [OF Cons.prems, of pf]] show ?case
    using Cons.prems by (auto intro: same_settings_trans [OF drop_settings])
qed simp

lemma enforce_bounds:
  assumes "enforce_caps pf j = (j', Inr ())"
  shows "int (length (with_data j')) \<le> ej_max_data j' \<and> (\<forall>cap. ej_max_bytes j' = Some cap \<longrightarrow> int (data_bytes j') \<le> cap \<or> with_data j' = [])"
proof -
  obtain j1 r where s: "shed_count pf (with_data j) j = (j1, r)" by fastforce
  then obtain qs where r: "r = Inr qs" using assms by (cases r) (auto simp: enforce_caps_def)
  from shed_count_loop [OF refl, of j pf, unfolded s] r have q: "with_data j1 = qs" "int (length qs) \<le> ej_max_data j1" "same_settings j j1"
    by (auto simp: same_settings_def)
  show ?thesis
  proof (cases "ej_max_bytes j1")
    case None
    then show ?thesis using assms s r q by (auto simp: enforce_caps_def)
  next
    case (Some cap)
    from shed_bytes_bound [OF q(1), of pf cap] Some assms s r q(2) show ?thesis by (auto simp: enforce_caps_def same_settings_def)
  qed
qed

lemma seal_enforces:
  assumes "journal_seal pf now bits j = (j', Inr ep)"
  shows "\<exists>k. enforce_caps pf k = (j', Inr ())"
  using assms by (auto simp: journal_seal_def Let_def split: prod.splits elim!: then_do_cases)

lemma open_enforces:
  assumes "open_journal pf cfg d = (j', Inr ())"
  shows "\<exists>k. enforce_caps pf k = (j', Inr ())"
  using assms by (auto simp: open_journal_def recover_journal_def Let_def split: prod.splits elim!: then_do_cases)

lemma with_data_count: "length (with_data j) = length (filter has_data (ej_epochs j))"
  by (simp add: with_data_from data_from_length)

lemma retained_count: "length (retained j) = length (filter has_data (ej_epochs j))"
proof -
  have "length (List.map_filter (\<lambda>ep. map_option (Pair (ep_id ep)) (ep_blocks ep)) eps) = length (filter has_data eps)" for eps
    by (induction eps) (auto simp: List.map_filter_def has_data_def)
  then show ?thesis by (simp add: retained_def)
qed

section \<open>Properties\<close>

text \<open>
  C23. Without a cap on the bytes, a seal of the journal does to the epochs exactly what a seal of the store in memory does, its
  errors included; and an acknowledgment message gets the answer of the receiver over the store in memory and leaves the same epochs.
\<close>

theorem journal_is_epoch_store:
  assumes "implements pf s j" "ej_max_bytes j = None"
  shows "seal (pf_sha pf) (journal_store j) bits =
      (case journal_seal pf now bits j of (j', Inl e) \<Rightarrow> Inl e | (j', Inr ep) \<Rightarrow> Inr (journal_store j', ep)) \<and>
    (let (r, answer) = on_ack pf mac \<lparr>ar_store = journal_store j, ar_secret = secret, ar_last_seq = ej_last_seq j\<rparr> rt seq tag;
         (j', durable_answer) = durable_on_ack pf mac secret rt seq tag j in
      answer = durable_answer \<and> ar_store r = journal_store j')"
proof -
  have "ack (journal_store j) rt = (case journal_ack pf rt seq j of (j', n) \<Rightarrow> (journal_store j', n))"
    using ack_store [OF assms(1), of rt seq] by (auto split: prod.splits)
  then show ?thesis
    using seal_store [OF assms(2), of pf now bits] by (auto simp: on_ack_def durable_on_ack_def split: prod.splits sum.splits)
qed


end
