(* ===== verification/PyJson.thy ===== *)
theory PyJson
  imports Canon
begin

section \<open>Reading canonical JSON back\<close>

text \<open>
  \<open>json.loads\<close> on the texts that \<open>json.dumps\<close> writes: a recursive descent over the text, with fuel that the length of the
  text always suffices for. The theorems over the JSON reader of the platform assume what is proved here of this one:
  it reads back what was written, and an object cut short is no JSON. \<open>rf\<close> reads the text of a float.
\<close>

fun read_chars :: "nat \<Rightarrow> string \<Rightarrow> (string \<times> string) option" where
  "read_chars (Suc n) (c # s) = (if c = CHR 0x22 then Some ([], s)
     else case read_escape (c # s) of None \<Rightarrow> None | Some (d, r) \<Rightarrow> map_option (apfst (Cons d)) (read_chars n r))"
| "read_chars n s = None"

definition read_atom :: "(string \<Rightarrow> pyfloat option) \<Rightarrow> string \<Rightarrow> pyval option" where
  "read_atom rf s = (if s = ''null'' then Some PNone else if s = ''true'' then Some (PBool True) else if s = ''false'' then Some (PBool False)
     else if int_text s then map_option PInt (py_int s) else map_option PFloat (rf s))"

definition starts :: "char \<Rightarrow> string \<Rightarrow> bool" where
  "starts c s \<longleftrightarrow> s \<noteq> [] \<and> hd s = c"

fun read_value :: "(string \<Rightarrow> pyfloat option) \<Rightarrow> nat \<Rightarrow> string \<Rightarrow> (pyval \<times> string) option"
  and read_items :: "(string \<Rightarrow> pyfloat option) \<Rightarrow> nat \<Rightarrow> string \<Rightarrow> (pyval list \<times> string) option"
  and read_pairs :: "(string \<Rightarrow> pyfloat option) \<Rightarrow> nat \<Rightarrow> string \<Rightarrow> (ctx \<times> string) option" where
  "read_value rf 0 s = None"
| "read_value rf (Suc n) s =
     (if starts (CHR 0x22) s then map_option (apfst PStr) (read_chars (length s) (tl s))
      else if starts (CHR ''['') s then (if starts (CHR '']'') (tl s) then Some (PList [], tl (tl s)) else map_option (apfst PList) (read_items rf n (tl s)))
      else if starts (CHR ''{'') s then (if starts (CHR ''}'') (tl s) then Some (PDict [], tl (tl s)) else map_option (apfst PDict) (read_pairs rf n (tl s)))
      else map_option (\<lambda>v. (v, dropWhile plain_char s)) (read_atom rf (takeWhile plain_char s)))"
| "read_items rf 0 s = None"
| "read_items rf (Suc n) s = (case read_value rf n s of None \<Rightarrow> None
     | Some (v, r) \<Rightarrow> if starts (CHR '']'') r then Some ([v], tl r)
         else if take 2 r = '', '' then map_option (apfst (Cons v)) (read_items rf n (drop 2 r)) else None)"
| "read_pairs rf 0 s = None"
| "read_pairs rf (Suc n) s =
     (if \<not> starts (CHR 0x22) s then None
      else case read_chars (length s) (tl s) of None \<Rightarrow> None
      | Some (k, r) \<Rightarrow> if take 2 r \<noteq> '': '' then None
          else (case read_value rf n (drop 2 r) of None \<Rightarrow> None
          | Some (v, q) \<Rightarrow> if starts (CHR ''}'') q then Some ([(k, v)], tl q)
              else if take 2 q = '', '' then map_option (apfst (Cons (k, v))) (read_pairs rf n (drop 2 q)) else None))"

text \<open>Nothing but the canonical text of its value is taken.\<close>

definition json_loads :: "(pyfloat \<Rightarrow> string) \<Rightarrow> (string \<Rightarrow> pyfloat option) \<Rightarrow> string \<Rightarrow> pyval option" where
  "json_loads frepr rf s = (case read_value rf (Suc (length s)) s of
     Some (v, []) \<Rightarrow> if canonical_spaced frepr v = s then Some v else None | _ \<Rightarrow> None)"

lemma read_chars_quoted: "length s < n \<Longrightarrow> read_chars n (concat (map escape_char s) @ CHR 0x22 # r) = Some (s, r)"
proof (induction s arbitrary: n)
  case Nil
  then show ?case by (cases n) auto
next
  case (Cons c s)
  obtain m where n: "n = Suc m" "length s < m" using Cons.prems by (cases n) auto
  obtain d t where e: "escape_char c = d # t" "d \<noteq> CHR 0x22" using escape_hd by blast
  have "read_escape (d # t @ concat (map escape_char s) @ CHR 0x22 # r) = Some (c, concat (map escape_char s) @ CHR 0x22 # r)"
    using read_escape_char [of c "concat (map escape_char s) @ CHR 0x22 # r"] by (simp add: e(1))
  then show ?case using Cons.IH [OF n(2)] by (simp add: n(1) e)
qed

lemma escaped_length: "length s \<le> length (concat (map escape_char s))"
proof (induction s)
  case (Cons c s)
  then show ?case using escape_hd [of c] by auto
qed simp

lemma read_chars_quote: "starts (CHR 0x22) (quote s @ r)" "read_chars (length (quote s @ r)) (tl (quote s @ r)) = Some (s, r)"
  using read_chars_quoted [of s "length (quote s @ r)" r] escaped_length [of s] by (auto simp: quote_def starts_def)

definition reads_floats :: "(pyfloat \<Rightarrow> string) \<Rightarrow> (string \<Rightarrow> pyfloat option) \<Rightarrow> bool" where
  "reads_floats frepr rf \<longleftrightarrow> float_text frepr \<and> (\<forall>f. rf (frepr f) = Some f)"

lemma read_atom_text: "reads_floats frepr rf \<Longrightarrow> atom_text v \<Longrightarrow> read_atom rf (json_text style frepr v) = Some v"
  using int_not_keyword
  by (cases v) (auto simp: read_atom_def atom_text_def reads_floats_def float_text_def py_int_int_str)

lemma starts_Cons [simp]: "starts c (d # s) \<longleftrightarrow> d = c"
  by (simp add: starts_def)

text \<open>The list and the object, given their elements.\<close>

lemma read_items_text:
  assumes f: "\<And>v n r. v \<in> set vs \<Longrightarrow> length (f v) < n \<Longrightarrow> closes r \<Longrightarrow> read_value rf n (f v @ r) = Some (v, r)"
  shows "vs \<noteq> [] \<Longrightarrow> length (join '', '' (map f vs)) + 1 < n \<Longrightarrow> read_items rf n (join '', '' (map f vs) @ CHR '']'' # r) = Some (vs, r)"
  using f
proof (induction vs arbitrary: n)
  case (Cons v vs)
  obtain m where n: "n = Suc m" using Cons.prems by (cases n) auto
  show ?case
  proof (cases vs)
    case Nil
    then show ?thesis using Cons.prems(2) Cons.prems(3) [of v m "CHR '']'' # r"] by (simp add: n closes_def plain_char_def)
  next
    case (Cons w ws)
    have "read_items rf m (join '', '' (map f vs) @ CHR '']'' # r) = Some (vs, r)"
      by (rule Cons.IH) (use Cons.prems Cons n in auto)
    moreover have "read_value rf m (f v @ '', '' @ join '', '' (map f vs) @ CHR '']'' # r) = Some (v, '', '' @ join '', '' (map f vs) @ CHR '']'' # r)"
      using Cons.prems(2) by (intro Cons.prems(3)) (auto simp: n Cons closes_def plain_char_def)
    ultimately show ?thesis by (simp add: n Cons)
  qed
qed simp

lemma read_pairs_text:
  assumes f: "\<And>p n r. p \<in> set d \<Longrightarrow> length (f (snd p)) < n \<Longrightarrow> closes r \<Longrightarrow> read_value rf n (f (snd p) @ r) = Some (snd p, r)"
    and g: "g = (\<lambda>p. quote (fst p) @ '': '' @ f (snd p))"
  shows "d \<noteq> [] \<Longrightarrow> length (join '', '' (map g d)) + 1 < n \<Longrightarrow> read_pairs rf n (join '', '' (map g d) @ CHR ''}'' # r) = Some (d, r)"
  using f
proof (induction d arbitrary: n)
  case (Cons p d)
  obtain m where n: "n = Suc m" using Cons.prems by (cases n) auto
  obtain k v where p: "p = (k, v)" by (cases p)
  have gp: "g p @ s = quote k @ '': '' @ f v @ s" for s by (simp add: g p)
  have hd: "starts (CHR 0x22) (g p @ s)" "read_chars (length (g p @ s)) (tl (g p @ s)) = Some (k, '': '' @ f v @ s)" for s
    using read_chars_quote [of k "'': '' @ f v @ s"] by (simp_all add: gp)
  show ?case
  proof (cases d)
    case Nil
    have "read_value rf m (f v @ CHR ''}'' # r) = Some (v, CHR ''}'' # r)"
      using Cons.prems(2) Cons.prems(3) [of p m "CHR ''}'' # r"] by (simp add: p g n Nil closes_def plain_char_def)
    then show ?thesis using hd [of "CHR ''}'' # r"] by (simp add: n Nil p)
  next
    case (Cons w ws)
    let ?q = "join '', '' (map g d) @ CHR ''}'' # r"
    have "read_pairs rf m ?q = Some (d, r)"
      by (rule Cons.IH) (use Cons.prems Cons n in auto)
    moreover have "read_value rf m (f v @ '', '' @ ?q) = Some (v, '', '' @ ?q)"
      using Cons.prems(2) Cons.prems(3) [of p m "'', '' @ ?q"] by (simp add: p g n Cons closes_def plain_char_def)
    moreover have "join '', '' (map g (p # d)) @ CHR ''}'' # r = g p @ '', '' @ ?q" by (simp add: Cons)
    ultimately show ?thesis using hd [of "'', '' @ ?q"] by (simp add: n p)
  qed
qed simp

lemma read_value_atom:
  assumes "reads_floats frepr rf" "atom_text v" "closes r" "0 < n"
  shows "read_value rf n (json_text style frepr v @ r) = Some (v, r)"
proof -
  let ?s = "json_text style frepr v"
  have ft: "float_text frepr" using assms(1) by (simp add: reads_floats_def)
  obtain m where n: "n = Suc m" using assms(4) by (cases n) auto
  have p: "list_all plain_char ?s" by (rule atom_plain [OF ft assms(2)])
  obtain c t where c: "?s = c # t" "c \<notin> {CHR 0x22, CHR ''['', CHR ''{''}" using atom_hd [OF ft assms(2)] by blast
  have "dropWhile plain_char (?s @ r) = r" using p assms(3) by (cases r) (auto simp: closes_def list_all_iff)
  then show ?thesis
    using c takeWhile_closes [OF p assms(3)] read_atom_text [OF assms(1,2), of style] by (simp add: n)
qed

lemma read_value_text:
  assumes "reads_floats frepr rf"
  shows "length (json_text spaced_style frepr v) < n \<Longrightarrow> closes r \<Longrightarrow> read_value rf n (json_text spaced_style frepr v @ r) = Some (v, r)"
proof (induction v arbitrary: n r)
  case (PList vs)
  then obtain m where n: "n = Suc m" by (cases n) auto
  have ft: "float_text frepr" using assms by (simp add: reads_floats_def)
  show ?case
  proof (cases vs)
    case (Cons v ws)
    have "\<not> starts (CHR '']'') (join '', '' (map (json_text spaced_style frepr) vs) @ s)" for s
      using text_hd [OF ft, of spaced_style v] by (auto simp: Cons join_Cons plain_char_def)
    moreover have "read_items rf m (join '', '' (map (json_text spaced_style frepr) vs) @ CHR '']'' # r) = Some (vs, r)"
      by (rule read_items_text) (use PList n Cons in \<open>auto simp: spaced_style_def\<close>)
    ultimately show ?thesis by (simp add: n spaced_style_def)
  qed (simp add: n)
next
  case (PDict d)
  then obtain m where n: "n = Suc m" by (cases n) auto
  let ?g = "\<lambda>p. quote (fst p) @ '': '' @ json_text spaced_style frepr (snd p)"
  have g: "(\<lambda>(k, v). quote k @ js_key spaced_style @ json_text spaced_style frepr v) = ?g" by (auto simp: spaced_style_def)
  show ?case
  proof (cases d)
    case (Cons p e)
    have "\<not> starts (CHR ''}'') (join '', '' (map ?g d) @ s)" for s by (simp add: Cons join_Cons quote_def)
    moreover have "read_pairs rf m (join '', '' (map ?g d) @ CHR ''}'' # r) = Some (d, r)"
    proof (rule read_pairs_text [OF _ refl])
      show "length (join '', '' (map ?g d)) + 1 < m" using PDict.prems(1) n by (simp add: g) (simp add: spaced_style_def)
    next
      fix p n s assume "p \<in> set d" "length (json_text spaced_style frepr (snd p)) < n" "closes s"
      moreover have "snd p \<in> Basic_BNFs.snds p" by (cases p) simp
      ultimately show "read_value rf n (json_text spaced_style frepr (snd p) @ s) = Some (snd p, s)" using PDict.IH by blast
    qed (simp add: Cons)
    ultimately show ?thesis by (simp add: n g) (simp add: spaced_style_def)
  qed (simp add: n)
next
  case (PStr s)
  then obtain m where n: "n = Suc m" by (cases n) auto
  show ?case using read_chars_quote [of s r] by (simp add: n)
qed (rule read_value_atom [OF assms]; simp add: atom_text_def)+

lemma json_loads_dumps:
  assumes "reads_floats frepr rf"
  shows "json_loads frepr rf (canonical_spaced frepr v) = Some (canon_form v)"
proof -
  have "read_value rf (Suc (length (canonical_spaced frepr v))) (canonical_spaced frepr v) = Some (canon_form v, [])"
    using read_value_text [OF assms, of "canon_form v" _ "[]"] by (simp add: canonical_spaced_def closes_def del: read_value.simps)
  then show ?thesis by (simp add: json_loads_def del: read_value.simps) (simp add: canonical_spaced_def)
qed

lemma json_loads_prefix:
  assumes "float_text frepr" "canonical_spaced frepr (PDict d) = p @ q" "q \<noteq> []"
  shows "json_loads frepr rf p = None"
proof (rule ccontr)
  assume "json_loads frepr rf p \<noteq> None"
  then obtain v where p: "p = canonical_spaced frepr v" by (auto simp: json_loads_def simp del: read_value.simps split: option.splits list.splits if_splits)
  have "json_text spaced_style frepr (PDict (canon_items d)) @ [] = json_text spaced_style frepr (canon_form v) @ q"
    using assms(2) by (simp add: p canonical_spaced_def canon_form_dict del: canon_form.simps json_text.simps)
  from dict_prefix_free [OF assms(1) style_ok_styles(2) this] assms(3) show False by simp
qed

lemma json_loads_extra:
  assumes "float_text frepr" "q \<noteq> []"
  shows "json_loads frepr rf (canonical_spaced frepr (PDict d) @ q) = None"
proof (rule ccontr)
  assume "json_loads frepr rf (canonical_spaced frepr (PDict d) @ q) \<noteq> None"
  then have "\<exists>v. canonical_spaced frepr v = canonical_spaced frepr (PDict d) @ q"
    by (auto simp: json_loads_def simp del: read_value.simps split: option.splits list.splits if_splits)
  then obtain v where "canonical_spaced frepr v = canonical_spaced frepr (PDict d) @ q" ..
  then have "json_text spaced_style frepr (PDict (canon_items d)) @ q = json_text spaced_style frepr (canon_form v) @ []"
    by (simp add: canonical_spaced_def canon_form_dict del: canon_form.simps json_text.simps)
  from dict_prefix_free [OF assms(1) style_ok_styles(2) this] assms(2) show False by simp
qed

subsection \<open>The float texts of the examples\<close>

definition demo_read_float :: "string \<Rightarrow> pyfloat option" where
  "demo_read_float s = (if s = ''inf'' then Some FPosInf else if s = ''-inf'' then Some FNegInf
     else if take 3 s = ''nan'' then map_option (\<lambda>n. FNaN (nat n)) (py_int (drop 3 s))
     else (case py_int (takeWhile (\<lambda>c. c \<noteq> CHR ''/'') (drop 2 s)) of None \<Rightarrow> None
       | Some a \<Rightarrow> map_option (\<lambda>b. FFin (of_int a / of_int b)) (py_int (drop 1 (dropWhile (\<lambda>c. c \<noteq> CHR ''/'') (drop 2 s))))))"

lemma before_slash: "takeWhile (\<lambda>c. c \<noteq> CHR ''/'') (int_str a @ CHR ''/'' # s) = int_str a" "dropWhile (\<lambda>c. c \<noteq> CHR ''/'') (int_str a @ CHR ''/'' # s) = CHR ''/'' # s"
  using int_str_no_slash [of a] by (auto simp: takeWhile_append dropWhile_append)

lemma demo_reads_floats: "reads_floats demo_float demo_read_float"
  unfolding reads_floats_def
proof (intro conjI allI)
  show "float_text demo_float" by (rule demo_float_text)
  show "demo_read_float (demo_float f) = Some f" for f
  proof (cases f)
    case (FFin r)
    obtain a b where q: "quotient_of r = (a, b)" by fastforce
    have t: "demo_float f = ''fl'' @ int_str a @ ''/'' @ int_str b" by (simp add: FFin q)
    have "f = FFin (of_int a / of_int b)" using quotient_of_div [OF q] FFin by simp
    then show ?thesis unfolding t demo_read_float_def by (simp add: before_slash py_int_int_str)
  next
    case (FNaN n)
    have "py_int (nat_str n) = Some (int n)" using py_int_int_str [of "int n"] by (simp add: int_str_def)
    then show ?thesis by (simp add: FNaN demo_read_float_def)
  qed (simp_all add: demo_read_float_def)
qed

end
