(* ===== verification/JournalDemo.thy ===== *)
theory JournalDemo
  imports JournalStore PyJson
begin

section \<open>A journal to try the theorems on\<close>

text \<open>
  Two seals under a cap of one epoch, the second cut off in the middle of its line of the chain, and an acknowledgment of both: the
  theorems on the journal are applied to them. The last section has the two directories that a restart does not handle as the module
  says.
\<close>

definition demo_disk_platform :: platform where
  "demo_disk_platform = \<lparr>pf_sha = (\<lambda>s. take 2 (rev s)), pf_float = demo_float, pf_loads = json_loads demo_float demo_read_float,
     pf_verify = (\<lambda>pub s m. True)\<rparr>"

lemma demo_json_reads: "json_reads demo_disk_platform"
  using json_loads_dumps [OF demo_reads_floats] json_loads_prefix [OF demo_float_text] demo_float_one_line
  by (auto simp: json_reads_def demo_disk_platform_def dumps_def strict_prefix_def prefix_def)

definition demo_setup :: journal_config where
  "demo_setup = \<lparr>jc_key = None, jc_block_bits = 8, jc_max_data = 1, jc_max_bytes = None\<rparr>"

definition demo_mac :: "string \<Rightarrow> string \<Rightarrow> string" where
  "demo_mac secret m = secret @ m"

definition demo_open :: epoch_journal where
  "demo_open = fst (open_journal demo_disk_platform demo_setup empty_disk)"

definition demo_one :: epoch_journal where
  "demo_one = fst (journal_seal demo_disk_platform ''now'' ''1'' demo_open)"

definition demo_two :: epoch_journal where
  "demo_two = fst (journal_seal demo_disk_platform ''now'' ''0'' demo_one)"

lemma demo_platform_parts [simp]: "pf_sha demo_disk_platform = (\<lambda>s. take 2 (rev s))" "pf_float demo_disk_platform = demo_float"
  by (simp_all add: demo_disk_platform_def)

lemma demo_open_eq: "demo_open = fresh_journal demo_setup empty_disk"
  by (simp add: demo_open_def open_journal_def recover_journal_def read_jsonl_def empty_disk_def fresh_journal_def enforce_caps_def with_data_def
    demo_setup_def read_acks_def complete_ack_def)

lemma demo_opens: "open_journal demo_disk_platform demo_setup empty_disk = (demo_open, Inr ())"
  using recover_step [OF demo_json_reads empty_ok, of demo_setup] by (auto simp: demo_open_def demo_setup_def)

text \<open>The two seals, with the lines and the data as their definitions give them; the second one drops the data of the first.\<close>

definition demo_epoch_of :: "nat \<Rightarrow> string \<Rightarrow> string \<Rightarrow> string \<Rightarrow> epoch" where
  "demo_epoch_of i bits merkle chained = \<lparr>ep_id = i, ep_blocks = Some [bits], ep_merkle_root = merkle, ep_chained_root = chained,
     ep_acked = False, ep_dropped_under_pressure = False\<rparr>"

definition demo_seal :: "nat \<Rightarrow> string \<Rightarrow> string \<Rightarrow> string \<Rightarrow> disk_effect list" where
  "demo_seal i bits merkle chained = [WriteData (data_name i) (blocks_text demo_disk_platform [bits]),
     Append ChainFile (json_line demo_disk_platform (chain_line demo_disk_platform i (merkle, chained, [bits])))]"

definition demo_loss :: "disk_effect list" where
  "demo_loss = [Append GapsFile (json_line demo_disk_platform (gap_record 0 ''pressure'')), RemoveData (data_name 0)]"

lemma demo_blocks:
  "chunk ''1'' 8 = Inr [''1'']" "chunk ''0'' 8 = Inr [''0'']"
  "commit_blocks (\<lambda>s. take 2 (rev s)) [''1''] = Inr (Some ''31'', [[]])" "commit_blocks (\<lambda>s. take 2 (rev s)) [''0''] = Inr (Some ''30'', [[]])"
  "chain_root (\<lambda>s. take 2 (rev s)) '''' ''31'' = ''3133''" "chain_root (\<lambda>s. take 2 (rev s)) ''3133'' ''30'' = ''3033''"
  by code_simp+

lemma demo_one_eq:
  "demo_one = demo_open\<lparr>ej_epochs := [demo_epoch_of 0 ''1'' ''31'' ''3133''], ej_disk := run_effects (demo_seal 0 ''1'' ''31'' ''3133'') empty_disk,
     ej_done := demo_seal 0 ''1'' ''31'' ''3133''\<rparr>"
  by (simp add: demo_one_def demo_open_eq journal_seal_def fresh_journal_def demo_setup_def demo_blocks Let_def append_line_def do_effect_def
    sign_seal_def enforce_caps_def with_data_def has_data_def run_effects_def demo_seal_def demo_epoch_of_def)

lemma demo_two_eq:
  "demo_two = demo_open\<lparr>ej_epochs := [(demo_epoch_of 0 ''1'' ''31'' ''3133'')\<lparr>ep_blocks := None, ep_dropped_under_pressure := True\<rparr>, demo_epoch_of 1 ''0'' ''30'' ''3033''],
     ej_disk := run_effects (demo_seal 0 ''1'' ''31'' ''3133'' @ demo_seal 1 ''0'' ''30'' ''3033'' @ demo_loss) empty_disk,
     ej_done := demo_seal 0 ''1'' ''31'' ''3133'' @ demo_seal 1 ''0'' ''30'' ''3033'' @ demo_loss\<rparr>"
  by (simp add: demo_two_def demo_one_eq demo_open_eq journal_seal_def fresh_journal_def demo_setup_def demo_blocks Let_def append_line_def do_effect_def
    sign_seal_def enforce_caps_def with_data_def has_data_def run_effects_def demo_seal_def demo_epoch_of_def demo_loss_def drop_under_pressure_def
    update_epoch_def remove_data_def)

lemma demo_seals: "journal_op demo_disk_platform demo_mac ''k'' demo_open demo_one" "journal_op demo_disk_platform demo_mac ''k'' demo_one demo_two"
  unfolding demo_one_def [of] demo_two_def by (rule op_seal, rule prod.collapse [symmetric])+

lemma demo_reached: "journal_reached demo_disk_platform demo_mac ''k'' demo_open" "journal_reached demo_disk_platform demo_mac ''k'' demo_one"
    "journal_reached demo_disk_platform demo_mac ''k'' demo_two"
proof -
  have o: "reopens demo_disk_platform empty_disk demo_open" by (rule opened [OF demo_opens]) (simp add: demo_setup_def)
  have s: "journal_step demo_disk_platform demo_mac ''k'' demo_open demo_one" "journal_step demo_disk_platform demo_mac ''k'' demo_one demo_two"
    by (rule works, rule demo_seals)+
  show "journal_reached demo_disk_platform demo_mac ''k'' demo_open" using o by (auto simp: journal_reached_def)
  show "journal_reached demo_disk_platform demo_mac ''k'' demo_one" using o s(1) by (auto simp: journal_reached_def)
  show "journal_reached demo_disk_platform demo_mac ''k'' demo_two" using o s by (auto simp: journal_reached_def intro: rtranclp_trans)
qed

text \<open>The second seal, cut off in the middle of its line of the chain.\<close>

definition demo_effects :: "disk_effect list" where
  "demo_effects = demo_seal 1 ''0'' ''30'' ''3033'' @ demo_loss"

definition demo_torn :: journal_disk where
  "demo_torn = apply_effect (Append ChainFile ''{'') (apply_effect (hd demo_effects) (ej_disk demo_one))"

lemma demo_done: "ej_done demo_two = ej_done demo_one @ demo_effects"
  by (simp add: demo_one_eq demo_two_eq demo_effects_def)

lemma demo_crash: "crashed (ej_disk demo_one) demo_effects demo_torn"
proof -
  have l: "json_line demo_disk_platform r = ''{'' @ tl (json_line demo_disk_platform r)" "2 < length (json_line demo_disk_platform r)" for r
    by (simp_all add: json_line_def dumps_def canonical_spaced_def canon_form_dict del: canon_form.simps)
  have "take 1 (json_line demo_disk_platform r) = ''{''" for r by (subst l(1)) simp
  then have "crashed d (Append ChainFile (json_line demo_disk_platform r) # es) (apply_effect (Append ChainFile ''{'') d)" for d r es
    using torn_append [of 1 "json_line demo_disk_platform r" d ChainFile es] l(2) [of r] by simp
  then show ?thesis unfolding demo_torn_def demo_effects_def demo_seal_def by (auto simp del: chain_line.simps intro: later)
qed

lemma demo_restart: "\<exists>k. reopens demo_disk_platform demo_torn k \<and> journal_step demo_disk_platform demo_mac ''k'' demo_one k"
proof -
  have c: "0 \<le> jc_max_data demo_setup" by (simp add: demo_setup_def)
  from crashed_reopens [OF demo_json_reads demo_reached(2) demo_seals(2) demo_done demo_crash c]
  obtain k where "open_journal demo_disk_platform demo_setup demo_torn = (k, Inr ())" by blast
  from opened [OF this c] show ?thesis using restarts [OF demo_seals(2) demo_done demo_crash] by blast
qed

lemma demo_values:
  "journal_chain demo_one = [''3133'']" "journal_chain demo_two = [''3133'', ''3033'']" "map ep_blocks (ej_epochs demo_one) = [Some [''1'']]"
  "map ep_blocks (ej_epochs demo_two) = [None, Some [''0'']]" "ej_acked demo_two = None" "ej_last_seq demo_two = - 1"
  by (simp_all add: demo_one_eq demo_two_eq demo_open_eq fresh_journal_def journal_chain_def demo_epoch_of_def)





text \<open>An acknowledgment of both epochs, and the same one again after a restart.\<close>

definition demo_tag :: string where
  "demo_tag = sign_ack demo_disk_platform demo_mac ''k'' ''3033'' 4"

definition demo_acked :: epoch_journal where
  "demo_acked = fst (durable_on_ack demo_disk_platform demo_mac ''k'' ''3033'' 4 demo_tag demo_two)"

lemma demo_takes: "durable_on_ack demo_disk_platform demo_mac ''k'' ''3033'' 4 demo_tag demo_two = (demo_acked, accepted_ack 1)"
  and demo_acked_through: "ej_acked demo_acked = Some ''3033''"
proof -
  have "verify_ack demo_disk_platform demo_mac ''k'' ''3033'' 4 demo_tag" by (simp add: verify_ack_def demo_tag_def)
  moreover have "snd (journal_ack demo_disk_platform ''3033'' 4 demo_two) = 1" "ej_acked (fst (journal_ack demo_disk_platform ''3033'' 4 demo_two)) = Some ''3033''"
    by (simp_all add: demo_two_eq demo_open_eq fresh_journal_def journal_ack_def Let_def apply_ack_def demo_epoch_of_def ack_at_def update_epoch_def
      has_data_def do_effect_def remove_data_def run_effects_def demo_seal_def demo_loss_def split: prod.splits)
  ultimately show "durable_on_ack demo_disk_platform demo_mac ''k'' ''3033'' 4 demo_tag demo_two = (demo_acked, accepted_ack 1)"
    "ej_acked demo_acked = Some ''3033''"
    by (auto simp: durable_on_ack_def demo_values demo_acked_def split: prod.splits)
qed


theorem journal_is_epoch_store_witness:
  "seal (pf_sha demo_disk_platform) (journal_store demo_open) ''1'' = Inr (journal_store demo_one, demo_epoch_of 0 ''1'' ''31'' ''3133'')"
proof -
  obtain s where s: "implements demo_disk_platform s demo_open" by (rule reached_implements [OF demo_json_reads demo_reached(1)])
  have b: "ej_max_bytes demo_open = None" by (simp add: demo_open_eq fresh_journal_def demo_setup_def)
  have "snd (journal_seal demo_disk_platform ''now'' ''1'' demo_open) = Inr (demo_epoch_of 0 ''1'' ''31'' ''3133'')"
    by (simp add: demo_open_eq journal_seal_def fresh_journal_def demo_setup_def demo_blocks Let_def append_line_def do_effect_def
      sign_seal_def enforce_caps_def with_data_def has_data_def demo_epoch_of_def)
  then have "journal_seal demo_disk_platform ''now'' ''1'' demo_open = (demo_one, Inr (demo_epoch_of 0 ''1'' ''31'' ''3133''))"
    by (simp add: demo_one_def prod_eq_iff)
  then show ?thesis using journal_is_epoch_store [OF s b, of "''1''" "''now''"] by simp
qed


section \<open>What the journal does not keep\<close>

text \<open>
  The cut that the recovery does not see: of the last line only the line break is missing. The line is read as complete and left
  as it is, so the next line is written behind it, and at the next start both are gone as one torn line.
\<close>

theorem lost_line_break_glues_lines:
  assumes "json_reads pf" "pf_loads pf (dumps pf (PDict old) @ dumps pf (PDict new)) = None"
    and "jd_file (ej_disk j) f = Some (dumps pf (PDict old))"
  shows "read_jsonl pf f torn j = (j, Inr [value_of old]) \<and>
    (\<exists>k. read_jsonl pf f torn (append_line pf f new j) = (k, Inr []) \<and> file_text (ej_disk k) f = [])"
proof -
  let ?o = "dumps pf (PDict old)" and ?n = "dumps pf (PDict new)"
  have ne: "dumps pf (PDict d) \<noteq> []" for d by (simp add: dumps_def canonical_spaced_def canon_form_dict del: canon_form.simps)
  have lines: "CHR 0x0A \<notin> set ?o" "CHR 0x0A \<notin> set (?o @ ?n)" using dumps_one_line [OF assms(1)] by auto
  have r: "raw_lines ?o = [?o]" using split_torn [of "[]" ?o] lines(1) ne [of old] by (simp add: raw_lines_def unlines_def)
  have r2: "raw_lines (?o @ ?n @ [CHR 0x0A]) = [?o @ ?n]"
    using split_torn [of "[?o @ ?n]" "[]"] lines(2) by (simp add: raw_lines_def unlines_def)
  have "read_jsonl pf f torn j = (j, Inr [value_of old])"
    by (simp add: read_jsonl_def assms(3) r loads_dumps [OF assms(1)])
  moreover have "jd_file (ej_disk (append_line pf f new j)) f = Some (?o @ ?n @ [CHR 0x0A])"
    by (simp add: append_line_def apply_effect.simps file_text_def assms(3) json_line_def)
  then have "read_jsonl pf f torn (append_line pf f new j)
      = (do_effect (Replace f (unlines [])) (report (TornLine torn f 1) (append_line pf f new j)), Inr [])"
    using assms(2) by (simp add: read_jsonl_def r2)
  ultimately show ?thesis by (simp add: unlines_def)
qed

theorem lost_line_break_glues_lines_witness:
  "\<exists>j. jd_file (ej_disk j) GapsFile = Some (dumps demo_disk_platform (PDict (gap_record 0 ''pressure''))) \<and>
     snd (read_jsonl demo_disk_platform GapsFile '''' (append_line demo_disk_platform GapsFile (gap_record 1 ''pressure'') j)) = Inr []"
proof -
  let ?o = "dumps demo_disk_platform (PDict (gap_record 0 ''pressure''))" and ?n = "dumps demo_disk_platform (PDict (gap_record 1 ''pressure''))"
  let ?j = "fresh_journal demo_setup (apply_effect (Replace GapsFile ?o) empty_disk)"
  have "?n \<noteq> []" by (simp add: dumps_def canonical_spaced_def canon_form_dict del: canon_form.simps)
  then have "pf_loads demo_disk_platform (?o @ ?n) = None"
    using json_loads_extra [OF demo_float_text, of ?n] by (simp add: demo_disk_platform_def dumps_def)
  moreover have f: "jd_file (ej_disk ?j) GapsFile = Some ?o" by (simp add: apply_effect.simps)
  ultimately show ?thesis using lost_line_break_glues_lines [OF demo_json_reads _ f] by (metis snd_conv)
qed

text \<open>
  An acknowledgment of a root that is not in the chain is answered with \<open>accepted\<close>, and nothing is written: the same one is accepted
  again and again.
\<close>

lemma unknown_root_accepted_again:
  assumes "verify_ack pf mac secret rt seq tag" "ej_last_seq j < seq" "rt \<notin> set (journal_chain j)"
  shows "durable_on_ack pf mac secret rt seq tag j = (j, accepted_ack 0)"
  using assms by (auto simp: durable_on_ack_def journal_ack_def journal_chain_def list_ex_iff)

text \<open>The journal after both epochs are acknowledged, and then the older one again under a higher number.\<close>

definition demo_lost :: "epoch list" where
  "demo_lost = [(demo_epoch_of 0 ''1'' ''31'' ''3133'')\<lparr>ep_blocks := None, ep_dropped_under_pressure := True, ep_acked := True\<rparr>,
     (demo_epoch_of 1 ''0'' ''30'' ''3033'')\<lparr>ep_blocks := None, ep_acked := True\<rparr>]"

definition demo_ack_effects :: "disk_effect list" where
  "demo_ack_effects = demo_seal 0 ''1'' ''31'' ''3133'' @ demo_seal 1 ''0'' ''30'' ''3033'' @ demo_loss @
     [Replace AcksFile (dumps demo_disk_platform (PDict (ack_record 4 ''3033''))), RemoveData (data_name 1)]"

lemma demo_acked_eq:
  "demo_acked = demo_open\<lparr>ej_epochs := demo_lost, ej_last_seq := 4, ej_acked := Some ''3033'', ej_disk := run_effects demo_ack_effects empty_disk,
     ej_done := demo_ack_effects\<rparr>"
proof -
  have "verify_ack demo_disk_platform demo_mac ''k'' ''3033'' 4 demo_tag" by (simp add: verify_ack_def demo_tag_def)
  then show ?thesis
    by (simp add: demo_acked_def durable_on_ack_def demo_two_eq demo_open_eq fresh_journal_def journal_ack_def Let_def apply_ack_def demo_epoch_of_def ack_at_def
      update_epoch_def has_data_def do_effect_def remove_data_def run_effects_def demo_seal_def demo_loss_def demo_lost_def demo_ack_effects_def)
qed

definition demo_back :: epoch_journal where
  "demo_back = fst (journal_ack demo_disk_platform ''3133'' 5 demo_acked)"

definition demo_back_disk :: journal_disk where
  "demo_back_disk = run_effects (demo_ack_effects @ [Replace AcksFile (dumps demo_disk_platform (PDict (ack_record 5 ''3133'')))]) empty_disk"

lemma demo_back_parts: "ej_disk demo_back = demo_back_disk" "ej_epochs demo_back = demo_lost"
  by (simp_all add: demo_back_def demo_acked_eq demo_open_eq fresh_journal_def journal_ack_def Let_def apply_ack_def demo_lost_def demo_epoch_of_def ack_at_def
      update_epoch_def has_data_def do_effect_def remove_data_def demo_back_disk_def run_effects_def demo_ack_effects_def demo_seal_def demo_loss_def)

lemma demo_back_files:
  "file_text demo_back_disk ChainFile = lines_of demo_disk_platform (chain_records demo_disk_platform 0 [(''31'', ''3133'', [''1'']), (''30'', ''3033'', [''0''])])"
  "file_text demo_back_disk GapsFile = lines_of demo_disk_platform (gap_records [(0, ''pressure'')])"
  "jd_file demo_back_disk AcksFile = Some (dumps demo_disk_platform (PDict (ack_record 5 ''3133'')))"
  "jd_data demo_back_disk = []"
  by (simp_all add: demo_back_disk_def demo_ack_effects_def run_effects_def demo_seal_def demo_loss_def lines_of_def unlines_def json_line_def chain_records_def
    gap_records_def empty_disk_def file_text_def apply_effect.simps)

lemma demo_back_opens:
  "open_journal demo_disk_platform demo_setup demo_back_disk = (j, r) \<Longrightarrow>
   r = Inr () \<and> map (\<lambda>ep. (has_data ep, ep_acked ep, ep_dropped_under_pressure ep)) (ej_epochs j) = [(False, True, False), (False, False, False)]"
proof -
  assume o: "open_journal demo_disk_platform demo_setup demo_back_disk = (j, r)"
  note rd = read_jsonl_ok [OF demo_json_reads torn_Nil, simplified]
  let ?k = "fresh_journal demo_setup demo_back_disk"
  have c: "read_jsonl demo_disk_platform ChainFile ''interrupted_seal'' ?k
      = (?k, Inr (map value_of (chain_records demo_disk_platform 0 [(''31'', ''3133'', [''1'']), (''30'', ''3033'', [''0''])])))"
    by (rule rd) (simp add: demo_back_files)
  have g: "read_jsonl demo_disk_platform GapsFile ''interrupted_gap_record'' ?k = (?k, Inr (map value_of (gap_records [(0, ''pressure'')])))"
    by (rule rd) (simp add: demo_back_files)
  have a: "read_acks demo_disk_platform (Some (dumps demo_disk_platform (PDict (ack_record 5 ''3133'')))) = Inr (5, Some ''3133'')"
    using demo_json_reads
    by (simp add: json_reads_def canon_form_dict read_acks_def map_of_canon del: canon_form.simps) (simp add: ack_record_def)
  have l: "pf_loads demo_disk_platform (dumps demo_disk_platform v) \<noteq> None" for v using demo_json_reads by (simp add: json_reads_def)
  have n: "stored demo_back_disk i = None" for i by (simp add: stored_def demo_back_files)
  show ?thesis using o
    by (simp add: open_journal_def recover_journal_def c g gap_ids demo_back_files a l chain_records_def load_data_def n demo_blocks Let_def str_of_val_def
      complete_ack_def apply_ack_def ack_at_def update_epoch_def has_data_def)
      (auto simp: fresh_journal_def mark_gap_def enforce_caps_def with_data_def demo_setup_def has_data_def update_epoch_def Let_def)
qed

text \<open>
  An accepted acknowledgment of an older root takes the acknowledgment on disk back. The journal in memory has both epochs
  acknowledged and reports the first as a gap; opened again it has the second one neither retained, nor acknowledged, nor
  among the gaps, and the gap of the first is gone as well.
\<close>

theorem older_root_takes_ack_back:
  "durable_on_ack demo_disk_platform demo_mac ''k'' ''3133'' 5 (sign_ack demo_disk_platform demo_mac ''k'' ''3133'' 5) demo_acked = (demo_back, accepted_ack 0) \<and>
   map ep_acked (ej_epochs demo_back) = [True, True] \<and> gaps (journal_store demo_back) = [0] \<and>
   (\<exists>k. open_journal demo_disk_platform demo_setup (ej_disk demo_back) = (k, Inr ()) \<and> map has_data (ej_epochs k) = [False, False] \<and>
     map ep_acked (ej_epochs k) = [True, False] \<and> gaps (journal_store k) = [])"
proof -
  have "snd (journal_ack demo_disk_platform ''3133'' 5 demo_acked) = 0"
    by (simp add: demo_acked_eq demo_open_eq fresh_journal_def journal_ack_def Let_def apply_ack_def demo_lost_def demo_epoch_of_def ack_at_def
      update_epoch_def has_data_def do_effect_def remove_data_def run_effects_def demo_ack_effects_def demo_seal_def demo_loss_def)
  then have "journal_ack demo_disk_platform ''3133'' 5 demo_acked = (demo_back, 0)" by (simp add: demo_back_def prod_eq_iff)
  moreover have "ej_last_seq demo_acked = 4" by (simp add: demo_acked_eq)
  ultimately have a: "durable_on_ack demo_disk_platform demo_mac ''k'' ''3133'' 5 (sign_ack demo_disk_platform demo_mac ''k'' ''3133'' 5) demo_acked = (demo_back, accepted_ack 0)"
    by (simp add: durable_on_ack_def verify_ack_def)
  obtain k r where o: "open_journal demo_disk_platform demo_setup demo_back_disk = (k, r)" by fastforce
  from demo_back_opens [OF o] have "r = Inr ()" "map has_data (ej_epochs k) = [False, False]" "map ep_acked (ej_epochs k) = [True, False]"
    "filter ep_dropped_under_pressure (ej_epochs k) = []" by (auto simp: map_eq_Cons_conv)
  then show ?thesis using a o by (auto simp: demo_back_parts demo_lost_def gaps_def journal_store_def demo_epoch_of_def)
qed

end
