(* ===== verification/FieldPolicy.thy ===== *)
theory FieldPolicy
  imports QuantizerSound
begin

section \<open>The policy rules of a flow that defines its fields\<close>

text \<open>
  The last part of \<open>src/prismpath/kernel/field_definitions.py\<close>: the atoms of a condition, the rule an atom
  of a defined field must obey, and all the ways a flow breaks the rules. The findings are values; the wording of
  the messages is not modelled. A tuple of constants is a list value. The rules are asked only about Level M trees,
  on which reading \<open>id\<close>, \<open>elts\<close> or \<open>value\<close> of an operand never fails (\<open>policy_atoms_total\<close>).

  The point of the rules: a flow without a finding decides on canonical readings as it would on the exact values
  of the source, before any rounding (\<open>defined_flow_decides_source_values\<close>).
\<close>

subsection \<open>Atoms\<close>

fun elts_of :: "ast \<Rightarrow> ast list option" where
  "elts_of (AList es) = Some es"
| "elts_of (ATuple es) = Some es"
| "elts_of (AOther k es) = (if k = ''Set'' then Some es else None)"
| "elts_of _ = None"

definition constant_of :: "ast \<Rightarrow> pyval result" where
  "constant_of n = (case const_value n of None \<Rightarrow> Inl AttributeError | Some v \<Rightarrow> Inr v)"

fun id_of :: "ast \<Rightarrow> string result" where
  "id_of (AName x) = Inr x"
| "id_of _ = Inl AttributeError"

definition policy_compare :: "cmpop \<Rightarrow> ast \<Rightarrow> ast \<Rightarrow> atom list result" where
  "policy_compare op left right =
     (if op \<in> {CIs, CIsNot} then Inl KeyError
      else case cmp_sym op of
          None \<Rightarrow> ebind (id_of left) (\<lambda>x. case elts_of right of
              None \<Rightarrow> Inl AttributeError
            | Some es \<Rightarrow> ebind (emap constant_of es) (\<lambda>vs. Inr [(x, if op = CIn then AIn else ANotIn, PList vs)]))
        | Some rel \<Rightarrow> if is_name left
            then ebind (id_of left) (\<lambda>x. ebind (constant_of right) (\<lambda>v. Inr [(x, rel, v)]))
            else ebind (id_of right) (\<lambda>x. ebind (constant_of left) (\<lambda>v. Inr [(x, flip_op rel, v)])))"

fun policy_atoms :: "ast \<Rightarrow> atom list result" where
  "policy_atoms (ABoolOp b vs) = ebind (emap policy_atoms vs) (\<lambda>as. Inr (concat as))"
| "policy_atoms (AUnary UNot n) = policy_atoms n"
| "policy_atoms (AName x) = Inr [(x, ATruthy, PNone)]"
| "policy_atoms (ACompare left (op # ops) (right # cs)) = policy_compare op left right"
| "policy_atoms (ACompare left ops cs) = Inl IndexError"
| "policy_atoms n = Inr []"

subsection \<open>The rule of one atom\<close>

datatype atom_finding =
    NoneInList
  | NoneOrdered
  | AbsenceRefused
  | NotABoolTest
  | NotACategoryTest
  | NotNumbers
  | NotCarried
  | ConstantOutside int

fun op_text :: "atom_op \<Rightarrow> string" where
  "op_text ALt = ''<''"
| "op_text ALtE = ''<=''"
| "op_text AGt = ''>''"
| "op_text AGtE = ''>=''"
| "op_text AEq = ''==''"
| "op_text ANotEq = ''!=''"
| "op_text AIn = ''in''"
| "op_text ANotIn = ''not in''"
| "op_text ATruthy = ''truthy''"

definition policy_members :: "atom_op \<Rightarrow> pyval \<Rightarrow> pyval list" where
  "policy_members op k = (if op \<in> {AIn, ANotIn} then (case k of PList vs \<Rightarrow> vs | _ \<Rightarrow> []) else [k])"

definition rounding_carries :: "field_definition \<Rightarrow> atom_op \<Rightarrow> bool result" where
  "rounding_carries d op =
     (if fd_kind d \<noteq> KIND_FIXED then Inr True
      else case Option.bind (fd_rounding d) rounding_operators of
          None \<Rightarrow> Inl KeyError
        | Some ops \<Rightarrow> Inr (op_text op \<in> set ops))"

definition outside_range :: "field_definition \<Rightarrow> pyval \<Rightarrow> bool" where
  "outside_range d m = (case m of PInt i \<Rightarrow> \<not> (fd_minimum d \<le> i \<and> i \<le> fd_maximum d) | _ \<Rightarrow> False)"

definition number_problem :: "field_definition \<Rightarrow> atom_op \<Rightarrow> pyval list \<Rightarrow> atom_finding option result" where
  "number_problem d op members =
     (if op \<noteq> ATruthy \<and> \<not> list_all is_int members then Inr (Some NotNumbers)
      else ebind (rounding_carries d op) (\<lambda>carried.
        if \<not> carried then Inr (Some NotCarried)
        else if op = ATruthy then Inr None
        else Inr (case List.find (outside_range d) members of
            Some (PInt i) \<Rightarrow> Some (ConstantOutside i)
          | _ \<Rightarrow> None)))"

definition atom_problem :: "field_definition \<Rightarrow> atom_op \<Rightarrow> pyval \<Rightarrow> atom_finding option result" where
  "atom_problem d op k =
     (let members = policy_members op k in
      if op \<in> {AIn, ANotIn} \<and> PNone \<in> set members then Inr (Some NoneInList)
      else if k = PNone \<and> op \<noteq> ATruthy then
        Inr (if op \<notin> {AEq, ANotEq} then Some NoneOrdered
             else if \<not> fd_absent_allowed d then Some AbsenceRefused else None)
      else if fd_kind d = KIND_BOOL then
        Inr (if op = ATruthy \<or> op \<in> {AEq, ANotEq} \<and> is_bool k then None else Some NotABoolTest)
      else if fd_kind d = KIND_CATEGORY then
        Inr (if op = ATruthy \<or> op \<in> {AEq, ANotEq, AIn, ANotIn} \<and> list_all is_str members then None
             else Some NotACategoryTest)
      else number_problem d op members)"

subsection \<open>The findings of a flow\<close>

datatype policy_problem =
    OutsideLevelM string string "string option"
  | UndefinedField string string string
  | AtomProblem string string atom_finding
  | AbsenceUntested string

type_synonym policy_state = "policy_problem list \<times> string list"

fun check_atoms :: "(string, field_definition) pydict \<Rightarrow> string \<Rightarrow> string \<Rightarrow> atom list \<Rightarrow> policy_state \<Rightarrow> policy_state result" where
  "check_atoms defs name cond [] st = Inr st"
| "check_atoms defs name cond ((x, op, k) # ats) (problems, tested) =
     (if x \<in> set ENGINE_COUNTERS then check_atoms defs name cond ats (problems, tested)
      else case map_of defs x of
          None \<Rightarrow> check_atoms defs name cond ats (problems @ [UndefinedField name cond x], tested)
        | Some d \<Rightarrow> ebind (atom_problem d op k) (\<lambda>p. check_atoms defs name cond ats
            (case p of None \<Rightarrow> problems | Some q \<Rightarrow> problems @ [AtomProblem name cond q],
             if k = PNone \<and> op \<in> {AEq, ANotEq} then x # tested else tested)))"

definition check_edge :: "pyparse \<Rightarrow> (string, field_definition) pydict \<Rightarrow> string \<times> string \<Rightarrow> policy_state \<Rightarrow> policy_state result" where
  "check_edge parse defs edge st =
     (let (name, cond) = edge; (member, reason) = is_level_m parse cond in
      if \<not> member then Inr (fst st @ [OutsideLevelM name cond reason], snd st)
      else case expr_ast parse cond of
          None \<Rightarrow> Inr st
        | Some tree \<Rightarrow> ebind (policy_atoms (desugar_chains tree)) (\<lambda>ats. check_atoms defs name cond ats st))"

fun check_edges :: "pyparse \<Rightarrow> (string, field_definition) pydict \<Rightarrow> (string \<times> string) list \<Rightarrow> policy_state \<Rightarrow> policy_state result" where
  "check_edges parse defs [] st = Inr st"
| "check_edges parse defs (e # es) st = ebind (check_edge parse defs e st) (check_edges parse defs es)"

definition untested_absence :: "(string, field_definition) pydict \<Rightarrow> string list \<Rightarrow> policy_problem list" where
  "untested_absence defs tested =
     concat (map (\<lambda>x. case map_of defs x of
         Some d \<Rightarrow> if fd_absent_allowed d \<and> x \<notin> set tested then [AbsenceUntested x] else []
       | None \<Rightarrow> []) (str_sort (map fst defs)))"

definition policy_problems :: "pyparse \<Rightarrow> flow_graph \<Rightarrow> (string, field_definition) pydict \<Rightarrow> policy_problem list result" where
  "policy_problems parse graph defs =
     ebind (check_edges parse defs (routed_edges graph) ([], [])) (\<lambda>(problems, tested).
       Inr (problems @ untested_absence defs tested))"

subsection \<open>What no finding means\<close>

lemma policy_compare_level_m:
  assumes "atom_reason (ACompare l [op] [r]) = None"
  shows "policy_compare op l r = Inr (compare_atoms op l r)"
  using assms
proof (cases rule: pair_cases)
  case (member x es)
  have sc: "\<exists>k. e = AConst k" if "e \<in> set es" for e
    using member(4) that scalar_const_value by (fastforce simp: list_all_iff)
  have c: "const_value e \<noteq> None" if "e \<in> set es" for e using sc [OF that] by auto
  have "emap constant_of es = Inr (map (\<lambda>e. the (const_value e)) es)"
    by (rule emap_Inr_map) (use c in \<open>auto simp: constant_of_def split: option.splits\<close>)
  moreover have "List.map_filter const_value es = map (\<lambda>e. the (const_value e)) es"
    using c by (induction es) (auto simp: List.map_filter_simps split: option.splits)
  moreover have "elts_of r = Some es" using member(3) by (cases r) auto
  ultimately show ?thesis
    using member by (auto simp: policy_compare_def members_atom_def)
next
  case (left x k)
  then show ?thesis by (cases op) (auto simp: policy_compare_def constant_of_def)
next
  case (right x k)
  then show ?thesis by (cases op) (auto simp: policy_compare_def constant_of_def)
qed

lemma policy_atoms_compare:
  assumes "atom_reason (ACompare l ops cs) = None"
  shows "policy_atoms (ACompare l ops cs) = Inr (atoms_of (ACompare l ops cs))"
proof -
  obtain op r cs' where c: "ops = [op]" "cs = r # cs'"
    using assms by (cases "ACompare l ops cs" rule: atom_reason.cases) auto
  then have "atom_reason (ACompare l [op] [r]) = None" using assms by auto
  then show ?thesis using policy_compare_level_m c by simp
qed

lemma policy_atoms_total: "classify n = None \<Longrightarrow> policy_atoms n = Inr (atoms_of n)"
proof (induction n rule: classify.induct)
  case (1 b vs)
  then have "emap policy_atoms vs = Inr (map atoms_of vs)"
    by (intro emap_Inr_map) (auto simp: first_some_None)
  then show ?case by simp
qed (auto dest: policy_atoms_compare)

lemma check_atoms_clean:
  "check_atoms defs name cond ats (problems, tested) = Inr ([], tested') \<Longrightarrow>
   problems = [] \<and> (\<forall>(x, op, k) \<in> set ats. x \<in> set ENGINE_COUNTERS \<or>
     (\<exists>d. map_of defs x = Some d \<and> atom_problem d op k = Inr None))"
proof (induction ats arbitrary: problems tested)
  case (Cons a ats)
  obtain x op k where a: "a = (x, op, k)" by (cases a)
  show ?case
  proof (cases "x \<in> set ENGINE_COUNTERS")
    case True
    then show ?thesis using Cons.IH [of problems tested] Cons.prems by (simp add: a)
  next
    case False
    then obtain d where d: "map_of defs x = Some d"
      using Cons.prems Cons.IH [of "problems @ [UndefinedField name cond x]" tested] by (cases "map_of defs x") (auto simp: a)
    then obtain p t where p: "atom_problem d op k = Inr p"
      "check_atoms defs name cond ats (case p of None \<Rightarrow> problems | Some q \<Rightarrow> problems @ [AtomProblem name cond q], t) = Inr ([], tested')"
      using Cons.prems False by (auto simp: a ebind_eq_Inr)
    from Cons.IH [OF p(2)] show ?thesis using d p(1) by (cases p) (auto simp: a)
  qed
qed auto

lemma check_edge_clean:
  assumes "check_edge parse defs (name, cond) (problems, tested) = Inr ([], tested')"
  shows "problems = [] \<and> fst (is_level_m parse cond) \<and>
    (\<forall>(x, op, k) \<in> set (condition_atoms parse cond). x \<in> set ENGINE_COUNTERS \<or>
       (\<exists>d. map_of defs x = Some d \<and> atom_problem d op k = Inr None))"
proof -
  have m: "fst (is_level_m parse cond)"
    using assms by (auto simp: check_edge_def split: if_splits prod.splits)
  show ?thesis
  proof (cases "expr_ast parse cond")
    case None
    then show ?thesis using m assms by (auto simp: check_edge_def condition_atoms_def split: if_splits prod.splits)
  next
    case (Some tree)
    then have "classify (desugar_chains tree) = None"
      using m by (auto simp: expr_ast_def is_level_m.simps level_m_expr_def Let_def split: if_splits)
    then have "policy_atoms (desugar_chains tree) = Inr (condition_atoms parse cond)"
      using policy_atoms_total Some by (simp add: condition_atoms_def)
    then have "check_atoms defs name cond (condition_atoms parse cond) (problems, tested) = Inr ([], tested')"
      using assms m Some by (auto simp: check_edge_def split: prod.splits)
    then show ?thesis using check_atoms_clean m by blast
  qed
qed

lemma check_edges_clean:
  "check_edges parse defs es (problems, tested) = Inr ([], tested') \<Longrightarrow>
   problems = [] \<and> (\<forall>(name, cond) \<in> set es. fst (is_level_m parse cond) \<and>
    (\<forall>(x, op, k) \<in> set (condition_atoms parse cond). x \<in> set ENGINE_COUNTERS \<or>
       (\<exists>d. map_of defs x = Some d \<and> atom_problem d op k = Inr None)))"
proof (induction es arbitrary: problems tested)
  case (Cons e es)
  obtain name cond where e: "e = (name, cond)" by (cases e)
  obtain p t where st: "check_edge parse defs (name, cond) (problems, tested) = Inr (p, t)"
    "check_edges parse defs es (p, t) = Inr ([], tested')"
    using Cons.prems by (auto simp: e ebind_eq_Inr)
  from Cons.IH [OF st(2)] check_edge_clean [of parse defs name cond problems tested t] st(1) show ?case
    by (auto simp: e)
qed auto

lemma policy_clean:
  assumes "policy_problems parse graph defs = Inr []" "(name, cond) \<in> set (routed_edges graph)"
  shows "fst (is_level_m parse cond)"
    and "\<And>x op k. (x, op, k) \<in> set (condition_atoms parse cond) \<Longrightarrow>
      x \<in> set ENGINE_COUNTERS \<or> (\<exists>d. map_of defs x = Some d \<and> atom_problem d op k = Inr None)"
proof -
  obtain tested where "check_edges parse defs (routed_edges graph) ([], []) = Inr ([], tested)"
    using assms(1) by (auto simp: policy_problems_def ebind_eq_Inr)
  note c = check_edges_clean [OF this, THEN conjunct2, THEN bspec, OF assms(2), unfolded prod.case]
  show "fst (is_level_m parse cond)" by (rule conjunct1 [OF c])
  show "x \<in> set ENGINE_COUNTERS \<or> (\<exists>d. map_of defs x = Some d \<and> atom_problem d op k = Inr None)"
    if "(x, op, k) \<in> set (condition_atoms parse cond)" for x op k
    using bspec [OF conjunct2 [OF c] that] by simp
qed

subsection \<open>Decisions on the source values\<close>

text \<open>
  The exact value of a source number in units of the field's grid, before the definition rounds it: on a fixed field
  the product of the exact decimal and the scale. A threshold that was lowered to \<open>k\<close> units was written as \<open>k / scale\<close>,
  so comparing in units compares the source value with the threshold as it was written.
\<close>

definition exact_units :: "field_definition \<Rightarrow> raw_value \<Rightarrow> pyval \<Rightarrow> pyval" where
  "exact_units d raw v =
     (if fd_kind d = KIND_FIXED then (case (exact_value KIND_FIXED raw, fd_scale d) of
          (Inr q, Some scale) \<Rightarrow> PFloat (FFin (q * of_int scale))
        | _ \<Rightarrow> v)
      else v)"

definition exact_reading :: "(string, field_definition) pydict \<Rightarrow> (string \<Rightarrow> raw_value) \<Rightarrow> ctx \<Rightarrow> ctx" where
  "exact_reading defs raw c = map (\<lambda>(x, d). (x, exact_units d (raw x) (ctx_get c x))) defs @ c"

lemma ctx_get_exact_reading:
  "ctx_get (exact_reading defs raw c) x =
   (case map_of defs x of None \<Rightarrow> ctx_get c x | Some d \<Rightarrow> exact_units d (raw x) (ctx_get c x))"
proof -
  have "map_of (map (\<lambda>(x, d). (x, f x d)) ds) x = map_option (f x) (map_of ds x)"
    for f :: "string \<Rightarrow> field_definition \<Rightarrow> pyval" and ds
    by (induction ds) auto
  then show ?thesis by (cases "map_of defs x") (simp_all add: exact_reading_def ctx_get_def map_add_def)
qed

lemma order_exact:
  assumes "num_of w = Some (FFin a)" "num_of k = Some (FFin b)"
  shows "py_order op w k = Some (ord_of op (a < b) (b < a))"
  using assms by (simp add: py_order_num(1) float_order_def)

text \<open>An atom the rules allow has the same truth on the canonical value as on the exact one.\<close>

lemma rounding_exact:
  assumes "rounding_operators r = Some ops" "op_text op \<in> set ops"
  shows "r = ROUNDING_FLOOR \<and> op \<in> {AGtE, ALt} \<or> r = ROUNDING_CEILING \<and> op \<in> {AGt, ALtE} \<or> r = ROUNDING_EXACT"
  using assms by (cases op) (auto simp: rounding_operators_def split: if_splits)

lemma fixed_atom_exact:
  assumes "scaled_value d scale q = Inr n" "number_problem d op (policy_members op k) = Inr None"
    and "fd_kind d = KIND_FIXED" "level_m_atom (op, k)"
  shows "holds op k (PInt n) = holds op k (PFloat (FFin (q * of_int scale)))"
proof -
  obtain r ops where r: "fd_rounding d = Some r" "rounding_operators r = Some ops" "op_text op \<in> set ops"
    using assms(2,3) by (auto simp: number_problem_def rounding_carries_def ebind_eq_Inr split: if_splits option.splits bind_splits)
  have names: "ROUNDING_FLOOR \<noteq> ROUNDING_CEILING" "ROUNDING_FLOOR \<noteq> ROUNDING_EXACT" "ROUNDING_CEILING \<noteq> ROUNDING_EXACT"
    by (simp_all add: ROUNDING_FLOOR_def ROUNDING_CEILING_def ROUNDING_EXACT_def)
  have k: "\<exists>i. k = PInt i" if "op \<in> {AGtE, ALt, AGt, ALtE}"
    using assms(2) that by (cases k) (auto simp: number_problem_def policy_members_def split: if_splits)
  consider "r = ROUNDING_FLOOR" "op \<in> {AGtE, ALt}" | "r = ROUNDING_CEILING" "op \<in> {AGt, ALtE}" | "r = ROUNDING_EXACT"
    using rounding_exact [OF r(2,3)] by blast
  then show ?thesis
  proof cases
    case 1
    then obtain i where i: "k = PInt i" using k by auto
    have "n = \<lfloor>q * of_int scale\<rfloor>" using assms(1) 1 r(1) names by (auto simp: scaled_value_def Let_def split: if_splits)
    then have "n < i \<longleftrightarrow> q * of_int scale < of_int i" by (simp add: floor_less_iff)
    then show ?thesis using 1 by (auto simp: i order_exact)
  next
    case 2
    then obtain i where i: "k = PInt i" using k by auto
    have "n = \<lceil>q * of_int scale\<rceil>" using assms(1) 2 r(1) names by (auto simp: scaled_value_def Let_def split: if_splits)
    then have "i < n \<longleftrightarrow> of_int i < q * of_int scale" by (simp add: less_ceiling_iff)
    then show ?thesis using 2 by (auto simp: i order_exact)
  next
    case 3
    then have "of_int n = q * of_int scale"
      using assms(1) r(1) names by (auto simp: scaled_value_def is_integral_def Let_def split: if_splits)
    then show ?thesis by (intro holds_num_same [of _ "q * of_int scale"]) simp_all
  qed
qed

lemma defined_atom_exact:
  assumes "definition_wf d" "canonical_value d raw = Inr v" "atom_problem d op k = Inr None" "level_m_atom (op, k)"
  shows "holds op k v = holds op k (exact_units d raw v)"
proof (cases "fd_kind d = KIND_FIXED \<and> raw \<noteq> RawValue PNone")
  case False
  then show ?thesis by (auto simp: exact_units_def)
next
  case True
  then have kinds: "fd_kind d \<noteq> KIND_BOOL" "fd_kind d \<noteq> KIND_CATEGORY" by (simp_all add: field_kinds)
  obtain scale where s: "fd_scale d = Some scale" using assms(1) True by (auto simp: definition_wf_def)
  have "canonical_number d raw = Inr v" using assms(2) True kinds by (simp add: canonical_value_def)
  from canonical_number_fixed [OF this] obtain q n
    where q: "exact_value KIND_FIXED raw = Inr q" "scaled_value d scale q = Inr n" "v = PInt n"
    using True s by auto
  have e: "exact_units d raw (PInt n) = PFloat (FFin (q * of_int scale))" using True q s by (simp add: exact_units_def)
  show ?thesis
  proof (cases "k = PNone \<and> op \<noteq> ATruthy")
    case none: True
    then have "op = AEq \<or> op = ANotEq" using assms(3) by (auto simp: atom_problem_def Let_def split: if_splits)
    then show ?thesis using none by (elim disjE) (simp_all add: q(3) e)
  next
    case num: False
    then have "number_problem d op (policy_members op k) = Inr None"
      using assms(3) kinds by (auto simp: atom_problem_def Let_def split: if_splits)
    then show ?thesis using fixed_atom_exact [OF q(2) _ _ assms(4)] True by (simp add: e q(3))
  qed
qed

lemma definitions_of_mem:
  assumes "definitions_of meta = Inr defs" "(x, d) \<in> set defs"
  shows "definition_wf d" "fd_name d = x"
proof -
  obtain i where i: "i < length defs" "defs ! i = (x, d)" using assms(2) by (auto simp: in_set_conv_nth)
  let ?kvs = "filter (\<lambda>kv. startswith (fst kv) ''field.'') meta"
  have "ebind (parse_definition (drop 6 (fst (?kvs ! i))) (snd (?kvs ! i))) (\<lambda>d. Inr (drop 6 (fst (?kvs ! i)), d)) = Inr (defs ! i)"
    using assms(1) i(1) unfolding definitions_of_def emap_Inr_iff by auto
  then have p: "parse_definition x (snd (?kvs ! i)) = Inr d" using i(2) by (auto simp: ebind_eq_Inr)
  then show "definition_wf d" by (rule parse_definition_wf)
  from parse_definition_parts [OF p] definition_from_Inr show "fd_name d = x" by blast
qed

lemmas definitions_of_wf = definitions_of_mem [OF _ map_of_SomeD]

lemma condition_atoms_level_m:
  assumes "parser_wf parse" "is_deterministic cond" "fst (is_level_m parse cond)" "(x, a) \<in> set (condition_atoms parse cond)"
  shows "level_m_atom a"
proof -
  have nk: "\<not> is_keyword (expr_of cond)"
    using assms(4) by (auto simp: condition_atoms_def expr_ast_def Let_def split: if_splits)
  obtain tree where t: "parse (expr_of cond) = Some tree" "classify (desugar_chains (fold_unary_signs tree)) = None"
    "condition_atoms parse cond = atoms_of (desugar_chains (fold_unary_signs tree))"
    using condition_body [OF assms(2,3) nk] by blast
  have "ast_wf (fold_unary_signs tree)" using assms(1) t(1) ast_wf_fold by (auto simp: parser_wf_def)
  then show ?thesis using atoms_level_m t(2) assms(4) t(3) by metis
qed

text \<open>
  Field definitions carry decisions: in a flow that breaks none of its definitions, every
  condition decides on a canonical reading, whose fixed fields are rounded to integers, as it would on the exact values of
  the source in the same units, so rounding never changes a route.
\<close>

theorem defined_flow_decides_source_values:
  assumes "parser_wf parse" "definitions_of (fg_meta graph) = Inr defs" "policy_problems parse graph defs = Inr []"
    and "\<And>x d. map_of defs x = Some d \<Longrightarrow> canonical_value d (raw x) = Inr (ctx_get c x)"
    and "(name, node) \<in> set (fg_nodes graph)" "(target, cond) \<in> set (fn_edges node)" "is_deterministic cond"
  shows "eval_condition parse cond c = eval_condition parse cond (exact_reading defs raw c)"
proof (rule eval_alike [OF assms(1,7)])
  have routed: "(name, cond) \<in> set (routed_edges graph)" using assms(5-7) by (auto simp: routed_edges_iff)
  note clean = policy_clean [OF assms(3) routed]
  show m: "fst (is_level_m parse cond)" by (rule clean(1))
  show "atoms_alike c (exact_reading defs raw c) (condition_atoms parse cond)"
    unfolding atoms_alike_def
  proof (intro ballI, clarify)
    fix x op k
    assume a: "(x, op, k) \<in> set (condition_atoms parse cond)"
    show "holds op k (ctx_get c x) = holds op k (ctx_get (exact_reading defs raw c) x)"
    proof (cases "map_of defs x")
      case None
      then show ?thesis by (simp add: ctx_get_exact_reading)
    next
      case (Some d)
      note d = definitions_of_wf [OF assms(2) Some]
      have "x \<notin> set ENGINE_COUNTERS" using d by (auto simp: definition_wf_def)
      then have p: "atom_problem d op k = Inr None" using clean(2) [OF a] Some by simp
      have "level_m_atom (op, k)" by (rule condition_atoms_level_m [OF assms(1,7) m a])
      then show ?thesis using defined_atom_exact [OF d(1) assms(4) [OF Some] p] Some by (simp add: ctx_get_exact_reading)
    qed
  qed
qed

end
