(* ===== verification/FieldLower.thy ===== *)
theory FieldLower
  imports FieldPolicy "HOL-Library.Product_Lexorder"
begin

section \<open>Lowering the thresholds of a flow that defines its fields\<close>

text \<open>
  The middle of \<open>src/prismpath/kernel/field_definitions.py\<close>: every numeric literal that a condition compares with a
  \<open>fixed\<close> field is replaced, in the text of the condition, by its canonical integer, and \<open>apply_definitions\<close> does
  this for a flow and then asks the policy rules. The literals are found by their place in the source, so the parser here is
  the parameter \<open>parse_at\<close>, which returns the tree that \<open>ast.parse\<close> returns with the UTF-8 offsets of its nodes
  (\<open>col_offset\<close> and \<open>end_col_offset\<close>; a condition is one line). A node without a place of its own (an
  operator, a context) has no entry among the children, since it is neither a comparison nor an operand.
\<close>

subsection \<open>Source segments\<close>

definition utf8_char :: "char \<Rightarrow> string" where
  "utf8_char c = (let n = (of_char c :: nat) in
     if n < 128 then [c] else [char_of (192 + n div 64), char_of (128 + n mod 64)])"

definition utf8 :: "string \<Rightarrow> string" where
  "utf8 s = concat (map utf8_char s)"

fun utf8_decode :: "string \<Rightarrow> string result" where
  "utf8_decode [] = Inr []"
| "utf8_decode (c # s) =
     (if (of_char c :: nat) < 128 then ebind (utf8_decode s) (\<lambda>t. Inr (c # t))
      else case s of
          [] \<Rightarrow> Inl ValueError
        | d # s' \<Rightarrow>
            if (of_char c :: nat) \<in> {194, 195} \<and> 128 \<le> (of_char d :: nat) \<and> (of_char d :: nat) < 192
            then ebind (utf8_decode s') (\<lambda>t. Inr (char_of ((of_char c - 192) * 64 + (of_char d - 128) :: nat) # t))
            else Inl ValueError)"

datatype located = Located (loc_ast: ast) (loc_start: nat) (loc_end: nat) (loc_kids: "located list")

type_synonym pyparse_at = "string \<Rightarrow> located option"

definition source_segment :: "string \<Rightarrow> located \<Rightarrow> string result" where
  "source_segment expr n = utf8_decode (take (loc_end n - loc_start n) (drop (loc_start n) (utf8 expr)))"

function walk_located :: "located list \<Rightarrow> located list" where
  "walk_located [] = []"
| "walk_located (n # queue) = n # walk_located (queue @ loc_kids n)"
  by pat_completeness auto
termination
proof (relation "measure (size_list size)")
  fix n :: located and queue
  have "size_list size (loc_kids n) < size n" by (cases n) simp
  then show "(queue @ loc_kids n, n # queue) \<in> measure (size_list size)" by (simp add: size_list_append)
qed simp

subsection \<open>The value of a literal\<close>

fun number_const :: "ast \<Rightarrow> pyval option" where
  "number_const (AConst (PInt i)) = Some (PInt i)"
| "number_const (AConst (PFloat f)) = Some (PFloat f)"
| "number_const _ = None"

text \<open>The sign of a literal and the node it stands on; a sign that is not directly on its number is refused.\<close>

definition signed_literal :: "string \<Rightarrow> located \<Rightarrow> (rat \<times> located) result" where
  "signed_literal expr n =
     (case (loc_ast n, loc_kids n) of
        (AUnary u _, inner # _) \<Rightarrow>
          if u = UUSub \<or> u = UUAdd then
            ebind (if number_const (loc_ast inner) = None then Inr True
                   else ebind (source_segment expr n) (\<lambda>outer. ebind (source_segment expr inner) (\<lambda>digits.
                     Inr (strip (drop 1 outer) = digits)))) (\<lambda>joined.
              if joined then Inr (if u = UUSub then - 1 else 1, inner) else Inl FieldDefinitionError)
          else Inr (1, n)
      | _ \<Rightarrow> Inr (1, n))"

definition literal_value :: "string \<Rightarrow> located \<Rightarrow> rat option result" where
  "literal_value expr n =
     ebind (signed_literal expr n) (\<lambda>(sign, m). case number_const (loc_ast m) of
         None \<Rightarrow> Inr None
       | Some (PInt i) \<Rightarrow> Inr (Some (sign * of_int i))
       | Some _ \<Rightarrow> ebind (source_segment expr m) (\<lambda>digits.
           case decimal_fraction (filter (\<lambda>c. c \<noteq> CHR ''_'') digits) of
             None \<Rightarrow> Inl FieldDefinitionError
           | Some q \<Rightarrow> Inr (Some (sign * q))))"

subsection \<open>Lowering an expression\<close>

type_synonym spans = "(nat \<times> nat, string \<times> int) pydict"

definition lower_literal :: "string \<Rightarrow> (string, field_definition) pydict \<Rightarrow> string \<Rightarrow> located \<Rightarrow> spans \<Rightarrow> spans result" where
  "lower_literal expr defs x n spans =
     ebind (literal_value expr n) (\<lambda>exact. case exact of
         None \<Rightarrow> Inr spans
       | Some q \<Rightarrow> (case map_of defs x of
           None \<Rightarrow> Inl KeyError
         | Some d \<Rightarrow> (case fd_scale d of
             None \<Rightarrow> Inl TypeError
           | Some scale \<Rightarrow>
               if \<not> is_integral (q * of_int scale) then Inl FieldDefinitionError
               else let canonical = \<lfloor>q * of_int scale\<rfloor>; place = (loc_start n, loc_end n) in
                 if \<not> (fd_minimum d \<le> canonical \<and> canonical \<le> fd_maximum d) then Inl FieldDefinitionError
                 else if (case map_of spans place of
                     None \<Rightarrow> False
                   | Some (y, _) \<Rightarrow> y \<noteq> x \<and> Option.bind (map_of defs y) fd_scale \<noteq> Some scale)
                 then Inl FieldDefinitionError
                 else Inr (dict_set spans place (x, canonical)))))"

fun lower_literals :: "string \<Rightarrow> (string, field_definition) pydict \<Rightarrow> (string \<times> located) list \<Rightarrow> spans \<Rightarrow> spans result" where
  "lower_literals expr defs [] spans = Inr spans"
| "lower_literals expr defs ((x, n) # ts) spans =
     ebind (lower_literal expr defs x n spans) (lower_literals expr defs ts)"

fun fixed_name :: "string list \<Rightarrow> ast \<Rightarrow> string list" where
  "fixed_name fixed (AName x) = (if x \<in> set fixed then [x] else [])"
| "fixed_name fixed _ = []"

text \<open>The operands of one comparison that are compared with a fixed field, in the order they are lowered.\<close>

definition pair_targets :: "string list \<Rightarrow> located \<times> cmpop \<times> located \<Rightarrow> (string \<times> located) list" where
  "pair_targets fixed p =
     (case p of (left, op, right) \<Rightarrow>
        if op \<in> {CIn, CNotIn} then
          (if collection (loc_ast right) = None then []
           else concat (map (\<lambda>x. map (Pair x) (loc_kids right)) (fixed_name fixed (loc_ast left))))
        else map (\<lambda>x. (x, right)) (fixed_name fixed (loc_ast left)) @ map (\<lambda>x. (x, left)) (fixed_name fixed (loc_ast right)))"

definition compare_targets :: "string list \<Rightarrow> located \<Rightarrow> (string \<times> located) list" where
  "compare_targets fixed n =
     (case loc_ast n of
        ACompare _ ops _ \<Rightarrow> concat (map (pair_targets fixed) (zip (loc_kids n) (zip ops (tl (loc_kids n)))))
      | _ \<Rightarrow> [])"

definition replace_span :: "string \<Rightarrow> (nat \<times> nat) \<times> string \<times> int \<Rightarrow> string" where
  "replace_span bytes e = (case e of ((a, b), x, k) \<Rightarrow> take a bytes @ int_str k @ drop b bytes)"

definition lower_expression :: "pyparse_at \<Rightarrow> string \<Rightarrow> (string, field_definition) pydict \<Rightarrow> string result" where
  "lower_expression parse_at expr defs =
     (let fixed = map fst (filter (\<lambda>(x, d). fd_kind d = KIND_FIXED) defs) in
      if fixed = [] then Inr expr
      else case parse_at expr of
          None \<Rightarrow> Inl SyntaxError
        | Some tree \<Rightarrow>
            ebind (lower_literals expr defs (concat (map (compare_targets fixed) (walk_located [tree]))) []) (\<lambda>spans.
              if spans = [] then Inr expr
              else utf8_decode (foldl replace_span (utf8 expr) (rev (sort_key fst spans)))))"

subsection \<open>Lowering a flow\<close>

definition lowered_body :: "string \<Rightarrow> string option" where
  "lowered_body cond =
     (if is_deterministic cond then Some (expr_of cond)
      else if is_error cond \<and> startswith (py_lower (error_expr cond)) ''when '' then Some (expr_of (error_expr cond))
      else None)"

definition endswith :: "string \<Rightarrow> string \<Rightarrow> bool" where
  "endswith s t = startswith (rev s) (rev t)"

definition lower_condition :: "pyparse_at \<Rightarrow> (string, field_definition) pydict \<Rightarrow> string \<Rightarrow> string result" where
  "lower_condition parse_at defs cond =
     (case lowered_body cond of
        None \<Rightarrow> Inr cond
      | Some expr \<Rightarrow>
          if is_keyword expr then Inr cond
          else if \<not> endswith (rstrip cond) expr then Inr cond
          else (case lower_expression parse_at expr defs of
              Inl e \<Rightarrow> if e = SyntaxError then Inr cond else Inl e
            | Inr lowered \<Rightarrow> Inr (take (length (rstrip cond) - length expr) (rstrip cond) @ lowered)))"

definition lower_node :: "pyparse_at \<Rightarrow> (string, field_definition) pydict \<Rightarrow> string \<times> flow_node \<Rightarrow> (string \<times> flow_node) result" where
  "lower_node parse_at defs kv =
     ebind (emap (\<lambda>(target, cond). ebind (lower_condition parse_at defs cond) (\<lambda>lowered. Inr (target, lowered))) (fn_edges (snd kv)))
       (\<lambda>edges. Inr (fst kv, (snd kv)\<lparr>fn_edges := edges\<rparr>))"

definition apply_definitions :: "pyparse \<Rightarrow> pyparse_at \<Rightarrow> flow_graph \<Rightarrow> flow_graph result" where
  "apply_definitions parse parse_at graph =
     ebind (definitions_of (fg_meta graph)) (\<lambda>defs.
       let graph = graph\<lparr>fg_fields := defs\<rparr> in
       if defs = [] then Inr graph
       else ebind (emap (lower_node parse_at defs) (fg_nodes graph)) (\<lambda>nodes.
         let graph = graph\<lparr>fg_nodes := nodes\<rparr> in
         ebind (policy_problems parse graph defs) (\<lambda>problems.
           if problems = [] then Inr graph else Inl FieldDefinitionError)))"

subsection \<open>Text and bytes\<close>

lemma utf8_char_decode: "utf8_decode (utf8_char c @ s) = ebind (utf8_decode s) (\<lambda>t. Inr (c # t))"
proof (cases "(of_char c :: nat) < 128")
  case False
  define n where "n = (of_char c :: nat)"
  define lead trail where "lead = (char_of (192 + n div 64) :: char)" and "trail = (char_of (128 + n mod 64) :: char)"
  have n: "n < 256" "128 \<le> n" using False by (simp_all add: n_def)
  then have q: "n div 64 = 2 \<or> n div 64 = 3" by linarith
  have hi: "(of_char lead :: nat) = 192 + n div 64" "(of_char trail :: nat) = 128 + n mod 64"
    using q n by (auto simp: lead_def trail_def of_char_of)
  have "char_of ((of_char lead - 192) * 64 + (of_char trail - 128) :: nat) = c"
    unfolding hi by (simp add: n_def)
  moreover have "\<not> (of_char lead :: nat) < 128" "(of_char lead :: nat) \<in> {194, 195}"
    "128 \<le> (of_char trail :: nat)" "(of_char trail :: nat) < 192" using q hi by auto
  moreover have "utf8_char c = [lead, trail]" using False by (simp add: utf8_char_def Let_def lead_def trail_def n_def)
  ultimately show ?thesis by (simp only: utf8_decode.simps append_Cons append_Nil list.case if_False if_True simp_thms)
qed (simp add: utf8_char_def)

lemma utf8_roundtrip: "utf8_decode (utf8 s) = Inr s"
  unfolding utf8_def by (induction s) (simp_all add: utf8_char_decode)

lemma set_dict_set_sub: "set (dict_set d k v) \<subseteq> insert (k, v) (set d)"
  by (induction d k v rule: dict_set.induct) auto

subsection \<open>What a lowered expression is\<close>

definition fixed_fields :: "(string, field_definition) pydict \<Rightarrow> string list" where
  "fixed_fields defs = map fst (filter (\<lambda>(x, d). fd_kind d = KIND_FIXED) defs)"

definition thresholds :: "string list \<Rightarrow> located \<Rightarrow> (string \<times> located) list" where
  "thresholds fixed tree = concat (map (compare_targets fixed) (walk_located [tree]))"

text \<open>A span of the text with the canonical integer of a literal there: exactly its value in the units of its field.\<close>

definition exact_span :: "string \<Rightarrow> (string, field_definition) pydict \<Rightarrow> (string \<times> located) list \<Rightarrow> (nat \<times> nat) \<times> string \<times> int \<Rightarrow> bool" where
  "exact_span expr defs ts e \<longleftrightarrow> (case e of (place, x, k) \<Rightarrow>
     \<exists>n q d scale. (x, n) \<in> set ts \<and> place = (loc_start n, loc_end n) \<and> literal_value expr n = Inr (Some q) \<and>
       map_of defs x = Some d \<and> fd_scale d = Some scale \<and> of_int k = q * of_int scale \<and> fd_minimum d \<le> k \<and> k \<le> fd_maximum d)"

lemma lower_literal_Inr:
  assumes "lower_literal expr defs x n spans = Inr spans'"
  obtains (other) "literal_value expr n = Inr None" "spans' = spans"
    | (lowered) q d scale k where "literal_value expr n = Inr (Some q)" "map_of defs x = Some d" "fd_scale d = Some scale"
        "of_int k = q * of_int scale" "fd_minimum d \<le> k" "k \<le> fd_maximum d"
        "spans' = dict_set spans (loc_start n, loc_end n) (x, k)"
proof -
  obtain v where v: "literal_value expr n = Inr v" using assms by (auto simp: lower_literal_def ebind_eq_Inr)
  show thesis
  proof (cases v)
    case None
    then show ?thesis using other v assms by (simp add: lower_literal_def)
  next
    case (Some q)
    then obtain d where d: "map_of defs x = Some d" using assms v by (cases "map_of defs x") (auto simp: lower_literal_def)
    then obtain scale where sc: "fd_scale d = Some scale" using assms v Some by (cases "fd_scale d") (auto simp: lower_literal_def)
    have i: "is_integral (q * of_int scale)" using assms v Some d sc by (auto simp: lower_literal_def split: if_splits)
    then show ?thesis
      using assms v Some d sc lowered [of q d scale "\<lfloor>q * of_int scale\<rfloor>"]
      by (simp add: lower_literal_def Let_def is_integral_def split: if_splits)
  qed
qed

lemma lower_literals_exact:
  assumes "lower_literals expr defs us spans = Inr spans'" "set us \<subseteq> set ts" "\<forall>e \<in> set spans. exact_span expr defs ts e"
  shows "(\<forall>e \<in> set spans'. exact_span expr defs ts e) \<and> fst ` set spans \<subseteq> fst ` set spans' \<and>
    (\<forall>(x, n) \<in> set us. \<forall>q. literal_value expr n = Inr (Some q) \<longrightarrow> (loc_start n, loc_end n) \<in> fst ` set spans')"
  using assms
proof (induction us arbitrary: spans)
  case (Cons u us)
  obtain x n where u: "u = (x, n)" by (cases u)
  obtain mid where mid: "lower_literal expr defs x n spans = Inr mid" "lower_literals expr defs us mid = Inr spans'"
    using Cons.prems(1) by (auto simp: u ebind_eq_Inr)
  from mid(1) show ?case
  proof (cases rule: lower_literal_Inr)
    case other
    then show ?thesis using Cons.IH [of spans] Cons.prems mid(2) by (auto simp: u)
  next
    case (lowered q d scale k)
    have "exact_span expr defs ts ((loc_start n, loc_end n), x, k)"
      using lowered Cons.prems(2) by (auto simp: exact_span_def u)
    then have "\<forall>e \<in> set mid. exact_span expr defs ts e"
      using Cons.prems(3) set_dict_set_sub [of spans] lowered(7) by blast
    then have "(\<forall>e \<in> set spans'. exact_span expr defs ts e) \<and> fst ` set mid \<subseteq> fst ` set spans' \<and>
        (\<forall>(x, n) \<in> set us. \<forall>q. literal_value expr n = Inr (Some q) \<longrightarrow> (loc_start n, loc_end n) \<in> fst ` set spans')"
      using Cons.IH [of mid] Cons.prems(2) mid(2) by simp
    moreover have "fst ` set mid = insert (loc_start n, loc_end n) (fst ` set spans)" by (simp add: lowered(7))
    ultimately show ?thesis by (auto simp: u)
  qed
qed simp


definition lower_demo_parse :: pyparse_at where
  "lower_demo_parse e = (if e = ''error_rate >= 0.86'' then
     Some (Located (ACompare (AName ''error_rate'') [CGtE] [AConst (PFloat (FFin (43 / 50)))]) 0 18
       [Located (AName ''error_rate'') 0 10 [], Located (AConst (PFloat (FFin (43 / 50)))) 14 18 []]) else None)"


end
