(* ===== verification/FlowParser.thy ===== *)
theory FlowParser
  imports FieldLower
begin

section \<open>The reader of a flow document\<close>

text \<open>
  \<open>parse\<close> of \<open>src/prismpath/kernel/parser.py\<close>: front matter, headings, edges, annotations and the
  prose between them, with the caps on the document, then \<open>apply_definitions\<close>. Each regular expression is the function that
  finds the match Python's backtracking finds: white space runs are greedy, \<open>(.+?)\<close> takes the shortest text after which only
  white space is left, and where a run must give a character back the function says so. A line never holds
  a line break, since the text is cut at all of them. The caps are the defaults of the environment variables.
\<close>

definition MAX_FLOW_BYTES :: nat where "MAX_FLOW_BYTES = 2 * 1024 * 1024"
definition MAX_NODES :: nat where "MAX_NODES = 5000"
definition MAX_EDGES :: nat where "MAX_EDGES = 20000"

subsection \<open>Front matter\<close>

text \<open>What can follow a match of \<open>\s*\n\<close>, the longest match first.\<close>

fun after_blank_lines :: "string \<Rightarrow> string list" where
  "after_blank_lines [] = []"
| "after_blank_lines (c # s) =
     (if py_isspace c then after_blank_lines s @ (if c = CHR 0x0A then [s] else []) else [])"

text \<open>The shortest text before a closing rule \<open>\n---\s*\n\<close>, and what follows the rule.\<close>

definition closing_rule :: "string \<Rightarrow> string option" where
  "closing_rule s =
     (if startswith s (CHR 0x0A # ''---'') then
        (case after_blank_lines (drop 4 s) of [] \<Rightarrow> None | rest # _ \<Rightarrow> Some rest)
      else None)"

fun until_rule :: "string \<Rightarrow> (string \<times> string) option" where
  "until_rule [] = None"
| "until_rule (c # s) =
     (case closing_rule (c # s) of
        Some rest \<Rightarrow> Some ([], rest)
      | None \<Rightarrow> map_option (\<lambda>(block, rest). (c # block, rest)) (until_rule s))"

definition front_matter :: "string \<Rightarrow> (string \<times> string) option" where
  "front_matter s =
     (if startswith s ''---'' then first_some (map until_rule (after_blank_lines (drop 3 s))) else None)"

fun read_meta :: "string list \<Rightarrow> (string, string) pydict \<Rightarrow> (string, string) pydict" where
  "read_meta [] meta = meta"
| "read_meta (line # ls) meta =
     read_meta ls (if CHR '':'' \<in> set line
       then (case split_once CHR '':'' line of (key, val) \<Rightarrow> dict_set meta (strip key) (strip val))
       else meta)"

subsection \<open>Lines\<close>

text \<open>\<open>\s*(.+?)\s*$\<close> after \<open>least\<close> white space characters that may not be given back.\<close>

definition trailing_text :: "nat \<Rightarrow> string \<Rightarrow> string option" where
  "trailing_text least s =
     (let blanks = takeWhile py_isspace s; rest = dropWhile py_isspace s in
      if length blanks < least then None
      else if rest \<noteq> [] then Some (rstrip rest)
      else if length blanks > least then Some [last blanks]
      else None)"

definition head_match :: "string \<Rightarrow> string option" where
  "head_match line =
     (let s = lstrip line in if startswith s ''##'' then trailing_text 1 (drop 2 s) else None)"

definition target_char :: "char \<Rightarrow> bool" where
  "target_char c = (let n = (of_char c :: nat) in
     (65 \<le> n \<and> n \<le> 90) \<or> (97 \<le> n \<and> n \<le> 122) \<or> (48 \<le> n \<and> n \<le> 57) \<or> n = 95 \<or> n = 45)"

definition after_arrow :: "string \<Rightarrow> string option" where
  "after_arrow s =
     (if startswith s ''->'' then Some (drop 2 s)
      else if startswith s ''-'' \<and> startswith (lstrip (drop 1 s)) ''->'' then Some (drop 2 (lstrip (drop 1 s)))
      else None)"

definition edge_match :: "string \<Rightarrow> (string \<times> string) option" where
  "edge_match line =
     Option.bind (after_arrow (lstrip line)) (\<lambda>r.
       let s = lstrip r; target = takeWhile target_char s; t = lstrip (dropWhile target_char s) in
       if target = [] \<or> \<not> startswith t '':'' then None
       else map_option (Pair target) (trailing_text 0 (drop 1 t)))"

definition anno_match :: "string \<Rightarrow> (string \<times> string) option" where
  "anno_match line =
     (let s = lstrip line; name = takeWhile word_char (drop 1 s);
          t = lstrip (dropWhile word_char (drop 1 s)); r = rstrip (drop 1 t) in
      if startswith s ''@'' \<and> name \<noteq> [] \<and> startswith t ''('' \<and> r \<noteq> [] \<and> last r = CHR '')''
      then Some (name, butlast r) else None)"

fun anno_args :: "string list \<Rightarrow> (string, string option) pydict \<Rightarrow> (string, string option) pydict" where
  "anno_args [] args = args"
| "anno_args (part # ps) args = anno_args ps
     (let part = strip part in
      if part = [] then args
      else if CHR ''='' \<in> set part then
        (case split_once CHR ''='' part of (key, val) \<Rightarrow>
           if strip key \<noteq> [] then dict_set args (strip key) (Some (strip val)) else args)
      else dict_set args part None)"

definition parse_anno_args :: "string \<Rightarrow> (string, string option) pydict" where
  "parse_anno_args argstr = anno_args (split_char CHR '','' argstr) []"

subsection \<open>The body\<close>

fun join_lines :: "string list \<Rightarrow> string" where
  "join_lines [] = []"
| "join_lines [l] = l"
| "join_lines (l # ls) = l @ CHR 0x0A # join_lines ls"

text \<open>The nodes read so far, the one being read (always the one of that name), its prose and the edges of the document.\<close>

record parse_state =
  ps_nodes :: "(string, flow_node) pydict"
  ps_cur :: "string option"
  ps_lines :: "string list"
  ps_edges :: nat

definition new_node :: "string \<Rightarrow> flow_node" where
  "new_node name = \<lparr>fn_name = name, fn_instruction = [], fn_edges = [], fn_annotations = []\<rparr>"

definition update_cur :: "(flow_node \<Rightarrow> flow_node) \<Rightarrow> parse_state \<Rightarrow> parse_state" where
  "update_cur f st = (case ps_cur st of
       None \<Rightarrow> st
     | Some cur \<Rightarrow> st\<lparr>ps_nodes := map (\<lambda>(k, node). (k, if k = cur then f node else node)) (ps_nodes st)\<rparr>)"

definition flush_lines :: "parse_state \<Rightarrow> parse_state" where
  "flush_lines st = update_cur (\<lambda>node. node\<lparr>fn_instruction := strip (join_lines (ps_lines st))\<rparr>) st"

definition heading_name :: "string \<Rightarrow> string" where
  "heading_name title = replace_char CHR '' '' CHR ''_'' (py_lower (strip title))"

definition read_heading :: "string \<Rightarrow> parse_state \<Rightarrow> parse_state result" where
  "read_heading title st =
     (let st = flush_lines st; name = heading_name title in
      if map_of (ps_nodes st) name = None \<and> length (ps_nodes st) \<ge> MAX_NODES then Inl ParseError
      else Inr (st\<lparr>ps_nodes := dict_set (ps_nodes st) name (new_node name), ps_cur := Some name, ps_lines := []\<rparr>))"

definition read_edge :: "string \<times> string \<Rightarrow> parse_state \<Rightarrow> parse_state result" where
  "read_edge e st =
     (let n = ps_edges st + 1 in
      if n > MAX_EDGES then Inl ParseError
      else Inr (update_cur (\<lambda>node. node\<lparr>fn_edges := fn_edges node @ [(strip (fst e), strip (snd e))]\<rparr>) (st\<lparr>ps_edges := n\<rparr>)))"

definition read_annotation :: "string \<times> string \<Rightarrow> parse_state \<Rightarrow> parse_state" where
  "read_annotation a st = update_cur (\<lambda>node.
     let name = strip (fst a); old = (case map_of (fn_annotations node) name of None \<Rightarrow> [] | Some args \<Rightarrow> args) in
     node\<lparr>fn_annotations := dict_set (fn_annotations node) name
       (foldl (\<lambda>args (k, v). dict_set args k v) old (parse_anno_args (snd a)))\<rparr>) st"

definition read_line :: "string \<Rightarrow> parse_state \<Rightarrow> parse_state result" where
  "read_line line st =
     (case head_match line of
        Some title \<Rightarrow> read_heading title st
      | None \<Rightarrow>
          if ps_cur st = None then Inr st
          else case edge_match line of
              Some e \<Rightarrow> read_edge e st
            | None \<Rightarrow> (case anno_match line of
                Some a \<Rightarrow> Inr (read_annotation a st)
              | None \<Rightarrow> Inr (st\<lparr>ps_lines := ps_lines st @ [line]\<rparr>)))"

fun read_body :: "string list \<Rightarrow> parse_state \<Rightarrow> parse_state result" where
  "read_body [] st = Inr (flush_lines st)"
| "read_body (line # ls) st = ebind (read_line line st) (read_body ls)"

definition empty_state :: parse_state where
  "empty_state = \<lparr>ps_nodes = [], ps_cur = None, ps_lines = [], ps_edges = 0\<rparr>"

definition start_of :: "(string, string) pydict \<Rightarrow> (string, flow_node) pydict \<Rightarrow> string" where
  "start_of meta nodes = (case map_of meta ''start'' of
       Some (c # s) \<Rightarrow> c # s
     | _ \<Rightarrow> (case nodes of [] \<Rightarrow> [] | (name, _) # _ \<Rightarrow> name))"

definition read_flow :: "string \<Rightarrow> flow_graph result" where
  "read_flow s =
     (if length s > MAX_FLOW_BYTES then Inl ParseError
      else let (meta, body) = (case front_matter s of
               None \<Rightarrow> ([], s)
             | Some (block, rest) \<Rightarrow> (read_meta (splitlines block) [], rest)) in
        ebind (read_body (splitlines body) empty_state) (\<lambda>st.
          Inr \<lparr>fg_name = (case map_of meta ''name'' of None \<Rightarrow> ''flow'' | Some n \<Rightarrow> n),
               fg_start = start_of meta (ps_nodes st), fg_nodes = ps_nodes st, fg_meta = meta, fg_fields = []\<rparr>))"

definition parse_flow :: "pyparse \<Rightarrow> pyparse_at \<Rightarrow> string \<Rightarrow> flow_graph result" where
  "parse_flow parse parse_at s = ebind (read_flow s) (apply_definitions parse parse_at)"

text \<open>\<open>parse_file\<close>: the size on disk is checked before the text is read; \<open>content\<close> is what reading it gives.\<close>

definition parse_file :: "pyparse \<Rightarrow> pyparse_at \<Rightarrow> nat \<Rightarrow> string result \<Rightarrow> flow_graph result" where
  "parse_file parse parse_at file_size content =
     (if file_size > MAX_FLOW_BYTES then Inl ParseError else ebind content (parse_flow parse parse_at))"

end
