(* ===== verification/FacetInit.thy ===== *)
theory FacetInit
  imports FlowParser
begin

section \<open>Drafts of a flow\<close>

text \<open>
  \<open>src/prismpath/telemetry/facet_init.py\<close>: the names a draft gives to the fields of an event, the names of its nodes and the document it
  writes. An edge without a condition is the \<open>else\<close> edge. The transcription of a Vector condition, which rewrites it by
  regular expressions, and the discovery of fields in a sample are not modelled. The test for a keyword of Python is a
  parameter.
\<close>

subsection \<open>Field names\<close>

record field_map =
  fm_by_path :: "(string, string) pydict"
  fm_by_token :: "(string, string) pydict"

definition empty_field_map :: field_map where
  "empty_field_map = \<lparr>fm_by_path = [], fm_by_token = []\<rparr>"

definition dots_joined :: "string \<Rightarrow> string" where
  "dots_joined path = replace_char CHR ''.'' CHR ''_'' path"

definition field_token :: "(string \<Rightarrow> bool) \<Rightarrow> string \<Rightarrow> field_map \<Rightarrow> string \<times> field_map" where
  "field_token iskeyword path m =
     (case map_of (fm_by_path m) path of
        Some tok \<Rightarrow> (tok, m)
      | None \<Rightarrow>
          let leaf = last (split_char CHR ''.'' path);
              tok = (if \<not> iskeyword leaf then leaf else dots_joined path);
              tok = (case map_of (fm_by_token m) tok of
                  Some other \<Rightarrow> if other \<noteq> path then dots_joined path else tok
                | None \<Rightarrow> tok) in
          (tok, m\<lparr>fm_by_path := dict_set (fm_by_path m) path tok, fm_by_token := dict_set (fm_by_token m) tok path\<rparr>))"

definition non_identity :: "field_map \<Rightarrow> (string, string) pydict" where
  "non_identity m = foldl (\<lambda>d (path, tok). if tok \<noteq> path then dict_set d tok path else d) [] (fm_by_path m)"

definition sanitize :: "string \<Rightarrow> string" where
  "sanitize name = map (\<lambda>c. if word_char c then c else CHR ''_'') name"

subsection \<open>The document\<close>

definition banner_lines :: "string \<Rightarrow> string list" where
  "banner_lines origin =
     [''DRAFT generated by facet-init'' @ origin @ ''. Review every edge, then sign: a Facet codebook derives'',
      ''from authored policy, and this file is not policy until an author owns it. Every condition below'',
      ''was transcribed from a route or filter transform you already wrote; none was learned from the'',
      ''sample. Vector'' @ [CHR 0x27] @ ''s route transform sends an event to EVERY matching output, while a flow edge'',
      ''routes FIRST match: make the conditions mutually exclusive or order them deliberately before'',
      ''signing.'']"

type_synonym draft_node = "string \<times> (string \<times> string option) list"

definition edge_line :: "string \<times> string option \<Rightarrow> string" where
  "edge_line e = ''-> '' @ fst e @ '': '' @
     (case snd e of
        None \<Rightarrow> ''else''
      | Some cond \<Rightarrow> if cond = [] then ''else'' else if cond \<noteq> ''always'' then ''when '' @ cond else ''always'')"

definition node_lines :: "draft_node \<Rightarrow> string list" where
  "node_lines node = (''## '' @ fst node) # map edge_line (snd node)"

definition emit_flow :: "string \<Rightarrow> draft_node list \<Rightarrow> string list \<Rightarrow> string \<Rightarrow> string result" where
  "emit_flow name nodes banner_extra origin =
     (case nodes of
        [] \<Rightarrow> Inl IndexError
      | first # _ \<Rightarrow> Inr (join_lines
          ([''---'', ''name: '' @ name, ''start: '' @ fst first, ''---'', join_lines (banner_lines origin)] @
           banner_extra @ [[]] @ concat (map node_lines nodes)) @ [CHR 0x0A]))"

text \<open>
  Two paths can get one token: the joined path that resolves a collision is not itself checked, so a third path may already
  have it. Then the draft reads one field for two, and \<open>non_identity\<close> names one of them.
\<close>

lemma tokens_collide:
  "let (t1, m) = field_token (\<lambda>_. False) ''a_b'' empty_field_map;
       (t2, m) = field_token (\<lambda>_. False) ''c.b'' m;
       (t3, m) = field_token (\<lambda>_. False) ''a.b'' m
   in t1 = ''a_b'' \<and> t2 = ''b'' \<and> t3 = ''a_b'' \<and> non_identity m = [(''b'', ''c.b''), (''a_b'', ''a.b'')]"
  by code_simp

end
