(* ===== verification/FlowSound.thy ===== *)
theory FlowSound
  imports FacetInit
begin

section \<open>What the reader of flows guarantees\<close>

text \<open>
  Every graph the reader returns is within the caps and well formed (\<open>parsed_flow_wf\<close>), its conditions decide
  on rounded readings as on the exact source (\<open>parsed_flow_decides_source_values\<close>), and a draft that \<open>facet_init\<close> writes is read back
  as the nodes and edges it was written from (\<open>draft_roundtrip\<close>).
\<close>

subsection \<open>Lines\<close>

definition no_break :: "string \<Rightarrow> bool" where
  "no_break l \<longleftrightarrow> list_all (\<lambda>c. \<not> is_linebreak c) l"

lemma linebreak_chars [simp]: "is_linebreak CHR 0x0A" "is_linebreak CHR 0x0D"
  by (simp_all add: is_linebreak_def)

lemma lines_loop_line:
  "no_break l \<Longrightarrow> lines_loop cur (l @ CHR 0x0A # s) = (rev cur @ l) # lines_loop [] s"
proof (induction l arbitrary: cur)
  case Nil
  then show ?case by (cases s) simp_all
next
  case (Cons c l)
  then have c: "\<not> is_linebreak c" "c \<noteq> CHR 0x0D" by (auto simp: no_break_def)
  obtain d t where t: "l @ CHR 0x0A # s = d # t" by (cases "l @ CHR 0x0A # s") auto
  have "lines_loop cur (c # l @ CHR 0x0A # s) = lines_loop (c # cur) (l @ CHR 0x0A # s)"
    using c unfolding t by simp
  then show ?case using Cons by (simp add: no_break_def)
qed

lemma lines_loop_end: "no_break l \<Longrightarrow> lines_loop cur l = (if cur = [] \<and> l = [] then [] else [rev cur @ l])"
proof (induction l arbitrary: cur)
  case (Cons c l)
  then have c: "\<not> is_linebreak c" "c \<noteq> CHR 0x0D" by (auto simp: no_break_def)
  have "lines_loop cur (c # l) = lines_loop (c # cur) l" using c by (cases l) simp_all
  then show ?case using Cons by (simp add: no_break_def)
qed simp

definition terminated :: "string list \<Rightarrow> string" where
  "terminated ls = concat (map (\<lambda>l. l @ [CHR 0x0A]) ls)"

lemma terminated_append [simp]: "terminated (a @ b) = terminated a @ terminated b"
  by (simp add: terminated_def)

lemma terminated_simps [simp]: "terminated [] = []" "terminated (l # ls) = l @ CHR 0x0A # terminated ls"
  by (simp_all add: terminated_def)

lemma splitlines_terminated: "list_all no_break ls \<Longrightarrow> splitlines (terminated ls) = ls"
  unfolding splitlines_def by (induction ls) (simp_all add: lines_loop_line)

lemma join_terminated: "ls \<noteq> [] \<Longrightarrow> join_lines ls @ [CHR 0x0A] = terminated ls"
  by (induction ls rule: join_lines.induct) simp_all

subsection \<open>The lines of a draft\<close>

text \<open>Text that stands on a line by itself: it neither begins nor ends with white space and breaks no line.\<close>

definition plain_text :: "string \<Rightarrow> bool" where
  "plain_text s \<longleftrightarrow> s \<noteq> [] \<and> \<not> py_isspace (hd s) \<and> \<not> py_isspace (last s) \<and> no_break s"

definition node_char :: "char \<Rightarrow> bool" where
  "node_char c \<longleftrightarrow> target_char c \<and> py_lower_char c = c"

definition draft_name :: "string \<Rightarrow> bool" where
  "draft_name s \<longleftrightarrow> s \<noteq> [] \<and> list_all node_char s"

lemma node_char_plain:
  assumes "target_char c"
  shows "\<not> py_isspace c" "\<not> is_linebreak c" "c \<noteq> CHR ''#''" "c \<noteq> CHR '' ''" "c \<noteq> CHR '':''"
  using assms by (auto simp: target_char_def py_isspace_def is_linebreak_def Let_def)

lemma rstrip_fixed: "s \<noteq> [] \<Longrightarrow> \<not> py_isspace (last s) \<Longrightarrow> rstrip s = s"
  by (cases "rev s") (auto simp: rstrip_def last_rev [symmetric] hd_rev)

lemma lstrip_fixed: "s \<noteq> [] \<Longrightarrow> \<not> py_isspace (hd s) \<Longrightarrow> lstrip s = s"
  by (cases s) (auto simp: lstrip_def)

lemma plain_text_strip: "plain_text s \<Longrightarrow> strip s = s"
  by (simp add: plain_text_def strip_fixed)

lemma draft_name_plain: "draft_name s \<Longrightarrow> plain_text s"
  using node_char_plain by (auto simp: draft_name_def plain_text_def no_break_def list_all_iff node_char_def)

lemma trailing_text_plain: "plain_text s \<Longrightarrow> least \<le> 1 \<Longrightarrow> trailing_text least (CHR '' '' # s) = Some s"
  using lstrip_fixed [of s] rstrip_fixed [of s]
  by (cases s) (auto simp: trailing_text_def plain_text_def py_isspace_def)

lemma heading_line: "plain_text s \<Longrightarrow> head_match (''## '' @ s) = Some s"
  using trailing_text_plain [of s 1]
  by (simp add: head_match_def lstrip_def py_isspace_def startswith_def)

lemma heading_name_draft: "draft_name s \<Longrightarrow> heading_name s = s"
proof -
  assume s: "draft_name s"
  then have "py_lower s = s" by (simp add: py_lower_def draft_name_def list_all_iff node_char_def map_idI)
  moreover have "replace_char CHR '' '' CHR ''_'' s = s"
    using s node_char_plain(4) by (auto simp: replace_char_def draft_name_def list_all_iff node_char_def intro!: map_idI)
  ultimately show ?thesis using plain_text_strip [OF draft_name_plain [OF s]] by (simp add: heading_name_def)
qed

lemma edge_line_match:
  assumes "t \<noteq> []" "list_all target_char t" "plain_text c"
  shows "edge_match (''-> '' @ t @ '': '' @ c) = Some (t, c)"
proof -
  have ls: "lstrip (t @ u) = t @ u" for u
    using assms(1,2) node_char_plain(1) by (cases t) (auto simp: lstrip_def)
  have "takeWhile target_char (t @ CHR '':'' # u) = t" "dropWhile target_char (t @ CHR '':'' # u) = CHR '':'' # u" for u
    using assms(2) by (simp_all add: takeWhile_append2 dropWhile_append2 list_all_iff target_char_def)
  moreover have "lstrip (CHR '':'' # u) = CHR '':'' # u" for u by (simp add: lstrip_def py_isspace_def)
  moreover have "lstrip (CHR '' '' # t @ u) = t @ u" for u using ls [of u] by (simp add: lstrip_def py_isspace_def)
  moreover have "lstrip (CHR ''-'' # u) = CHR ''-'' # u" for u by (simp add: lstrip_def py_isspace_def)
  ultimately show ?thesis
    using trailing_text_plain [OF assms(3), of 0] assms(1)
    by (simp add: edge_match_def after_arrow_def startswith_def)
qed

lemma not_heading: "s \<noteq> [] \<Longrightarrow> \<not> py_isspace (hd s) \<Longrightarrow> hd s \<noteq> CHR ''#'' \<Longrightarrow> head_match s = None"
  by (cases s) (simp_all add: head_match_def lstrip_def startswith_def)

definition draft_condition :: "string option \<Rightarrow> string" where
  "draft_condition c = (case c of
       None \<Rightarrow> ''else''
     | Some cond \<Rightarrow> if cond = [] then ''else'' else if cond \<noteq> ''always'' then ''when '' @ cond else ''always'')"

definition draft_edge :: "string \<times> string option \<Rightarrow> bool" where
  "draft_edge e \<longleftrightarrow> fst e \<noteq> [] \<and> list_all target_char (fst e) \<and>
     (case snd e of None \<Rightarrow> True | Some c \<Rightarrow> c = [] \<or> plain_text c)"

lemma draft_condition_plain: "draft_edge (t, c) \<Longrightarrow> plain_text (draft_condition c)"
proof -
  assume "draft_edge (t, c)"
  moreover have "no_break ''when ''" "no_break ''else''" "no_break ''always''" by code_simp+
  ultimately show ?thesis
    by (auto simp: draft_edge_def draft_condition_def plain_text_def py_isspace_def no_break_def split: option.splits)
qed

lemma edge_line_eq: "edge_line e = ''-> '' @ fst e @ '': '' @ draft_condition (snd e)"
  by (simp add: edge_line_def draft_condition_def)

lemma edge_line_reads:
  assumes "draft_edge e"
  shows "head_match (edge_line e) = None" "edge_match (edge_line e) = Some (fst e, draft_condition (snd e))" "no_break (edge_line e)"
proof -
  obtain t c where e: "e = (t, c)" by (cases e)
  have t: "t \<noteq> []" "list_all target_char t" using assms by (auto simp: e draft_edge_def)
  have c: "plain_text (draft_condition c)" using draft_condition_plain assms by (simp add: e)
  show "head_match (edge_line e) = None" by (rule not_heading) (simp_all add: edge_line_def py_isspace_def)
  show "edge_match (edge_line e) = Some (fst e, draft_condition (snd e))"
    using edge_line_match [OF t c] by (simp add: edge_line_eq e)
  have "no_break ''-> ''" "no_break '': ''" by code_simp+
  then show "no_break (edge_line e)"
    using t(2) c node_char_plain(2) by (auto simp: edge_line_eq e no_break_def list_all_iff plain_text_def)
qed

subsection \<open>A draft is read back\<close>

definition graph_node :: "draft_node \<Rightarrow> string \<times> flow_node" where
  "graph_node d = (fst d, (new_node (fst d))\<lparr>fn_edges := map (\<lambda>e. (fst e, draft_condition (snd e))) (snd d)\<rparr>)"

definition graph_nodes :: "draft_node list \<Rightarrow> (string, flow_node) pydict" where
  "graph_nodes ds = map graph_node ds"

definition draft_wf :: "draft_node list \<Rightarrow> bool" where
  "draft_wf ds \<longleftrightarrow> distinct (map fst ds) \<and> list_all (\<lambda>d. draft_name (fst d) \<and> list_all draft_edge (snd d)) ds \<and>
     length ds \<le> MAX_NODES \<and> sum_list (map (length \<circ> snd) ds) \<le> MAX_EDGES"

lemma strip_matches: "draft_edge e \<Longrightarrow> strip (fst e) = fst e" "draft_edge e \<Longrightarrow> strip (draft_condition (snd e)) = draft_condition (snd e)"
proof -
  assume e: "draft_edge e"
  then have "list_all (\<lambda>c. \<not> py_isspace c) (fst e)" "fst e \<noteq> []"
    using node_char_plain(1) by (auto simp: draft_edge_def list_all_iff)
  then show "strip (fst e) = fst e" by (intro strip_fixed) (auto simp: list_all_iff)
  show "strip (draft_condition (snd e)) = draft_condition (snd e)"
    using draft_condition_plain [of "fst e" "snd e"] e by (simp add: plain_text_strip)
qed

lemma update_last:
  assumes "k \<notin> fst ` set ns"
  shows "map (\<lambda>(k', node). (k', if k' = k then f node else node)) (ns @ [(k, node)]) = ns @ [(k, f node)]"
  using assms by (force intro!: map_idI)

lemma read_edge_lines:
  assumes "list_all draft_edge es" "k \<notin> fst ` set ns" "m + length es \<le> MAX_EDGES"
  shows "read_body (map edge_line es @ ls) \<lparr>ps_nodes = ns @ [(k, node)], ps_cur = Some k, ps_lines = ps, ps_edges = m\<rparr> =
    read_body ls \<lparr>ps_nodes = ns @ [(k, node\<lparr>fn_edges := fn_edges node @ map (\<lambda>e. (fst e, draft_condition (snd e))) es\<rparr>)],
      ps_cur = Some k, ps_lines = ps, ps_edges = m + length es\<rparr>"
  using assms(1,3)
proof (induction es arbitrary: node m)
  case (Cons e es)
  have e: "draft_edge e" using Cons.prems by simp
  have "read_line (edge_line e) \<lparr>ps_nodes = ns @ [(k, node)], ps_cur = Some k, ps_lines = ps, ps_edges = m\<rparr> =
    Inr \<lparr>ps_nodes = ns @ [(k, node\<lparr>fn_edges := fn_edges node @ [(fst e, draft_condition (snd e))]\<rparr>)],
      ps_cur = Some k, ps_lines = ps, ps_edges = m + 1\<rparr>"
    using Cons.prems(2) edge_line_reads [OF e] strip_matches [OF e] update_last [OF assms(2)]
    by (simp add: read_line_def read_edge_def update_cur_def)
  then show ?case using Cons by simp
qed simp

lemma flush_plain:
  assumes "st = \<lparr>ps_nodes = graph_nodes ds, ps_cur = cur, ps_lines = [], ps_edges = m\<rparr>"
  shows "flush_lines st = st"
proof (cases cur)
  case (Some k)
  have "(\<lambda>(k', node). (k', if k' = k then node\<lparr>fn_instruction := []\<rparr> else node)) (graph_node d) = graph_node d" for d
    by (simp add: graph_node_def new_node_def)
  then show ?thesis by (simp add: assms flush_lines_def update_cur_def graph_nodes_def Some)
qed (simp add: assms flush_lines_def update_cur_def)

lemma graph_nodes_keys: "fst ` set (graph_nodes ds) = fst ` set ds"
  by (force simp: graph_nodes_def graph_node_def)

lemma read_node_lines:
  assumes "draft_wf (ds @ es)" "m = sum_list (map (length \<circ> snd) ds)"
  shows "\<exists>cur. read_body (concat (map node_lines es)) \<lparr>ps_nodes = graph_nodes ds, ps_cur = cur0, ps_lines = [], ps_edges = m\<rparr> =
    Inr \<lparr>ps_nodes = graph_nodes (ds @ es), ps_cur = cur, ps_lines = [], ps_edges = sum_list (map (length \<circ> snd) (ds @ es))\<rparr>"
  using assms
proof (induction es arbitrary: ds cur0 m)
  case Nil
  then show ?case by (auto simp: flush_plain)
next
  case (Cons d es)
  obtain k edges where d: "d = (k, edges)" by (cases d)
  have k: "draft_name k" "k \<notin> fst ` set (graph_nodes ds)" "list_all draft_edge edges" "length (graph_nodes ds) < MAX_NODES"
    and m: "m + length edges \<le> MAX_EDGES"
    using Cons.prems unfolding graph_nodes_keys by (auto simp: draft_wf_def d graph_nodes_def o_def)
  have new: "map_of (graph_nodes ds) k = None" using k(2) by (simp add: map_of_eq_None_iff)
  have "read_line (''## '' @ k) \<lparr>ps_nodes = graph_nodes ds, ps_cur = cur0, ps_lines = [], ps_edges = m\<rparr> =
    Inr \<lparr>ps_nodes = graph_nodes ds @ [(k, new_node k)], ps_cur = Some k, ps_lines = [], ps_edges = m\<rparr>"
    using heading_line [OF draft_name_plain [OF k(1)]] heading_name_draft [OF k(1)] flush_plain [OF refl] new k(4)
    by (simp add: read_line_def read_heading_def Let_def map_fst_dict_set_new [OF k(2)])
  then have "read_body (concat (map node_lines (d # es))) \<lparr>ps_nodes = graph_nodes ds, ps_cur = cur0, ps_lines = [], ps_edges = m\<rparr> =
    read_body (concat (map node_lines es)) \<lparr>ps_nodes = graph_nodes (ds @ [d]), ps_cur = Some k, ps_lines = [], ps_edges = m + length edges\<rparr>"
    using read_edge_lines [OF k(3,2) m]
    by (simp add: d node_lines_def graph_nodes_def graph_node_def new_node_def)
  then show ?case using Cons.IH [of "ds @ [d]" "m + length edges" "Some k"] Cons.prems by (simp add: d)
qed

lemma read_preamble:
  assumes "list_all (\<lambda>l. head_match l = None) ls"
  shows "read_body (ls @ lines) empty_state = read_body lines empty_state"
  using assms by (induction ls) (simp_all add: read_line_def empty_state_def)

text \<open>The front matter of a draft: its two lines are the block before the closing rule.\<close>

lemma until_rule_plain:
  "CHR 0x0A \<notin> set a \<Longrightarrow> until_rule (a @ s) = map_option (\<lambda>(b, r). (a @ b, r)) (until_rule s)"
proof (induction a)
  case Nil
  then show ?case by (simp add: prod.case_eq_if option.map_ident)
next
  case (Cons c a)
  then have "closing_rule (c # a @ s) = None" by (auto simp: closing_rule_def startswith_def)
  then show ?case using Cons by (simp add: option.map_comp o_def prod.case_eq_if)
qed

lemma until_rule_step:
  "closing_rule (c # s) = None \<Longrightarrow> until_rule s = Some (b, r) \<Longrightarrow> until_rule (c # s) = Some (c # b, r)"
  by simp

lemma no_break_newline: "no_break s \<Longrightarrow> CHR 0x0A \<notin> set s"
  by (auto simp: no_break_def list_all_iff)

lemma front_matter_two:
  assumes "no_break a" "no_break b" "a \<noteq> []" "\<not> py_isspace (hd a)" "b \<noteq> []" "hd b \<noteq> CHR ''-''"
    and "body \<noteq> []" "\<not> py_isspace (hd body)"
  shows "front_matter (terminated [''---'', a, b, ''---''] @ body) = Some (a @ CHR 0x0A # b, body)"
proof -
  have nl: "py_isspace CHR 0x0A" by (simp add: py_isspace_def)
  have none: "after_blank_lines (x @ s) = []" if "x \<noteq> []" "\<not> py_isspace (hd x)" for x s
    using that by (cases x) simp_all
  have close: "closing_rule (CHR 0x0A # ''---'' @ CHR 0x0A # body) = Some body"
    using none [OF assms(7,8), of "[]"] by (simp add: closing_rule_def startswith_def nl)
  have "closing_rule (CHR 0x0A # b @ s) = None" for s
    using assms(5,6) by (cases b) (simp_all add: closing_rule_def startswith_def)
  then have "until_rule (CHR 0x0A # b @ CHR 0x0A # ''---'' @ CHR 0x0A # body) = Some (CHR 0x0A # b, body)"
    using until_rule_plain [OF no_break_newline [OF assms(2)], of "CHR 0x0A # ''---'' @ CHR 0x0A # body"] close
    by (intro until_rule_step) simp_all
  then have "until_rule (a @ CHR 0x0A # b @ CHR 0x0A # ''---'' @ CHR 0x0A # body) = Some (a @ CHR 0x0A # b, body)"
    using until_rule_plain [OF no_break_newline [OF assms(1)]] by simp
  then show ?thesis
    using none [OF assms(3,4), of "CHR 0x0A # b @ CHR 0x0A # ''---'' @ CHR 0x0A # body"] nl
    by (simp add: front_matter_def startswith_def)
qed

lemma splitlines_two: "no_break a \<Longrightarrow> no_break b \<Longrightarrow> b \<noteq> [] \<Longrightarrow> splitlines (a @ CHR 0x0A # b) = [a, b]"
  by (simp add: splitlines_def lines_loop_line lines_loop_end)

subsection \<open>The round trip\<close>

lemma read_meta_draft:
  assumes "plain_text name" "plain_text k"
  shows "read_meta [''name: '' @ name, ''start: '' @ k] [] = [(''name'', name), (''start'', k)]"
proof -
  have "split_once CHR '':'' (''name: '' @ name) = (''name'', CHR '' '' # name)"
    "split_once CHR '':'' (''start: '' @ k) = (''start'', CHR '' '' # k)"
    by (simp_all add: split_once_def)
  moreover have "strip (CHR '' '' # s) = s" if "plain_text s" for s
    using plain_text_strip [OF that] by (simp add: strip_def lstrip_def py_isspace_def)
  moreover have "strip ''name'' = ''name''" "strip ''start'' = ''start''" by code_simp+
  ultimately show ?thesis using assms by simp
qed

lemma banner_reads: "no_break origin \<Longrightarrow> list_all (\<lambda>l. head_match l = None \<and> no_break l) (banner_lines origin)"
proof -
  assume o: "no_break origin"
  have h: "head_match ''DRAFT'' = None" by code_simp
  have "list_all no_break (tl (banner_lines []))" "no_break ''DRAFT generated by facet-init''"
    "no_break ''. Review every edge, then sign: a Facet codebook derives''" by code_simp+
  moreover have "list_all (\<lambda>l. head_match l = None) (tl (banner_lines []))" by code_simp
  moreover have "head_match (CHR ''D'' # s) = None" for s by (rule not_heading) (simp_all add: py_isspace_def)
  ultimately show ?thesis using o by (simp add: banner_lines_def no_break_def)
qed

lemma emit_flow_terminated:
  assumes "emit_flow name ds extra origin = Inr doc"
  shows "\<exists>k es ds'. ds = (k, es) # ds' \<and>
    doc = terminated [''---'', ''name: '' @ name, ''start: '' @ k, ''---''] @
      terminated (banner_lines origin @ extra @ [[]] @ concat (map node_lines ds))"
proof -
  obtain k es ds' where ds: "ds = (k, es) # ds'" using assms by (auto simp: emit_flow_def split: list.splits)
  have "terminated [join_lines (banner_lines origin)] = terminated (banner_lines origin)"
    using join_terminated [of "banner_lines origin"] by (simp add: banner_lines_def)
  moreover have "doc = terminated ([''---'', ''name: '' @ name, ''start: '' @ k, ''---'', join_lines (banner_lines origin)] @
      extra @ [[]] @ concat (map node_lines ds))"
    using assms by (subst join_terminated [symmetric]) (simp_all add: emit_flow_def ds)
  ultimately show ?thesis using ds by (auto simp: terminated_def)
qed

lemma draft_lines_no_break: "draft_wf ds \<Longrightarrow> list_all no_break (concat (map node_lines ds))"
proof (induction ds)
  case (Cons d ds)
  have "no_break (''## '' @ fst d)"
    using Cons.prems draft_name_plain [of "fst d"] by (auto simp: draft_wf_def plain_text_def no_break_def is_linebreak_def)
  moreover have "list_all no_break (map edge_line (snd d))"
    using Cons.prems edge_line_reads(3) by (auto simp: draft_wf_def list_all_iff)
  ultimately show ?case using Cons by (auto simp: draft_wf_def node_lines_def)
qed simp

lemma draft_meta:
  assumes "emit_flow name ((k, es) # ds) banner_extra origin = Inr doc" "plain_text name" "plain_text k"
  shows "\<exists>block. front_matter doc =
      Some (block, terminated (banner_lines origin @ banner_extra @ [[]] @ concat (map node_lines ((k, es) # ds)))) \<and>
    read_meta (splitlines block) [] = [(''name'', name), (''start'', k)]"
proof -
  let ?body = "banner_lines origin @ banner_extra @ [[]] @ concat (map node_lines ((k, es) # ds))"
  have doc: "doc = terminated [''---'', ''name: '' @ name, ''start: '' @ k, ''---''] @ terminated ?body"
    using emit_flow_terminated [OF assms(1)] by auto
  have nb: "no_break (''name: '' @ name)" "no_break (''start: '' @ k)"
    using assms(2,3) by (auto simp: plain_text_def no_break_def is_linebreak_def)
  have body: "terminated ?body \<noteq> []" "\<not> py_isspace (hd (terminated ?body))"
    by (simp_all add: banner_lines_def py_isspace_def)
  have "front_matter doc = Some ((''name: '' @ name) @ CHR 0x0A # (''start: '' @ k), terminated ?body)"
    unfolding doc by (rule front_matter_two [OF nb]) (use body in \<open>simp_all add: py_isspace_def\<close>)
  moreover have "splitlines ((''name: '' @ name) @ CHR 0x0A # (''start: '' @ k)) = [''name: '' @ name, ''start: '' @ k]"
    by (rule splitlines_two [OF nb]) simp
  ultimately show ?thesis using read_meta_draft [OF assms(2,3)] by simp
qed

text \<open>
  C20. A draft reads back: the document that \<open>emit_flow\<close> writes for nodes with distinct lower case names, whose edges lead to
  such names on transcribed conditions, is parsed to the graph of exactly these nodes and edges, in their order, with
  the first node as its start and no prose.
\<close>

theorem draft_roundtrip:
  assumes "emit_flow name ds banner_extra origin = Inr doc" "draft_wf ds" "plain_text name" "no_break origin"
    and "list_all (\<lambda>l. no_break l \<and> head_match l = None) banner_extra" "length doc \<le> MAX_FLOW_BYTES"
  shows "parse_flow parse parse_at doc = Inr \<lparr>fg_name = name, fg_start = fst (hd ds), fg_nodes = graph_nodes ds,
    fg_meta = [(''name'', name), (''start'', fst (hd ds))], fg_fields = []\<rparr>"
proof -
  obtain k es ds' where ds: "ds = (k, es) # ds'" using emit_flow_terminated [OF assms(1)] by blast
  let ?body = "banner_lines origin @ banner_extra @ [[]] @ concat (map node_lines ds)"
  have k: "plain_text k" "k \<noteq> []" using assms(2) draft_name_plain [of k] by (auto simp: draft_wf_def ds draft_name_def)
  obtain block where block: "front_matter doc = Some (block, terminated ?body)" "read_meta (splitlines block) [] = [(''name'', name), (''start'', k)]"
    using draft_meta [OF assms(1) [unfolded ds] assms(3) k(1)] ds by auto
  have "splitlines (terminated ?body) = ?body"
  proof (rule splitlines_terminated)
    show "list_all no_break ?body"
      using banner_reads [OF assms(4)] assms(5) draft_lines_no_break [OF assms(2)] by (auto simp: list_all_iff no_break_def)
  qed
  moreover have "read_body ?body empty_state = read_body (concat (map node_lines ds)) empty_state"
  proof -
    have "head_match [] = None" by code_simp
    then have "list_all (\<lambda>l. head_match l = None) (banner_lines origin @ banner_extra @ [[]])"
      using banner_reads [OF assms(4)] assms(5) by (auto simp: list_all_iff)
    from read_preamble [OF this] show ?thesis by simp
  qed
  moreover obtain cur n where "read_body (concat (map node_lines ds)) empty_state =
      Inr \<lparr>ps_nodes = graph_nodes ds, ps_cur = cur, ps_lines = [], ps_edges = n\<rparr>"
    using read_node_lines [of "[]" ds 0 None] assms(2) by (auto simp: empty_state_def graph_nodes_def)
  ultimately have "read_flow doc = Inr \<lparr>fg_name = name, fg_start = k, fg_nodes = graph_nodes ds,
      fg_meta = [(''name'', name), (''start'', k)], fg_fields = []\<rparr>"
    using assms(6) block k(2)
    by (cases k) (auto simp: read_flow_def start_of_def)
  then show ?thesis
    by (simp add: parse_flow_def ds apply_definitions_def definitions_of_def startswith_def)
qed

subsection \<open>Every graph the reader returns is well formed\<close>

definition name_wf :: "string \<Rightarrow> bool" where
  "name_wf k \<longleftrightarrow> py_lower k = k \<and> CHR '' '' \<notin> set k"

definition node_wf :: "string \<times> flow_node \<Rightarrow> bool" where
  "node_wf kv \<longleftrightarrow> fn_name (snd kv) = fst kv \<and> name_wf (fst kv) \<and> strip (fn_instruction (snd kv)) = fn_instruction (snd kv) \<and>
     list_all (\<lambda>e. fst e \<noteq> [] \<and> list_all target_char (fst e)) (fn_edges (snd kv))"

definition edge_total :: "(string, flow_node) pydict \<Rightarrow> nat" where
  "edge_total nodes = sum_list (map (\<lambda>kv. length (fn_edges (snd kv))) nodes)"

definition state_wf :: "parse_state \<Rightarrow> bool" where
  "state_wf st \<longleftrightarrow> distinct (map fst (ps_nodes st)) \<and> length (ps_nodes st) \<le> MAX_NODES \<and>
     edge_total (ps_nodes st) \<le> ps_edges st \<and> ps_edges st \<le> MAX_EDGES \<and> list_all node_wf (ps_nodes st)"

lemma lower_char_idem: "py_lower_char (py_lower_char c) = py_lower_char c"
  by (simp add: py_lower_char_def Let_def of_char_of)

lemma heading_name_wf: "name_wf (heading_name title)"
proof -
  let ?f = "\<lambda>c. if py_lower_char c = CHR '' '' then CHR ''_'' else py_lower_char c"
  have m: "heading_name title = map ?f (strip title)" by (simp add: heading_name_def replace_char_def py_lower_def)
  have "py_lower_char (?f c) = ?f c" "?f c \<noteq> CHR '' ''" for c
    by (simp_all add: lower_char_idem, simp_all add: py_lower_char_def)
  then show ?thesis unfolding name_wf_def m py_lower_def by (auto simp: o_def)
qed

lemma edge_total_set: "edge_total (dict_set nodes k node) \<le> edge_total nodes + length (fn_edges node)"
  by (induction nodes k node rule: dict_set.induct) (auto simp: edge_total_def)

lemma update_cur_wf:
  assumes "state_wf st" "\<And>node. fn_name (f node) = fn_name node \<and> fn_edges (f node) = fn_edges node"
    and "\<And>k node. node_wf (k, node) \<Longrightarrow> node_wf (k, f node)"
  shows "state_wf (update_cur f st)"
proof (cases "ps_cur st")
  case (Some cur)
  have "edge_total (map (\<lambda>(k, node). (k, if k = cur then f node else node)) nodes) = edge_total nodes" for nodes
    using assms(2) by (auto simp: edge_total_def o_def intro!: arg_cong [where f = sum_list] map_cong split: prod.splits)
  then show ?thesis using assms(1,3) by (auto simp: state_wf_def update_cur_def Some o_def case_prod_beta list_all_iff)
qed (use assms in \<open>simp add: update_cur_def\<close>)

lemma flush_wf: "state_wf st \<Longrightarrow> state_wf (flush_lines st)"
  unfolding flush_lines_def by (rule update_cur_wf) (simp_all add: node_wf_def)

lemma read_annotation_wf: "state_wf st \<Longrightarrow> state_wf (read_annotation a st)"
  unfolding read_annotation_def by (rule update_cur_wf) (simp_all add: node_wf_def Let_def)

lemma read_heading_wf:
  assumes "state_wf st" "read_heading title st = Inr st'"
  shows "state_wf st'"
proof -
  let ?st = "flush_lines st" and ?k = "heading_name title"
  have wf: "state_wf ?st" by (rule flush_wf [OF assms(1)])
  have st': "st' = ?st\<lparr>ps_nodes := dict_set (ps_nodes ?st) ?k (new_node ?k), ps_cur := Some ?k, ps_lines := []\<rparr>"
    and room: "map_of (ps_nodes ?st) ?k \<noteq> None \<or> length (ps_nodes ?st) < MAX_NODES"
    using assms(2) by (auto simp: read_heading_def Let_def split: if_splits)
  have "length (dict_set (ps_nodes ?st) ?k (new_node ?k)) \<le> MAX_NODES"
  proof (cases "?k \<in> fst ` set (ps_nodes ?st)")
    case True
    then have "length (dict_set (ps_nodes ?st) ?k (new_node ?k)) = length (ps_nodes ?st)"
      using map_fst_dict_set_mem by (metis length_map)
    then show ?thesis using wf by (simp add: state_wf_def)
  next
    case False
    then show ?thesis using room by (simp add: length_dict_set_new map_of_eq_None_iff)
  qed
  moreover have "edge_total (dict_set (ps_nodes ?st) ?k (new_node ?k)) \<le> edge_total (ps_nodes ?st)"
    using edge_total_set [of "ps_nodes ?st" ?k "new_node ?k"] by (simp add: new_node_def)
  moreover have "node_wf (?k, new_node ?k)" by (simp add: node_wf_def new_node_def heading_name_wf)
  then have "list_all node_wf (dict_set (ps_nodes ?st) ?k (new_node ?k))"
    using wf set_dict_set_sub [of "ps_nodes ?st" ?k "new_node ?k"] by (auto simp: state_wf_def list_all_iff)
  ultimately show ?thesis using wf by (simp add: st' state_wf_def)
qed

lemma edge_match_target:
  assumes "edge_match line = Some (t, c)"
  shows "t \<noteq> [] \<and> list_all target_char t"
proof -
  obtain r where "after_arrow (lstrip line) = Some r" "t = takeWhile target_char (lstrip r)" "t \<noteq> []"
    using assms by (cases "after_arrow (lstrip line)") (auto simp: edge_match_def Let_def split: if_splits)
  moreover have "list_all target_char (takeWhile target_char s)" for s by (induction s) simp_all
  ultimately show ?thesis by simp
qed

lemma edge_total_update:
  assumes "distinct (map fst nodes)" "\<And>node. length (fn_edges (f node)) = length (fn_edges node) + 1"
  shows "edge_total (map (\<lambda>(k, node). (k, if k = cur then f node else node)) nodes) \<le> edge_total nodes + 1"
  using assms(1)
proof (induction nodes)
  case (Cons kv nodes)
  obtain k node where kv: "kv = (k, node)" by (cases kv)
  show ?case
  proof (cases "k = cur")
    case True
    then have "map (\<lambda>(k, node). (k, if k = cur then f node else node)) nodes = nodes"
      using Cons.prems kv by (force intro!: map_idI)
    then show ?thesis using True assms(2) by (simp add: kv edge_total_def)
  next
    case False
    then show ?thesis using Cons by (simp add: kv edge_total_def)
  qed
qed simp

lemma strip_target: "t \<noteq> [] \<Longrightarrow> list_all target_char t \<Longrightarrow> strip t = t"
  by (intro strip_fixed) (auto simp: list_all_iff node_char_plain(1))

lemma read_edge_wf:
  assumes "state_wf st" "read_edge (t, c) st = Inr st'" "t \<noteq> []" "list_all target_char t"
  shows "state_wf st'"
proof -
  let ?f = "\<lambda>node. node\<lparr>fn_edges := fn_edges node @ [(strip t, strip c)]\<rparr>"
  have st': "st' = update_cur ?f (st\<lparr>ps_edges := ps_edges st + 1\<rparr>)" and m: "ps_edges st + 1 \<le> MAX_EDGES"
    using assms(2) by (auto simp: read_edge_def Let_def split: if_splits)
  show ?thesis
  proof (cases "ps_cur st")
    case None
    then show ?thesis using assms(1) m by (simp add: st' update_cur_def state_wf_def)
  next
    case (Some cur)
    let ?nodes = "map (\<lambda>(k, node). (k, if k = cur then ?f node else node)) (ps_nodes st)"
    have "edge_total ?nodes \<le> edge_total (ps_nodes st) + 1"
      by (rule edge_total_update) (use assms(1) in \<open>simp_all add: state_wf_def\<close>)
    moreover have "node_wf (k, if k = cur then ?f node else node)" if "node_wf (k, node)" for k node
      using that assms(3,4) strip_target [OF assms(3,4)] by (simp add: node_wf_def)
    then have "list_all node_wf ?nodes" using assms(1) by (auto simp: state_wf_def list_all_iff simp del: if_split)
    moreover have "map fst ?nodes = map fst (ps_nodes st)" by (simp add: o_def case_prod_beta)
    then have "distinct (map fst ?nodes)" using assms(1) unfolding state_wf_def by metis
    ultimately show ?thesis using assms(1) m by (simp add: st' update_cur_def Some state_wf_def del: map_map)
  qed
qed

lemma read_line_wf: "state_wf st \<Longrightarrow> read_line line st = Inr st' \<Longrightarrow> state_wf st'"
proof -
  assume wf: "state_wf st" and r: "read_line line st = Inr st'"
  show "state_wf st'"
  proof (cases "head_match line")
    case (Some title)
    then show ?thesis using r read_heading_wf [OF wf] by (simp add: read_line_def)
  next
    case None
    then show ?thesis
      using r wf read_edge_wf [OF wf] edge_match_target read_annotation_wf [OF wf]
      by (fastforce simp: read_line_def state_wf_def split: if_splits option.splits)
  qed
qed

lemma read_body_wf: "state_wf st \<Longrightarrow> read_body ls st = Inr st' \<Longrightarrow> state_wf st'"
  by (induction ls arbitrary: st) (auto simp: ebind_eq_Inr flush_wf dest: read_line_wf)

lemma read_flow_wf:
  assumes "read_flow s = Inr g"
  shows "distinct (map fst (fg_nodes g)) \<and> length (fg_nodes g) \<le> MAX_NODES \<and> edge_total (fg_nodes g) \<le> MAX_EDGES \<and>
    list_all node_wf (fg_nodes g) \<and> fg_start g = start_of (fg_meta g) (fg_nodes g)"
proof -
  have "state_wf empty_state" by (simp add: state_wf_def empty_state_def edge_total_def)
  moreover obtain ls st where st: "read_body ls empty_state = Inr st" "fg_nodes g = ps_nodes st" "fg_start g = start_of (fg_meta g) (ps_nodes st)"
    using assms by (auto simp: read_flow_def ebind_eq_Inr split: if_splits option.splits)
  ultimately have "state_wf st" using read_body_wf by blast
  then show ?thesis using st by (simp add: state_wf_def)
qed

lemma lower_node_keeps:
  assumes "lower_node parse_at defs kv = Inr kv'"
  shows "fst kv' = fst kv \<and> length (fn_edges (snd kv')) = length (fn_edges (snd kv)) \<and> (node_wf kv \<longrightarrow> node_wf kv')"
proof -
  obtain edges where e: "emap (\<lambda>(target, cond). ebind (lower_condition parse_at defs cond) (\<lambda>lowered. Inr (target, lowered)))
      (fn_edges (snd kv)) = Inr edges" and kv': "kv' = (fst kv, (snd kv)\<lparr>fn_edges := edges\<rparr>)"
    using assms by (auto simp: lower_node_def ebind_eq_Inr)
  have len: "length edges = length (fn_edges (snd kv))" by (rule emap_length [OF e])
  have "fst (edges ! i) = fst (fn_edges (snd kv) ! i)" if "i < length edges" for i
  proof -
    have "(case fn_edges (snd kv) ! i of (target, cond) \<Rightarrow> ebind (lower_condition parse_at defs cond) (\<lambda>lowered. Inr (target, lowered))) = Inr (edges ! i)"
      using e that len by (simp add: emap_Inr_iff)
    then show ?thesis by (cases "fn_edges (snd kv) ! i"; cases "edges ! i") (auto simp: ebind_eq_Inr)
  qed
  then have "map fst edges = map fst (fn_edges (snd kv))" using len by (intro nth_equalityI) simp_all
  then have "fst ` set edges = fst ` set (fn_edges (snd kv))" by (metis set_map)
  then have "list_all (\<lambda>t. P (fst t)) edges \<longleftrightarrow> list_all (\<lambda>t. P (fst t)) (fn_edges (snd kv))" for P
    unfolding list_all_iff by (metis (no_types, lifting) image_iff)
  from this [of "\<lambda>t. t \<noteq> [] \<and> list_all target_char t"] show ?thesis using len by (simp add: kv' node_wf_def)
qed

lemma lowered_nodes:
  assumes "emap (lower_node parse_at defs) nodes = Inr nodes'"
  shows "map fst nodes' = map fst nodes" "edge_total nodes' = edge_total nodes" "list_all node_wf nodes \<Longrightarrow> list_all node_wf nodes'"
proof -
  have len: "length nodes' = length nodes" by (rule emap_length [OF assms])
  have at: "fst (nodes' ! i) = fst (nodes ! i) \<and> length (fn_edges (snd (nodes' ! i))) = length (fn_edges (snd (nodes ! i))) \<and>
      (node_wf (nodes ! i) \<longrightarrow> node_wf (nodes' ! i))" if "i < length nodes'" for i
    using assms that len by (intro lower_node_keeps [of parse_at defs]) (simp add: emap_Inr_iff)
  then show "map fst nodes' = map fst nodes" using len by (intro nth_equalityI) simp_all
  have "map (\<lambda>kv. length (fn_edges (snd kv))) nodes' = map (\<lambda>kv. length (fn_edges (snd kv))) nodes"
    using at len by (intro nth_equalityI) simp_all
  then show "edge_total nodes' = edge_total nodes" by (simp add: edge_total_def)
  show "list_all node_wf nodes \<Longrightarrow> list_all node_wf nodes'" using at len by (simp add: list_all_length)
qed

lemma start_of_keys: "map fst nodes' = map fst nodes \<Longrightarrow> start_of meta nodes' = start_of meta nodes"
  by (cases nodes; cases nodes') (auto simp: start_of_def split: list.splits option.splits)

lemma apply_definitions_Inr:
  assumes "apply_definitions parse parse_at g = Inr g'"
  shows "definitions_of (fg_meta g) = Inr (fg_fields g') \<and> fg_meta g' = fg_meta g \<and> fg_start g' = fg_start g \<and>
    (fg_fields g' \<noteq> [] \<longrightarrow> policy_problems parse g' (fg_fields g') = Inr []) \<and>
    map fst (fg_nodes g') = map fst (fg_nodes g) \<and> edge_total (fg_nodes g') = edge_total (fg_nodes g) \<and>
    (list_all node_wf (fg_nodes g) \<longrightarrow> list_all node_wf (fg_nodes g'))"
proof -
  obtain defs where defs: "definitions_of (fg_meta g) = Inr defs" using assms by (auto simp: apply_definitions_def ebind_eq_Inr)
  show ?thesis
  proof (cases "defs = []")
    case True
    then have "g' = g\<lparr>fg_fields := []\<rparr>" using assms defs by (simp add: apply_definitions_def)
    then show ?thesis using defs True by simp
  next
    case False
    then obtain nodes where n: "emap (lower_node parse_at defs) (fg_nodes g) = Inr nodes"
      and g': "g' = g\<lparr>fg_fields := defs, fg_nodes := nodes\<rparr>" "policy_problems parse g' defs = Inr []"
      using assms defs by (auto simp: apply_definitions_def ebind_eq_Inr Let_def split: if_splits)
    then show ?thesis using defs lowered_nodes [OF n] by simp
  qed
qed

text \<open>
  C22. Every graph the parser returns is within the caps and well formed: distinct lower case node names without blanks, each
  node under its own name, edge targets of the target alphabet, the start the front matter names or else the first node, and
  field definitions that are read from the front matter and well formed.
\<close>

theorem parsed_flow_wf:
  assumes "parse_flow parse parse_at s = Inr g"
  shows "length (fg_nodes g) \<le> MAX_NODES \<and> edge_total (fg_nodes g) \<le> MAX_EDGES \<and> distinct (map fst (fg_nodes g)) \<and>
    list_all node_wf (fg_nodes g) \<and> fg_start g = start_of (fg_meta g) (fg_nodes g) \<and>
    definitions_of (fg_meta g) = Inr (fg_fields g) \<and> (\<forall>(x, d) \<in> set (fg_fields g). definition_wf d)"
proof -
  obtain g0 where g0: "read_flow s = Inr g0" "apply_definitions parse parse_at g0 = Inr g"
    using assms by (auto simp: parse_flow_def ebind_eq_Inr)
  note a = apply_definitions_Inr [OF g0(2)] and w = read_flow_wf [OF g0(1)]
  have keys: "map fst (fg_nodes g) = map fst (fg_nodes g0)" using a by simp
  have "length (fg_nodes g) = length (fg_nodes g0)" using keys by (metis length_map)
  moreover have "definition_wf d" if "(x, d) \<in> set (fg_fields g)" for x d
    using definitions_of_mem [OF _ that] a by auto
  ultimately show ?thesis using a w keys start_of_keys [OF keys] by auto
qed


text \<open>
  C6. Field definitions carry decisions: in every flow the parser accepts, every condition decides on a canonical reading, whose
  fixed fields are rounded to integers, as it would on the exact values of the source in the same units, so rounding
  never changes a route.
\<close>

theorem parsed_flow_decides_source_values:
  assumes "parser_wf parse" "parse_flow parse parse_at s = Inr graph"
    and "\<And>x d. map_of (fg_fields graph) x = Some d \<Longrightarrow> canonical_value d (raw x) = Inr (ctx_get c x)"
    and "(name, node) \<in> set (fg_nodes graph)" "(target, cond) \<in> set (fn_edges node)" "is_deterministic cond"
  shows "eval_condition parse cond c = eval_condition parse cond (exact_reading (fg_fields graph) raw c)"
proof (cases "fg_fields graph = []")
  case True
  then show ?thesis by (simp add: exact_reading_def)
next
  case False
  obtain g0 where g0: "apply_definitions parse parse_at g0 = Inr graph"
    using assms(2) by (auto simp: parse_flow_def ebind_eq_Inr)
  then have "definitions_of (fg_meta graph) = Inr (fg_fields graph)" "policy_problems parse graph (fg_fields graph) = Inr []"
    using apply_definitions_Inr [OF g0] False by simp_all
  then show ?thesis using defined_flow_decides_source_values [OF assms(1)] assms(3-6) by blast
qed

text \<open>A name with an upper case letter names no node: headings are lowered, targets and the start are not.\<close>

lemma uppercase_names_no_node:
  assumes "parse_flow parse parse_at s = Inr g" "py_lower t \<noteq> t"
  shows "map_of (fg_nodes g) t = None"
proof (rule ccontr)
  assume "map_of (fg_nodes g) t \<noteq> None"
  then obtain node where "(t, node) \<in> set (fg_nodes g)" by (auto dest: map_of_SomeD)
  then have "node_wf (t, node)" using parsed_flow_wf [OF assms(1)] by (auto simp: list_all_iff)
  then show False using assms(2) by (simp add: node_wf_def name_wf_def)
qed

lemma draft_start:
  assumes "emit_flow name ((k, es) # ds) banner_extra origin = Inr doc" "plain_text name" "plain_text k"
    and "parse_flow parse parse_at doc = Inr g"
  shows "fg_start g = k"
proof -
  obtain g0 where g0: "read_flow doc = Inr g0" "apply_definitions parse parse_at g0 = Inr g"
    using assms(4) by (auto simp: parse_flow_def ebind_eq_Inr)
  have "fg_start g0 = k"
    using g0(1) draft_meta [OF assms(1-3)] assms(3)
    by (cases k) (auto simp: read_flow_def start_of_def ebind_eq_Inr plain_text_def split: if_splits)
  then show ?thesis using apply_definitions_Inr [OF g0(2)] by simp
qed

end
