(* ===== verification/FlowDemo.thy ===== *)
theory FlowDemo
  imports FlowSound
begin

section \<open>The reader at work\<close>

text \<open>
  The properties of the reader applied to two documents, a draft and a flow with a field definition whose threshold is lowered, and
  two documents the reader takes otherwise than their author means.
\<close>

definition draft_demo :: "draft_node list" where
  "draft_demo = [(''check'', [(''page'', Some ''level >= 3''), (''check_unmatched'', None)]), (''page'', []), (''check_unmatched'', [])]"

theorem draft_roundtrip_witness:
  "\<exists>doc. emit_flow ''edge'' draft_demo [''- level (int)''] '' from vector.toml'' = Inr doc \<and>
     parse_flow (\<lambda>_. None) (\<lambda>_. None) doc = Inr \<lparr>fg_name = ''edge'', fg_start = ''check'', fg_nodes =
       [(''check'', \<lparr>fn_name = ''check'', fn_instruction = [],
          fn_edges = [(''page'', ''when level >= 3''), (''check_unmatched'', ''else'')], fn_annotations = []\<rparr>),
        (''page'', new_node ''page''), (''check_unmatched'', new_node ''check_unmatched'')],
       fg_meta = [(''name'', ''edge''), (''start'', ''check'')], fg_fields = []\<rparr>"
proof -
  obtain doc where doc: "emit_flow ''edge'' draft_demo [''- level (int)''] '' from vector.toml'' = Inr doc"
    by (simp add: emit_flow_def draft_demo_def)
  then have "length doc \<le> MAX_FLOW_BYTES"
    by (auto simp: emit_flow_def draft_demo_def banner_lines_def node_lines_def edge_line_def MAX_FLOW_BYTES_def)
  moreover have "draft_wf draft_demo" by code_simp
  moreover have "plain_text ''edge''" "no_break '' from vector.toml''" by code_simp+
  moreover have "list_all (\<lambda>l. no_break l \<and> head_match l = None) [''- level (int)'']" by code_simp
  ultimately show ?thesis
    using draft_roundtrip [OF doc, of "\<lambda>_. None" "\<lambda>_. None"] doc
    by (simp add: draft_demo_def graph_nodes_def graph_node_def new_node_def draft_condition_def)
qed


subsection \<open>A flow with a field definition\<close>

definition flow_doc :: string where
  "flow_doc = terminated [''---'', ''name: rates'', ''start: watch'',
     ''field.error_rate: fixed scale=100 rounding=floor min=0 max=100'', ''---'',
     ''## Watch'', ''Read the error rate.'', ''-> page: when error_rate >= 0.86'', ''-> watch: else'', ''## page'']"

definition flow_doc_parse :: pyparse where
  "flow_doc_parse e = (if e = ''error_rate >= 86'' then Some (ACompare (AName ''error_rate'') [CGtE] [AConst (PInt 86)]) else None)"

definition flow_doc_graph :: flow_graph where
  "flow_doc_graph = \<lparr>fg_name = ''rates'', fg_start = ''watch'', fg_nodes =
     [(''watch'', \<lparr>fn_name = ''watch'', fn_instruction = ''Read the error rate.'',
        fn_edges = [(''page'', ''when error_rate >= 86''), (''watch'', ''else'')], fn_annotations = []\<rparr>),
      (''page'', new_node ''page'')],
     fg_meta = [(''name'', ''rates''), (''start'', ''watch''), (''field.error_rate'', ''fixed scale=100 rounding=floor min=0 max=100'')],
     fg_fields = [(''error_rate'', demo_fixed)]\<rparr>"

text \<open>The caps are large numbers, so the lines are matched first and the steps of the reader are run on the matches.\<close>

lemma flow_doc_lines:
  "head_match ''## Watch'' = Some ''Watch''" "head_match ''## page'' = Some ''page''"
  "heading_name ''Watch'' = ''watch''" "heading_name ''page'' = ''page''"
  "head_match ''Read the error rate.'' = None" "edge_match ''Read the error rate.'' = None" "anno_match ''Read the error rate.'' = None"
  "head_match ''-> page: when error_rate >= 0.86'' = None" "head_match ''-> watch: else'' = None"
  "edge_match ''-> page: when error_rate >= 0.86'' = Some (''page'', ''when error_rate >= 0.86'')"
  "edge_match ''-> watch: else'' = Some (''watch'', ''else'')"
  "strip ''page'' = ''page''" "strip ''watch'' = ''watch''" "strip ''else'' = ''else''"
  "strip ''when error_rate >= 0.86'' = ''when error_rate >= 0.86''" "strip ''Read the error rate.'' = ''Read the error rate.''"
  by code_simp+

definition flow_doc_body :: "string list" where
  "flow_doc_body = [''## Watch'', ''Read the error rate.'', ''-> page: when error_rate >= 0.86'', ''-> watch: else'', ''## page'']"

definition flow_doc_nodes :: "(string, flow_node) pydict" where
  "flow_doc_nodes =
     [(''watch'', \<lparr>fn_name = ''watch'', fn_instruction = ''Read the error rate.'',
        fn_edges = [(''page'', ''when error_rate >= 0.86''), (''watch'', ''else'')], fn_annotations = []\<rparr>),
      (''page'', new_node ''page'')]"

lemma flow_doc_body_read: "\<exists>st. read_body flow_doc_body empty_state = Inr st \<and> ps_nodes st = flow_doc_nodes"
  by (simp add: flow_doc_body_def flow_doc_nodes_def empty_state_def read_line_def read_heading_def read_edge_def flow_doc_lines
      update_cur_def flush_lines_def new_node_def MAX_NODES_def MAX_EDGES_def Let_def)

definition flow_doc_block :: string where
  "flow_doc_block = join_lines [''name: rates'', ''start: watch'', ''field.error_rate: fixed scale=100 rounding=floor min=0 max=100'']"

lemma flow_doc_parts:
  "front_matter flow_doc = Some (flow_doc_block, terminated flow_doc_body)"
  "read_meta (splitlines flow_doc_block) [] = fg_meta flow_doc_graph"
  "splitlines (terminated flow_doc_body) = flow_doc_body"
  "apply_definitions flow_doc_parse lower_demo_parse \<lparr>fg_name = ''rates'', fg_start = ''watch'', fg_nodes = flow_doc_nodes,
     fg_meta = fg_meta flow_doc_graph, fg_fields = []\<rparr> = Inr flow_doc_graph"
  by code_simp+

lemma flow_doc_read: "parse_flow flow_doc_parse lower_demo_parse flow_doc = Inr flow_doc_graph"
proof -
  have "length flow_doc \<le> MAX_FLOW_BYTES" by (simp add: flow_doc_def MAX_FLOW_BYTES_def)
  then have "read_flow flow_doc = Inr \<lparr>fg_name = ''rates'', fg_start = ''watch'', fg_nodes = flow_doc_nodes,
      fg_meta = fg_meta flow_doc_graph, fg_fields = []\<rparr>"
    using flow_doc_body_read by (auto simp: read_flow_def flow_doc_parts flow_doc_graph_def start_of_def)
  then show ?thesis by (simp add: parse_flow_def flow_doc_parts)
qed

theorem parsed_flow_wf_witness:
  "definitions_of (fg_meta flow_doc_graph) = Inr (fg_fields flow_doc_graph) \<and> list_all node_wf (fg_nodes flow_doc_graph)"
  using parsed_flow_wf [OF flow_doc_read] by simp

theorem parsed_flow_decides_source_values_witness:
  "eval_condition flow_doc_parse ''when error_rate >= 86'' [(''error_rate'', PInt 85)]
     = eval_condition flow_doc_parse ''when error_rate >= 86'' [(''error_rate'', PFloat (FFin (857 / 10))), (''error_rate'', PInt 85)]"
proof -
  have wf: "parser_wf flow_doc_parse" by (auto simp: parser_wf_def flow_doc_parse_def split: if_splits)
  have fields: "fg_fields flow_doc_graph = [(''error_rate'', demo_fixed)]" by (simp add: flow_doc_graph_def)
  have conv: "canonical_value demo_fixed (RawValue (PStr ''0.857'')) = Inr (PInt 85)" by code_simp
  have units: "exact_units demo_fixed (RawValue (PStr ''0.857'')) (PInt 85) = PFloat (FFin (857 / 10))" by code_simp
  have d: "is_deterministic ''when error_rate >= 86''" by code_simp
  let ?node = "\<lparr>fn_name = ''watch'', fn_instruction = ''Read the error rate.'',
    fn_edges = [(''page'', ''when error_rate >= 86''), (''watch'', ''else'')], fn_annotations = []\<rparr>"
  have node: "(''watch'', ?node) \<in> set (fg_nodes flow_doc_graph)" "(''page'', ''when error_rate >= 86'') \<in> set (fn_edges ?node)"
    by (simp_all add: flow_doc_graph_def)
  have raw: "canonical_value e (RawValue (PStr ''0.857'')) = Inr (ctx_get [(''error_rate'', PInt 85)] y)"
    if "map_of (fg_fields flow_doc_graph) y = Some e" for y e
    using that conv by (simp add: fields ctx_get_def split: if_splits)
  show ?thesis
    using parsed_flow_decides_source_values [OF wf flow_doc_read raw node d] units by (simp add: fields exact_reading_def ctx_get_def)
qed

subsection \<open>Documents read otherwise than they are meant\<close>

text \<open>
  A draft from a transform whose name has an upper case letter: the node is read under its lower case name, while the start keeps the letter, and
  is no node of the graph.
\<close>

lemma uppercase_draft_has_no_start:
  assumes "emit_flow name ((''Check'', es) # ds) banner_extra origin = Inr doc" "plain_text name"
    and "parse_flow parse parse_at doc = Inr g"
  shows "fg_start g = ''Check'' \<and> map_of (fg_nodes g) (fg_start g) = None"
proof -
  have "plain_text ''Check''" "py_lower ''Check'' \<noteq> ''Check''" by code_simp+
  then show ?thesis using draft_start [OF assms(1,2) _ assms(3)] uppercase_names_no_node [OF assms(3)] by simp
qed

text \<open>
  A blank at the end of a line decides whether \<open>-> page:\<close> is an edge without a condition or prose.
\<close>

lemma trailing_blank_makes_an_edge:
  "edge_match ''-> page:'' = None \<and> edge_match ''-> page: '' = Some (''page'', '' '')"
  by code_simp

end
