(* ===== verification/Spec2Isabelle.thy ===== *)
theory Spec2Isabelle imports Receipts Concentrator Replay Refresh Merkle SelfHeal Epochs
  Predicates FieldDef FlowGraph LevelM Contract QuantizerSound EngineSound AuditSound PptFlow PolicyDemo Wire JournalDemo FlowDemo begin

text \<open>
  This development verifies the core of Prism Path (Python, under \<open>src/\<close>): flows written as graphs with conditions
  on their edges, the engine that runs them, the tables compiled from them for small devices, the signed packs that bring the tables to
  a host, the telemetry that carries readings over thin links, and the logs that keep evidence. Every mapped definition is a translation of
  the code it names; nothing is assumed but what a theorem states.

  \<^bold>\<open>How the parts interact.\<close> A flow (\<open>kernel/parser.py\<close>, \<open>kernel/predicates.py\<close>) decides on a dictionary of fields. The engine
  (\<open>kernel/engine.py\<close>) calls a worker, routes on its outcome and moves along an edge. A flow of the Level M fragment
  (\<open>kernel/level_m.py\<close>) can be compiled to a binary table (\<open>prismpath-hw/ppt_compile.py\<close>) that an interpreter in C walks
  (\<open>prismpath-hw/interp.c\<close>). The table travels in a signed pack (\<open>hotswap/policy_pack.py\<close>) and is swapped in by a host
  (\<open>hotswap/policy_host.py\<close>) that writes its files and an audit log (\<open>ledgers/audit_log.py\<close>) whose Merkle roots are
  signed (\<open>ledgers/root_statement.py\<close>). On the sensor side the quantizer (\<open>telemetry/quantizer.py\<close>) cuts each field into the cells that
  the flow's conditions can tell apart, the wire (\<open>telemetry/wire.py\<close>, \<open>telemetry/zeckendorf.py\<close>) sends the cells as Fibonacci codewords, and
  epochs of the stream (\<open>telemetry/epochs.py\<close>) are retained in a journal (\<open>telemetry/epoch_journal.py\<close>) until the ground acknowledges
  them (\<open>telemetry/ackchannel.py\<close>). The first property, in this theory, goes through the chain: from a signed swap and a reading on the wire to
  the edge the interpreter takes, which is the one the engine takes on the raw reading.

  \<^bold>\<open>Theories and what they model.\<close>
  \<^item> \<open>Prelude\<close>, \<open>PyStr\<close>, \<open>PyVal\<close>, \<open>PyNum\<close>, \<open>PyJson\<close>: exceptions as the left of a sum, dictionaries as association lists in
    insertion order, strings of 8-bit characters with the code's \<open>strip\<close>, \<open>split\<close> and order, the values with Python's equality
    and comparison, \<open>str\<close> and \<open>int\<close>, and a JSON reader for the texts that \<open>json.dumps\<close> writes.
  \<^item> \<open>Zeckendorf\<close>, \<open>Packed\<close>, \<open>Causes\<close>, \<open>Receipts\<close>, \<open>Concentrator\<close>, \<open>Replay\<close>, \<open>Refresh\<close>, \<open>SelfHeal\<close>, \<open>Epochs\<close>, \<open>Quantizer\<close>, \<open>Wire\<close>: the modules of
    those names under \<open>telemetry/\<close> (the causes are in \<open>kernel/causes.py\<close>). Lemmas: codewords are unique and self-delimiting, round trips of
    every codec, the window and the staleness as functions of the run, retention, and that a reading and its reconstruction decide alike
    (\<open>QuantizerSound\<close>).
  \<^item> \<open>EpochJournal\<close>: \<open>ackchannel.py\<close> and \<open>epoch_journal.py\<close>. The directory is a record of file texts; a call is a function of the journal that
    also lists the effects it had on the directory, so that a crash is a prefix of the list, the next effect perhaps half done.
    \<open>JournalSound\<close> has the invariant of a directory and of a journal over it, and one lemma per operation: it keeps the invariant and so does every
    crash state. \<open>JournalRuns\<close> has the specification without files, the step relation with crashes and restarts, and the properties; \<open>JournalStore\<close> the
    equivalence with the store in memory and the caps; \<open>JournalDemo\<close> a journal that the theorems are applied to and two directories that the recovery
    does not handle.
  \<^item> \<open>Predicates\<close>, \<open>LevelM\<close>, \<open>FieldDef\<close>, \<open>FlowGraph\<close>, \<open>Contract\<close>, \<open>Engine\<close>: the kernel. \<open>EngineSound\<close>: runs follow edges, end by themselves in a
    flow whose edges lead on, name a registered cause, and do not depend on the history window.
  \<^item> \<open>FieldPolicy\<close>, \<open>FieldLower\<close>, \<open>FlowParser\<close>, \<open>FacetInit\<close>: the rules a flow that defines its fields must obey and the lowering of its
    thresholds (\<open>kernel/field_definitions.py\<close>), the reader of the Markdown text (\<open>parse\<close> of \<open>kernel/parser.py\<close>) and the writer of drafts
    (\<open>telemetry/facet_init.py\<close>). \<open>FlowSound\<close>: what the reader returns is within the caps and well formed, a draft is read back, and in a flow the
    reader accepts rounding changes no decision. \<open>FlowDemo\<close>: the applications.
  \<^item> \<open>Canon\<close>, \<open>Merkle\<close>, \<open>MerkleAcc\<close>, \<open>RootStatement\<close>, \<open>AuditLog\<close>: \<open>canon.py\<close>, the trees of \<open>ledgers/ledger_ots.py\<close> and
    \<open>ledgers/root_statement.py\<close>, and the log. \<open>AuditSound\<close> and \<open>RootStatement\<close> show what the verifier's verdict means and that what the signer writes passes it.
  \<^item> \<open>PptImage\<close>, \<open>PptCompile\<close>: the table format with its checks and its interpreter, and the compiler; \<open>PptSound\<close> and \<open>PptFlow\<close> are the
    correctness of the compiler, of a condition and of a whole image.
  \<^item> \<open>PolicyPack\<close>, \<open>PolicyHost\<close>: packs, envelopes and the host; \<open>PolicySound\<close> its refinement of a three-valued specification, \<open>PolicyDemo\<close> the
    applications.

  \<^bold>\<open>Interfaces.\<close> The locale \<open>incremental_root\<close> is what a log needs of an accumulator and is interpreted by the Merkle accumulator; \<open>evidence_log\<close> is what
    the callers of the log rely on and is interpreted by the log and by the host over it; \<open>epoch_keeper\<close> is what the ground relies on of whatever keeps the epochs and is
    interpreted by the store in memory and by the journal with its crashes.

  \<^bold>\<open>Bounds and fuel.\<close> Loops over data are structural or have a measure proved to fall (the traversal of a graph by unseen nodes, decoding by the rest of the
  stream, the greedy codeword by its index). The engine's loop counts \<open>max_steps\<close>, as the code does. The JSON reader has the length of the text as fuel,
  and \<open>read_value_text\<close> shows it to suffice. Words of the table are integers packed with the ranges of \<open>struct\<close>; the interpreter's registers are 32-bit
  words compared as signed integers. Theorems on compiled images carry the format's own limits as hypotheses, and the default caps of an envelope imply them.

  \<^bold>\<open>Parameters.\<close> SHA-256, Ed25519, HMAC, the text of a float, the JSON reader, Python's expression parser with and without source positions, workers, routers and the outcome of a write. A theorem states
  what it needs of one, and its witness instantiates it by a concrete function. Theorems on digests either hold for every function or exhibit a collision.

  \<^bold>\<open>Not modelled.\<close> Text and values: code points above 255, the wording of messages, the newline translation of text files. Processes and networks:
  OpenTimestamps, git, language and embedding models, sandboxes, HTTP, serial lines. Concurrency: the locks of the log and of the host make a call one step, and a
  call is one step here. Of the journal: failing writes other than crashes, the creation of the directory, ids that are no natural numbers, a reordering of writes by
  the file system. Of the kernel: the reports of the analyzer and the model checker, the type gate's messages. The command line, the
  language server, mission control, orchestration, the corpus generators, adapters, the ports to other languages and the safety guard (regular expressions
  over normalized Unicode) are left out for these reasons or because they only call what is modelled.
\<close>

section \<open>The parts together\<close>

text \<open>Within the default caps the atoms can be told from opcodes and the stack fits the interpreter's.\<close>

lemma capped_image:
  assumes "validate_image bytes (Some default_caps) = Inr (True, [])" "read_ppt_header bytes = Inr hdr"
  shows "ph_atoms hdr \<le> 1024" "ph_max_stack hdr \<le> 16"
proof -
  have "cap_reasons hdr (Some default_caps) = Inr []"
    using assms by (auto simp: validate_image_def ebind_eq_Inr Let_def split: if_splits)
  then show "ph_atoms hdr \<le> 1024" "ph_max_stack hdr \<le> 16"
    by (auto simp: cap_reasons_def default_caps_def DEFAULT_CAPS_def capped_counts_def ebind_eq_Inr split: if_splits option.splits)
qed

lemma first_deterministic_alike:
  "(\<And>target cond. (target, cond) \<in> set es \<Longrightarrow> is_deterministic cond \<Longrightarrow> eval_condition parse cond a = eval_condition parse cond b) \<Longrightarrow>
   first_deterministic parse es a = first_deterministic parse es b"
proof (induction es)
  case (Cons e es)
  obtain target cond where e: "e = (target, cond)" by (cases e)
  have "first_deterministic parse es a = first_deterministic parse es b" by (rule Cons.IH) (use Cons.prems in auto)
  then show ?case using Cons.prems [of target cond]
    by (cases "is_deterministic cond"; cases "eval_condition parse cond b") (simp_all add: e split: bool.splits)
qed simp

text \<open>
  C1. From the sensor to the edge taken: when a host whose envelope sets the default caps accepts, through the signed
  gate, the image compiled from a flow, and a reading is encoded on the wire, decoded at the other end and written to
  a register file, then the policy the host has active loads in the reference interpreter and the interpreter takes
  the edge the engine takes on the sender's own reading, for every node of the flow.
\<close>

theorem swapped_flow_decides_raw_readings:
  assumes "parser_wf parse" "parser_bool parse" "fg_fields graph = []"
    and "compile_flow parse graph ms = Inr img" "serialize img = Inr bytes"
    and "swap pf str_of env False strict h = (h', Inr (Done v))" "log_ok pf (ph_audit h)" "he_image env = Inr bytes"
    and "dict_entry (ph_envelope h) ''caps'' (Some default_caps) = Some default_caps"
    and "build_partitions parse graph = Inr parts" "\<not> list_ex names_other (map snd (flow_atoms parse graph))"
    and "encode_reading parts reading = Inr bits" "\<not> str_contains ''11'' pad" "decode_reading parts (bits @ pad) = Inr rep"
    and "i < length (compiled_names graph)" "map_of (fg_nodes graph) (compiled_names graph ! i) = Some node"
    and "encode_regs img rep (int i) = Inr rbytes"
  shows "\<exists>rec t regs. ph_active h' = Some (rec, bytes) \<and> load_tables bytes = Some t \<and>
    read_regs (ph_fields (pt_header t)) rbytes = Some (i, regs) \<and>
    (case first_deterministic parse (fn_edges node) reading of
       None \<Rightarrow> evaluate_node t i regs = Inr None
     | Some (target, cond) \<Rightarrow> \<exists>k j. evaluate_node t i regs = Inr (Some (k, j)) \<and> position target (compiled_names graph) = Some j)"
proof -
  from assms(6,7) obtain rec manifest where act: "ph_active h' = Some (rec, bytes)" and man: "\<exists>rs. check_envelope manifest bytes (ph_envelope h) = Inr (True, rs)"
  proof (cases rule: swap_cases)
    case (committed im manifest staged pending h0)
    have im: "im = bytes" using committed(3) assms(8) by simp
    have g: "signed_gate pf str_of env pending bytes h = Inr (Inr manifest)" using committed(5) by (simp add: gates_def im)
    from committed(7,2) refl refl show ?thesis
      by (cases rule: commit_cases) (use signed_gate_Inr(2) [OF g] that in \<open>auto simp: im\<close>)
  qed auto
  have valid: "validate_image bytes (Some default_caps) = Inr (True, [])"
    using man assms(9) validate_image_true by (fastforce simp: check_envelope_def ebind_eq_Inr split: option.splits)
  from flow_loads [OF assms(4,5)] obtain la where la: "load_tables bytes = Some \<lparr>pt_header = header_of img la, pt_atoms = loaded_atoms (ti_atoms img),
      pt_nodes = la_nodes la, pt_edges = la_edges la, pt_prog = la_prog la\<rparr>" "lay_nodes (ti_nodes img) first_layout = Inr la" .
  have hdr: "read_ppt_header bytes = Inr (header_of img la)"
    using flow_serialized [OF assms(4,5)] la(2) by (metis sum.inject(2))
  note capped = capped_image [OF valid hdr]
  have "length (ti_atoms img) \<le> 0x8000" using capped(1) by simp
  from flow_decides [OF assms(1,2,4,5) this assms(15-17)] obtain t regs where t: "load_tables bytes = Some t"
    "read_regs (ph_fields (pt_header t)) rbytes = Some (i, regs)"
    and dec: "ph_max_stack (pt_header t) \<le> STACK_MAX \<longrightarrow> (case first_deterministic parse (fn_edges node) rep of
       None \<Rightarrow> evaluate_node t i regs = Inr None
     | Some (target, cond) \<Rightarrow> \<exists>k j. evaluate_node t i regs = Inr (Some (k, j)) \<and> position target (compiled_names graph) = Some j)" by blast
  have stack: "ph_max_stack (pt_header t) \<le> STACK_MAX" using t(1) la(1) capped(2) by (auto simp: STACK_MAX_def)
  have "distinct (map fst parts)" using build_partitions_parts(1) [OF assms(10,3)] distinct_flow_atoms by simp
  from wire_reconstructs [OF assms(12) this assms(13)] obtain syms where s: "checked_quantize parts reading = Inr syms"
    "reconstruct parts syms = Inr rep" using assms(14) by auto
  have "eval_condition parse cond rep = eval_condition parse cond reading"
    if "(target, cond) \<in> set (fn_edges node)" "is_deterministic cond" for target cond
    using quantized_conditions [OF assms(1,3,10) s(1) assms(11)] s(2) that map_of_SomeD [OF assms(16)] by fastforce
  then have "first_deterministic parse (fn_edges node) rep = first_deterministic parse (fn_edges node) reading"
    by (rule first_deterministic_alike)
  then show ?thesis using act t dec stack by auto
qed

text \<open>The flow of two nodes, packed within the default caps and accepted by an empty host.\<close>

definition demo_cells :: partitions where
  "demo_cells = [(''x'', \<lparr>fp_field = ''x'', fp_kind = NUMERIC,
     fp_cells = [NumCell None (Some (- 4)) (- 4), NumCell (Some (- 3)) None (- 3)], fp_definition = None\<rparr>)]"

lemma demo_partitions:
  "build_partitions demo_parse PptFlow.demo_flow = Inr demo_cells"
  "\<not> list_ex names_other (map snd (flow_atoms demo_parse PptFlow.demo_flow))"
  by code_simp+

lemma demo_wire:
  "checked_quantize demo_cells [(''x'', PInt (- 5))] = Inr [(''x'', 0)]" "reconstruct demo_cells [(''x'', 0)] = Inr [(''x'', PInt (- 4))]"
  "wire_order demo_cells = [''x'']" "\<not> str_contains ''11'' []"
  by code_simp+

theorem swapped_flow_decides_raw_readings_witness:
  "\<exists>bytes hdr h' v rec rbytes t regs k. serialize demo_image = Inr bytes \<and>
     swap (pack_platform bytes hdr (\<lambda>s. PNone)) (\<lambda>v. []) (pack_swap bytes 5) False False (pack_host default_caps) = (h', Inr (Done v)) \<and>
     ph_active h' = Some (rec, bytes) \<and> load_tables bytes = Some t \<and>
     read_regs (ph_fields (pt_header t)) rbytes = Some (0, regs) \<and> evaluate_node t 0 regs = Inr (Some (k, 1))"
proof -
  obtain bytes where b: "serialize demo_image = Inr bytes" using demo_serializes by blast
  obtain la where la: "lay_nodes (ti_nodes demo_image) first_layout = Inr la" "read_ppt_header bytes = Inr (header_of demo_image la)"
    by (rule flow_serialized [OF demo_compiles b]) auto
  let ?hdr = "header_of demo_image la" and ?h = "pack_host default_caps"
  have "la = \<lparr>la_prog = [0, 0x8003], la_edges = [(1, 0, 1), (0, 1, 1)], la_nodes = [(0, 2), (2, 0)], la_stack = 1\<rparr>"
    using la(1) by (simp add: first_layout_def demo_layout)
  then have "capped_counts ?hdr = [(''atoms'', 1), (''nodes'', 2), (''edges'', 2), (''prog_words'', 2), (''max_steps'', 25), (''max_stack'', 1)]"
    by (simp add: capped_counts_def header_of_def demo_image_def)
  then have "cap_reasons ?hdr (Some default_caps) = Inr []" by (simp add: cap_reasons_def default_caps_def DEFAULT_CAPS_def)
  then have valid: "validate_image bytes (Some default_caps) = Inr (True, [])"
    using image_validates [OF demo_compiles b] la(2)
    by (auto simp: demo_image_def validate_image_def ebind_eq_Inr cap_reasons_def Let_def split: if_splits)
  obtain h' v where s: "swap (pack_platform bytes ?hdr (\<lambda>s. PNone)) (\<lambda>v. []) (pack_swap bytes 5) False False ?h = (h', Inr (Done v))"
    using pack_accepted [OF _ _ _ _ la(2) valid, of 5 ?h PNone "\<lambda>s. PNone" "\<lambda>v. []" False] by (auto simp: active_hash_def)
  obtain bits where e: "encode_reading demo_cells [(''x'', PInt (- 5))] = Inr bits"
    using encode_stream_Inr_iff [of "[1]"] demo_wire by (auto simp: encode_reading_def)
  have d: "decode_reading demo_cells (bits @ []) = Inr [(''x'', PInt (- 4))]"
    using wire_reconstructs [OF e _ demo_wire(4)] demo_wire(1,2) by (auto simp: demo_cells_def)
  obtain rbytes where r: "encode_regs demo_image [(''x'', PInt (- 4))] (int 0) = Inr rbytes"
    by (simp add: encode_regs_def by_register_def demo_image_def encode_scalar_def I32_MIN_def I32_MAX_def ctx_get_def pack_all_Cons ebind_eq_Inr
        pack_uint_def pack_i32_def TY_INT_def)
  let ?node = "\<lparr>fn_name = ''a'', fn_instruction = ''RGB LED red'', fn_edges = [(''b'', ''when x < -3''), (''a'', ''otherwise'')],
    fn_annotations = []\<rparr>"
  have n: "map_of (fg_nodes PptFlow.demo_flow) (compiled_names PptFlow.demo_flow ! 0) = Some ?node"
    by (simp add: demo_names, simp add: PptFlow.demo_flow_def)
  have f: "first_deterministic demo_parse (fn_edges ?node) [(''x'', PInt (- 5))] = Some (''b'', ''when x < -3'')"
    by code_simp
  have caps: "dict_entry (ph_envelope ?h) ''caps'' (Some default_caps) = Some default_caps"
    by (simp add: pack_envelope_def dict_entry_def)
  have g: "fg_fields PptFlow.demo_flow = []" by (simp add: PptFlow.demo_flow_def)
  show ?thesis
    using swapped_flow_decides_raw_readings [OF demo_parser g demo_compiles b s _ _ caps demo_partitions(1) demo_partitions(2) e demo_wire(4) d _ n r, unfolded f]
      b s by (auto simp: demo_names) blast
qed

end
